(* ===== verification/Kernel_Prelude.thy ===== *)
theory Kernel_Prelude
  imports Main "HOL-Library.Word" "HOL-Library.Monad_Syntax" "HOL-Library.Signed_Division"
begin

text \<open>
  Shared vocabulary of the development: the machine types of the i386 kernel, the
  outcome type of kernel code, and the generic lemmas the component theories use.

  Kernel code is modelled as functions into the option type.  The value \<open>None\<close>
  stands for every way in which a call does not return to its caller: a failed
  \<open>ASSERT\<close>, a \<open>PANIC\<close>, \<open>NOT_REACHED\<close>, a processor trap, a reference through a
  pointer that points to nothing, or a loop that runs forever.  \<open>Some r\<close> means that
  the call returns \<open>r\<close>.  State is passed explicitly and returned updated.
\<close>

unbundle bit_operations_syntax

section \<open>Machine types\<close>

type_synonym u8 = "8 word"
type_synonym u16 = "16 word"
type_synonym u32 = "32 word"
type_synonym u64 = "64 word"

text \<open>
  A C \<open>int\<close> or \<open>int64_t\<close> is the same word read with \<open>sint\<close>.  \<open>size_t\<close> is a 32-bit
  unsigned integer on this target; where a component keeps it as a natural number,
  \<open>size_wrap\<close> writes out the reduction that the machine addition performs.
\<close>

definition size_wrap :: "nat \<Rightarrow> nat" where
  "size_wrap n = n mod 2 ^ 32"

abbreviation SIZE_MAX :: nat where
  "SIZE_MAX \<equiv> 2 ^ 32 - 1"

lemma size_wrap_id [simp]: "n < 2 ^ 32 \<Longrightarrow> size_wrap n = n"
  by (simp add: size_wrap_def)

lemma size_wrap_less [simp]: "size_wrap n < 2 ^ 32"
  by (simp add: size_wrap_def)

lemma size_wrap_le [simp]: "size_wrap n \<le> n"
  by (simp add: size_wrap_def)

lemma unat_less_u32: "unat (x :: u32) < 2 ^ 32"
  using unsigned_less [of x] by simp

lemma unat_less_u64: "unat (x :: u64) < 2 ^ 64"
  using unsigned_less [of x] by simp

lemma word_of_nat_unat: "(word_of_nat (unat w) :: 'a::len word) = w"
  by simp

lemma unat_word_of_nat_small: "n < 2 ^ LENGTH('a) \<Longrightarrow> unat (word_of_nat n :: 'a::len word) = n"
  by (simp add: unat_of_nat)

section \<open>Assertions and outcomes\<close>

definition ASSERT :: "bool \<Rightarrow> unit option" where
  "ASSERT b = (if b then Some () else None)"

named_theorems kernel_simps \<open>evaluation of kernel outcomes\<close>

lemma ASSERT_True [simp, kernel_simps]: "ASSERT True = Some ()"
  by (simp add: ASSERT_def)

lemma ASSERT_False [simp, kernel_simps]: "ASSERT False = None"
  by (simp add: ASSERT_def)

lemma ASSERT_eq_Some [simp]: "ASSERT b = Some u \<longleftrightarrow> b"
  by (simp add: ASSERT_def)

lemma ASSERT_eq_None [simp]: "ASSERT b = None \<longleftrightarrow> \<not> b"
  by (simp add: ASSERT_def)

lemma ASSERT_bind: "Option.bind (ASSERT b) f = (if b then f () else None)"
  by (simp add: ASSERT_def)

lemma bind_SomeE [elim!]:
  assumes "Option.bind m f = Some r"
  obtains x where "m = Some x" and "f x = Some r"
  using assms by (cases m) auto

section \<open>Generic lemmas on lists and numbers\<close>

lemma div_round_up_bound: "0 < (k::nat) \<Longrightarrow> n \<le> (n + k - 1) div k * k"
proof -
  assume k: "0 < k"
  have "n + k - 1 = (n + k - 1) div k * k + (n + k - 1) mod k"
    by simp
  moreover have "(n + k - 1) mod k < k"
    using k by simp
  ultimately show ?thesis
    using k by linarith
qed

end
