(* ===== verification/Arith64.thy ===== *)
theory Arith64
  imports Kernel_Prelude
begin

text \<open>
  The 64-bit division routines of \<open>lib/arithmetic.c\<close>, which replace libgcc's
  \<open>__divdi3\<close>, \<open>__moddi3\<close>, \<open>__udivdi3\<close> and \<open>__umoddi3\<close>.  The \<open>DIVL\<close>
  instruction traps when its quotient does not fit into 32 bits, so every routine
  returns an option; the theorems show that no trap is taken for a nonzero divisor
  and that the quotients are the mathematical ones.
\<close>

section \<open>Definitions\<close>

text \<open>The x86 \<open>DIVL\<close> instruction on the register pair built from \<open>n >> 32\<close> and \<open>n\<close>.\<close>

definition divl :: "u64 \<Rightarrow> u32 \<Rightarrow> u32 option" where
  "divl n d =
     (let n1 = (ucast (drop_bit 32 n) :: u32);
          n0 = (ucast n :: u32);
          dividend = unat n1 * 2 ^ 32 + unat n0
      in if d = 0 \<or> 2 ^ 32 \<le> dividend div unat d then None
         else Some (word_of_nat (dividend div unat d)))"

definition nlz :: "u32 \<Rightarrow> nat" where
  "nlz x0 =
     (let (n, x) = (0, x0);
          (n, x) = (if x \<le> 0x0000FFFF then (n + 16, push_bit 16 x) else (n, x));
          (n, x) = (if x \<le> 0x00FFFFFF then (n + 8, push_bit 8 x) else (n, x));
          (n, x) = (if x \<le> 0x0FFFFFFF then (n + 4, push_bit 4 x) else (n, x));
          (n, x) = (if x \<le> 0x3FFFFFFF then (n + 2, push_bit 2 x) else (n, x))
      in if x \<le> 0x7FFFFFFF then n + 1 else n)"

definition udiv64 :: "u64 \<Rightarrow> u64 \<Rightarrow> u64 option" where
  "udiv64 n d =
     (if drop_bit 32 d = 0 then
        (let b = push_bit 32 (1 :: u64);
             n1 = (ucast (drop_bit 32 n) :: u32);
             n0 = (ucast n :: u32);
             d0 = (ucast d :: u32)
         in if d0 = 0 then None
            else do {
              q \<leftarrow> divl (b * ucast (n1 mod d0) + ucast n0) d0;
              Some (ucast q + b * ucast (n1 div d0))
            })
      else if n < d then Some 0
      else
        (let d1 = (ucast (drop_bit 32 d) :: u32);
             s = nlz d1
         in do {
              q1 \<leftarrow> divl (drop_bit 1 n) (ucast (drop_bit 32 (push_bit s d)));
              let q = (ucast (drop_bit (31 - s) q1) :: u64);
              Some (if n - (q - 1) * d < d then q - 1 else q)
            }))"

definition umod64 :: "u64 \<Rightarrow> u64 \<Rightarrow> u32 option" where
  "umod64 n d = do {
     q \<leftarrow> udiv64 n d;
     Some (ucast (n - d * q))
   }"

definition sdiv64 :: "u64 \<Rightarrow> u64 \<Rightarrow> u64 option" where
  "sdiv64 n d =
     (let n_abs = (if 0 \<le> sint n then n else - n);
          d_abs = (if 0 \<le> sint d then d else - d)
      in do {
           q_abs \<leftarrow> udiv64 n_abs d_abs;
           Some (if (sint n < 0) = (sint d < 0) then q_abs else - q_abs)
         })"

definition smod64 :: "u64 \<Rightarrow> u64 \<Rightarrow> u32 option" where
  "smod64 n d = do {
     q \<leftarrow> sdiv64 n d;
     Some (ucast (n - d * q))
   }"

text \<open>The entry points that GCC calls; the 32-bit remainders are widened again.\<close>

definition divdi3 :: "u64 \<Rightarrow> u64 \<Rightarrow> u64 option" where
  "divdi3 n d = sdiv64 n d"

definition moddi3 :: "u64 \<Rightarrow> u64 \<Rightarrow> u64 option" where
  "moddi3 n d = map_option scast (smod64 n d)"

definition udivdi3 :: "u64 \<Rightarrow> u64 \<Rightarrow> u64 option" where
  "udivdi3 n d = udiv64 n d"

definition umoddi3 :: "u64 \<Rightarrow> u64 \<Rightarrow> u64 option" where
  "umoddi3 n d = map_option ucast (umod64 n d)"

section \<open>The helper routines\<close>

lemma unat_hi_lo: "unat (ucast (drop_bit 32 (n :: u64)) :: u32) * 2 ^ 32 + unat (ucast n :: u32) = unat n"
proof -
  have lt: "unat n < 2 ^ 64"
    by (rule unat_less_u64)
  have "unat n div 2 ^ 32 < 2 ^ 32"
    using lt by (simp add: less_mult_imp_div_less)
  then show ?thesis
    by (simp add: unsigned_ucast_eq unat_drop_bit_eq drop_bit_eq_div take_bit_eq_mod
        unat_div)
qed

lemma divl_eq:
  assumes "d \<noteq> 0" and "unat n div unat d < 2 ^ 32"
  shows "divl n d = Some (word_of_nat (unat n div unat d))"
  using assms unat_hi_lo [of n] by (simp add: divl_def Let_def not_le)


lemma unat_push_bit_exact:
  "unat (x :: u32) * 2 ^ k < 2 ^ 32 \<Longrightarrow> unat (push_bit k x) = unat x * 2 ^ k"
  by (subst unsigned_push_bit_eq) (simp add: push_bit_eq_mult take_bit_eq_mod)

text \<open>One halving step of \<open>nlz\<close>: the value stays a shifted copy of the argument.\<close>

lemma nlz_step:
  fixes x :: u32
  assumes x: "unat x = unat x0 * 2 ^ n" and lo: "2 ^ (32 - 2 * k) \<le> unat x"
    and lim: "unat lim = 2 ^ (32 - k) - 1" and k: "0 < k" "2 * k \<le> 32"
    and step: "(n', x') = (if x \<le> lim then (n + k, push_bit k x) else (n, x))"
  shows "unat x' = unat x0 * 2 ^ n'" and "2 ^ (32 - k) \<le> unat x'"
proof -
  have pw: "(2::nat) ^ (32 - k) * 2 ^ k = 2 ^ 32" "(2::nat) ^ (32 - 2 * k) * 2 ^ k = 2 ^ (32 - k)"
    using k by (simp_all flip: power_add)
  show "unat x' = unat x0 * 2 ^ n'" and "2 ^ (32 - k) \<le> unat x'"
  proof (atomize (full), cases "x \<le> lim")
    case True
    then have le: "unat x < 2 ^ (32 - k)"
      using lim by (simp add: word_le_nat_alt le_eq_less_or_eq) (use k in auto)
    then have "unat x * 2 ^ k < 2 ^ 32"
      using pw(1) by (metis mult_less_mono1 zero_less_numeral zero_less_power)
    then have "unat x' = unat x * 2 ^ k" and "n' = n + k"
      using True step by (simp_all add: unat_push_bit_exact)
    moreover have "2 ^ (32 - 2 * k) * 2 ^ k \<le> unat x * 2 ^ k"
      using lo by simp
    ultimately show "unat x' = unat x0 * 2 ^ n' \<and> 2 ^ (32 - k) \<le> unat x'"
      using x pw by (simp add: power_add)
  next
    case False
    then have "\<not> unat x \<le> 2 ^ (32 - k) - 1"
      using lim by (simp add: word_le_nat_alt)
    then show "unat x' = unat x0 * 2 ^ n' \<and> 2 ^ (32 - k) \<le> unat x'"
      using False step x by auto
  qed
qed


lemma nlz_spec:
  assumes "x \<noteq> 0"
  shows "2 ^ 31 \<le> unat x * 2 ^ nlz x" and "unat x * 2 ^ nlz x < 2 ^ 32" and "nlz x \<le> 31"
proof -
  obtain n1 x1 where s1: "(n1, x1) = (if x \<le> 0x0000FFFF then ((0::nat) + 16, push_bit 16 x) else (0, x))"
    by (metis surj_pair)
  obtain n2 x2 where s2: "(n2, x2) = (if x1 \<le> 0x00FFFFFF then (n1 + 8, push_bit 8 x1) else (n1, x1))"
    by (metis surj_pair)
  obtain n3 x3 where s3: "(n3, x3) = (if x2 \<le> 0x0FFFFFFF then (n2 + 4, push_bit 4 x2) else (n2, x2))"
    by (metis surj_pair)
  obtain n4 x4 where s4: "(n4, x4) = (if x3 \<le> 0x3FFFFFFF then (n3 + 2, push_bit 2 x3) else (n3, x3))"
    by (metis surj_pair)
  obtain n5 x5 where s5: "(n5, x5) = (if x4 \<le> 0x7FFFFFFF then (n4 + 1, push_bit 1 x4) else (n4, x4))"
    by (metis surj_pair)
  have nlz: "nlz x = n5"
    unfolding nlz_def Let_def split_def using s1 s2 s3 s4 s5
    by (auto simp: split_def split: if_splits)
  have x0: "unat x = unat x * 2 ^ 0" "2 ^ (32 - 2 * 16) \<le> unat x"
    using assms unat_gt_0 [of x] by (simp_all add: Suc_le_eq)
  note r1 = nlz_step [OF x0 _ _ _ s1, simplified]
  note r2 = nlz_step [OF r1(1) _ _ _ _ s2, simplified, OF r1(2)]
  note r3 = nlz_step [OF r2(1) _ _ _ _ s3, simplified, OF r2(2)]
  note r4 = nlz_step [OF r3(1) _ _ _ _ s4, simplified, OF r3(2)]
  note r5 = nlz_step [OF r4(1) _ _ _ _ s5, simplified, OF r4(2)]
  show lo: "2 ^ 31 \<le> unat x * 2 ^ nlz x" and hi: "unat x * 2 ^ nlz x < 2 ^ 32"
    using r5 unat_less_u32 [of x5] nlz by simp_all
  show "nlz x \<le> 31"
  proof (rule ccontr)
    assume "\<not> nlz x \<le> 31"
    then have "(2::nat) ^ 32 \<le> 2 ^ nlz x"
      by (intro power_increasing) auto
    also have "\<dots> \<le> unat x * 2 ^ nlz x"
      using assms unat_gt_0 [of x] by simp
    finally show False
      using hi by simp
  qed
qed


section \<open>Quotient estimates\<close>

text \<open>
  The quotient by a divisor \<open>w\<close> slightly below \<open>d\<close> exceeds the quotient by \<open>d\<close>
  by at most one.
\<close>

lemma div_estimate_le:
  fixes n d w :: nat
  assumes "0 < w" and "w \<le> d" and close: "n * (d - w) < w * d"
  shows "n div w \<le> n div d + 1"
proof (rule ccontr)
  let ?q = "n div d"
  assume "\<not> n div w \<le> ?q + 1"
  then have "?q + 2 \<le> n div w"
    by simp
  then have "(?q + 2) * w \<le> n"
    using assms(1) by (simp add: less_eq_div_iff_mult_less_eq)
  then have "(?q + 2) * w * d \<le> n * d"
    by simp
  also have "n * d = n * (d - w) + n * w"
    using assms(2) by (simp add: diff_mult_distrib2)
  also have "\<dots> < w * d + n * w"
    using close by simp
  finally have "w * ((?q + 1) * d) < w * n"
    by (simp add: algebra_simps)
  then have "(?q + 1) * d < n"
    by simp
  moreover have "n < (?q + 1) * d"
    using assms(1,2) by (metis add.commute dividend_less_div_times mult.commute mult_Suc_right plus_1_eq_Suc order.strict_trans2)
  ultimately show False
    by simp
qed

lemma four_pred_le_square: "4 * (t - 1) \<le> t * (t :: nat)"
proof (cases t)
  case (Suc m)
  have "0 \<le> (int m - 1) * (int m - 1)"
    by simp
  then have "int (4 * m) \<le> int ((m + 1) * (m + 1))"
    by (simp add: algebra_simps)
  then show ?thesis
    using Suc by (simp only: of_nat_le_iff) simp
qed simp

text \<open>Rounding \<open>d\<close> down to a multiple of \<open>2 ^ r\<close> keeps it close enough.\<close>

lemma round_down_close:
  fixes n d :: nat
  assumes n: "n < 2 ^ 64" and r: "1 \<le> r" "r \<le> 32" and d: "2 ^ (31 + r) \<le> d"
  defines "w \<equiv> d div 2 ^ r * 2 ^ r"
  shows "0 < w" and "w \<le> d" and "n * (d - w) < w * d"
proof -
  have wd: "d = w + d mod 2 ^ r"
    unfolding w_def by (rule div_mult_mod_eq [symmetric])
  have "2 ^ 31 \<le> d div 2 ^ r"
    using d by (simp add: less_eq_div_iff_mult_less_eq power_add)
  then have "2 ^ 31 * 2 ^ r \<le> w"
    unfolding w_def by (rule mult_le_mono1)
  then have w: "2 ^ (31 + r) \<le> w"
    by (simp add: power_add)
  show "w \<le> d"
    using wd by simp
  show "0 < w"
    using w by (metis less_le_trans zero_less_numeral zero_less_power)
  show "n * (d - w) < w * d"
  proof (cases "d = w")
    case True
    then show ?thesis
      using \<open>0 < w\<close> by simp
  next
    case False
    have m: "d - w \<le> 2 ^ r - 1" and nz: "0 < d - w"
      using wd mod_less_divisor [of "2 ^ r" d] False by (auto simp: less_eq_Suc_le)
    have "n * (d - w) < 2 ^ 64 * (d - w)"
      using n nz by simp
    also have "\<dots> \<le> 2 ^ 64 * (2 ^ r - 1)"
      using m by simp
    also have "\<dots> \<le> 2 ^ (31 + r) * 2 ^ (31 + r)"
      using four_pred_le_square [of "2 ^ r"] by (simp add: power_add)
    also have "\<dots> \<le> w * d"
      using w d by (rule mult_le_mono)
    finally show ?thesis .
  qed
qed


section \<open>Unsigned division\<close>

lemma word_of_nat_unat_div: "word_of_nat (unat n div unat d) = n div (d :: 'a::len word)"
  by (simp flip: unat_div)

lemma ucast_word_of_nat_small: "a < 2 ^ 32 \<Longrightarrow> (ucast (word_of_nat a :: u32) :: u64) = word_of_nat a"
  by (simp add: word_unat_eq_iff unsigned_ucast_eq unat_of_nat take_bit_eq_mod)

lemma div_split_high:
  fixes n1 n0 d b :: nat
  assumes "0 < d"
  shows "(b * (n1 mod d) + n0) div d + b * (n1 div d) = (n1 * b + n0) div d"
proof -
  have "n1 = d * (n1 div d) + n1 mod d"
    by simp
  then have "n1 * b + n0 = (d * (n1 div d) + n1 mod d) * b + n0"
    by simp
  also have "\<dots> = (b * (n1 mod d) + n0) + d * (b * (n1 div d))"
    by (simp only: algebra_simps)
  finally have "(n1 * b + n0) div d = ((b * (n1 mod d) + n0) + d * (b * (n1 div d))) div d"
    by (rule arg_cong)
  then show ?thesis
    using assms by (simp only: div_mult_self2)
qed

lemma udiv64_small:
  assumes hi: "drop_bit 32 d = (0 :: u64)" and d: "d \<noteq> 0"
  shows "udiv64 n d = Some (n div d)"
proof -
  let ?n1 = "ucast (drop_bit 32 n) :: u32" and ?n0 = "ucast n :: u32" and ?d0 = "ucast d :: u32"
  have D: "unat ?d0 = unat d"
    using unat_hi_lo [of d] hi by simp
  then have d0: "?d0 \<noteq> 0"
    using d by (metis unat_eq_zero)
  let ?x = "push_bit 32 (1 :: u64) * ucast (?n1 mod ?d0) + ucast ?n0"
  let ?X = "2 ^ 32 * (unat ?n1 mod unat ?d0) + unat ?n0"
  have "unat ?n1 mod unat ?d0 < unat ?d0"
    using d0 by (simp add: unat_gt_0)
  then have "2 ^ 32 * (unat ?n1 mod unat ?d0) + 2 ^ 32 \<le> 2 ^ 32 * unat ?d0"
    by (metis Suc_leI mult_Suc_right mult_le_mono2 add.commute)
  then have X: "?X < 2 ^ 32 * unat ?d0"
    using unat_less_u32 [of ?n0] by linarith
  also have "\<dots> < 2 ^ 32 * 2 ^ 32"
    using unat_less_u32 [of ?d0] by simp
  finally have X64: "?X < 2 ^ LENGTH(64)"
    by simp
  have xX: "?x = word_of_nat ?X"
    by (simp add: push_bit_eq_mult flip: unat_mod)
  have x: "unat ?x = ?X"
    unfolding xX by (rule unat_word_of_nat_small [OF X64])
  have q: "?X div unat ?d0 < 2 ^ 32"
    using X by (simp add: less_mult_imp_div_less)
  then have e1: "divl ?x ?d0 = Some (word_of_nat (?X div unat ?d0))"
    using divl_eq [OF d0, of ?x] unfolding x by simp
  have e2: "ucast (word_of_nat (?X div unat ?d0) :: u32) + push_bit 32 (1 :: u64) * ucast (?n1 div ?d0)
      = (word_of_nat (?X div unat ?d0 + 2 ^ 32 * (unat ?n1 div unat ?d0)) :: u64)"
    unfolding ucast_word_of_nat_small [OF q]
    by (simp add: push_bit_eq_mult flip: unat_div [of ?n1])
  have e3: "?X div unat ?d0 + 2 ^ 32 * (unat ?n1 div unat ?d0) = unat n div unat ?d0"
    using div_split_high [of "unat ?d0" "2 ^ 32" "unat ?n1" "unat ?n0"] d0
    unfolding unat_hi_lo by (simp add: unat_gt_0)
  have "ucast (word_of_nat (?X div unat ?d0) :: u32) + push_bit 32 (1 :: u64) * ucast (?n1 div ?d0) = n div d"
    using e2 unfolding e3 by (simp only: D word_of_nat_unat_div)
  then show ?thesis
    using hi d0 e1 by (simp add: udiv64_def Let_def)
qed


text \<open>The large divisor: what the normalisation shift gives.\<close>

lemma udiv64_shift:
  fixes d :: u64
  assumes hi: "drop_bit 32 d \<noteq> 0"
  defines "d1 \<equiv> ucast (drop_bit 32 d) :: u32"
  defines "s \<equiv> nlz d1"
  defines "v \<equiv> ucast (drop_bit 32 (push_bit s d)) :: u32"
  shows "s \<le> 31" and "unat v = unat d div 2 ^ (32 - s)" and "2 ^ (63 - s) \<le> unat d"
    and "2 ^ 31 \<le> unat v"
proof -
  have D1: "unat d1 = unat d div 2 ^ 32"
    using unat_hi_lo [of d] unat_less_u32 [of "ucast d"] unfolding d1_def by simp
  have "d1 \<noteq> 0"
  proof
    assume "d1 = 0"
    then have "unat (drop_bit 32 d) = 0"
      using D1 by (simp add: unat_drop_bit_eq drop_bit_eq_div unat_div)
    then show False
      using hi by (metis unat_eq_zero)
  qed
  note spec = nlz_spec [OF this, folded s_def]
  show s: "s \<le> 31"
    by (rule spec(3))
  have pw: "(2::nat) ^ 32 = 2 ^ (32 - s) * 2 ^ s" "(2::nat) ^ 63 = 2 ^ (63 - s) * 2 ^ s"
    using s by (simp_all flip: power_add)
  have lo: "2 ^ 63 \<le> unat d * 2 ^ s"
  proof -
    have "2 ^ 31 * 2 ^ 32 \<le> unat d div 2 ^ 32 * 2 ^ s * 2 ^ 32"
      using spec(1) unfolding D1 by (rule mult_le_mono1)
    also have "\<dots> = (unat d div 2 ^ 32 * 2 ^ 32) * 2 ^ s"
      by simp
    also have "\<dots> \<le> unat d * 2 ^ s"
      by (intro mult_le_mono1) (rule div_times_less_eq_dividend)
    finally show ?thesis
      by simp
  qed
  then show "2 ^ (63 - s) \<le> unat d"
    unfolding pw by simp
  have "unat d div 2 ^ 32 < 2 ^ (32 - s)"
    using spec(2) unfolding D1 pw by simp
  then have "unat d < 2 ^ (32 - s) * 2 ^ 32"
    by (simp add: div_less_iff_less_mult)
  then have "unat d * 2 ^ s < 2 ^ (32 - s) * 2 ^ 32 * 2 ^ s"
    by simp
  also have "\<dots> = 2 ^ 64"
    using s by (simp flip: power_add)
  finally have ovf: "unat d * 2 ^ s < 2 ^ 64" .
  then have "unat (push_bit s d) = unat d * 2 ^ s"
    by (subst unsigned_push_bit_eq) (simp add: push_bit_eq_mult take_bit_eq_mod)
  then have "unat v = unat d * 2 ^ s div 2 ^ 32"
    using unat_hi_lo [of "push_bit s d"] unat_less_u32 [of "ucast (push_bit s d)"]
    unfolding v_def by simp
  then show V: "unat v = unat d div 2 ^ (32 - s)"
    unfolding pw by (metis div_mult_mult2 power_not_zero zero_neq_numeral)
  show "2 ^ 31 \<le> unat v"
    using lo \<open>unat v = unat d * 2 ^ s div 2 ^ 32\<close> by (simp add: less_eq_div_iff_mult_less_eq)
qed


lemma unat_ucast_u64: "unat (ucast (x :: u32) :: u64) = unat x"
  using unat_less_u32 [of x] by (simp add: unsigned_ucast_eq take_bit_nat_eq_self)

lemma udiv64_large:
  assumes hi: "drop_bit 32 d \<noteq> (0 :: u64)" and ge: "d \<le> n"
  shows "udiv64 n d = Some (n div d)"
proof -
  define s where "s = nlz (ucast (drop_bit 32 d) :: u32)"
  define v where "v = (ucast (drop_bit 32 (push_bit s d)) :: u32)"
  define q1 where "q1 = (word_of_nat (unat n div 2 div unat v) :: u32)"
  define q where "q = (ucast (drop_bit (31 - s) q1) :: u64)"
  note sh = udiv64_shift [OF hi, folded s_def, folded v_def]
  let ?N = "unat n" and ?D = "unat d" and ?w = "unat d div 2 ^ (32 - s) * 2 ^ (32 - s)"
  have v0: "v \<noteq> 0"
    using sh(4) by (auto simp: unat_eq_zero)
  have lt: "?N div 2 div unat v < 2 ^ 32"
  proof -
    have "?N div 2 < 2 ^ 32 * 2 ^ 31"
      using unat_less_u64 [of n] by simp
    also have "\<dots> \<le> 2 ^ 32 * unat v"
      using sh(4) by simp
    finally show ?thesis
      by (simp add: less_mult_imp_div_less)
  qed
  have dl: "divl (drop_bit 1 n) v = Some q1"
    using divl_eq [OF v0, of "drop_bit 1 n"] lt
    by (simp add: q1_def unat_drop_bit_eq drop_bit_eq_div unat_div)
  have p32: "(2::nat) * 2 ^ (31 - s) = 2 ^ (32 - s)"
    using sh(1) by (simp flip: power_Suc add: Suc_diff_le)
  have "?N div 2 div unat v div 2 ^ (31 - s) = ?N div (2 * unat v * 2 ^ (31 - s))"
    by (simp only: div_mult2_eq)
  also have "2 * unat v * 2 ^ (31 - s) = unat v * (2 * 2 ^ (31 - s))"
    by (simp only: ac_simps)
  also have "\<dots> = ?w"
    unfolding p32 sh(2) ..
  finally have "?N div 2 div unat v div 2 ^ (31 - s) = ?N div ?w" .
  moreover have "unat q1 = ?N div 2 div unat v"
    unfolding q1_def using lt by (intro unat_word_of_nat_small) simp
  moreover have "unat q = drop_bit (31 - s) (unat q1)"
    by (simp add: q_def unat_ucast_u64 unat_drop_bit_eq)
  ultimately have Q: "unat q = ?N div ?w"
    by (simp add: drop_bit_eq_div)
  have close: "0 < ?w" "?w \<le> ?D" "?N * (?D - ?w) < ?w * ?D"
    using round_down_close [of ?N "32 - s" ?D] unat_less_u64 [of n] sh by simp_all
  have up: "unat q \<le> ?N div ?D + 1"
    unfolding Q by (rule div_estimate_le [OF close])
  have down: "?N div ?D \<le> unat q"
    unfolding Q by (rule div_le_mono2 [OF close(1,2)])
  have pos: "1 \<le> ?N div ?D"
    using ge order.strict_trans2 [OF close(1,2)]
    by (simp only: word_le_nat_alt Suc_le_eq div_greater_zero_iff One_nat_def simp_thms)
  have fix_up: "(if n - (q - 1) * d < d then q - 1 else q) = n div d"
  proof (cases "unat q = ?N div ?D")
    case True
    then have q: "q = n div d"
      by (simp add: word_unat_eq_iff unat_div)
    have q1: "unat (q - 1) = ?N div ?D - 1"
      using True pos by (subst unat_minus_one) auto
    have le: "(?N div ?D - 1) * ?D + ?D \<le> ?N"
      using pos by (metis Suc_pred' add.commute div_times_less_eq_dividend mult_Suc less_eq_Suc_le One_nat_def)
    have "(q - 1) * d = word_of_nat ((?N div ?D - 1) * ?D)"
      using q1 by (metis of_nat_mult word_of_nat_unat)
    then have "n - (q - 1) * d = word_of_nat (?N - (?N div ?D - 1) * ?D)"
      using le by (simp add: of_nat_diff)
    then have "unat (n - (q - 1) * d) = ?N - (?N div ?D - 1) * ?D"
      using unat_less_u64 [of n] by (simp add: unat_of_nat)
    then have "\<not> n - (q - 1) * d < d"
      using le by (simp add: word_less_nat_alt)
    then show ?thesis
      using q by simp
  next
    case False
    then have "unat q = unat (n div d) + 1"
      using up down by (simp add: unat_div)
    then have "q = n div d + 1"
      using word_of_nat_unat [of q] word_of_nat_unat [of "n div d"] by (simp add: add.commute)
    moreover have "n - n div d * d = n mod d"
      by (simp add: minus_div_mult_eq_mod)
    moreover have "n mod d < d"
      using order.strict_trans2 [OF close(1,2)] by (simp only: word_less_nat_alt unat_mod mod_less_divisor)
    ultimately show ?thesis
      by simp
  qed
  have "\<not> n < d"
    using ge by simp
  then show ?thesis
    using hi dl fix_up unfolding udiv64_def Let_def s_def [symmetric] v_def [symmetric] q_def
    by simp
qed

text \<open>
  Quotient and remainder for every nonzero divisor: the routine never traps and
  computes the mathematical quotient.
\<close>

lemma udiv64_eq:
  assumes "d \<noteq> 0"
  shows "udiv64 n d = Some (n div d)"
proof (cases "drop_bit 32 d = 0")
  case True
  then show ?thesis
    using assms by (rule udiv64_small)
next
  case hi: False
  show ?thesis
  proof (cases "n < d")
    case True
    then have "n div d = 0"
      by (simp add: word_unat_eq_iff unat_div word_less_nat_alt)
    with True hi show ?thesis
      by (simp add: udiv64_def)
  next
    case False
    then show ?thesis
      using hi by (intro udiv64_large) auto
  qed
qed

lemma udiv64_zero: "udiv64 n 0 = None"
  by (simp add: udiv64_def)

section \<open>Signed division and the remainders\<close>

lemma abs_word_eq:
  fixes n :: u64
  shows "(if 0 \<le> sint n then n else - n) = word_of_int \<bar>sint n\<bar>"
    and "uint (word_of_int \<bar>sint n\<bar> :: u64) = \<bar>sint n\<bar>"
proof -
  show "(if 0 \<le> sint n then n else - n) = word_of_int \<bar>sint n\<bar>"
    by simp
  have "\<bar>sint n\<bar> \<le> 2 ^ 63"
    using sint_ge [of n] sint_lt [of n] by (simp add: abs_le_iff)
  then show "uint (word_of_int \<bar>sint n\<bar> :: u64) = \<bar>sint n\<bar>"
    by (simp add: unsigned_of_int take_bit_int_eq_self_iff)
qed

lemma sdiv64_eq:
  assumes "d \<noteq> 0"
  shows "sdiv64 n d = Some (word_of_int (sint n sdiv sint d))"
proof -
  let ?N = "sint n" and ?D = "sint d"
  have D: "word_of_int \<bar>?D\<bar> \<noteq> (0 :: u64)"
    using assms abs_word_eq(2) [of d] by (metis abs_eq_0 signed_eq_0_iff unsigned_0)
  have "word_of_int \<bar>?N\<bar> div word_of_int \<bar>?D\<bar> = (word_of_int (\<bar>?N\<bar> div \<bar>?D\<bar>) :: u64)"
    unfolding word_div_def abs_word_eq(2) ..
  moreover have "?N sdiv ?D = (if (?N < 0) = (?D < 0) then \<bar>?N\<bar> div \<bar>?D\<bar> else - (\<bar>?N\<bar> div \<bar>?D\<bar>))"
    using assms by (auto simp: signed_divide_int_def sgn_if not_less)
  ultimately show ?thesis
    by (simp add: sdiv64_def abs_word_eq(1) Let_def udiv64_eq [OF D])
qed

lemma umod64_eq: "d \<noteq> 0 \<Longrightarrow> umod64 n d = Some (ucast (n mod d))"
  by (simp add: umod64_def udiv64_eq minus_mult_div_eq_mod)

lemma ucast_word_of_int_u32: "(ucast (word_of_int k :: u64) :: u32) = word_of_int k"
  by (simp add: word_uint_eq_iff unsigned_ucast_eq unsigned_of_int)

lemma smod64_eq:
  assumes "d \<noteq> 0"
  shows "smod64 n d = Some (word_of_int (sint n smod sint d))"
proof -
  have "n - d * word_of_int (sint n sdiv sint d)
      = word_of_int (sint n - sint d * (sint n sdiv sint d))"
    by simp
  then have "n - d * word_of_int (sint n sdiv sint d) = word_of_int (sint n smod sint d)"
    by (simp only: minus_mult_sdiv_eq_smod)
  then show ?thesis
    using assms by (simp add: smod64_def sdiv64_eq ucast_word_of_int_u32)
qed

lemma int_word_sint_range:
  "- (2 ^ 63) \<le> k \<Longrightarrow> k < 2 ^ 63 \<Longrightarrow> sint (word_of_int k :: u64) = k"
  by (simp add: signed_of_int signed_take_bit_int_eq_self_iff)

lemma sdiv64_in_range:
  fixes n d :: u64
  assumes "d \<noteq> 0" and no_ovf: "\<not> (sint n = - (2 ^ 63) \<and> sint d = - 1)"
  shows "- (2 ^ 63) \<le> sint n sdiv sint d" and "sint n sdiv sint d < 2 ^ 63"
proof -
  let ?N = "sint n" and ?D = "sint d" and ?A = "\<bar>sint n\<bar> div \<bar>sint d\<bar>"
  have N: "- (2 ^ 63) \<le> ?N" "?N < 2 ^ 63"
    using sint_ge [of n] sint_lt [of n] by simp_all
  have D: "?D \<noteq> 0"
    using assms(1) by (metis signed_0 signed_word_eqI)
  have A: "0 \<le> ?A" "?A \<le> \<bar>?N\<bar>"
    using D zdiv_mono2 [of "\<bar>?N\<bar>" 1 "\<bar>?D\<bar>"] by (simp_all add: pos_imp_zdiv_nonneg_iff)
  have S: "?N sdiv ?D = ?A \<or> ?N sdiv ?D = - ?A"
    using D by (auto simp: signed_divide_int_def sgn_if)
  show "- (2 ^ 63) \<le> ?N sdiv ?D"
    using S A N by linarith
  show "?N sdiv ?D < 2 ^ 63"
  proof (cases "?N = - (2 ^ 63)")
    case False
    then show ?thesis
      using S A N by linarith
  next
    case True
    then consider "0 < ?D" | "?D \<le> - 2"
      using no_ovf D by linarith
    then show ?thesis
    proof cases
      case 1
      then have "?N sdiv ?D = - ?A"
        using True by (simp add: signed_divide_int_def)
      then show ?thesis
        using A by simp
    next
      case 2
      then have "?A \<le> \<bar>?N\<bar> div 2"
        by (intro zdiv_mono2) simp_all
      then have "?A \<le> 2 ^ 62"
        using True by simp
      then show ?thesis
        using S A(1) by auto
    qed
  qed
qed

section \<open>Properties\<close>

text \<open>
  C4: \<open>__udivdi3\<close> returns without a divide trap for every nonzero divisor and its
  value is the unsigned quotient, on both paths of \<open>udiv64\<close> (the schoolbook step and
  the normalised estimate with its correction).
\<close>

theorem udivdi3_correct:
  assumes "d \<noteq> 0"
  shows "\<exists>q. udivdi3 n d = Some q \<and> unat q = unat n div unat d"
  using udiv64_eq [OF assms, of n] by (simp add: udivdi3_def unat_div)

theorem udivdi3_correct_witness:
  "\<exists>q. udivdi3 0xFFFFFFFFFFFFFFFF 0x100000001 = Some q
     \<and> unat q = unat (0xFFFFFFFFFFFFFFFF :: u64) div unat (0x100000001 :: u64)"
  by (rule udivdi3_correct) simp

text \<open>
  \<open>__divdi3\<close> returns the quotient rounded towards zero for every nonzero divisor,
  except for the one quotient, \<open>INT64_MIN / -1\<close>, that an \<open>int64_t\<close> cannot hold.
\<close>

theorem divdi3_correct:
  assumes "d \<noteq> 0" and "\<not> (sint n = - (2 ^ 63) \<and> sint d = - 1)"
  shows "\<exists>q. divdi3 n d = Some q \<and> sint q = sint n sdiv sint d"
  using sdiv64_eq [OF assms(1), of n] sdiv64_in_range [OF assms]
  by (simp add: divdi3_def int_word_sint_range)

theorem divdi3_correct_witness:
  "\<exists>q. divdi3 (- 7) 2 = Some q \<and> sint q = sint (- 7 :: u64) sdiv sint (2 :: u64)"
  by (rule divdi3_correct) simp_all

text \<open>
  C7: the 64-bit remainders are cut to 32 bits: \<open>umod64\<close> is declared to return
  \<open>uint32_t\<close>, so \<open>__umoddi3\<close> returns the remainder modulo \<open>2 ^ 32\<close>, which is the
  remainder itself only when that is below \<open>2 ^ 32\<close>.
\<close>

theorem umoddi3_truncates:
  assumes "d \<noteq> 0"
  shows "\<exists>r. umoddi3 n d = Some r \<and> unat r = (unat n mod unat d) mod 2 ^ 32"
  using umod64_eq [OF assms, of n]
  by (simp add: umoddi3_def unsigned_ucast_eq take_bit_eq_mod unat_mod)

theorem umoddi3_truncates_witness:
  "\<exists>r. umoddi3 0x1FFFFFFFF 0x200000000 = Some r
     \<and> unat r = (unat (0x1FFFFFFFF :: u64) mod unat (0x200000000 :: u64)) mod 2 ^ 32"
  by (rule umoddi3_truncates) simp

end
