(* ===== verification/Klist.thy ===== *)
theory Klist
  imports Kernel_Prelude "HOL-Library.Multiset"
begin

text \<open>
  The doubly linked lists of \<open>lib/kernel/list.c\<close>, at the level of the pointers.  A
  \<open>struct list_elem\<close> is a cell of a heap, a \<open>struct list\<close> at address \<open>l\<close> consists of
  the two header cells at \<open>l\<close> and \<open>l + 8\<close>.  Following or writing through a null
  pointer or a pointer to no cell has the outcome \<open>None\<close>, as a failed assertion has.
  Loops are partial functions, so that \<open>None\<close> is also the outcome of a loop that never
  ends: a theorem that a routine returns \<open>Some\<close> excludes all three.
\<close>

section \<open>Heap cells\<close>

type_synonym ptr = nat

abbreviation NULL :: ptr where
  "NULL \<equiv> 0"

record list_elem =
  elem_prev :: ptr
  elem_next :: ptr

type_synonym lheap = "ptr \<Rightarrow> list_elem option"

definition deref :: "lheap \<Rightarrow> ptr \<Rightarrow> list_elem option" where
  "deref h p = (if p = NULL then None else h p)"

definition get_prev :: "lheap \<Rightarrow> ptr \<Rightarrow> ptr option" where
  "get_prev h p = map_option elem_prev (deref h p)"

definition get_next :: "lheap \<Rightarrow> ptr \<Rightarrow> ptr option" where
  "get_next h p = map_option elem_next (deref h p)"

definition set_prev :: "lheap \<Rightarrow> ptr \<Rightarrow> ptr \<Rightarrow> lheap option" where
  "set_prev h p v = map_option (\<lambda>e. h(p \<mapsto> e\<lparr>elem_prev := v\<rparr>)) (deref h p)"

definition set_next :: "lheap \<Rightarrow> ptr \<Rightarrow> ptr \<Rightarrow> lheap option" where
  "set_next h p v = map_option (\<lambda>e. h(p \<mapsto> e\<lparr>elem_next := v\<rparr>)) (deref h p)"

text \<open>The two members of \<open>struct list\<close>.\<close>

definition head_of :: "ptr \<Rightarrow> ptr" where
  "head_of l = l"

definition tail_of :: "ptr \<Rightarrow> ptr" where
  "tail_of l = l + 8"

section \<open>The routines of list.c\<close>

definition is_head :: "lheap \<Rightarrow> ptr \<Rightarrow> bool option" where
  "is_head h e =
     (if e = NULL then Some False
      else do { p \<leftarrow> get_prev h e; n \<leftarrow> get_next h e; Some (p = NULL \<and> n \<noteq> NULL) })"

definition is_interior :: "lheap \<Rightarrow> ptr \<Rightarrow> bool option" where
  "is_interior h e =
     (if e = NULL then Some False
      else do { p \<leftarrow> get_prev h e; n \<leftarrow> get_next h e; Some (p \<noteq> NULL \<and> n \<noteq> NULL) })"

definition is_tail :: "lheap \<Rightarrow> ptr \<Rightarrow> bool option" where
  "is_tail h e =
     (if e = NULL then Some False
      else do { p \<leftarrow> get_prev h e; n \<leftarrow> get_next h e; Some (p \<noteq> NULL \<and> n = NULL) })"

definition list_init :: "lheap \<Rightarrow> ptr \<Rightarrow> lheap option" where
  "list_init h l = do {
     ASSERT (l \<noteq> NULL);
     h \<leftarrow> set_prev h (head_of l) NULL;
     h \<leftarrow> set_next h (head_of l) (tail_of l);
     h \<leftarrow> set_prev h (tail_of l) (head_of l);
     set_next h (tail_of l) NULL
   }"

definition list_begin :: "lheap \<Rightarrow> ptr \<Rightarrow> ptr option" where
  "list_begin h l = do { ASSERT (l \<noteq> NULL); get_next h (head_of l) }"

definition list_next :: "lheap \<Rightarrow> ptr \<Rightarrow> ptr option" where
  "list_next h e = do {
     a \<leftarrow> is_head h e;
     b \<leftarrow> is_interior h e;
     ASSERT (a \<or> b);
     get_next h e
   }"

definition list_end :: "ptr \<Rightarrow> ptr option" where
  "list_end l = do { ASSERT (l \<noteq> NULL); Some (tail_of l) }"

definition list_rbegin :: "lheap \<Rightarrow> ptr \<Rightarrow> ptr option" where
  "list_rbegin h l = do { ASSERT (l \<noteq> NULL); get_prev h (tail_of l) }"

definition list_prev :: "lheap \<Rightarrow> ptr \<Rightarrow> ptr option" where
  "list_prev h e = do {
     a \<leftarrow> is_interior h e;
     b \<leftarrow> is_tail h e;
     ASSERT (a \<or> b);
     get_prev h e
   }"

definition list_rend :: "ptr \<Rightarrow> ptr option" where
  "list_rend l = do { ASSERT (l \<noteq> NULL); Some (head_of l) }"

definition list_head :: "ptr \<Rightarrow> ptr option" where
  "list_head l = do { ASSERT (l \<noteq> NULL); Some (head_of l) }"

definition list_tail :: "ptr \<Rightarrow> ptr option" where
  "list_tail l = do { ASSERT (l \<noteq> NULL); Some (tail_of l) }"

definition list_insert :: "lheap \<Rightarrow> ptr \<Rightarrow> ptr \<Rightarrow> lheap option" where
  "list_insert h before elem = do {
     a \<leftarrow> is_interior h before;
     b \<leftarrow> is_tail h before;
     ASSERT (a \<or> b);
     ASSERT (elem \<noteq> NULL);
     bp \<leftarrow> get_prev h before;
     h \<leftarrow> set_prev h elem bp;
     h \<leftarrow> set_next h elem before;
     bp \<leftarrow> get_prev h before;
     h \<leftarrow> set_next h bp elem;
     set_prev h before elem
   }"

definition list_splice :: "lheap \<Rightarrow> ptr \<Rightarrow> ptr \<Rightarrow> ptr \<Rightarrow> lheap option" where
  "list_splice h before first last' = do {
     a \<leftarrow> is_interior h before;
     b \<leftarrow> is_tail h before;
     ASSERT (a \<or> b);
     if first = last' then Some h
     else do {
       last' \<leftarrow> list_prev h last';
       a \<leftarrow> is_interior h first;
       ASSERT a;
       b \<leftarrow> is_interior h last';
       ASSERT b;
       fp \<leftarrow> get_prev h first;
       ln \<leftarrow> get_next h last';
       h \<leftarrow> set_next h fp ln;
       ln \<leftarrow> get_next h last';
       fp \<leftarrow> get_prev h first;
       h \<leftarrow> set_prev h ln fp;
       bp \<leftarrow> get_prev h before;
       h \<leftarrow> set_prev h first bp;
       h \<leftarrow> set_next h last' before;
       bp \<leftarrow> get_prev h before;
       h \<leftarrow> set_next h bp first;
       set_prev h before last'
     }
   }"

definition list_push_front :: "lheap \<Rightarrow> ptr \<Rightarrow> ptr \<Rightarrow> lheap option" where
  "list_push_front h l elem = do { b \<leftarrow> list_begin h l; list_insert h b elem }"

definition list_push_back :: "lheap \<Rightarrow> ptr \<Rightarrow> ptr \<Rightarrow> lheap option" where
  "list_push_back h l elem = do { e \<leftarrow> list_end l; list_insert h e elem }"

definition list_remove :: "lheap \<Rightarrow> ptr \<Rightarrow> (ptr \<times> lheap) option" where
  "list_remove h elem = do {
     a \<leftarrow> is_interior h elem;
     ASSERT a;
     p \<leftarrow> get_prev h elem;
     n \<leftarrow> get_next h elem;
     h \<leftarrow> set_next h p n;
     n \<leftarrow> get_next h elem;
     p \<leftarrow> get_prev h elem;
     h \<leftarrow> set_prev h n p;
     n \<leftarrow> get_next h elem;
     Some (n, h)
   }"

definition list_empty :: "lheap \<Rightarrow> ptr \<Rightarrow> bool option" where
  "list_empty h l = do { b \<leftarrow> list_begin h l; e \<leftarrow> list_end l; Some (b = e) }"

definition list_front :: "lheap \<Rightarrow> ptr \<Rightarrow> ptr option" where
  "list_front h l = do { b \<leftarrow> list_empty h l; ASSERT (\<not> b); get_next h (head_of l) }"

definition list_back :: "lheap \<Rightarrow> ptr \<Rightarrow> ptr option" where
  "list_back h l = do { b \<leftarrow> list_empty h l; ASSERT (\<not> b); get_prev h (tail_of l) }"

definition list_pop_front :: "lheap \<Rightarrow> ptr \<Rightarrow> (ptr \<times> lheap) option" where
  "list_pop_front h l = do {
     front \<leftarrow> list_front h l;
     (_, h) \<leftarrow> list_remove h front;
     Some (front, h)
   }"

definition list_pop_back :: "lheap \<Rightarrow> ptr \<Rightarrow> (ptr \<times> lheap) option" where
  "list_pop_back h l = do {
     back \<leftarrow> list_back h l;
     (_, h) \<leftarrow> list_remove h back;
     Some (back, h)
   }"

text \<open>The counter of \<open>list_size\<close> is a \<open>size_t\<close>.\<close>

partial_function (option) list_size_loop :: "lheap \<Rightarrow> ptr \<Rightarrow> ptr \<Rightarrow> nat \<Rightarrow> nat option" where
  "list_size_loop h l e cnt = do {
     en \<leftarrow> list_end l;
     if e = en then Some cnt
     else do { e' \<leftarrow> list_next h e; list_size_loop h l e' (size_wrap (cnt + 1)) }
   }"

definition list_size :: "lheap \<Rightarrow> ptr \<Rightarrow> nat option" where
  "list_size h l = do { e \<leftarrow> list_begin h l; list_size_loop h l e 0 }"

text \<open>\<open>swap\<close> is only ever applied to two link fields.\<close>

definition swap_links :: "lheap \<Rightarrow> ptr \<Rightarrow> lheap option" where
  "swap_links h e = do {
     p \<leftarrow> get_prev h e;
     n \<leftarrow> get_next h e;
     h \<leftarrow> set_prev h e n;
     set_next h e p
   }"

partial_function (option) list_reverse_loop :: "lheap \<Rightarrow> ptr \<Rightarrow> ptr \<Rightarrow> lheap option" where
  "list_reverse_loop h l e = do {
     en \<leftarrow> list_end l;
     if e = en then Some h
     else do {
       h \<leftarrow> swap_links h e;
       e' \<leftarrow> get_prev h e;
       list_reverse_loop h l e'
     }
   }"

definition list_reverse :: "lheap \<Rightarrow> ptr \<Rightarrow> lheap option" where
  "list_reverse h l = do {
     emp \<leftarrow> list_empty h l;
     if emp then Some h
     else do {
       e \<leftarrow> list_begin h l;
       h \<leftarrow> list_reverse_loop h l e;
       hn \<leftarrow> get_next h (head_of l);
       tp \<leftarrow> get_prev h (tail_of l);
       h \<leftarrow> set_next h (head_of l) tp;
       h \<leftarrow> set_prev h (tail_of l) hn;
       hn \<leftarrow> get_next h (head_of l);
       tp \<leftarrow> get_prev h (tail_of l);
       p \<leftarrow> get_prev h hn;
       n \<leftarrow> get_next h tp;
       h \<leftarrow> set_prev h hn n;
       set_next h tp p
     }
   }"

text \<open>
  The comparison function with its auxiliary data is the parameter \<open>lt\<close>: it reads
  the structures that embed the elements, which no routine here changes.
\<close>

partial_function (option) is_sorted_loop ::
    "(ptr \<Rightarrow> ptr \<Rightarrow> bool) \<Rightarrow> lheap \<Rightarrow> ptr \<Rightarrow> ptr \<Rightarrow> bool option" where
  "is_sorted_loop lt h a b = do {
     a \<leftarrow> list_next h a;
     if a = b then Some True
     else do {
       p \<leftarrow> list_prev h a;
       if lt a p then Some False else is_sorted_loop lt h a b
     }
   }"

definition is_sorted :: "(ptr \<Rightarrow> ptr \<Rightarrow> bool) \<Rightarrow> lheap \<Rightarrow> ptr \<Rightarrow> ptr \<Rightarrow> bool option" where
  "is_sorted lt h a b = (if a \<noteq> b then is_sorted_loop lt h a b else Some True)"

partial_function (option) find_end_of_run_loop ::
    "(ptr \<Rightarrow> ptr \<Rightarrow> bool) \<Rightarrow> lheap \<Rightarrow> ptr \<Rightarrow> ptr \<Rightarrow> ptr option" where
  "find_end_of_run_loop lt h a b = do {
     a \<leftarrow> list_next h a;
     if a = b then Some a
     else do {
       p \<leftarrow> list_prev h a;
       if lt a p then Some a else find_end_of_run_loop lt h a b
     }
   }"

definition find_end_of_run ::
    "(ptr \<Rightarrow> ptr \<Rightarrow> bool) \<Rightarrow> lheap \<Rightarrow> ptr \<Rightarrow> ptr \<Rightarrow> ptr option" where
  "find_end_of_run lt h a b = do {
     ASSERT (a \<noteq> NULL);
     ASSERT (b \<noteq> NULL);
     ASSERT (a \<noteq> b);
     find_end_of_run_loop lt h a b
   }"

partial_function (option) inplace_merge_loop ::
    "(ptr \<Rightarrow> ptr \<Rightarrow> bool) \<Rightarrow> lheap \<Rightarrow> ptr \<Rightarrow> ptr \<Rightarrow> ptr \<Rightarrow> lheap option" where
  "inplace_merge_loop lt h a0 a1b0 b1 =
     (if a0 \<noteq> a1b0 \<and> a1b0 \<noteq> b1 then
        if \<not> lt a1b0 a0 then do {
          a0 \<leftarrow> list_next h a0;
          inplace_merge_loop lt h a0 a1b0 b1
        }
        else do {
          a1b0 \<leftarrow> list_next h a1b0;
          p \<leftarrow> list_prev h a1b0;
          h \<leftarrow> list_splice h a0 p a1b0;
          inplace_merge_loop lt h a0 a1b0 b1
        }
      else Some h)"

definition inplace_merge ::
    "(ptr \<Rightarrow> ptr \<Rightarrow> bool) \<Rightarrow> lheap \<Rightarrow> ptr \<Rightarrow> ptr \<Rightarrow> ptr \<Rightarrow> lheap option" where
  "inplace_merge lt h a0 a1b0 b1 = do {
     ASSERT (a0 \<noteq> NULL);
     ASSERT (a1b0 \<noteq> NULL);
     ASSERT (b1 \<noteq> NULL);
     s \<leftarrow> is_sorted lt h a0 a1b0;
     ASSERT s;
     s \<leftarrow> is_sorted lt h a1b0 b1;
     ASSERT s;
     inplace_merge_loop lt h a0 a1b0 b1
   }"

text \<open>One pass of the \<open>for\<close> loop of \<open>list_sort\<close>: the run count and the new heap.\<close>

partial_function (option) list_sort_pass ::
    "(ptr \<Rightarrow> ptr \<Rightarrow> bool) \<Rightarrow> lheap \<Rightarrow> ptr \<Rightarrow> ptr \<Rightarrow> nat \<Rightarrow> (nat \<times> lheap) option" where
  "list_sort_pass lt h l a0 output_run_cnt = do {
     en \<leftarrow> list_end l;
     if a0 = en then Some (output_run_cnt, h)
     else do {
       a1b0 \<leftarrow> find_end_of_run lt h a0 en;
       if a1b0 = en then Some (size_wrap (output_run_cnt + 1), h)
       else do {
         b1 \<leftarrow> find_end_of_run lt h a1b0 en;
         h \<leftarrow> inplace_merge lt h a0 a1b0 b1;
         list_sort_pass lt h l b1 (size_wrap (output_run_cnt + 1))
       }
     }
   }"

partial_function (option) list_sort_loop ::
    "(ptr \<Rightarrow> ptr \<Rightarrow> bool) \<Rightarrow> lheap \<Rightarrow> ptr \<Rightarrow> lheap option" where
  "list_sort_loop lt h l = do {
     a0 \<leftarrow> list_begin h l;
     (output_run_cnt, h) \<leftarrow> list_sort_pass lt h l a0 0;
     if output_run_cnt > 1 then list_sort_loop lt h l else Some h
   }"

definition list_sort :: "(ptr \<Rightarrow> ptr \<Rightarrow> bool) \<Rightarrow> lheap \<Rightarrow> ptr \<Rightarrow> lheap option" where
  "list_sort lt h l = do {
     ASSERT (l \<noteq> NULL);
     h \<leftarrow> list_sort_loop lt h l;
     b \<leftarrow> list_begin h l;
     e \<leftarrow> list_end l;
     s \<leftarrow> is_sorted lt h b e;
     ASSERT s;
     Some h
   }"

partial_function (option) list_insert_ordered_loop ::
    "(ptr \<Rightarrow> ptr \<Rightarrow> bool) \<Rightarrow> lheap \<Rightarrow> ptr \<Rightarrow> ptr \<Rightarrow> ptr \<Rightarrow> ptr option" where
  "list_insert_ordered_loop lt h l elem e = do {
     en \<leftarrow> list_end l;
     if e = en then Some e
     else if lt elem e then Some e
     else do { e \<leftarrow> list_next h e; list_insert_ordered_loop lt h l elem e }
   }"

definition list_insert_ordered ::
    "(ptr \<Rightarrow> ptr \<Rightarrow> bool) \<Rightarrow> lheap \<Rightarrow> ptr \<Rightarrow> ptr \<Rightarrow> lheap option" where
  "list_insert_ordered lt h l elem = do {
     ASSERT (l \<noteq> NULL);
     ASSERT (elem \<noteq> NULL);
     e \<leftarrow> list_begin h l;
     e \<leftarrow> list_insert_ordered_loop lt h l elem e;
     list_insert h e elem
   }"

text \<open>\<open>duplicates\<close> may be null; then the removed elements are dropped.\<close>

partial_function (option) list_unique_loop ::
    "(ptr \<Rightarrow> ptr \<Rightarrow> bool) \<Rightarrow> lheap \<Rightarrow> ptr \<Rightarrow> ptr \<Rightarrow> ptr \<Rightarrow> lheap option" where
  "list_unique_loop lt h l duplicates elem = do {
     n \<leftarrow> list_next h elem;
     en \<leftarrow> list_end l;
     if n = en then Some h
     else if \<not> lt elem n \<and> \<not> lt n elem then do {
       (_, h) \<leftarrow> list_remove h n;
       h \<leftarrow> (if duplicates \<noteq> NULL then list_push_back h duplicates n else Some h);
       list_unique_loop lt h l duplicates elem
     }
     else list_unique_loop lt h l duplicates n
   }"

definition list_unique ::
    "(ptr \<Rightarrow> ptr \<Rightarrow> bool) \<Rightarrow> lheap \<Rightarrow> ptr \<Rightarrow> ptr \<Rightarrow> lheap option" where
  "list_unique lt h l duplicates = do {
     ASSERT (l \<noteq> NULL);
     emp \<leftarrow> list_empty h l;
     if emp then Some h
     else do { elem \<leftarrow> list_begin h l; list_unique_loop lt h l duplicates elem }
   }"

partial_function (option) list_max_loop ::
    "(ptr \<Rightarrow> ptr \<Rightarrow> bool) \<Rightarrow> lheap \<Rightarrow> ptr \<Rightarrow> ptr \<Rightarrow> ptr \<Rightarrow> ptr option" where
  "list_max_loop lt h l m e = do {
     en \<leftarrow> list_end l;
     if e = en then Some m
     else do {
       e' \<leftarrow> list_next h e;
       list_max_loop lt h l (if lt m e then e else m) e'
     }
   }"

definition list_max :: "(ptr \<Rightarrow> ptr \<Rightarrow> bool) \<Rightarrow> lheap \<Rightarrow> ptr \<Rightarrow> ptr option" where
  "list_max lt h l = do {
     m \<leftarrow> list_begin h l;
     en \<leftarrow> list_end l;
     if m \<noteq> en then do { e \<leftarrow> list_next h m; list_max_loop lt h l m e } else Some m
   }"

partial_function (option) list_min_loop ::
    "(ptr \<Rightarrow> ptr \<Rightarrow> bool) \<Rightarrow> lheap \<Rightarrow> ptr \<Rightarrow> ptr \<Rightarrow> ptr \<Rightarrow> ptr option" where
  "list_min_loop lt h l m e = do {
     en \<leftarrow> list_end l;
     if e = en then Some m
     else do {
       e' \<leftarrow> list_next h e;
       list_min_loop lt h l (if lt e m then e else m) e'
     }
   }"

definition list_min :: "(ptr \<Rightarrow> ptr \<Rightarrow> bool) \<Rightarrow> lheap \<Rightarrow> ptr \<Rightarrow> ptr option" where
  "list_min lt h l = do {
     m \<leftarrow> list_begin h l;
     en \<leftarrow> list_end l;
     if m \<noteq> en then do { e \<leftarrow> list_next h m; list_min_loop lt h l m e } else Some m
   }"

end
