(* ===== verification/Klist_Refine.thy ===== *)
theory Klist_Refine
  imports Klist
begin

text \<open>
  The abstraction of a pointer list: \<open>klist h l xs\<close> says that the \<open>struct list\<close> at \<open>l\<close>
  holds exactly the elements \<open>xs\<close>, in this order, with consistent links in both
  directions.  Every routine of \<open>list.c\<close> is shown to run without a fault, to have the
  effect of the corresponding operation on sequences, and to leave all cells outside
  the list alone, so that disjoint lists are not disturbed.
\<close>

section \<open>Cells and links\<close>

definition cell :: "lheap \<Rightarrow> ptr \<Rightarrow> bool" where
  "cell h p \<longleftrightarrow> p \<noteq> NULL \<and> h p \<noteq> None"

definition nxt :: "lheap \<Rightarrow> ptr \<Rightarrow> ptr" where
  "nxt h p = (case h p of None \<Rightarrow> NULL | Some e \<Rightarrow> elem_next e)"

definition prv :: "lheap \<Rightarrow> ptr \<Rightarrow> ptr" where
  "prv h p = (case h p of None \<Rightarrow> NULL | Some e \<Rightarrow> elem_prev e)"

definition upd_next :: "lheap \<Rightarrow> ptr \<Rightarrow> ptr \<Rightarrow> lheap" where
  "upd_next h p v = h(p \<mapsto> (the (h p))\<lparr>elem_next := v\<rparr>)"

definition upd_prev :: "lheap \<Rightarrow> ptr \<Rightarrow> ptr \<Rightarrow> lheap" where
  "upd_prev h p v = h(p \<mapsto> (the (h p))\<lparr>elem_prev := v\<rparr>)"

lemma get_set_cell [simp]:
  assumes "cell h p"
  shows "get_prev h p = Some (prv h p)" and "get_next h p = Some (nxt h p)"
    and "set_prev h p v = Some (upd_prev h p v)" and "set_next h p v = Some (upd_next h p v)"
  using assms
  by (auto simp: cell_def get_prev_def get_next_def set_prev_def set_next_def deref_def
      prv_def nxt_def upd_prev_def upd_next_def)

lemma cell_upd [simp]:
  "cell h p \<Longrightarrow> cell (upd_next h p v) a = cell h a"
  "cell h p \<Longrightarrow> cell (upd_prev h p v) a = cell h a"
  by (auto simp: cell_def upd_next_def upd_prev_def)

lemma nxt_upd [simp]:
  "cell h p \<Longrightarrow> nxt (upd_next h p v) a = (if a = p then v else nxt h a)"
  "cell h p \<Longrightarrow> nxt (upd_prev h p v) a = nxt h a"
  by (auto simp: cell_def nxt_def upd_next_def upd_prev_def)

lemma prv_upd [simp]:
  "cell h p \<Longrightarrow> prv (upd_prev h p v) a = (if a = p then v else prv h a)"
  "cell h p \<Longrightarrow> prv (upd_next h p v) a = prv h a"
  by (auto simp: cell_def prv_def upd_next_def upd_prev_def)

lemma cell_not_NULL: "cell h p \<Longrightarrow> p \<noteq> NULL"
  by (simp add: cell_def)

lemma is_cell [simp]:
  assumes "cell h e"
  shows "is_head h e = Some (prv h e = NULL \<and> nxt h e \<noteq> NULL)"
    and "is_interior h e = Some (prv h e \<noteq> NULL \<and> nxt h e \<noteq> NULL)"
    and "is_tail h e = Some (prv h e \<noteq> NULL \<and> nxt h e = NULL)"
  using assms by (auto simp: is_head_def is_interior_def is_tail_def cell_def)

section \<open>Linked chains\<close>

text \<open>Neighbours in \<open>xs\<close> point at each other.\<close>

fun linked :: "lheap \<Rightarrow> ptr list \<Rightarrow> bool" where
  "linked h (a # b # xs) \<longleftrightarrow> nxt h a = b \<and> prv h b = a \<and> linked h (b # xs)"
| "linked h _ \<longleftrightarrow> True"

lemma linked_append:
  "linked h (xs @ ys) \<longleftrightarrow> linked h xs \<and> linked h ys
     \<and> (xs \<noteq> [] \<and> ys \<noteq> [] \<longrightarrow> nxt h (last xs) = hd ys \<and> prv h (hd ys) = last xs)"
proof (induction xs rule: induct_list012)
  case (2 x)
  then show ?case by (cases ys) auto
qed auto

lemma linked_cong:
  assumes "\<And>a. a \<in> set (butlast xs) \<Longrightarrow> nxt h' a = nxt h a"
    and "\<And>a. a \<in> set (tl xs) \<Longrightarrow> prv h' a = prv h a"
  shows "linked h' xs = linked h xs"
  using assms by (induction xs rule: induct_list012) auto

lemma linked_upd [simp]:
  "cell h p \<Longrightarrow> p \<notin> set (butlast xs) \<Longrightarrow> linked (upd_next h p v) xs = linked h xs"
  "cell h p \<Longrightarrow> p \<notin> set (tl xs) \<Longrightarrow> linked (upd_prev h p v) xs = linked h xs"
  by (rule linked_cong; auto)+

lemma last_notin_butlast: "distinct xs \<Longrightarrow> xs \<noteq> [] \<Longrightarrow> last xs \<notin> set (butlast xs)"
  by (induction xs rule: rev_induct) auto

lemma hd_notin_tl: "distinct xs \<Longrightarrow> xs \<noteq> [] \<Longrightarrow> hd xs \<notin> set (tl xs)"
  by (cases xs) auto

section \<open>Whole lists\<close>

definition chain :: "ptr \<Rightarrow> ptr list \<Rightarrow> ptr list" where
  "chain l xs = head_of l # xs @ [tail_of l]"

definition klist :: "lheap \<Rightarrow> ptr \<Rightarrow> ptr list \<Rightarrow> bool" where
  "klist h l xs \<longleftrightarrow>
     distinct (chain l xs) \<and> (\<forall>a \<in> set (chain l xs). cell h a)
     \<and> prv h (head_of l) = NULL \<and> nxt h (tail_of l) = NULL \<and> linked h (chain l xs)"

lemma chain_append: "chain l (as @ bs) = (head_of l # as) @ (bs @ [tail_of l])"
  by (simp add: chain_def)

lemma klist_cong:
  assumes "klist h l xs" and "\<And>a. a \<in> set (chain l xs) \<Longrightarrow> h' a = h a"
  shows "klist h' l xs"
proof -
  have *: "nxt h' a = nxt h a" "prv h' a = prv h a" "cell h' a = cell h a"
    if "a \<in> set (chain l xs)" for a
    using assms(2) [OF that] by (simp_all add: nxt_def prv_def cell_def)
  then have "linked h' (chain l xs) = linked h (chain l xs)"
    by (intro linked_cong) (auto dest: in_set_butlastD list.set_sel(2) simp: chain_def)
  then show ?thesis
    using assms(1) * by (auto simp: klist_def chain_def)
qed

text \<open>
  The heaps \<open>h\<close> and \<open>h'\<close> have the same cells and differ at most on the addresses \<open>A\<close>.
\<close>

definition modifies :: "ptr set \<Rightarrow> lheap \<Rightarrow> lheap \<Rightarrow> bool" where
  "modifies A h h' \<longleftrightarrow> (\<forall>a. a \<notin> A \<longrightarrow> h' a = h a) \<and> (\<forall>a. cell h' a = cell h a)"

lemma modifies_refl [simp]: "modifies A h h"
  by (simp add: modifies_def)

lemma modifies_trans: "modifies A h h' \<Longrightarrow> modifies A h' h'' \<Longrightarrow> modifies A h h''"
  by (simp add: modifies_def)

lemma modifies_mono: "modifies A h h' \<Longrightarrow> A \<subseteq> B \<Longrightarrow> modifies B h h'"
  by (auto simp: modifies_def)

lemma modifies_cell: "modifies A h h' \<Longrightarrow> cell h' a = cell h a"
  by (simp add: modifies_def)

lemma modifies_upd [intro]:
  "modifies A h h' \<Longrightarrow> p \<in> A \<Longrightarrow> cell h' p \<Longrightarrow> modifies A h (upd_next h' p v)"
  "modifies A h h' \<Longrightarrow> p \<in> A \<Longrightarrow> cell h' p \<Longrightarrow> modifies A h (upd_prev h' p v)"
  by (auto simp: modifies_def) (auto simp: upd_next_def upd_prev_def)

lemma klist_frame:
  assumes "klist h l xs" and "modifies A h h'" and "set (chain l xs) \<inter> A = {}"
  shows "klist h' l xs"
  using assms(1) by (rule klist_cong) (use assms(2,3) in \<open>auto simp: modifies_def\<close>)

lemma klist_NULL: "klist h l xs \<Longrightarrow> l \<noteq> NULL"
  by (auto simp: klist_def chain_def head_of_def cell_def)

lemma klist_ends: "klist h l xs \<Longrightarrow> prv h (head_of l) = NULL" "klist h l xs \<Longrightarrow> nxt h (tail_of l) = NULL"
  by (simp_all add: klist_def)

lemma klist_head_tail: "klist h l xs \<Longrightarrow> cell h (head_of l)" "klist h l xs \<Longrightarrow> cell h (tail_of l)"
  by (auto simp: klist_def chain_def)

lemma klist_begin [simp]: "klist h l xs \<Longrightarrow> list_begin h l = Some (hd (xs @ [tail_of l]))"
  by (simp add: list_begin_def klist_NULL klist_head_tail) (cases xs; simp add: klist_def chain_def)

lemma klist_end [simp]: "klist h l xs \<Longrightarrow> list_end l = Some (tail_of l)"
  by (simp add: list_end_def klist_NULL)

lemma klist_empty [simp]: "klist h l xs \<Longrightarrow> list_empty h l = Some (xs = [])"
  by (simp add: list_empty_def) (cases xs; auto simp: klist_def chain_def)

text \<open>Links across a split of the chain.\<close>

lemma klist_split:
  assumes "klist h l (as @ bs)"
  shows "nxt h (last (head_of l # as)) = hd (bs @ [tail_of l])"
    and "prv h (hd (bs @ [tail_of l])) = last (head_of l # as)"
    and "cell h (last (head_of l # as))" and "cell h (hd (bs @ [tail_of l]))"
proof -
  have L: "linked h ((head_of l # as) @ (bs @ [tail_of l]))"
    and C: "\<forall>a \<in> set ((head_of l # as) @ (bs @ [tail_of l])). cell h a"
    using assms unfolding klist_def chain_append by blast+
  from L show "nxt h (last (head_of l # as)) = hd (bs @ [tail_of l])"
    and "prv h (hd (bs @ [tail_of l])) = last (head_of l # as)"
    unfolding linked_append by auto
  from C show "cell h (last (head_of l # as))"
    using last_in_set [of "head_of l # as"] by auto
  from C show "cell h (hd (bs @ [tail_of l]))"
    using hd_in_set [of "bs @ [tail_of l]"] by auto
qed

lemma klist_rbegin [simp]: "klist h l xs \<Longrightarrow> list_rbegin h l = Some (last (head_of l # xs))"
  using klist_split [of h l xs "[]"] by (simp add: list_rbegin_def klist_NULL)

lemma klist_elem:
  assumes "klist h l (as @ x # bs)"
  shows "cell h x" and "nxt h x = hd (bs @ [tail_of l])" and "prv h x = last (head_of l # as)"
    and "nxt h x \<noteq> NULL" and "prv h x \<noteq> NULL"
proof -
  note s1 = klist_split [of h l as "x # bs"] and s2 = klist_split [of h l "as @ [x]" bs]
  show "cell h x" and p: "prv h x = last (head_of l # as)" and n: "nxt h x = hd (bs @ [tail_of l])"
    using assms s1 s2 by simp_all
  show "nxt h x \<noteq> NULL" and "prv h x \<noteq> NULL"
    unfolding n p using assms s1(3) s2(4) cell_not_NULL by simp_all
qed

lemma klist_next: "klist h l (as @ x # bs) \<Longrightarrow> list_next h x = Some (hd (bs @ [tail_of l]))"
  using klist_elem [of h l as x bs] by (simp add: list_next_def)

lemma klist_prev: "klist h l (as @ x # bs) \<Longrightarrow> list_prev h x = Some (last (head_of l # as))"
  using klist_elem [of h l as x bs] by (simp add: list_prev_def)

lemma klist_tail:
  assumes "klist h l xs"
  shows "prv h (tail_of l) = last (head_of l # xs)" and "prv h (tail_of l) \<noteq> NULL"
    and "nxt h (tail_of l) = NULL"
  using klist_split [of h l xs "[]"] assms cell_not_NULL by (auto simp: klist_def)

lemma klist_prev_tail: "klist h l xs \<Longrightarrow> list_prev h (tail_of l) = Some (last (head_of l # xs))"
  using klist_tail [of h l xs] klist_head_tail [of h l xs] by (simp add: list_prev_def)

text \<open>A position of the list, tail included, satisfies the precondition of an insertion.\<close>

lemma klist_before:
  assumes "klist h l (as @ bs)"
  shows "is_interior h (hd (bs @ [tail_of l])) = Some (bs \<noteq> [])"
    and "is_tail h (hd (bs @ [tail_of l])) = Some (bs = [])"
proof (atomize (full), cases bs)
  case Nil
  then show "is_interior h (hd (bs @ [tail_of l])) = Some (bs \<noteq> [])
      \<and> is_tail h (hd (bs @ [tail_of l])) = Some (bs = [])"
    using assms klist_tail [of h l as] klist_head_tail [of h l as] by simp
next
  case (Cons b bs')
  then show "is_interior h (hd (bs @ [tail_of l])) = Some (bs \<noteq> [])
      \<and> is_tail h (hd (bs @ [tail_of l])) = Some (bs = [])"
    using assms klist_elem [of h l as b bs'] by simp
qed

section \<open>Insertion and removal\<close>

lemma notin_part [simp]:
  "x \<notin> set xs \<Longrightarrow> x \<notin> set (tl xs)" "x \<notin> set xs \<Longrightarrow> x \<notin> set (butlast xs)"
  by (auto dest: in_set_butlastD list.set_sel(2)) (cases xs; auto)

lemma ends_in_set [simp]: "xs \<noteq> [] \<Longrightarrow> hd xs \<in> set xs" "xs \<noteq> [] \<Longrightarrow> last xs \<in> set xs"
  by auto

lemma disjoint_ends:
  assumes "set A \<inter> set B = {}"
  shows "A \<noteq> [] \<Longrightarrow> hd A \<notin> set B" and "A \<noteq> [] \<Longrightarrow> last A \<notin> set B"
    and "B \<noteq> [] \<Longrightarrow> hd B \<notin> set A" and "B \<noteq> [] \<Longrightarrow> last B \<notin> set A"
  using assms hd_in_set last_in_set by blast+

lemma linked_insert:
  assumes "distinct (A @ B)" and "A \<noteq> []" and "B \<noteq> []" and "linked h (A @ B)"
    and "\<And>a. a \<in> set (A @ B) \<Longrightarrow> cell h a" and "cell h e" and "e \<notin> set (A @ B)"
  shows "linked (upd_prev (upd_next (upd_next (upd_prev h e (last A)) e (hd B)) (last A) e) (hd B) e)
    (A @ e # B)"
proof -
  have d: "distinct A" "distinct B" "set A \<inter> set B = {}" and l: "linked h A" "linked h B"
    and out: "e \<notin> set A" "e \<notin> set B" and c: "cell h (last A)" "cell h (hd B)"
    using assms by (simp_all add: linked_append)
  have ne: "e \<noteq> last A" "e \<noteq> hd B" "last A \<noteq> e" "hd B \<noteq> e"
    using out assms(2,3) by (metis hd_in_set last_in_set)+
  note m = disjoint_ends [OF d(3)] last_notin_butlast [OF d(1)] hd_notin_tl [OF d(2)]
  have e: "A @ e # B = (A @ [e]) @ B"
    by simp
  show ?thesis
    unfolding e linked_append using assms(2,3,6) l out c ne m by simp
qed

text \<open>The list after the links have been rewired, from the facts on its chain.\<close>

lemma klistI:
  assumes "chain l xs = C" and "distinct C" and "\<And>a. a \<in> set C \<Longrightarrow> cell h a"
    and "prv h (head_of l) = NULL" and "nxt h (tail_of l) = NULL" and "linked h C"
  shows "klist h l xs"
  using assms by (auto simp: klist_def)

lemma list_insert_klist:
  assumes k: "klist h l (as @ bs)" and e: "cell h e" "e \<notin> set (chain l (as @ bs))"
  shows "\<exists>h'. list_insert h (hd (bs @ [tail_of l])) e = Some h' \<and> klist h' l (as @ e # bs)
    \<and> modifies (insert e (set (chain l (as @ bs)))) h h'"
proof -
  let ?A = "head_of l # as" and ?B = "bs @ [tail_of l]"
  let ?p = "last ?A" and ?b = "hd ?B"
  define h' where
    "h' = upd_prev (upd_next (upd_next (upd_prev h e ?p) e ?b) ?p e) ?b e"
  have dist: "distinct (?A @ ?B)" and link: "linked h (?A @ ?B)"
    and cells: "\<And>a. a \<in> set (?A @ ?B) \<Longrightarrow> cell h a"
    using k unfolding klist_def chain_append by blast+
  have e_out: "e \<notin> set ?A" "e \<notin> set ?B"
    using e(2) unfolding chain_append by auto
  have mem: "?p \<in> set ?A" "?b \<in> set ?B"
    by (rule last_in_set hd_in_set; simp)+
  have ne': "e \<noteq> ?p" "e \<noteq> ?b"
    using e_out mem by metis+
  have ends: "head_of l \<noteq> ?b" "tail_of l \<noteq> ?p" and ne'': "head_of l \<noteq> e" "tail_of l \<noteq> e"
    using dist mem e_out by (auto simp del: hd_append last.simps)
  note sp = klist_split [OF k]
  have run: "list_insert h ?b e = Some h'"
    using klist_before [OF k] e(1) sp ne' cell_not_NULL [OF e(1)]
    by (simp add: list_insert_def h'_def)
  have "klist h' l (as @ e # bs)"
  proof (rule klistI)
    show "chain l (as @ e # bs) = ?A @ e # ?B"
      by (simp add: chain_def)
    show "linked h' (?A @ e # ?B)"
      unfolding h'_def by (rule linked_insert) (use dist link cells e e_out in auto)
    show "distinct (?A @ e # ?B)"
      using dist e_out by auto
    show "prv h' (head_of l) = NULL" and "nxt h' (tail_of l) = NULL"
      using klist_ends [OF k] ends ne'' sp e(1) by (simp_all add: h'_def)
    show "cell h' a" if "a \<in> set (?A @ e # ?B)" for a
      using that cells e(1) sp by (auto simp: h'_def)
  qed
  moreover have "modifies (insert e (set (chain l (as @ bs)))) h h'"
    unfolding h'_def chain_append using mem sp(3,4) e(1)
    by (intro modifies_upd modifies_refl) auto
  ultimately show ?thesis
    using run by blast
qed

lemma linked_remove:
  assumes "distinct (A @ x # B)" and "A \<noteq> []" and "B \<noteq> []" and "linked h (A @ x # B)"
    and "\<And>a. a \<in> set (A @ x # B) \<Longrightarrow> cell h a"
  shows "linked (upd_prev (upd_next h (last A) (hd B)) (hd B) (last A)) (A @ B)"
proof -
  have d: "distinct A" "distinct B" "set A \<inter> set B = {}" and c: "cell h (last A)" "cell h (hd B)"
    using assms by auto
  have l: "linked h A" "linked h B"
    using assms(3,4) by (auto simp: linked_append neq_Nil_conv)
  note m = disjoint_ends [OF d(3)] last_notin_butlast [OF d(1)] hd_notin_tl [OF d(2)]
  show ?thesis
    unfolding linked_append using assms(2,3) l c m by simp
qed

lemma list_remove_klist:
  assumes k: "klist h l (as @ x # bs)"
  shows "\<exists>h'. list_remove h x = Some (hd (bs @ [tail_of l]), h') \<and> klist h' l (as @ bs)
    \<and> modifies (set (chain l (as @ bs))) h h'"
proof -
  let ?A = "head_of l # as" and ?B = "bs @ [tail_of l]"
  let ?p = "last ?A" and ?b = "hd ?B"
  define h' where "h' = upd_prev (upd_next h ?p ?b) ?b ?p"
  have ch: "chain l (as @ x # bs) = ?A @ x # ?B"
    by (simp add: chain_def)
  have dist: "distinct (?A @ x # ?B)" and link: "linked h (?A @ x # ?B)"
    and cells: "\<And>a. a \<in> set (?A @ x # ?B) \<Longrightarrow> cell h a"
    using k unfolding klist_def ch by blast+
  have mem: "?p \<in> set ?A" "?b \<in> set ?B"
    by (rule last_in_set hd_in_set; simp)+
  have ends: "head_of l \<noteq> ?b" "tail_of l \<noteq> ?p" "x \<noteq> ?p" "x \<noteq> ?b" "?p \<noteq> ?b"
    using dist mem by (auto simp del: hd_append last.simps)
  have c: "cell h ?p" "cell h ?b"
    using cells mem by (auto simp del: hd_append last.simps)
  note el = klist_elem [OF k]
  have run: "list_remove h x = Some (?b, h')"
    using el c ends by (simp add: list_remove_def h'_def)
  have "klist h' l (as @ bs)"
  proof (rule klistI)
    show "chain l (as @ bs) = ?A @ ?B"
      by (simp add: chain_def)
    show "linked h' (?A @ ?B)"
      unfolding h'_def by (rule linked_remove) (use dist link cells in auto)
    show "distinct (?A @ ?B)"
      using dist by auto
    show "prv h' (head_of l) = NULL" and "nxt h' (tail_of l) = NULL"
      using klist_ends [OF k] ends c by (simp_all add: h'_def)
    show "cell h' a" if "a \<in> set (?A @ ?B)" for a
      using that cells c by (auto simp: h'_def)
  qed
  moreover have "modifies (set (chain l (as @ bs))) h h'"
    unfolding h'_def chain_append using mem c by (intro modifies_upd modifies_refl) auto
  ultimately show ?thesis
    using run by blast
qed

end
