(* ===== verification/Klist_Splice.thy ===== *)
theory Klist_Splice
  imports Klist_Refine
begin

text \<open>
  \<open>list_splice\<close> with its three positions in one list: the block \<open>cs\<close> moves in front of
  the block \<open>bs\<close> by six link updates.
\<close>

lemma linked_splice:
  assumes "distinct (A @ B @ C @ D)" and "A \<noteq> []" "B \<noteq> []" "C \<noteq> []" "D \<noteq> []"
    and "linked h (A @ B @ C @ D)" and "\<And>a. a \<in> set (A @ B @ C @ D) \<Longrightarrow> cell h a"
  shows "linked (upd_prev (upd_next (upd_next (upd_prev (upd_prev (upd_next h (last B) (hd D))
    (hd D) (last B)) (hd C) (last A)) (last C) (hd B)) (last A) (hd C)) (hd B) (last C)) (A @ C @ B @ D)"
proof -
  have d: "distinct A" "distinct B" "distinct C" "distinct D"
    "set A \<inter> set B = {}" "set A \<inter> set C = {}" "set A \<inter> set D = {}"
    "set B \<inter> set C = {}" "set B \<inter> set D = {}" "set C \<inter> set D = {}"
    using assms(1) by auto
  have l: "linked h A" "linked h B" "linked h C" "linked h D"
    using assms(6) by (simp_all add: linked_append)
  have c: "cell h (last A)" "cell h (hd B)" "cell h (last B)" "cell h (hd C)" "cell h (last C)"
    "cell h (hd D)"
    using assms(2-5,7) by auto
  note m = disjoint_ends [OF d(5)] disjoint_ends [OF d(6)] disjoint_ends [OF d(7)]
    disjoint_ends [OF d(8)] disjoint_ends [OF d(9)] disjoint_ends [OF d(10)]
    last_notin_butlast [OF d(1)] hd_notin_tl [OF d(1)] last_notin_butlast [OF d(2)]
    hd_notin_tl [OF d(2)] last_notin_butlast [OF d(3)] hd_notin_tl [OF d(3)]
    last_notin_butlast [OF d(4)] hd_notin_tl [OF d(4)]
  have ne: "last A \<noteq> last B" "last B \<noteq> last A" "last A \<noteq> last C" "last C \<noteq> last A" "last C \<noteq> last B"
    "last B \<noteq> last C" "hd B \<noteq> hd C" "hd C \<noteq> hd B" "hd B \<noteq> hd D" "hd D \<noteq> hd B" "hd C \<noteq> hd D" "hd D \<noteq> hd C"
    using m assms(2-5) by (metis hd_in_set last_in_set)+
  show ?thesis
    unfolding linked_append using assms(2-5) l c m ne by simp
qed

lemma list_splice_klist:
  assumes k: "klist h l (as @ bs @ cs @ ds)" and "bs \<noteq> []" and "cs \<noteq> []"
  shows "\<exists>h'. list_splice h (hd bs) (hd cs) (hd (ds @ [tail_of l])) = Some h'
    \<and> klist h' l (as @ cs @ bs @ ds) \<and> modifies (set (chain l (as @ bs @ cs @ ds))) h h'"
proof -
  let ?A = "head_of l # as" and ?D = "ds @ [tail_of l]"
  define h' where "h' = upd_prev (upd_next (upd_next (upd_prev (upd_prev (upd_next h (last bs) (hd ?D))
    (hd ?D) (last bs)) (hd cs) (last ?A)) (last cs) (hd bs)) (last ?A) (hd cs)) (hd bs) (last cs)"
  have ch: "chain l (as @ bs @ cs @ ds) = ?A @ bs @ cs @ ?D" "chain l (as @ cs @ bs @ ds) = ?A @ cs @ bs @ ?D"
    by (simp_all add: chain_def)
  have dist: "distinct (?A @ bs @ cs @ ?D)" and link: "linked h (?A @ bs @ cs @ ?D)"
    and cells: "\<And>a. a \<in> set (?A @ bs @ cs @ ?D) \<Longrightarrow> cell h a"
    using k unfolding klist_def ch by blast+
  have mem: "last ?A \<in> set ?A" "hd ?D \<in> set ?D" "hd bs \<in> set bs" "last bs \<in> set bs"
    "hd cs \<in> set cs" "last cs \<in> set cs"
    by (rule last_in_set hd_in_set; simp add: assms(2,3))+
  have disj: "x \<noteq> y" if "x \<in> set P" "y \<in> set Q" "set P \<inter> set Q = {}" for x y :: ptr and P Q
    using that by blast
  have ds: "set ?A \<inter> set bs = {}" "set ?A \<inter> set cs = {}" "set ?A \<inter> set ?D = {}" "set bs \<inter> set cs = {}"
    "set bs \<inter> set ?D = {}" "set cs \<inter> set ?D = {}" "set cs \<inter> set bs = {}"
    using dist by auto
  have ne: "last ?A \<noteq> last bs" "last ?A \<noteq> last cs" "last bs \<noteq> last cs" "hd bs \<noteq> hd cs" "hd bs \<noteq> hd ?D"
    "hd cs \<noteq> hd ?D" "last cs \<noteq> last bs" "hd cs \<noteq> hd bs"
    using disj [OF mem(1,4) ds(1)] disj [OF mem(1,6) ds(2)] disj [OF mem(4,6) ds(4)]
      disj [OF mem(3,5) ds(4)] disj [OF mem(3,2) ds(5)] disj [OF mem(5,2) ds(6)]
    by (auto simp del: hd_append last.simps)
  have he: "head_of l \<noteq> hd bs" "head_of l \<noteq> hd cs" "head_of l \<noteq> hd ?D"
     "tail_of l \<noteq> last ?A" "tail_of l \<noteq> last bs" "tail_of l \<noteq> last cs"
    using mem ds by (auto simp del: hd_append last.simps)
  have c: "cell h (last ?A)" "cell h (hd ?D)" "cell h (hd bs)" "cell h (last bs)" "cell h (hd cs)"
    "cell h (last cs)"
    using cells mem by (auto simp del: hd_append last.simps)
  have s1: "prv h (hd bs) = last ?A" and s2: "prv h (hd cs) = last bs" and s3: "prv h (hd ?D) = last cs"
    and s4: "nxt h (last cs) = hd ?D"
    using link assms(2,3) unfolding linked_append by auto
  have i1: "is_interior h (hd bs) = Some True" and i2: "is_interior h (hd cs) = Some True"
    using klist_before [of h l as "bs @ cs @ ds"] klist_before [of h l "as @ bs" "cs @ ds"] k assms(2,3)
    by simp_all
  have i3: "is_interior h (last cs) = Some True"
  proof -
    have "(as @ bs @ butlast cs) @ last cs # ds = as @ bs @ (butlast cs @ [last cs]) @ ds"
      by simp
    also have "\<dots> = as @ bs @ cs @ ds"
      by (simp only: append_butlast_last_id [OF assms(3)])
    finally have "klist h l ((as @ bs @ butlast cs) @ last cs # ds)"
      using k by (simp only:)
    note klist_elem [OF this]
    then show ?thesis by simp
  qed
  have lp: "list_prev h (hd ?D) = Some (last cs)"
    using klist_before [of h l "as @ bs @ cs" ds] k s3 c by (simp add: list_prev_def)
  have run: "list_splice h (hd bs) (hd cs) (hd ?D) = Some h'"
    unfolding list_splice_def lp i1 i2 i3 using c s1 s2 s3 s4 ne
    by (simp add: h'_def i1 i2 i3 del: is_cell(2) hd_append last.simps)
  have "klist h' l (as @ cs @ bs @ ds)"
  proof (rule klistI [OF ch(2)])
    show "linked h' (?A @ cs @ bs @ ?D)"
      unfolding h'_def using dist link cells assms(2,3) by (intro linked_splice) auto
    show "distinct (?A @ cs @ bs @ ?D)"
      using dist by auto
    show "prv h' (head_of l) = NULL" and "nxt h' (tail_of l) = NULL"
      using klist_ends [OF k] he c by (simp_all add: h'_def del: hd_append last.simps)
    show "cell h' a" if "a \<in> set (?A @ cs @ bs @ ?D)" for a
      using that cells c by (auto simp: h'_def simp del: hd_append last.simps)
  qed
  moreover have "modifies (set (chain l (as @ bs @ cs @ ds))) h h'"
    unfolding h'_def ch using mem c
    by (intro modifies_upd modifies_refl) (auto simp del: hd_append last.simps)
  ultimately show ?thesis
    using run by blast
qed

end
