(* ===== verification/Klist_Ops.thy ===== *)
theory Klist_Ops
  imports Klist_Refine "HOL-Library.Multiset"
begin

text \<open>
  The routines of \<open>list.c\<close> built on insertion and removal, each shown to implement its
  sequence operation: initialisation, the deque operations, the traversals
  (\<open>list_size\<close>, \<open>list_max\<close>, \<open>list_min\<close>), ordered insertion, duplicate removal and
  reversal.
\<close>

section \<open>Initialisation, front and back\<close>

lemma list_init_klist:
  assumes "cell h (head_of l)" and "cell h (tail_of l)"
  shows "\<exists>h'. list_init h l = Some h' \<and> klist h' l [] \<and> modifies {head_of l, tail_of l} h h'"
proof -
  have "head_of l \<noteq> tail_of l" and "l \<noteq> NULL"
    using assms by (auto simp: head_of_def tail_of_def cell_def)
  then show ?thesis
    using assms by (auto simp: list_init_def klist_def chain_def intro!: modifies_upd)
qed

lemma list_front_klist: "klist h l (x # xs) \<Longrightarrow> list_front h l = Some x"
  using klist_split [of h l "[]" "x # xs"] by (simp add: list_front_def klist_head_tail)

lemma list_back_klist: "klist h l (xs @ [x]) \<Longrightarrow> list_back h l = Some x"
  using klist_tail [of h l "xs @ [x]"] by (simp add: list_back_def klist_head_tail)

lemma list_front_empty: "klist h l [] \<Longrightarrow> list_front h l = None"
  by (simp add: list_front_def)

lemma list_back_empty: "klist h l [] \<Longrightarrow> list_back h l = None"
  by (simp add: list_back_def)

lemma list_push_front_klist:
  assumes "klist h l xs" and "cell h e" and "e \<notin> set (chain l xs)"
  shows "\<exists>h'. list_push_front h l e = Some h' \<and> klist h' l (e # xs)
    \<and> modifies (insert e (set (chain l xs))) h h'"
  using list_insert_klist [of h l "[]" xs e] assms by (simp add: list_push_front_def)

lemma list_push_back_klist:
  assumes "klist h l xs" and "cell h e" and "e \<notin> set (chain l xs)"
  shows "\<exists>h'. list_push_back h l e = Some h' \<and> klist h' l (xs @ [e])
    \<and> modifies (insert e (set (chain l xs))) h h'"
  using list_insert_klist [of h l xs "[]" e] assms by (simp add: list_push_back_def)

lemma list_pop_front_klist:
  assumes "klist h l (x # xs)"
  shows "\<exists>h'. list_pop_front h l = Some (x, h') \<and> klist h' l xs \<and> modifies (set (chain l xs)) h h'"
  using list_remove_klist [of h l "[]" x xs] list_front_klist [OF assms] assms
  by (auto simp: list_pop_front_def)

lemma list_pop_back_klist:
  assumes "klist h l (xs @ [x])"
  shows "\<exists>h'. list_pop_back h l = Some (x, h') \<and> klist h' l xs \<and> modifies (set (chain l xs)) h h'"
  using list_remove_klist [of h l xs x "[]"] list_back_klist [OF assms] assms
  by (auto simp: list_pop_back_def)

lemma list_pop_empty:
  "klist h l [] \<Longrightarrow> list_pop_front h l = None" "klist h l [] \<Longrightarrow> list_pop_back h l = None"
  by (simp_all add: list_pop_front_def list_pop_back_def list_front_empty list_back_empty)

section \<open>Traversals\<close>

text \<open>An element of the list is not its tail, so a traversal stops only at the tail.\<close>

lemma klist_not_tail: "klist h l (as @ x # bs) \<Longrightarrow> x \<noteq> tail_of l"
  by (auto simp: klist_def chain_def)

text \<open>One step of a traversal standing at \<open>x\<close>.\<close>

lemmas klist_step = klist_not_tail klist_next

lemma list_size_loop_klist:
  assumes "klist h l (as @ bs)"
  shows "list_size_loop h l (hd (bs @ [tail_of l])) cnt = Some (if bs = [] then cnt else size_wrap (cnt + length bs))"
  using assms
proof (induction bs arbitrary: as cnt)
  case Nil
  then show ?case by (simp add: list_size_loop.simps [of h l "tail_of l"])
next
  case (Cons b bs)
  then show ?case
    using Cons.IH [of "as @ [b]"] klist_step [of h l as b bs]
    by (auto simp: list_size_loop.simps [of h l b] size_wrap_def mod_simps)
qed

lemma list_size_klist: "klist h l xs \<Longrightarrow> list_size h l = Some (size_wrap (length xs))"
  using list_size_loop_klist [of h l "[]" xs 0] by (simp add: list_size_def size_wrap_def)

lemma list_max_loop_klist:
  assumes "klist h l (as @ bs)"
  shows "list_max_loop lt h l m (hd (bs @ [tail_of l])) = Some (foldl (\<lambda>m e. if lt m e then e else m) m bs)"
  using assms
proof (induction bs arbitrary: as m)
  case Nil
  then show ?case by (simp add: list_max_loop.simps [of lt h l _ "tail_of l"])
next
  case (Cons b bs)
  then show ?case
    using Cons.IH [of "as @ [b]"] klist_step [of h l as b bs]
    by (auto simp: list_max_loop.simps [of lt h l _ b])
qed

lemma list_min_loop_klist:
  assumes "klist h l (as @ bs)"
  shows "list_min_loop lt h l m (hd (bs @ [tail_of l])) = Some (foldl (\<lambda>m e. if lt e m then e else m) m bs)"
  using assms
proof (induction bs arbitrary: as m)
  case Nil
  then show ?case by (simp add: list_min_loop.simps [of lt h l _ "tail_of l"])
next
  case (Cons b bs)
  then show ?case
    using Cons.IH [of "as @ [b]"] klist_step [of h l as b bs]
    by (auto simp: list_min_loop.simps [of lt h l _ b])
qed

lemma list_max_klist:
  "klist h l (x # xs) \<Longrightarrow> list_max lt h l = Some (foldl (\<lambda>m e. if lt m e then e else m) x xs)"
  using list_max_loop_klist [of h l "[x]" xs lt x] klist_step [of h l "[]" x xs]
  by (simp add: list_max_def)

lemma list_min_klist:
  "klist h l (x # xs) \<Longrightarrow> list_min lt h l = Some (foldl (\<lambda>m e. if lt e m then e else m) x xs)"
  using list_min_loop_klist [of h l "[x]" xs lt x] klist_step [of h l "[]" x xs]
  by (simp add: list_min_def)

lemma list_max_min_empty:
  "klist h l [] \<Longrightarrow> list_max lt h l = list_end l" "klist h l [] \<Longrightarrow> list_min lt h l = list_end l"
  by (simp_all add: list_max_def list_min_def)

text \<open>
  The comparison functions of the kernel are strict weak orders: irreflexive and
  transitive, with \<open>\<not> lt\<close> transitive as well.
\<close>

definition weak_order :: "('a \<Rightarrow> 'a \<Rightarrow> bool) \<Rightarrow> bool" where
  "weak_order lt \<longleftrightarrow> (\<forall>a b. lt a b \<longrightarrow> \<not> lt b a) \<and> (\<forall>a b c. \<not> lt a b \<longrightarrow> \<not> lt b c \<longrightarrow> \<not> lt a c)"

lemma weak_order_asym: "weak_order lt \<Longrightarrow> lt a b \<Longrightarrow> \<not> lt b a"
  unfolding weak_order_def by blast

lemma weak_order_trans: "weak_order lt \<Longrightarrow> \<not> lt a b \<Longrightarrow> \<not> lt b c \<Longrightarrow> \<not> lt a c"
  unfolding weak_order_def by blast

lemma weak_order_key: "weak_order (\<lambda>a b. (f a :: 'b :: linorder) < f b)"
  and weak_order_key_rev: "weak_order (\<lambda>a b. (f a :: 'b :: linorder) > f b)"
  by (auto simp: weak_order_def)

lemma weak_order_flip: "weak_order lt \<Longrightarrow> weak_order (\<lambda>a b. lt b a)"
  unfolding weak_order_def by blast

lemma foldl_select:
  assumes "weak_order lt"
  defines "f \<equiv> foldl (\<lambda>m e. if lt m e then e else m)"
  shows "f x xs \<in> set (x # xs) \<and> (\<forall>y \<in> set (x # xs). \<not> lt (f x xs) y)"
proof (induction xs arbitrary: x)
  case Nil
  then show ?case
    using weak_order_asym [OF assms(1), of x x] by (auto simp: f_def)
next
  case (Cons y ys)
  let ?m = "if lt x y then y else x"
  have "f x (y # ys) = f ?m ys"
    by (simp add: f_def)
  moreover have "\<not> lt ?m x \<and> \<not> lt ?m y"
    using weak_order_asym [OF assms(1), of x y] weak_order_asym [OF assms(1), of x x]
      weak_order_asym [OF assms(1), of y y] by auto
  moreover have "\<not> lt (f ?m ys) ?m"
    using Cons.IH [of ?m] by simp
  ultimately have "\<not> lt (f ?m ys) x" and "\<not> lt (f ?m ys) y"
    using weak_order_trans [OF assms(1), of "f ?m ys" ?m] by blast+
  then show ?case
    using Cons.IH [of ?m] \<open>f x (y # ys) = f ?m ys\<close> by auto
qed

section \<open>Ordered insertion\<close>

text \<open>The sequence operation: before the first element that \<open>x\<close> precedes.\<close>

definition seq_insert :: "('a \<Rightarrow> 'a \<Rightarrow> bool) \<Rightarrow> 'a \<Rightarrow> 'a list \<Rightarrow> 'a list" where
  "seq_insert lt x xs = takeWhile (\<lambda>y. \<not> lt x y) xs @ x # dropWhile (\<lambda>y. \<not> lt x y) xs"

lemma seq_insert_simps [simp]:
  "seq_insert lt x [] = [x]"
  "seq_insert lt x (y # ys) = (if lt x y then x # y # ys else y # seq_insert lt x ys)"
  by (simp_all add: seq_insert_def)

lemma set_seq_insert [simp]: "set (seq_insert lt x xs) = insert x (set xs)"
  by (induction xs) auto

lemma mset_seq_insert [simp]: "mset (seq_insert lt x xs) = add_mset x (mset xs)"
  by (induction xs) auto

lemma length_seq_insert [simp]: "length (seq_insert lt x xs) = Suc (length xs)"
  by (induction xs) auto

definition ordered :: "('a \<Rightarrow> 'a \<Rightarrow> bool) \<Rightarrow> 'a list \<Rightarrow> bool" where
  "ordered lt = sorted_wrt (\<lambda>a b. \<not> lt b a)"

lemma ordered_simps [simp]:
  "ordered lt []"
  "ordered lt (x # xs) \<longleftrightarrow> (\<forall>y \<in> set xs. \<not> lt y x) \<and> ordered lt xs"
  by (auto simp: ordered_def)

lemma ordered_append:
  "ordered lt (xs @ ys) \<longleftrightarrow> ordered lt xs \<and> ordered lt ys \<and> (\<forall>x \<in> set xs. \<forall>y \<in> set ys. \<not> lt y x)"
  by (auto simp: ordered_def sorted_wrt_append)

lemma ordered_seq_insert:
  assumes "weak_order lt" and "ordered lt xs"
  shows "ordered lt (seq_insert lt x xs)"
  using assms(2)
proof (induction xs)
  case (Cons y ys)
  show ?case
  proof (cases "lt x y")
    case True
    then show ?thesis
      using Cons.prems weak_order_asym [OF assms(1)] weak_order_trans [OF assms(1), of _ y x]
      by simp
  next
    case False
    then show ?thesis
      using Cons by simp
  qed
qed simp

lemma list_insert_ordered_loop_klist:
  assumes "klist h l (as @ bs)"
  shows "list_insert_ordered_loop lt h l x (hd (bs @ [tail_of l]))
    = Some (hd (dropWhile (\<lambda>y. \<not> lt x y) bs @ [tail_of l]))"
  using assms
proof (induction bs arbitrary: as)
  case Nil
  then show ?case by (simp add: list_insert_ordered_loop.simps [of lt h l x "tail_of l"])
next
  case (Cons b bs)
  then show ?case
    using Cons.IH [of "as @ [b]"] klist_step [of h l as b bs]
    by (auto simp: list_insert_ordered_loop.simps [of lt h l x b])
qed

lemma list_insert_ordered_klist:
  assumes "klist h l xs" and "cell h e" and "e \<notin> set (chain l xs)"
  shows "\<exists>h'. list_insert_ordered lt h l e = Some h' \<and> klist h' l (seq_insert lt e xs)
    \<and> modifies (insert e (set (chain l xs))) h h'"
proof -
  let ?P = "\<lambda>y. \<not> lt e y"
  have "list_insert_ordered lt h l e = list_insert h (hd (dropWhile ?P xs @ [tail_of l])) e"
    using assms list_insert_ordered_loop_klist [of h l "[]" xs lt e]
    by (simp add: list_insert_ordered_def klist_NULL cell_not_NULL)
  then show ?thesis
    using list_insert_klist [of h l "takeWhile ?P xs" "dropWhile ?P xs" e] assms
    by (simp add: seq_insert_def)
qed

section \<open>Reversal\<close>

text \<open>The effect of the loop: both links of every element of \<open>A\<close> are exchanged.\<close>

definition swapped :: "ptr set \<Rightarrow> lheap \<Rightarrow> lheap \<Rightarrow> bool" where
  "swapped A h h' \<longleftrightarrow> (\<forall>a. cell h' a = cell h a)
     \<and> (\<forall>a. nxt h' a = (if a \<in> A then prv h a else nxt h a))
     \<and> (\<forall>a. prv h' a = (if a \<in> A then nxt h a else prv h a))
     \<and> modifies A h h'"

lemma swapped_step:
  assumes "swapped A h h'" and "cell h e" and "e \<notin> A"
  shows "\<exists>h''. swap_links h' e = Some h'' \<and> swapped (insert e A) h h''"
proof -
  have "cell h' e" "nxt h' e = nxt h e" "prv h' e = prv h e"
    using assms by (auto simp: swapped_def)
  moreover have "modifies (insert e A) h (upd_next (upd_prev h' e (nxt h e)) e (prv h e))"
    using assms calculation(1) by (intro modifies_upd) (auto simp: swapped_def elim: modifies_mono)
  ultimately show ?thesis
    using assms by (auto simp: swapped_def swap_links_def)
qed

lemma list_reverse_loop_klist:
  assumes "klist h l (as @ bs)" and "swapped (set as) h h'"
  shows "\<exists>h''. list_reverse_loop h' l (hd (bs @ [tail_of l])) = Some h'' \<and> swapped (set (as @ bs)) h h''"
  using assms
proof (induction bs arbitrary: as h')
  case Nil
  then show ?case by (simp add: list_reverse_loop.simps [of _ l "tail_of l"])
next
  case (Cons b bs)
  have "cell h b" and "b \<notin> set as"
    using klist_elem(1) [OF Cons.prems(1)] Cons.prems(1) by (auto simp: klist_def chain_def)
  then obtain h1 where h1: "swap_links h' b = Some h1" "swapped (insert b (set as)) h h1"
    using swapped_step [OF Cons.prems(2)] by blast
  have "list_reverse_loop h' l b = list_reverse_loop h1 l (hd (bs @ [tail_of l]))"
    using h1 klist_elem [OF Cons.prems(1)] klist_not_tail [OF Cons.prems(1)] Cons.prems(1) \<open>cell h b\<close>
    by (simp add: list_reverse_loop.simps [of _ l b] swapped_def)
  then show ?case
    using Cons.IH [of "as @ [b]" h1] Cons.prems h1(2) by simp
qed

lemma linked_rev:
  assumes "\<And>a. a \<in> set xs \<Longrightarrow> nxt h' a = prv h a \<and> prv h' a = nxt h a"
  shows "linked h' (rev xs) = linked h xs"
  using assms
proof (induction xs rule: induct_list012)
  case (3 x y zs)
  then have "linked h' (rev (y # zs)) = linked h (y # zs)"
    by simp
  then show ?case
    using 3(3) by (auto simp: linked_append last_rev)
qed auto

text \<open>
  \<open>list_reverse\<close> leaves exactly the reversed sequence, with consistent links in both
  directions, and touches nothing outside the list.
\<close>

theorem list_reverse_correct:
  assumes k: "klist h l xs"
  shows "\<exists>h'. list_reverse h l = Some h' \<and> klist h' l (rev xs) \<and> modifies (set (chain l xs)) h h'"
proof (cases "xs = []")
  case True
  then show ?thesis
    using k by (auto simp: list_reverse_def)
next
  case False
  let ?H = "head_of l" and ?T = "tail_of l" and ?x = "hd xs" and ?y = "last xs"
  obtain h1 where h1: "list_reverse_loop h l ?x = Some h1" "swapped (set xs) h h1"
    using list_reverse_loop_klist [of h l "[]" xs h] k False by (auto simp: swapped_def)
  define h' where
    "h' = upd_next (upd_prev (upd_prev (upd_next h1 ?H ?y) ?T ?x) ?y ?H) ?x ?T"
  have d: "distinct (?H # xs @ [?T])" and c: "\<And>a. a \<in> set (?H # xs @ [?T]) \<Longrightarrow> cell h1 a"
    and lk: "linked h xs"
    using k h1(2) by (auto simp: klist_def chain_def swapped_def linked_append [of _ "[?H]" "xs @ [?T]", simplified] linked_append [of _ xs])
  have mem: "?x \<in> set xs" "?y \<in> set xs"
    using False by simp_all
  have ne: "?H \<noteq> ?x" "?H \<noteq> ?y" "?T \<noteq> ?x" "?T \<noteq> ?y" "?H \<noteq> ?T"
    using d mem by auto
  have cs: "cell h1 ?H" "cell h1 ?T" "cell h1 ?x" "cell h1 ?y"
    using c mem by auto
  have lks: "nxt h1 ?H = ?x" "prv h1 ?T = ?y" "prv h1 ?y = ?T" "nxt h1 ?x = ?H"
      "prv h1 ?H = NULL" "nxt h1 ?T = NULL"
    using h1(2) d mem klist_split [of h l "[]" xs] klist_split [of h l xs "[]"] klist_ends [OF k] k False
    by (auto simp: swapped_def)
  have run: "list_reverse h l = Some h'"
    using k h1(1) cs lks ne False by (simp add: list_reverse_def h'_def)
  have "linked h1 (rev xs)"
    using linked_rev [of xs h1 h] lk h1(2) by (simp add: swapped_def)
  then have "linked h' (rev xs)"
    unfolding h'_def using cs d False last_notin_butlast [of "rev xs"] hd_notin_tl [of "rev xs"]
    by (simp add: hd_rev last_rev)
  then have "linked h' ([?H] @ rev xs @ [?T])"
    unfolding linked_append using cs ne False by (simp add: h'_def hd_rev last_rev)
  moreover have "cell h' a" if "a \<in> set ([?H] @ rev xs @ [?T])" for a
    using that c cs by (auto simp: h'_def)
  moreover have "prv h' ?H = NULL" "nxt h' ?T = NULL"
    using lks ne cs by (simp_all add: h'_def)
  moreover have "distinct ([?H] @ rev xs @ [?T])"
    using d by simp
  ultimately have "klist h' l (rev xs)"
    by (intro klistI [of l "rev xs" "[?H] @ rev xs @ [?T]"]) (simp_all add: chain_def)
  moreover have "modifies (set (chain l xs)) h h'"
    unfolding h'_def using h1(2) mem cs by (intro modifies_upd) (auto simp: chain_def swapped_def elim: modifies_mono)
  ultimately show ?thesis
    using run by blast
qed

theorem list_reverse_correct_witness:
  "let h = [8 \<mapsto> \<lparr>elem_prev = 0, elem_next = 50\<rparr>, 50 \<mapsto> \<lparr>elem_prev = 8, elem_next = 40\<rparr>,
      40 \<mapsto> \<lparr>elem_prev = 50, elem_next = 16\<rparr>, 16 \<mapsto> \<lparr>elem_prev = 40, elem_next = 0\<rparr>] in
   \<exists>h'. list_reverse h 8 = Some h' \<and> klist h' 8 (rev [50, 40]) \<and> modifies (set (chain 8 [50, 40])) h h'"
  unfolding Let_def
  by (rule list_reverse_correct)
    (simp_all add: klist_def chain_def head_of_def tail_of_def cell_def prv_def nxt_def)

section \<open>Ordered insertion and transfer between lists\<close>

lemma ordered_dropWhile:
  assumes "weak_order lt" and "ordered lt xs"
  shows "\<forall>z \<in> set (dropWhile (\<lambda>y. \<not> lt e y) xs). lt e z"
  using assms(2)
proof (induction xs)
  case (Cons x xs)
  show ?case
  proof (cases "lt e x")
    case True
    have "\<forall>z \<in> set xs. lt e z"
    proof
      fix z assume "z \<in> set xs"
      then have "\<not> lt z x"
        using Cons.prems by simp
      then show "lt e z"
        using True weak_order_trans [OF assms(1), of e z x] by blast
    qed
    then show ?thesis
      using True by simp
  next
    case False
    then have eq: "dropWhile (\<lambda>y. \<not> lt e y) (x # xs) = dropWhile (\<lambda>y. \<not> lt e y) xs"
      by simp
    have "ordered lt xs"
      using Cons.prems by simp
    then show ?thesis
      unfolding eq by (rule Cons.IH)
  qed
qed simp

text \<open>
  C5: inserting into a list that is in order never fails and puts the element after
  every element it does not precede and before every element it precedes, so the list
  stays in order and elements of equal rank keep their arrival order.
\<close>

theorem list_insert_ordered_correct:
  assumes "weak_order lt" and "klist h l xs" and "ordered lt xs" and "cell h e" and "e \<notin> set (chain l xs)"
  shows "\<exists>h' ys zs. list_insert_ordered lt h l e = Some h' \<and> klist h' l (ys @ e # zs) \<and> xs = ys @ zs
    \<and> (\<forall>y \<in> set ys. \<not> lt e y) \<and> (\<forall>z \<in> set zs. lt e z) \<and> ordered lt (ys @ e # zs)
    \<and> modifies (insert e (set (chain l xs))) h h'"
proof -
  let ?P = "\<lambda>y. \<not> lt e y"
  obtain h' where "list_insert_ordered lt h l e = Some h'" "klist h' l (seq_insert lt e xs)"
      "modifies (insert e (set (chain l xs))) h h'"
    using list_insert_ordered_klist [OF assms(2,4,5)] by blast
  moreover have "\<forall>y \<in> set (takeWhile ?P xs). \<not> lt e y"
    by (auto dest: set_takeWhileD)
  ultimately show ?thesis
    using ordered_dropWhile [OF assms(1,3)] ordered_seq_insert [OF assms(1,3), of e]
    unfolding seq_insert_def by (metis takeWhile_dropWhile_id)
qed

theorem list_insert_ordered_correct_witness:
  "let h = [8 \<mapsto> \<lparr>elem_prev = 0, elem_next = 50\<rparr>, 50 \<mapsto> \<lparr>elem_prev = 8, elem_next = 16\<rparr>,
      16 \<mapsto> \<lparr>elem_prev = 50, elem_next = 0\<rparr>, 40 \<mapsto> \<lparr>elem_prev = 7, elem_next = 7\<rparr>] in
   \<exists>h' ys zs. list_insert_ordered (<) h 8 40 = Some h' \<and> klist h' 8 (ys @ 40 # zs) \<and> [50] = ys @ zs
     \<and> (\<forall>y \<in> set ys. \<not> 40 < y) \<and> (\<forall>z \<in> set zs. 40 < z) \<and> ordered (<) (ys @ 40 # zs)
     \<and> modifies (insert 40 (set (chain 8 [50]))) h h'"
  unfolding Let_def
  by (rule list_insert_ordered_correct)
    (simp_all add: weak_order_def klist_def chain_def head_of_def tail_of_def cell_def prv_def nxt_def)

text \<open>
  Taking the first element off one list and appending it to another one that shares
  no cell with it leaves both lists well formed: the first without the element, the
  second with the element at its end.  This is the step by which a waiter moves from
  one queue of the kernel to another.
\<close>

theorem list_transfer_correct:
  assumes a: "klist h a (x # xs)" and b: "klist h b ys"
    and dj: "set (chain a (x # xs)) \<inter> set (chain b ys) = {}"
  shows "\<exists>h1 h2. list_pop_front h a = Some (x, h1) \<and> list_push_back h1 b x = Some h2
    \<and> klist h2 a xs \<and> klist h2 b (ys @ [x]) \<and> set (chain a xs) \<inter> set (chain b (ys @ [x])) = {}"
proof -
  obtain h1 where h1: "list_pop_front h a = Some (x, h1)" "klist h1 a xs" "modifies (set (chain a xs)) h h1"
    using list_pop_front_klist [OF a] by blast
  have sub: "set (chain a xs) \<subseteq> set (chain a (x # xs))" and x: "x \<notin> set (chain a xs)" "x \<in> set (chain a (x # xs))"
    using a by (auto simp: chain_def klist_def)
  have "klist h1 b ys"
    using b h1(3) by (rule klist_frame) (use sub dj in blast)
  moreover have "cell h1 x"
    using modifies_cell [OF h1(3)] klist_elem(1) [of h a "[]" x xs] a by simp
  ultimately obtain h2 where h2: "list_push_back h1 b x = Some h2" "klist h2 b (ys @ [x])"
      "modifies (insert x (set (chain b ys))) h1 h2"
    using list_push_back_klist [of h1 b ys x] dj x(2) by blast
  have "klist h2 a xs"
    using h1(2) h2(3) by (rule klist_frame) (use sub dj x in blast)
  moreover have "set (chain a xs) \<inter> set (chain b (ys @ [x])) = {}"
    using dj x sub by (auto simp: chain_def)
  ultimately show ?thesis
    using h1(1) h2(1,2) by blast
qed

theorem list_transfer_correct_witness:
  "let h = [8 \<mapsto> \<lparr>elem_prev = 0, elem_next = 50\<rparr>, 50 \<mapsto> \<lparr>elem_prev = 8, elem_next = 16\<rparr>,
      16 \<mapsto> \<lparr>elem_prev = 50, elem_next = 0\<rparr>, 108 \<mapsto> \<lparr>elem_prev = 0, elem_next = 116\<rparr>,
      116 \<mapsto> \<lparr>elem_prev = 108, elem_next = 0\<rparr>] in
   \<exists>h1 h2. list_pop_front h 8 = Some (50, h1) \<and> list_push_back h1 108 50 = Some h2
    \<and> klist h2 8 [] \<and> klist h2 108 ([] @ [50]) \<and> set (chain 8 []) \<inter> set (chain 108 ([] @ [50])) = {}"
  unfolding Let_def
  by (rule list_transfer_correct)
    (simp_all add: klist_def chain_def head_of_def tail_of_def cell_def prv_def nxt_def)

end
