(* ===== verification/Natural_Merge.thy ===== *)
theory Natural_Merge
  imports Klist_Ops
begin

text \<open>
  The natural merge sort of \<open>list_sort\<close> on sequences: splitting off the first run, the
  merge of two runs, one pass over the sequence.  A pass keeps the multiset of elements
  and the relative order of equivalent ones, and halves the number of runs.
\<close>

section \<open>Runs, merges and passes on sequences\<close>

fun sorted_adj :: "('a \<Rightarrow> 'a \<Rightarrow> bool) \<Rightarrow> 'a list \<Rightarrow> bool" where
  "sorted_adj lt (x # y # ys) \<longleftrightarrow> \<not> lt y x \<and> sorted_adj lt (y # ys)"
| "sorted_adj lt _ \<longleftrightarrow> True"

fun take_run :: "('a \<Rightarrow> 'a \<Rightarrow> bool) \<Rightarrow> 'a \<Rightarrow> 'a list \<Rightarrow> 'a list" where
  "take_run lt x [] = []"
| "take_run lt x (y # ys) = (if lt y x then [] else y # take_run lt y ys)"

fun drop_run :: "('a \<Rightarrow> 'a \<Rightarrow> bool) \<Rightarrow> 'a \<Rightarrow> 'a list \<Rightarrow> 'a list" where
  "drop_run lt x [] = []"
| "drop_run lt x (y # ys) = (if lt y x then y # ys else drop_run lt y ys)"

lemma take_drop_run: "take_run lt x ys @ drop_run lt x ys = ys"
  by (induction ys arbitrary: x) auto

lemma drop_run_length: "length (drop_run lt x ys) \<le> length ys"
  by (induction ys arbitrary: x) (auto intro: le_SucI)

lemma sorted_adj_take_run [simp]: "sorted_adj lt (x # take_run lt x ys)"
  by (induction ys arbitrary: x) auto

fun merge :: "('a \<Rightarrow> 'a \<Rightarrow> bool) \<Rightarrow> 'a list \<Rightarrow> 'a list \<Rightarrow> 'a list" where
  "merge lt (p # ps) (q # qs) = (if lt q p then q # merge lt (p # ps) qs else p # merge lt ps (q # qs))"
| "merge lt [] qs = qs"
| "merge lt ps [] = ps"

function pass :: "('a \<Rightarrow> 'a \<Rightarrow> bool) \<Rightarrow> 'a list \<Rightarrow> 'a list" where
  "pass lt [] = []"
| "pass lt (x # ys) = (case drop_run lt x ys of
     [] \<Rightarrow> x # ys
   | z # zs \<Rightarrow> merge lt (x # take_run lt x ys) (z # take_run lt z zs) @ pass lt (drop_run lt z zs))"
  by pat_completeness auto
termination
proof (relation "measure (\<lambda>(lt, xs). length xs)")
  fix lt :: "'a \<Rightarrow> 'a \<Rightarrow> bool" and x z :: 'a and ys zs
  assume "drop_run lt x ys = z # zs"
  then have "length zs < length ys"
    using drop_run_length [of lt x ys] by simp
  then show "((lt, drop_run lt z zs), lt, x # ys) \<in> measure (\<lambda>(lt, xs). length xs)"
    using drop_run_length [of lt z zs] by simp
qed simp

text \<open>The number of maximal runs, and the number of runs a pass puts out.\<close>

function runs :: "('a \<Rightarrow> 'a \<Rightarrow> bool) \<Rightarrow> 'a list \<Rightarrow> nat" where
  "runs lt [] = 0"
| "runs lt (x # ys) = Suc (runs lt (drop_run lt x ys))"
  by pat_completeness auto
termination
  by (relation "measure (\<lambda>(lt, xs). length xs)") (simp_all add: le_imp_less_Suc drop_run_length)

section \<open>Multisets, order and stability\<close>

lemma mset_merge [simp]: "mset (merge lt ps qs) = mset ps + mset qs"
  by (induction lt ps qs rule: merge.induct) auto

lemma set_merge [simp]: "set (merge lt ps qs) = set ps \<union> set qs"
  by (induction lt ps qs rule: merge.induct) auto

lemma sorted_adj_ordered: "weak_order lt \<Longrightarrow> sorted_adj lt xs = ordered lt xs"
proof (induction lt xs rule: sorted_adj.induct)
  case (1 lt x y ys)
  then have "sorted_adj lt (y # ys) = ordered lt (y # ys)"
    by blast
  then show ?case
    using weak_order_trans [OF 1(2), of _ y x] by auto
qed auto

lemma ordered_take_run: "weak_order lt \<Longrightarrow> ordered lt (x # take_run lt x ys)"
  by (simp only: sorted_adj_ordered [symmetric] sorted_adj_take_run)

lemma ordered_merge:
  assumes "weak_order lt"
  shows "ordered lt ps \<Longrightarrow> ordered lt qs \<Longrightarrow> ordered lt (merge lt ps qs)"
proof (induction ps arbitrary: qs)
  case (Cons p ps)
  note outer = Cons
  from Cons.prems(2) show ?case
  proof (induction qs)
    case (Cons q qs)
    show ?case
    proof (cases "lt q p")
      case True
      then show ?thesis
        using Cons outer(2) weak_order_asym [OF assms True] weak_order_trans [OF assms, of _ p q] by auto
    next
      case False
      then show ?thesis
        using Cons outer(2) outer(1) [of "q # qs"] weak_order_trans [OF assms, of _ q p] by auto
    qed
  qed (use outer(2) in simp)
qed simp

definition equiv :: "('a \<Rightarrow> 'a \<Rightarrow> bool) \<Rightarrow> 'a \<Rightarrow> 'a \<Rightarrow> bool" where
  "equiv lt c x \<longleftrightarrow> \<not> lt c x \<and> \<not> lt x c"

lemma merge_stable:
  assumes w: "weak_order lt"
  shows "ordered lt ps \<Longrightarrow> filter (equiv lt c) (merge lt ps qs) = filter (equiv lt c) (ps @ qs)"
proof (induction ps arbitrary: qs)
  case (Cons p ps)
  note outer = Cons
  show ?case
  proof (induction qs)
    case (Cons q qs)
    show ?case
    proof (cases "lt q p")
      case True
      have "\<not> equiv lt c y" if "equiv lt c q" and "y \<in> set (p # ps)" for y
      proof
        assume "equiv lt c y"
        then have "\<not> lt q y"
          using that(1) weak_order_trans [OF w, of q c y] by (simp add: equiv_def)
        moreover have "\<not> lt y p"
          using that(2) outer(2) weak_order_asym [OF w, of p p] by auto
        ultimately show False
          using weak_order_trans [OF w, of q y p] True by blast
      qed
      then have "filter (equiv lt c) (p # ps) = []" if "equiv lt c q"
        using that by (simp add: filter_empty_conv del: filter.simps)
      then show ?thesis
        using Cons True by (cases "equiv lt c q") auto
    next
      case False
      then show ?thesis
        using outer(1) [of "q # qs"] outer(2) by simp
    qed
  qed simp
qed simp

lemma pass_Cons_cases:
  obtains "drop_run lt x ys = []" and "take_run lt x ys = ys"
  | z zs where "drop_run lt x ys = z # zs"
      and "x # ys = (x # take_run lt x ys) @ (z # take_run lt z zs) @ drop_run lt z zs"
  using take_drop_run [of lt x ys] take_drop_run [of lt _ _]
  by (cases "drop_run lt x ys") (force, metis append_Cons)

lemma mset_pass: "mset (pass lt xs) = mset xs"
proof (induction lt xs rule: pass.induct)
  case (2 lt x ys)
  show ?case
  proof (cases rule: pass_Cons_cases [of lt x ys])
    case (2 z zs)
    then show ?thesis
      using "2.IH" by (metis (no_types, lifting) list.simps(5) mset_append mset_merge pass.simps(2) add.assoc)
  qed simp
qed simp

lemma pass_stable:
  assumes "weak_order lt"
  shows "filter (equiv lt c) (pass lt xs) = filter (equiv lt c) xs"
  using assms
proof (induction lt xs rule: pass.induct)
  case (2 lt x ys)
  show ?case
  proof (cases rule: pass_Cons_cases [of lt x ys])
    case (2 z zs)
    let ?r = "x # take_run lt x ys" and ?s = "z # take_run lt z zs"
    have "ordered lt ?r"
      by (rule ordered_take_run [OF "2.prems"])
    then have "filter (equiv lt c) (pass lt (x # ys))
        = filter (equiv lt c) (?r @ ?s) @ filter (equiv lt c) (pass lt (drop_run lt z zs))"
      using 2(1) merge_stable [OF "2.prems", of ?r c ?s] by (simp del: merge.simps filter.simps)
    also have "\<dots> = filter (equiv lt c) (?r @ ?s @ drop_run lt z zs)"
      using "2.IH" [OF 2(1) "2.prems"] by simp
    also have "\<dots> = filter (equiv lt c) (x # ys)"
      by (simp only: 2(2) [symmetric])
    finally show ?thesis .
  qed simp
qed simp

section \<open>The number of runs\<close>

lemma drop_run_append:
  "sorted_adj lt (x # xs) \<Longrightarrow> drop_run lt x (xs @ ys) =
    (case ys of [] \<Rightarrow> [] | z # zs \<Rightarrow> if lt z (last (x # xs)) then ys else drop_run lt z zs)"
  by (induction xs arbitrary: x) (auto split: list.splits)

lemma runs_append: "sorted_adj lt xs \<Longrightarrow> runs lt (xs @ ys) \<le> Suc (runs lt ys)"
  using drop_run_append [of lt "hd xs" "tl xs" ys] by (cases xs; cases ys) auto

lemma runs_le_1: "runs lt xs \<le> 1 \<Longrightarrow> sorted_adj lt xs"
proof (cases xs)
  case (Cons x ys)
  assume "runs lt xs \<le> 1"
  then have "drop_run lt x ys = []"
    using Cons by (cases "drop_run lt x ys") auto
  then show ?thesis
    using Cons take_drop_run [of lt x ys] sorted_adj_take_run [of lt x ys] by simp
qed simp

lemma runs_pass:
  assumes "weak_order lt"
  shows "runs lt (pass lt xs) \<le> (runs lt xs + 1) div 2"
  using assms
proof (induction lt xs rule: pass.induct)
  case (2 lt x ys)
  show ?case
  proof (cases rule: pass_Cons_cases [of lt x ys])
    case 1
    then show ?thesis by simp
  next
    case (2 z zs)
    let ?r = "x # take_run lt x ys" and ?s = "z # take_run lt z zs"
    have "sorted_adj lt (merge lt ?r ?s)"
      unfolding sorted_adj_ordered [OF "2.prems"]
      by (intro ordered_merge ordered_take_run "2.prems")
    then have "runs lt (pass lt (x # ys)) \<le> Suc (runs lt (pass lt (drop_run lt z zs)))"
      using 2(1) runs_append by (simp del: merge.simps)
    also have "\<dots> \<le> Suc ((runs lt (drop_run lt z zs) + 1) div 2)"
      using "2.IH" [OF 2(1) "2.prems"] by simp
    finally show ?thesis
      using 2(1) by simp
  qed
qed simp

lemma runs_length: "runs lt xs \<le> length xs"
proof (induction lt xs rule: runs.induct)
  case (2 lt x ys)
  then show ?case
    using drop_run_length [of lt x ys] by simp
qed simp

end
