(* ===== verification/Klist_Sort.thy ===== *)
theory Klist_Sort
  imports Klist_Splice Natural_Merge
begin

text \<open>
  The pointer routines behind \<open>list_sort\<close> compute the sequence functions of the natural
  merge sort: run detection, the sortedness assertions, the in-place merge by splices,
  and one pass.  From these the total correctness of \<open>list_sort\<close> follows.
  \<open>list_unique\<close> is treated at the end.
\<close>

section \<open>Run detection and the sortedness assertions\<close>

lemma klist_distinct: "klist h l xs \<Longrightarrow> distinct (xs @ [tail_of l])"
  by (simp add: klist_def chain_def)

text \<open>Two positions of a list are equal only when nothing lies between them.\<close>

lemma klist_pos_eq:
  assumes "klist h l (as @ bs @ cs)"
  shows "hd (bs @ cs @ [tail_of l]) = hd (cs @ [tail_of l]) \<longleftrightarrow> bs = []"
proof (cases bs)
  case (Cons b bs')
  have "hd (cs @ [tail_of l]) \<in> set (cs @ [tail_of l])"
    by (rule hd_in_set) simp
  then show ?thesis
    using klist_distinct [OF assms] Cons by auto
qed simp

lemma is_sorted_loop_klist:
  assumes "klist h l (as @ x # bs @ cs)"
  shows "is_sorted_loop lt h x (hd (cs @ [tail_of l])) = Some (sorted_adj lt (x # bs))"
  using assms
proof (induction bs arbitrary: as x)
  case Nil
  then show ?case
    using klist_next [of h l as x cs] by (simp add: is_sorted_loop.simps [of lt h x])
next
  case (Cons b bs)
  have "list_next h x = Some b" and "list_prev h b = Some x"
    using klist_next [of h l as x "b # bs @ cs"] klist_prev [of h l "as @ [x]" b "bs @ cs"] Cons.prems by simp_all
  moreover have "b \<noteq> hd (cs @ [tail_of l])"
    using klist_pos_eq [of h l "as @ [x]" "b # bs" cs] Cons.prems by simp
  moreover have "is_sorted_loop lt h b (hd (cs @ [tail_of l])) = Some (sorted_adj lt (b # bs))"
    using Cons.IH [of "as @ [x]" b] Cons.prems by simp
  ultimately show ?case
    by (simp add: is_sorted_loop.simps [of lt h x] del: hd_append)
qed

lemma is_sorted_klist:
  assumes "klist h l (as @ bs @ cs)"
  shows "is_sorted lt h (hd (bs @ cs @ [tail_of l])) (hd (cs @ [tail_of l])) = Some (sorted_adj lt bs)"
  using klist_pos_eq [OF assms] is_sorted_loop_klist [of h l as "hd bs" "tl bs" cs lt] assms
  by (cases bs) (simp_all add: is_sorted_def)

lemma find_end_of_run_loop_klist:
  assumes "klist h l (as @ x # bs)"
  shows "find_end_of_run_loop lt h x (tail_of l) = Some (hd (drop_run lt x bs @ [tail_of l]))"
  using assms
proof (induction bs arbitrary: as x)
  case Nil
  then show ?case
    using klist_next [of h l as x "[]"] by (simp add: find_end_of_run_loop.simps [of lt h x])
next
  case (Cons b bs)
  have "list_next h x = Some b" and "list_prev h b = Some x" and "b \<noteq> tail_of l"
    using klist_next [of h l as x "b # bs"] klist_prev [of h l "as @ [x]" b bs]
      klist_not_tail [of h l "as @ [x]" b bs] Cons.prems by simp_all
  moreover have "find_end_of_run_loop lt h b (tail_of l) = Some (hd (drop_run lt b bs @ [tail_of l]))"
    using Cons.IH [of "as @ [x]" b] Cons.prems by simp
  ultimately show ?case
    by (simp add: find_end_of_run_loop.simps [of lt h x])
qed

lemma find_end_of_run_klist:
  assumes "klist h l (as @ x # bs)"
  shows "find_end_of_run lt h x (tail_of l) = Some (hd (drop_run lt x bs @ [tail_of l]))"
  using find_end_of_run_loop_klist [OF assms] klist_not_tail [OF assms] klist_elem(1) [OF assms]
    klist_head_tail(2) [OF assms] cell_not_NULL
  by (simp add: find_end_of_run_def)

section \<open>The in-place merge\<close>

lemma inplace_merge_loop_klist:
  assumes "klist h l (as @ ps @ qs @ ds)"
  shows "\<exists>h'. inplace_merge_loop lt h (hd (ps @ qs @ ds @ [tail_of l])) (hd (qs @ ds @ [tail_of l]))
      (hd (ds @ [tail_of l])) = Some h'
    \<and> klist h' l (as @ merge lt ps qs @ ds) \<and> modifies (set (chain l (as @ ps @ qs @ ds))) h h'"
  using assms
proof (induction lt ps qs arbitrary: as h rule: merge.induct)
  case (1 lt p ps q qs)
  let ?d = "hd (ds @ [tail_of l])" and ?n = "hd (qs @ ds @ [tail_of l])"
  have pne: "p \<noteq> q" "q \<noteq> ?d"
    using klist_pos_eq [of h l as "p # ps" "q # qs @ ds"]
      klist_pos_eq [of h l "as @ p # ps" "q # qs" ds] "1.prems" by simp_all
  show ?case
  proof (cases "lt q p")
    case False
    have "list_next h p = Some (hd (ps @ q # qs @ ds @ [tail_of l]))"
      using klist_next [of h l as p "ps @ q # qs @ ds"] "1.prems" by simp
    then have "inplace_merge_loop lt h p q ?d
        = inplace_merge_loop lt h (hd (ps @ q # qs @ ds @ [tail_of l])) q ?d"
      using pne False by (simp add: inplace_merge_loop.simps [of lt h p q] del: hd_append)
    then show ?thesis
      using "1.IH"(2) [OF False, of h "as @ [p]"] "1.prems" False by simp
  next
    case True
    have n: "list_next h q = Some ?n"
      using klist_next [of h l "as @ p # ps" q "qs @ ds"] "1.prems" by simp
    have "cell h ?n \<and> prv h ?n = q"
      using klist_split [of h l "as @ p # ps @ [q]" "qs @ ds"] "1.prems" by simp
    then have pr: "list_prev h ?n = Some q"
      using klist_before [of h l "as @ p # ps @ [q]" "qs @ ds"] "1.prems"
      by (simp add: list_prev_def)
    obtain h1 where h1: "list_splice h p q ?n = Some h1" "klist h1 l (as @ [q] @ (p # ps) @ qs @ ds)"
        "modifies (set (chain l (as @ (p # ps) @ [q] @ qs @ ds))) h h1"
      using list_splice_klist [of h l as "p # ps" "[q]" "qs @ ds"] "1.prems" by auto
    have "inplace_merge_loop lt h p q ?d = inplace_merge_loop lt h1 p ?n ?d"
      using pne True n pr h1(1) by (simp add: inplace_merge_loop.simps [of lt h p q] del: hd_append)
    moreover obtain h2 where h2: "inplace_merge_loop lt h1 p ?n ?d = Some h2"
        "klist h2 l (as @ [q] @ merge lt (p # ps) qs @ ds)"
        "modifies (set (chain l (as @ [q] @ (p # ps) @ qs @ ds))) h1 h2"
      using "1.IH"(1) [OF True, of h1 "as @ [q]"] h1(2) by auto
    moreover have "set (chain l (as @ [q] @ (p # ps) @ qs @ ds)) = set (chain l (as @ (p # ps) @ [q] @ qs @ ds))"
      by (auto simp: chain_def)
    then have "modifies (set (chain l (as @ (p # ps) @ [q] @ qs @ ds))) h h2"
      using h1(3) h2(3) modifies_trans by metis
    ultimately show ?thesis
      using True by simp
  qed
next
  case (2 lt qs)
  then show ?case by (simp add: inplace_merge_loop.simps [of lt h "hd (qs @ ds @ [tail_of l])"] del: hd_append)
next
  case (3 lt p ps)
  then show ?case by (simp add: inplace_merge_loop.simps [of lt h p] del: hd_append)
qed

lemma klist_pos_NULL: "klist h l (as @ bs) \<Longrightarrow> hd (bs @ [tail_of l]) \<noteq> NULL"
  using klist_split(4) cell_not_NULL by blast

lemma inplace_merge_klist:
  assumes k: "klist h l (as @ ps @ qs @ ds)" and "sorted_adj lt ps" and "sorted_adj lt qs"
  shows "\<exists>h'. inplace_merge lt h (hd (ps @ qs @ ds @ [tail_of l])) (hd (qs @ ds @ [tail_of l]))
      (hd (ds @ [tail_of l])) = Some h'
    \<and> klist h' l (as @ merge lt ps qs @ ds) \<and> modifies (set (chain l (as @ ps @ qs @ ds))) h h'"
proof -
  let ?a = "hd (ps @ qs @ ds @ [tail_of l])" and ?b = "hd (qs @ ds @ [tail_of l])" and ?c = "hd (ds @ [tail_of l])"
  have "?a \<noteq> NULL" "?b \<noteq> NULL" "?c \<noteq> NULL"
    using klist_pos_NULL [of h l as "ps @ qs @ ds"] klist_pos_NULL [of h l "as @ ps" "qs @ ds"]
      klist_pos_NULL [of h l "as @ ps @ qs" ds] k by simp_all
  moreover have "is_sorted lt h ?a ?b = Some True" "is_sorted lt h ?b ?c = Some True"
    using is_sorted_klist [of h l as ps "qs @ ds" lt] is_sorted_klist [of h l "as @ ps" qs ds lt] assms
    by simp_all
  ultimately have "inplace_merge lt h ?a ?b ?c = inplace_merge_loop lt h ?a ?b ?c"
    by (simp add: inplace_merge_def)
  then show ?thesis
    using inplace_merge_loop_klist [OF k] by simp
qed

section \<open>Passes and the whole sort\<close>

lemma list_sort_pass_klist:
  assumes "klist h l (as @ ys)" and "cnt + runs lt ys < 2 ^ 32"
  shows "\<exists>h'. list_sort_pass lt h l (hd (ys @ [tail_of l])) cnt = Some (cnt + (runs lt ys + 1) div 2, h')
    \<and> klist h' l (as @ pass lt ys) \<and> modifies (set (chain l (as @ ys))) h h'"
  using assms
proof (induction lt ys arbitrary: as h cnt rule: pass.induct)
  case (1 lt)
  then show ?case by (simp add: list_sort_pass.simps [of lt h l "tail_of l"])
next
  case (2 lt x ys)
  note k = "2.prems"(1)
  have x: "x \<noteq> tail_of l" "list_end l = Some (tail_of l)"
    "find_end_of_run lt h x (tail_of l) = Some (hd (drop_run lt x ys @ [tail_of l]))"
    using klist_not_tail [OF k] klist_end [OF k] find_end_of_run_klist [OF k] by simp_all
  have wrap: "size_wrap (cnt + 1) = cnt + 1"
    using "2.prems"(2) by (simp add: size_wrap_def)
  show ?case
  proof (cases rule: pass_Cons_cases [of lt x ys])
    case 1
    then show ?thesis
      using x k wrap by (simp add: list_sort_pass.simps [of lt h l x])
  next
    case (2 z zs)
    let ?r = "x # take_run lt x ys" and ?s = "z # take_run lt z zs" and ?t = "drop_run lt z zs"
    have k2: "klist h l (as @ ?r @ ?s @ ?t)"
      using k 2(2) by simp
    have z: "z \<noteq> tail_of l" "find_end_of_run lt h z (tail_of l) = Some (hd (?t @ [tail_of l]))"
      using klist_not_tail [of h l "as @ ?r" z zs] find_end_of_run_klist [of h l "as @ ?r" z zs lt] k2
        take_drop_run [of lt z zs] by simp_all
    obtain h1 where h1: "inplace_merge lt h x z (hd (?t @ [tail_of l])) = Some h1"
        "klist h1 l ((as @ merge lt ?r ?s) @ ?t)" "modifies (set (chain l (as @ ?r @ ?s @ ?t))) h h1"
      using inplace_merge_klist [OF k2 sorted_adj_take_run sorted_adj_take_run] by auto
    have "runs lt (x # ys) = runs lt ?t + 2"
      using 2(1) by simp
    then obtain h2 where h2: "list_sort_pass lt h1 l (hd (?t @ [tail_of l])) (cnt + 1)
          = Some (cnt + (runs lt (x # ys) + 1) div 2, h2)"
        "klist h2 l ((as @ merge lt ?r ?s) @ pass lt ?t)"
        "modifies (set (chain l ((as @ merge lt ?r ?s) @ ?t))) h1 h2"
      using "2.IH" [OF 2(1) h1(2), of "cnt + 1"] "2.prems"(2) by auto
    have "set (chain l ((as @ merge lt ?r ?s) @ ?t)) = set (chain l (as @ ?r @ ?s @ ?t))"
      by (auto simp: chain_def)
    then have "modifies (set (chain l (as @ x # ys))) h h2"
      using modifies_trans h1(3) h2(3) 2(2) by metis
    moreover have "list_sort_pass lt h l x cnt = Some (cnt + (runs lt (x # ys) + 1) div 2, h2)"
      using x z 2(1) h1(1) h2(1) wrap by (simp add: list_sort_pass.simps [of lt h l x] del: hd_append runs.simps)
    ultimately show ?thesis
      using h2(2) 2(1) by (simp del: runs.simps merge.simps)
  qed
qed

text \<open>What the sort promises of the sequence it leaves: sorted, a permutation, and stable.\<close>

definition stable_sort_of :: "('a \<Rightarrow> 'a \<Rightarrow> bool) \<Rightarrow> 'a list \<Rightarrow> 'a list \<Rightarrow> bool" where
  "stable_sort_of lt xs ys \<longleftrightarrow> ordered lt ys \<and> mset ys = mset xs
     \<and> (\<forall>c. filter (equiv lt c) ys = filter (equiv lt c) xs)"

lemma list_sort_loop_klist:
  assumes "weak_order lt" and "klist h l xs" and "length xs < 2 ^ 32"
  shows "\<exists>h' ys. list_sort_loop lt h l = Some h' \<and> klist h' l ys \<and> stable_sort_of lt xs ys
    \<and> modifies (set (chain l xs)) h h'"
  using assms(2,3)
proof (induction "runs lt xs" arbitrary: xs h rule: less_induct)
  case less
  obtain h1 where h1: "list_sort_pass lt h l (hd (xs @ [tail_of l])) 0 = Some ((runs lt xs + 1) div 2, h1)"
      "klist h1 l (pass lt xs)" "modifies (set (chain l xs)) h h1"
    using list_sort_pass_klist [of h l "[]" xs 0 lt] less.prems runs_length [of lt xs] by auto
  have same: "set (chain l (pass lt xs)) = set (chain l xs)" "length (pass lt xs) = length xs"
    using mset_pass [of lt xs] by (auto simp: chain_def dest: mset_eq_setD mset_eq_length)
  show ?case
  proof (cases "runs lt xs > 2")
    case True
    then have "runs lt (pass lt xs) < runs lt xs"
      using runs_pass [OF assms(1), of xs] by linarith
    then obtain h2 ys where h2: "list_sort_loop lt h1 l = Some h2" "klist h2 l ys"
        "stable_sort_of lt (pass lt xs) ys" "modifies (set (chain l xs)) h1 h2"
      using less.hyps [of "pass lt xs" h1] h1(2) less.prems(2) same by auto
    have "stable_sort_of lt xs ys"
      using h2(3) by (simp add: stable_sort_of_def mset_pass pass_stable [OF assms(1)])
    moreover have "(runs lt xs + 1) div 2 > 1"
      using True by linarith
    then have "list_sort_loop lt h l = Some h2"
      using h1(1) h2(1) less.prems(1) by (simp add: list_sort_loop.simps [of lt h l] del: hd_append)
    ultimately show ?thesis
      using h2(2) modifies_trans [OF h1(3) h2(4)] by blast
  next
    case False
    then have "runs lt (pass lt xs) \<le> 1"
      using runs_pass [OF assms(1), of xs] by linarith
    then have "stable_sort_of lt xs (pass lt xs)"
      using runs_le_1 [of lt "pass lt xs"] sorted_adj_ordered [OF assms(1), of "pass lt xs"]
      by (simp add: stable_sort_of_def mset_pass pass_stable [OF assms(1)])
    moreover have "\<not> (runs lt xs + 1) div 2 > 1"
      using False by linarith
    then have "list_sort_loop lt h l = Some h1"
      using h1(1) less.prems(1) by (simp add: list_sort_loop.simps [of lt h l] del: hd_append)
    ultimately show ?thesis
      using h1(2,3) by blast
  qed
qed

text \<open>
  C3: \<open>list_sort\<close> terminates without a failed assertion on every well-formed list and
  leaves the same elements in a stable sorted order, touching no cell outside the list.
\<close>

theorem list_sort_correct:
  assumes "weak_order lt" and "klist h l xs" and "length xs < 2 ^ 32"
  shows "\<exists>h' ys. list_sort lt h l = Some h' \<and> klist h' l ys \<and> stable_sort_of lt xs ys
    \<and> modifies (set (chain l xs)) h h'"
proof -
  obtain h' ys where h': "list_sort_loop lt h l = Some h'" "klist h' l ys" "stable_sort_of lt xs ys"
      "modifies (set (chain l xs)) h h'"
    using list_sort_loop_klist [OF assms] by blast
  then have "is_sorted lt h' (hd (ys @ [tail_of l])) (tail_of l) = Some True"
    using is_sorted_klist [of h' l "[]" ys "[]" lt] sorted_adj_ordered [OF assms(1)]
    by (simp add: stable_sort_of_def)
  then have "list_sort lt h l = Some h'"
    using h' assms(2) by (simp add: list_sort_def klist_NULL del: hd_append)
  then show ?thesis
    using h' by blast
qed

theorem list_sort_correct_witness:
  "let h = [8 \<mapsto> \<lparr>elem_prev = 0, elem_next = 50\<rparr>, 50 \<mapsto> \<lparr>elem_prev = 8, elem_next = 40\<rparr>,
      40 \<mapsto> \<lparr>elem_prev = 50, elem_next = 16\<rparr>, 16 \<mapsto> \<lparr>elem_prev = 40, elem_next = 0\<rparr>] in
   \<exists>h' ys. list_sort (<) h 8 = Some h' \<and> klist h' 8 ys \<and> stable_sort_of (<) [50, 40] ys
     \<and> modifies (set (chain 8 [50, 40])) h h'"
  unfolding Let_def
  by (rule list_sort_correct)
    (simp_all add: weak_order_def klist_def chain_def head_of_def tail_of_def cell_def prv_def nxt_def)

section \<open>Removing adjacent duplicates\<close>

text \<open>The elements kept after \<open>x\<close>, \<open>x\<close> included, and those removed.\<close>

fun seq_unique :: "('a \<Rightarrow> 'a \<Rightarrow> bool) \<Rightarrow> 'a \<Rightarrow> 'a list \<Rightarrow> 'a list \<times> 'a list" where
  "seq_unique lt x [] = ([x], [])"
| "seq_unique lt x (y # ys) =
     (if equiv lt x y then (let (u, d) = seq_unique lt x ys in (u, y # d))
      else (let (u, d) = seq_unique lt y ys in (x # u, d)))"

text \<open>The list of duplicates, when there is one, is a list of its own.\<close>

definition dup_list :: "lheap \<Rightarrow> ptr list \<Rightarrow> ptr \<Rightarrow> ptr list \<Rightarrow> bool" where
  "dup_list h C d ds \<longleftrightarrow> d \<noteq> NULL \<longrightarrow> klist h d ds \<and> set C \<inter> set (chain d ds) = {}"

lemma unique_step:
  assumes k: "klist h l (as @ x # y # bs)" and d: "dup_list h (chain l (as @ x # y # bs)) d ds"
  defines "A \<equiv> set (chain l (as @ x # y # bs)) \<union> (if d = NULL then {} else set (chain d ds))"
  shows "\<exists>h1 h2. list_remove h y = Some (hd (bs @ [tail_of l]), h1)
    \<and> (if d \<noteq> NULL then list_push_back h1 d y else Some h1) = Some h2
    \<and> klist h2 l (as @ x # bs) \<and> dup_list h2 (chain l (as @ x # bs)) d (ds @ [y]) \<and> modifies A h h2"
proof -
  obtain h1 where h1: "list_remove h y = Some (hd (bs @ [tail_of l]), h1)" "klist h1 l (as @ x # bs)"
      "modifies (set (chain l (as @ x # bs))) h h1"
    using list_remove_klist [of h l "as @ [x]" y bs] k by auto
  have sub: "set (chain l (as @ x # bs)) \<subseteq> set (chain l (as @ x # y # bs))"
    and y: "y \<notin> set (chain l (as @ x # bs))" "y \<in> set (chain l (as @ x # y # bs))"
    using k by (auto simp: chain_def klist_def)
  have m: "modifies A h h1"
    using h1(3) sub by (rule_tac modifies_mono) (auto simp: A_def)
  show ?thesis
  proof (cases "d = NULL")
    case True
    then show ?thesis
      using h1 m by (auto simp: dup_list_def)
  next
    case False
    then have kd: "klist h d ds" and dj: "set (chain l (as @ x # y # bs)) \<inter> set (chain d ds) = {}"
      using d by (auto simp: dup_list_def)
    have kd1: "klist h1 d ds"
      using kd h1(3) by (rule klist_frame) (use sub dj in auto)
    have "cell h1 y"
      using modifies_cell [OF h1(3)] klist_elem(1) [of h l "as @ [x]" y bs] k by simp
    then obtain h2 where h2: "list_push_back h1 d y = Some h2" "klist h2 d (ds @ [y])"
        "modifies (insert y (set (chain d ds))) h1 h2"
      using list_push_back_klist [OF kd1, of y] dj y(2) by blast
    have "klist h2 l (as @ x # bs)"
      using h1(2) h2(3) by (rule klist_frame) (use sub dj y in blast)
    moreover have "dup_list h2 (chain l (as @ x # bs)) d (ds @ [y])"
      using h2(2) dj y sub by (auto simp: dup_list_def chain_def)
    moreover have "modifies A h h2"
      using m modifies_mono [OF h2(3), of A] y(2) False by (auto simp: A_def intro: modifies_trans)
    ultimately show ?thesis
      using h1(1) h2(1) False by auto
  qed
qed

lemma list_unique_loop_klist:
  assumes "klist h l (as @ x # bs)" and "dup_list h (chain l (as @ x # bs)) d ds"
  shows "\<exists>h'. list_unique_loop lt h l d x = Some h' \<and> klist h' l (as @ fst (seq_unique lt x bs))
    \<and> (d \<noteq> NULL \<longrightarrow> klist h' d (ds @ snd (seq_unique lt x bs)))
    \<and> modifies (set (chain l (as @ x # bs)) \<union> (if d = NULL then {} else set (chain d ds))) h h'"
  using assms
proof (induction lt x bs arbitrary: as ds h rule: seq_unique.induct)
  case (1 lt x)
  then show ?case
    using klist_next [of h l as x "[]"] by (simp add: list_unique_loop.simps [of lt h l d x] dup_list_def)
next
  case (2 lt x y ys)
  have n: "list_next h x = Some y" "y \<noteq> tail_of l" "list_end l = Some (tail_of l)"
    using klist_next [of h l as x "y # ys"] klist_not_tail [of h l "as @ [x]" y ys]
      klist_end [OF "2.prems"(1)] "2.prems"(1) by simp_all
  show ?case
  proof (cases "equiv lt x y")
    case True
    obtain h1 h2 where s: "list_remove h y = Some (hd (ys @ [tail_of l]), h1)"
        "(if d \<noteq> NULL then list_push_back h1 d y else Some h1) = Some h2"
        "klist h2 l (as @ x # ys)" "dup_list h2 (chain l (as @ x # ys)) d (ds @ [y])"
        "modifies (set (chain l (as @ x # y # ys)) \<union> (if d = NULL then {} else set (chain d ds))) h h2"
      using unique_step [OF "2.prems"] by blast
    have run: "list_unique_loop lt h l d x = list_unique_loop lt h2 l d x"
      using n s(1,2) True by (subst list_unique_loop.simps) (simp add: equiv_def del: hd_append)
    obtain h3 where h3: "list_unique_loop lt h2 l d x = Some h3" "klist h3 l (as @ fst (seq_unique lt x ys))"
        "d \<noteq> NULL \<longrightarrow> klist h3 d ((ds @ [y]) @ snd (seq_unique lt x ys))"
        "modifies (set (chain l (as @ x # ys)) \<union> (if d = NULL then {} else set (chain d (ds @ [y])))) h2 h3"
      using "2.IH"(1) [OF True s(3,4)] by blast
    have "modifies (set (chain l (as @ x # y # ys)) \<union> (if d = NULL then {} else set (chain d ds))) h h3"
      by (rule modifies_trans [OF s(5) modifies_mono [OF h3(4)]]) (auto simp: chain_def)
    then show ?thesis
      using run h3 True by (simp add: case_prod_beta Let_def)
  next
    case False
    have run: "list_unique_loop lt h l d x = list_unique_loop lt h l d y"
      using n False by (subst list_unique_loop.simps) (auto simp: equiv_def)
    then show ?thesis
      using "2.IH"(2) [OF False, of h "as @ [x]" ds] "2.prems" False by (simp add: case_prod_beta Let_def)
  qed
qed

text \<open>
  C6: \<open>list_unique\<close> returns on every nonempty list; it keeps the first element of each
  group of adjacent equal elements and appends the others, in order, to the list of
  duplicates when there is one.
\<close>

theorem list_unique_correct:
  assumes "klist h l (x # xs)" and "dup_list h (chain l (x # xs)) d ds"
  shows "\<exists>h'. list_unique lt h l d = Some h' \<and> klist h' l (fst (seq_unique lt x xs))
    \<and> (d \<noteq> NULL \<longrightarrow> klist h' d (ds @ snd (seq_unique lt x xs)))"
proof -
  have "list_unique lt h l d = list_unique_loop lt h l d x"
    using assms(1) by (simp add: list_unique_def klist_NULL)
  then show ?thesis
    using list_unique_loop_klist [of h l "[]" x xs d ds lt] assms by auto
qed

theorem list_unique_correct_witness:
  "let h = [8 \<mapsto> \<lparr>elem_prev = 0, elem_next = 40\<rparr>, 40 \<mapsto> \<lparr>elem_prev = 8, elem_next = 41\<rparr>,
      41 \<mapsto> \<lparr>elem_prev = 40, elem_next = 16\<rparr>, 16 \<mapsto> \<lparr>elem_prev = 41, elem_next = 0\<rparr>];
     lt = (\<lambda>a b. a div 10 < b div (10 :: nat)) in
   \<exists>h'. list_unique lt h 8 0 = Some h' \<and> klist h' 8 (fst (seq_unique lt 40 [41]))
     \<and> (0 \<noteq> (0 :: ptr) \<longrightarrow> klist h' 0 ([] @ snd (seq_unique lt 40 [41])))"
  unfolding Let_def
  by (rule list_unique_correct)
    (simp_all add: dup_list_def klist_def chain_def head_of_def tail_of_def cell_def prv_def nxt_def)

end
