(* ===== verification/Bitmap.thy ===== *)
theory Bitmap
  imports Kernel_Prelude
begin

text \<open>
  Bitmaps, \<open>lib/kernel/bitmap.c\<close>: an array of 32-bit elements that simulates an array
  of bits.  The operations are shown to act on the sequence of bits \<open>bits_of b\<close> as the
  corresponding operations on a list of booleans.
\<close>

section \<open>The operations\<close>

record bitmap =
  bit_cnt :: nat
  bm_bits :: "u32 list"

definition ELEM_BITS :: nat where
  "ELEM_BITS = 32"

definition BITMAP_ERROR :: nat where
  "BITMAP_ERROR = SIZE_MAX"

definition elem_idx :: "nat \<Rightarrow> nat" where
  "elem_idx bit_idx = bit_idx div ELEM_BITS"

definition bit_mask :: "nat \<Rightarrow> u32" where
  "bit_mask bit_idx = push_bit (bit_idx mod ELEM_BITS) 1"

definition elem_cnt :: "nat \<Rightarrow> nat" where
  "elem_cnt n = size_wrap (n + ELEM_BITS - 1) div ELEM_BITS"

definition byte_cnt :: "nat \<Rightarrow> nat" where
  "byte_cnt n = size_wrap (4 * elem_cnt n)"

definition last_mask :: "bitmap \<Rightarrow> u32" where
  "last_mask b = (let last_bits = bit_cnt b mod ELEM_BITS in
     if last_bits \<noteq> 0 then push_bit last_bits 1 - 1 else - 1)"

text \<open>An element of the array, and its replacement; an index outside the array faults.\<close>

definition get_elem :: "bitmap \<Rightarrow> nat \<Rightarrow> u32 option" where
  "get_elem b i = (if i < length (bm_bits b) then Some (bm_bits b ! i) else None)"

definition set_elem :: "bitmap \<Rightarrow> nat \<Rightarrow> u32 \<Rightarrow> bitmap option" where
  "set_elem b i w = (if i < length (bm_bits b) then Some (b\<lparr>bm_bits := (bm_bits b)[i := w]\<rparr>) else None)"

definition bitmap_size :: "bitmap \<Rightarrow> nat" where
  "bitmap_size b = bit_cnt b"

definition bitmap_mark :: "bitmap \<Rightarrow> nat \<Rightarrow> bitmap option" where
  "bitmap_mark b bit_idx = do {
     let idx = elem_idx bit_idx;
     let mask = bit_mask bit_idx;
     w \<leftarrow> get_elem b idx;
     set_elem b idx (w OR mask)
   }"

definition bitmap_reset :: "bitmap \<Rightarrow> nat \<Rightarrow> bitmap option" where
  "bitmap_reset b bit_idx = do {
     let idx = elem_idx bit_idx;
     let mask = bit_mask bit_idx;
     w \<leftarrow> get_elem b idx;
     set_elem b idx (w AND NOT mask)
   }"

definition bitmap_flip :: "bitmap \<Rightarrow> nat \<Rightarrow> bitmap option" where
  "bitmap_flip b bit_idx = do {
     let idx = elem_idx bit_idx;
     let mask = bit_mask bit_idx;
     w \<leftarrow> get_elem b idx;
     set_elem b idx (w XOR mask)
   }"

definition bitmap_set :: "bitmap \<Rightarrow> nat \<Rightarrow> bool \<Rightarrow> bitmap option" where
  "bitmap_set b idx v = do {
     ASSERT (idx < bit_cnt b);
     if v then bitmap_mark b idx else bitmap_reset b idx
   }"

definition bitmap_test :: "bitmap \<Rightarrow> nat \<Rightarrow> bool option" where
  "bitmap_test b idx = do {
     ASSERT (idx < bit_cnt b);
     w \<leftarrow> get_elem b (elem_idx idx);
     Some (w AND bit_mask idx \<noteq> 0)
   }"

text \<open>The loops over \<open>cnt\<close> bits, with the next index and the number of bits left.\<close>

fun set_multiple_loop :: "bitmap \<Rightarrow> nat \<Rightarrow> nat \<Rightarrow> bool \<Rightarrow> bitmap option" where
  "set_multiple_loop b i 0 v = Some b"
| "set_multiple_loop b i (Suc n) v = do { b \<leftarrow> bitmap_set b i v; set_multiple_loop b (i + 1) n v }"

definition bitmap_set_multiple :: "bitmap \<Rightarrow> nat \<Rightarrow> nat \<Rightarrow> bool \<Rightarrow> bitmap option" where
  "bitmap_set_multiple b start cnt v = do {
     ASSERT (start \<le> bit_cnt b);
     ASSERT (size_wrap (start + cnt) \<le> bit_cnt b);
     set_multiple_loop b start cnt v
   }"

definition bitmap_set_all :: "bitmap \<Rightarrow> bool \<Rightarrow> bitmap option" where
  "bitmap_set_all b v = bitmap_set_multiple b 0 (bitmap_size b) v"

fun count_loop :: "bitmap \<Rightarrow> nat \<Rightarrow> nat \<Rightarrow> bool \<Rightarrow> nat \<Rightarrow> nat option" where
  "count_loop b i 0 v c = Some c"
| "count_loop b i (Suc n) v c = do {
     t \<leftarrow> bitmap_test b i;
     count_loop b (i + 1) n v (if t = v then c + 1 else c)
   }"

definition bitmap_count :: "bitmap \<Rightarrow> nat \<Rightarrow> nat \<Rightarrow> bool \<Rightarrow> nat option" where
  "bitmap_count b start cnt v = do {
     ASSERT (start \<le> bit_cnt b);
     ASSERT (size_wrap (start + cnt) \<le> bit_cnt b);
     count_loop b start cnt v 0
   }"

fun contains_loop :: "bitmap \<Rightarrow> nat \<Rightarrow> nat \<Rightarrow> bool \<Rightarrow> bool option" where
  "contains_loop b i 0 v = Some False"
| "contains_loop b i (Suc n) v = do {
     t \<leftarrow> bitmap_test b i;
     if t = v then Some True else contains_loop b (i + 1) n v
   }"

definition bitmap_contains :: "bitmap \<Rightarrow> nat \<Rightarrow> nat \<Rightarrow> bool \<Rightarrow> bool option" where
  "bitmap_contains b start cnt v = do {
     ASSERT (start \<le> bit_cnt b);
     ASSERT (size_wrap (start + cnt) \<le> bit_cnt b);
     contains_loop b start cnt v
   }"

definition bitmap_any :: "bitmap \<Rightarrow> nat \<Rightarrow> nat \<Rightarrow> bool option" where
  "bitmap_any b start cnt = bitmap_contains b start cnt True"

definition bitmap_none :: "bitmap \<Rightarrow> nat \<Rightarrow> nat \<Rightarrow> bool option" where
  "bitmap_none b start cnt = do { c \<leftarrow> bitmap_contains b start cnt True; Some (\<not> c) }"

definition bitmap_all :: "bitmap \<Rightarrow> nat \<Rightarrow> nat \<Rightarrow> bool option" where
  "bitmap_all b start cnt = do { c \<leftarrow> bitmap_contains b start cnt False; Some (\<not> c) }"

text \<open>The scan tries the positions from \<open>i\<close> on; \<open>n\<close> of them are left.\<close>

fun scan_loop :: "bitmap \<Rightarrow> nat \<Rightarrow> nat \<Rightarrow> nat \<Rightarrow> bool \<Rightarrow> nat option" where
  "scan_loop b i 0 cnt v = Some BITMAP_ERROR"
| "scan_loop b i (Suc n) cnt v = do {
     c \<leftarrow> bitmap_contains b i cnt (\<not> v);
     if \<not> c then Some i else scan_loop b (i + 1) n cnt v
   }"

definition bitmap_scan :: "bitmap \<Rightarrow> nat \<Rightarrow> nat \<Rightarrow> bool \<Rightarrow> nat option" where
  "bitmap_scan b start cnt v = do {
     ASSERT (start \<le> bit_cnt b);
     if cnt \<le> bit_cnt b then (let last' = bit_cnt b - cnt in scan_loop b start (last' + 1 - start) cnt v)
     else Some BITMAP_ERROR
   }"

definition bitmap_scan_and_flip :: "bitmap \<Rightarrow> nat \<Rightarrow> nat \<Rightarrow> bool \<Rightarrow> (nat \<times> bitmap) option" where
  "bitmap_scan_and_flip b start cnt v = do {
     idx \<leftarrow> bitmap_scan b start cnt v;
     if idx \<noteq> BITMAP_ERROR then do { b \<leftarrow> bitmap_set_multiple b idx cnt (\<not> v); Some (idx, b) }
     else Some (idx, b)
   }"

text \<open>
  Creation: the outcomes of the two allocations are arguments, \<open>hdr\<close> whether the header
  could be allocated and \<open>buf\<close> the contents of the element array, if it could.
\<close>

definition bitmap_create :: "nat \<Rightarrow> bool \<Rightarrow> u32 list option \<Rightarrow> bitmap option option" where
  "bitmap_create n hdr buf =
     (if hdr then
        (if buf \<noteq> None \<or> n = 0 then do {
           b \<leftarrow> bitmap_set_all \<lparr>bit_cnt = n, bm_bits = (case buf of Some w \<Rightarrow> w | None \<Rightarrow> [])\<rparr> False;
           Some (Some b)
         }
         else Some None)
      else Some None)"

definition bitmap_buf_size :: "nat \<Rightarrow> nat" where
  "bitmap_buf_size n = size_wrap (8 + byte_cnt n)"

text \<open>\<open>buf\<close> is what the storage behind the header holds.\<close>

definition bitmap_create_in_buf :: "nat \<Rightarrow> u32 list \<Rightarrow> nat \<Rightarrow> bitmap option" where
  "bitmap_create_in_buf n buf block_size = do {
     ASSERT (bitmap_buf_size n \<le> block_size);
     bitmap_set_all \<lparr>bit_cnt = n, bm_bits = buf\<rparr> False
   }"

definition bitmap_file_size :: "bitmap \<Rightarrow> nat" where
  "bitmap_file_size b = byte_cnt (bit_cnt b)"

section \<open>The sequence of bits\<close>

definition bits_of :: "bitmap \<Rightarrow> bool list" where
  "bits_of b = map (\<lambda>i. bit (bm_bits b ! (i div 32)) (i mod 32)) [0..<bit_cnt b]"

text \<open>A well-formed bitmap: the array has room for every bit, and counts do not wrap.\<close>

definition wf_bitmap :: "bitmap \<Rightarrow> bool" where
  "wf_bitmap b \<longleftrightarrow> length (bm_bits b) = (bit_cnt b + 31) div 32 \<and> bit_cnt b < 2 ^ 32 - 32"

lemma length_bits_of [simp]: "length (bits_of b) = bit_cnt b"
  by (simp add: bits_of_def)

lemma nth_bits_of: "i < bit_cnt b \<Longrightarrow> bits_of b ! i = bit (bm_bits b ! (i div 32)) (i mod 32)"
  by (simp add: bits_of_def)

lemma wf_elem: "wf_bitmap b \<Longrightarrow> i < bit_cnt b \<Longrightarrow> i div 32 < length (bm_bits b)"
  by (simp add: wf_bitmap_def)

lemma bit_bit_mask: "bit (bit_mask i) k \<longleftrightarrow> k = i mod 32"
  by (auto simp: bit_mask_def ELEM_BITS_def bit_simps)

lemma and_bit_mask: "(w AND bit_mask i = 0) \<longleftrightarrow> \<not> bit w (i mod 32)"
  by (simp add: bit_eq_iff [of "w AND bit_mask i"] bit_and_iff bit_bit_mask)
    (metis mod_less_divisor zero_less_numeral)

lemma bitmap_test_bits:
  "wf_bitmap b \<Longrightarrow> i < bit_cnt b \<Longrightarrow> bitmap_test b i = Some (bits_of b ! i)"
  by (simp add: bitmap_test_def get_elem_def elem_idx_def ELEM_BITS_def wf_elem and_bit_mask nth_bits_of)

text \<open>
  An update of one element by a function that changes only bit \<open>i mod 32\<close> updates only
  bit \<open>i\<close> of the sequence.
\<close>

lemma bits_of_update:
  assumes wf: "wf_bitmap b" and i: "i < bit_cnt b"
    and f: "\<And>k. k < 32 \<Longrightarrow> bit w k \<longleftrightarrow> (if k = i mod 32 then v else bit (bm_bits b ! (i div 32)) k)"
  shows "bits_of (b\<lparr>bm_bits := (bm_bits b)[i div 32 := w]\<rparr>) = (bits_of b)[i := v]"
proof (rule nth_equalityI)
  fix j assume "j < length (bits_of (b\<lparr>bm_bits := (bm_bits b)[i div 32 := w]\<rparr>))"
  then have j: "j < bit_cnt b"
    by simp
  have L: "bits_of (b\<lparr>bm_bits := (bm_bits b)[i div 32 := w]\<rparr>) ! j
      = bit ((bm_bits b)[i div 32 := w] ! (j div 32)) (j mod 32)"
    using j by (simp add: nth_bits_of)
  have R: "(bits_of b)[i := v] ! j = (if j = i then v else bit (bm_bits b ! (j div 32)) (j mod 32))"
    using j i by (simp add: nth_list_update nth_bits_of)
  have eq: "j = i \<longleftrightarrow> j div 32 = i div 32 \<and> j mod 32 = i mod 32"
    by (metis div_mult_mod_eq)
  show "bits_of (b\<lparr>bm_bits := (bm_bits b)[i div 32 := w]\<rparr>) ! j = (bits_of b)[i := v] ! j"
  proof (cases "j div 32 = i div 32")
    case True
    then have "(bm_bits b)[i div 32 := w] ! (j div 32) = w"
      using wf_elem [OF wf i] by simp
    then show ?thesis
      unfolding L R eq using f [of "j mod 32"] True by simp
  next
    case False
    then show ?thesis
      unfolding L R eq by simp
  qed
qed simp

lemma set_elem_bits:
  assumes wf: "wf_bitmap b" and i: "i < bit_cnt b"
    and g: "\<And>k. k < 32 \<Longrightarrow> bit (g (bm_bits b ! (i div 32))) k
      \<longleftrightarrow> (if k = i mod 32 then v else bit (bm_bits b ! (i div 32)) k)"
  shows "\<exists>b'. do { w \<leftarrow> get_elem b (elem_idx i); set_elem b (elem_idx i) (g w) } = Some b'
    \<and> wf_bitmap b' \<and> bit_cnt b' = bit_cnt b \<and> bits_of b' = (bits_of b)[i := v]"
  using wf_elem [OF wf i] bits_of_update [OF wf i g] wf
  by (simp add: get_elem_def set_elem_def elem_idx_def ELEM_BITS_def wf_bitmap_def)

lemma bitmap_mark_bits:
  assumes "wf_bitmap b" and "i < bit_cnt b"
  shows "\<exists>b'. bitmap_mark b i = Some b' \<and> wf_bitmap b' \<and> bit_cnt b' = bit_cnt b \<and> bits_of b' = (bits_of b)[i := True]"
  unfolding bitmap_mark_def Let_def by (rule set_elem_bits [OF assms]) (auto simp: bit_or_iff bit_bit_mask)

lemma bitmap_reset_bits:
  assumes "wf_bitmap b" and "i < bit_cnt b"
  shows "\<exists>b'. bitmap_reset b i = Some b' \<and> wf_bitmap b' \<and> bit_cnt b' = bit_cnt b \<and> bits_of b' = (bits_of b)[i := False]"
  unfolding bitmap_reset_def Let_def
  by (rule set_elem_bits [OF assms]) (auto simp: bit_and_iff bit_not_iff bit_bit_mask)

lemma bitmap_flip_bits:
  assumes "wf_bitmap b" and "i < bit_cnt b"
  shows "\<exists>b'. bitmap_flip b i = Some b' \<and> wf_bitmap b' \<and> bit_cnt b' = bit_cnt b
    \<and> bits_of b' = (bits_of b)[i := \<not> bits_of b ! i]"
  unfolding bitmap_flip_def Let_def
  by (rule set_elem_bits [OF assms]) (auto simp: bit_xor_iff bit_bit_mask nth_bits_of [OF assms(2)])

lemma bitmap_set_bits:
  assumes "wf_bitmap b" and "i < bit_cnt b"
  shows "\<exists>b'. bitmap_set b i v = Some b' \<and> wf_bitmap b' \<and> bit_cnt b' = bit_cnt b \<and> bits_of b' = (bits_of b)[i := v]"
  using bitmap_mark_bits [OF assms] bitmap_reset_bits [OF assms] assms(2) by (cases v) (auto simp: bitmap_set_def)

section \<open>Ranges of bits\<close>

text \<open>The bits from \<open>start\<close> on replaced by \<open>cnt\<close> copies of \<open>v\<close>.\<close>

definition fill :: "bool list \<Rightarrow> nat \<Rightarrow> nat \<Rightarrow> bool \<Rightarrow> bool list" where
  "fill xs start cnt v = take start xs @ replicate cnt v @ drop (start + cnt) xs"

lemma length_fill [simp]: "start + cnt \<le> length xs \<Longrightarrow> length (fill xs start cnt v) = length xs"
  by (simp add: fill_def)

lemma nth_fill:
  "start + cnt \<le> length xs \<Longrightarrow> i < length xs \<Longrightarrow>
    fill xs start cnt v ! i = (if start \<le> i \<and> i < start + cnt then v else xs ! i)"
  by (auto simp: fill_def nth_append)

lemma fill_Suc:
  assumes "start + Suc cnt \<le> length xs"
  shows "fill (xs[start := v]) (start + 1) cnt v = fill xs start (Suc cnt) v"
  using assms by (intro nth_equalityI) (auto simp: nth_fill nth_list_update)

lemma set_multiple_loop_bits:
  assumes "wf_bitmap b" and "i + n \<le> bit_cnt b"
  shows "\<exists>b'. set_multiple_loop b i n v = Some b' \<and> wf_bitmap b' \<and> bit_cnt b' = bit_cnt b
    \<and> bits_of b' = fill (bits_of b) i n v"
  using assms
proof (induction n arbitrary: b i)
  case 0
  then show ?case by (simp add: fill_def)
next
  case (Suc n)
  then obtain b1 where b1: "bitmap_set b i v = Some b1" "wf_bitmap b1" "bit_cnt b1 = bit_cnt b"
      "bits_of b1 = (bits_of b)[i := v]"
    using bitmap_set_bits [of b i v] by auto
  then show ?case
    using Suc.IH [of b1 "i + 1"] Suc.prems fill_Suc [of i n "bits_of b" v] by simp
qed

lemma wf_no_wrap: "wf_bitmap b \<Longrightarrow> n \<le> bit_cnt b \<Longrightarrow> size_wrap n = n"
  by (simp add: wf_bitmap_def)

lemma bitmap_set_multiple_bits:
  assumes "wf_bitmap b" and "start + cnt \<le> bit_cnt b"
  shows "\<exists>b'. bitmap_set_multiple b start cnt v = Some b' \<and> wf_bitmap b' \<and> bit_cnt b' = bit_cnt b
    \<and> bits_of b' = fill (bits_of b) start cnt v"
  using set_multiple_loop_bits [OF assms, of v] wf_no_wrap [OF assms] assms(2)
  by (simp add: bitmap_set_multiple_def)

lemma bitmap_set_all_bits:
  assumes "wf_bitmap b"
  shows "\<exists>b'. bitmap_set_all b v = Some b' \<and> wf_bitmap b' \<and> bit_cnt b' = bit_cnt b
    \<and> bits_of b' = replicate (bit_cnt b) v"
  using bitmap_set_multiple_bits [OF assms, of 0 "bit_cnt b" v]
  by (simp add: bitmap_set_all_def bitmap_size_def fill_def)

lemma contains_loop_bits:
  assumes "wf_bitmap b"
  shows "i + n \<le> bit_cnt b \<Longrightarrow> contains_loop b i n v = Some (\<exists>j. i \<le> j \<and> j < i + n \<and> bits_of b ! j = v)"
proof (induction n arbitrary: i)
  case (Suc n)
  have split: "(\<exists>j. i \<le> j \<and> j < i + Suc n \<and> bits_of b ! j = v)
      \<longleftrightarrow> bits_of b ! i = v \<or> (\<exists>j. i + 1 \<le> j \<and> j < i + 1 + n \<and> bits_of b ! j = v)"
    by (metis Suc_eq_plus1 Suc_leD Suc_leI add_Suc add_Suc_right le_add1 le_imp_less_Suc less_or_eq_imp_le nat_less_le)
  show ?case
    unfolding split using bitmap_test_bits [OF assms, of i] Suc.IH [of "i + 1"] Suc.prems by simp
qed simp

lemma bitmap_contains_bits:
  assumes "wf_bitmap b" and "start + cnt \<le> bit_cnt b"
  shows "bitmap_contains b start cnt v = Some (\<exists>j. start \<le> j \<and> j < start + cnt \<and> bits_of b ! j = v)"
  using contains_loop_bits [OF assms, of v] wf_no_wrap [OF assms] assms(2)
  by (simp add: bitmap_contains_def)

lemma count_loop_bits:
  assumes "wf_bitmap b"
  shows "i + n \<le> bit_cnt b \<Longrightarrow>
    count_loop b i n v c = Some (c + length (filter (\<lambda>t. t = v) (take n (drop i (bits_of b)))))"
proof (induction n arbitrary: i c)
  case (Suc n)
  then have "take (Suc n) (drop i (bits_of b)) = bits_of b ! i # take n (drop (i + 1) (bits_of b))"
    by (simp add: Cons_nth_drop_Suc [symmetric])
  then show ?case
    using Suc bitmap_test_bits [OF assms, of i] by simp
qed simp

lemma bitmap_count_bits:
  assumes "wf_bitmap b" and "start + cnt \<le> bit_cnt b"
  shows "bitmap_count b start cnt v = Some (length (filter (\<lambda>t. t = v) (take cnt (drop start (bits_of b)))))"
  using count_loop_bits [OF assms, of v 0] wf_no_wrap [OF assms] assms(2)
  by (simp add: bitmap_count_def)

section \<open>Searching\<close>

text \<open>A group of \<open>cnt\<close> bits equal to \<open>v\<close> at \<open>i\<close>.\<close>

definition group_at :: "bool list \<Rightarrow> nat \<Rightarrow> nat \<Rightarrow> bool \<Rightarrow> bool" where
  "group_at xs i cnt v \<longleftrightarrow> i + cnt \<le> length xs \<and> (\<forall>j. i \<le> j \<and> j < i + cnt \<longrightarrow> xs ! j = v)"

lemma scan_loop_bits:
  assumes wf: "wf_bitmap b"
  shows "i + n + cnt = bit_cnt b + 1 \<or> n = 0 \<Longrightarrow>
    \<exists>r. scan_loop b i n cnt v = Some r \<and>
      (if r = BITMAP_ERROR then \<forall>k. i \<le> k \<and> k < i + n \<longrightarrow> \<not> group_at (bits_of b) k cnt v
       else i \<le> r \<and> group_at (bits_of b) r cnt v \<and> (\<forall>k. i \<le> k \<and> k < r \<longrightarrow> \<not> group_at (bits_of b) k cnt v))"
proof (induction n arbitrary: i)
  case (Suc n)
  have le: "i + cnt \<le> bit_cnt b"
    using Suc.prems by simp
  then have c: "bitmap_contains b i cnt (\<not> v) = Some (\<not> group_at (bits_of b) i cnt v)"
    using bitmap_contains_bits [OF wf le] by (auto simp: group_at_def)
  have "i \<noteq> BITMAP_ERROR"
    using le wf by (simp add: BITMAP_ERROR_def wf_bitmap_def)
  moreover obtain r where r: "scan_loop b (i + 1) n cnt v = Some r"
      "if r = BITMAP_ERROR then \<forall>k. i + 1 \<le> k \<and> k < i + 1 + n \<longrightarrow> \<not> group_at (bits_of b) k cnt v
       else i + 1 \<le> r \<and> group_at (bits_of b) r cnt v \<and> (\<forall>k. i + 1 \<le> k \<and> k < r \<longrightarrow> \<not> group_at (bits_of b) k cnt v)"
    using Suc.IH [of "i + 1"] Suc.prems by (cases n) auto
  moreover have from_i: "i \<le> k \<longleftrightarrow> k = i \<or> i + 1 \<le> k" for k
    by auto
  ultimately show ?case
  proof (cases "group_at (bits_of b) i cnt v")
    case True
    then show ?thesis
      using c \<open>i \<noteq> BITMAP_ERROR\<close> by (auto intro!: exI [of _ i])
  next
    case False
    then have "scan_loop b i (Suc n) cnt v = Some r"
      using c r(1) by simp
    then show ?thesis
      using r(2) False unfolding from_i by (intro exI [of _ r]) (auto split: if_splits)
  qed
qed auto

lemma bitmap_scan_bits:
  assumes wf: "wf_bitmap b" and start: "start \<le> bit_cnt b"
  shows "\<exists>r. bitmap_scan b start cnt v = Some r \<and>
      (if r = BITMAP_ERROR then \<forall>k \<ge> start. \<not> group_at (bits_of b) k cnt v
       else start \<le> r \<and> group_at (bits_of b) r cnt v \<and> (\<forall>k. start \<le> k \<and> k < r \<longrightarrow> \<not> group_at (bits_of b) k cnt v))"
proof (cases "cnt \<le> bit_cnt b")
  case True
  let ?n = "bit_cnt b - cnt + 1 - start"
  have far: "\<not> group_at (bits_of b) k cnt v" if "k \<ge> start + ?n" for k
    using that True by (auto simp: group_at_def)
  obtain r where r: "scan_loop b start ?n cnt v = Some r"
      "if r = BITMAP_ERROR then \<forall>k. start \<le> k \<and> k < start + ?n \<longrightarrow> \<not> group_at (bits_of b) k cnt v
       else start \<le> r \<and> group_at (bits_of b) r cnt v \<and> (\<forall>k. start \<le> k \<and> k < r \<longrightarrow> \<not> group_at (bits_of b) k cnt v)"
    using scan_loop_bits [OF wf, of start ?n cnt v] True by (cases "?n = 0") auto
  then show ?thesis
    using far True start not_le by (auto simp: bitmap_scan_def Let_def split: if_splits)
next
  case False
  then show ?thesis
    using start by (auto simp: bitmap_scan_def BITMAP_ERROR_def group_at_def)
qed

text \<open>
  C13: \<open>bitmap_scan\<close> returns the lowest index at or after \<open>start\<close> at which \<open>cnt\<close>
  consecutive bits have the value \<open>v\<close>, and \<open>BITMAP_ERROR\<close> exactly when there is no such
  group.
\<close>

theorem bitmap_scan_correct:
  assumes "wf_bitmap b" and "start \<le> bit_cnt b"
  shows "\<exists>r. bitmap_scan b start cnt v = Some r \<and>
      (if \<exists>k \<ge> start. group_at (bits_of b) k cnt v
       then r = (LEAST k. start \<le> k \<and> group_at (bits_of b) k cnt v) else r = BITMAP_ERROR)"
proof -
  let ?P = "\<lambda>k. start \<le> k \<and> group_at (bits_of b) k cnt v"
  obtain r where r: "bitmap_scan b start cnt v = Some r"
      "if r = BITMAP_ERROR then \<forall>k \<ge> start. \<not> group_at (bits_of b) k cnt v
       else start \<le> r \<and> group_at (bits_of b) r cnt v \<and> (\<forall>k. start \<le> k \<and> k < r \<longrightarrow> \<not> group_at (bits_of b) k cnt v)"
    using bitmap_scan_bits [OF assms] by blast
  have "(LEAST k. ?P k) = r" if "r \<noteq> BITMAP_ERROR"
    using r(2) that by (intro Least_equality) (auto simp: not_less [symmetric])
  then show ?thesis
    using r by (auto split: if_splits)
qed

theorem bitmap_scan_correct_witness:
  "let b = \<lparr>bit_cnt = 4, bm_bits = [1]\<rparr> in
   \<exists>r. bitmap_scan b 0 2 False = Some r \<and>
      (if \<exists>k \<ge> 0. group_at (bits_of b) k 2 False
       then r = (LEAST k. 0 \<le> k \<and> group_at (bits_of b) k 2 False) else r = BITMAP_ERROR)"
  unfolding Let_def by (rule bitmap_scan_correct) (simp_all add: wf_bitmap_def)

section \<open>Bitmaps as allocators\<close>

definition used :: "bitmap \<Rightarrow> nat set" where
  "used b = {i. i < bit_cnt b \<and> bits_of b ! i}"

lemma used_fill:
  assumes "bits_of b' = fill (bits_of b) i n v" and "i + n \<le> bit_cnt b" and "bit_cnt b' = bit_cnt b"
  shows "used b' = (if v then used b \<union> {i..<i + n} else used b - {i..<i + n})"
  using assms by (auto simp: used_def nth_fill split: if_splits)

lemma group_at_used: "group_at (bits_of b) i n False \<longleftrightarrow> i + n \<le> bit_cnt b \<and> {i..<i + n} \<inter> used b = {}"
  by (auto simp: group_at_def used_def)

text \<open>The allocation of \<open>n\<close> consecutive units as the clients of bitmaps perform it.\<close>

definition bitmap_alloc :: "bitmap \<Rightarrow> nat \<Rightarrow> (nat option \<times> bitmap) option" where
  "bitmap_alloc b n = do {
     (i, b) \<leftarrow> bitmap_scan_and_flip b 0 n False;
     Some (if i = BITMAP_ERROR then None else Some i, b)
   }"

definition bitmap_release :: "bitmap \<Rightarrow> nat \<Rightarrow> nat \<Rightarrow> bitmap option" where
  "bitmap_release b i n = do {
     a \<leftarrow> bitmap_all b i n;
     ASSERT a;
     bitmap_set_multiple b i n False
   }"

lemma bitmap_alloc_used:
  assumes wf: "wf_bitmap b"
  shows "\<exists>r b'. bitmap_alloc b n = Some (r, b') \<and> wf_bitmap b' \<and> bit_cnt b' = bit_cnt b \<and>
    (case r of None \<Rightarrow> used b' = used b \<and> \<not> (\<exists>i. i + n \<le> bit_cnt b \<and> {i..<i + n} \<inter> used b = {})
     | Some i \<Rightarrow> i + n \<le> bit_cnt b \<and> {i..<i + n} \<inter> used b = {} \<and> used b' = used b \<union> {i..<i + n})"
proof -
  obtain r where r: "bitmap_scan b 0 n False = Some r"
      "if r = BITMAP_ERROR then \<forall>k \<ge> 0. \<not> group_at (bits_of b) k n False
       else 0 \<le> r \<and> group_at (bits_of b) r n False \<and> (\<forall>k. 0 \<le> k \<and> k < r \<longrightarrow> \<not> group_at (bits_of b) k n False)"
    using bitmap_scan_bits [OF wf, of 0 n False] by auto
  show ?thesis
  proof (cases "r = BITMAP_ERROR")
    case True
    then show ?thesis
      using r wf by (auto simp: bitmap_alloc_def bitmap_scan_and_flip_def group_at_used)
  next
    case False
    then have g: "r + n \<le> bit_cnt b" "{r..<r + n} \<inter> used b = {}"
      using r(2) by (simp_all add: group_at_used)
    then obtain b' where "bitmap_set_multiple b r n True = Some b'" "wf_bitmap b'" "bit_cnt b' = bit_cnt b"
        "bits_of b' = fill (bits_of b) r n True"
      using bitmap_set_multiple_bits [OF wf g(1)] by blast
    then show ?thesis
      using r(1) False g used_fill [of b' b r n True]
      by (simp add: bitmap_alloc_def bitmap_scan_and_flip_def)
  qed
qed

lemma bitmap_release_used:
  assumes wf: "wf_bitmap b" and u: "{i..<i + n} \<subseteq> used b" and le: "i + n \<le> bit_cnt b"
  shows "\<exists>b'. bitmap_release b i n = Some b' \<and> wf_bitmap b' \<and> bit_cnt b' = bit_cnt b
    \<and> used b' = used b - {i..<i + n}"
proof -
  have "bitmap_contains b i n False = Some False"
    using bitmap_contains_bits [OF wf le, of False] u by (auto simp: used_def)
  then have "bitmap_all b i n = Some True"
    by (simp add: bitmap_all_def)
  then show ?thesis
    using bitmap_set_multiple_bits [OF wf le, of False] used_fill [of _ b i n False] le
    by (auto simp: bitmap_release_def)
qed

end
