(* ===== verification/Range_Alloc.thy ===== *)
theory Range_Alloc
  imports Bitmap
begin

text \<open>
  The contract of an allocator of consecutive units, which the page allocator, the free
  map of the disk and the swap table implement on bitmaps: an allocation takes a range
  that was free and fails only when there is none, a release gives back exactly the range.
  The clients' lemmas are proved once from the contract.
\<close>

locale range_allocator =
  fixes inv :: "'s \<Rightarrow> bool"
    and in_use :: "'s \<Rightarrow> nat set"
    and cap :: "'s \<Rightarrow> nat"
    and alloc :: "'s \<Rightarrow> nat \<Rightarrow> (nat option \<times> 's) option"
    and release :: "'s \<Rightarrow> nat \<Rightarrow> nat \<Rightarrow> 's option"
  assumes alloc_law: "inv s \<Longrightarrow> 0 < n \<Longrightarrow> \<exists>r s'. alloc s n = Some (r, s') \<and> inv s' \<and> cap s' = cap s \<and>
      (case r of None \<Rightarrow> in_use s' = in_use s \<and> \<not> (\<exists>i. i + n \<le> cap s \<and> {i..<i + n} \<inter> in_use s = {})
       | Some i \<Rightarrow> i + n \<le> cap s \<and> {i..<i + n} \<inter> in_use s = {} \<and> in_use s' = in_use s \<union> {i..<i + n})"
    and release_law: "inv s \<Longrightarrow> 0 < n \<Longrightarrow> {i..<i + n} \<subseteq> in_use s \<Longrightarrow> i + n \<le> cap s \<Longrightarrow>
      \<exists>s'. release s i n = Some s' \<and> inv s' \<and> cap s' = cap s \<and> in_use s' = in_use s - {i..<i + n}"
begin

lemma alloc_total: "inv s \<Longrightarrow> 0 < n \<Longrightarrow> \<exists>r s'. alloc s n = Some (r, s') \<and> inv s'"
  using alloc_law [of s n] by blast

lemma alloc_Some:
  assumes "inv s" and "0 < n" and "alloc s n = Some (Some i, s')"
  shows "inv s'" and "cap s' = cap s" and "i + n \<le> cap s" and "{i..<i + n} \<inter> in_use s = {}"
    and "in_use s' = in_use s \<union> {i..<i + n}"
  using alloc_law [OF assms(1,2)] assms(3) by auto

lemma alloc_None:
  assumes "inv s" and "0 < n" and "alloc s n = Some (None, s')"
  shows "inv s'" and "in_use s' = in_use s" and "cap s' = cap s"
    and "\<not> (\<exists>i. i + n \<le> cap s \<and> {i..<i + n} \<inter> in_use s = {})"
  using alloc_law [OF assms(1,2)] assms(3) by auto

lemma allocs_disjoint:
  assumes "inv s" and "0 < n" and "0 < k"
    and "alloc s n = Some (Some i, s1)" and "alloc s1 k = Some (Some j, s2)"
  shows "{i..<i + n} \<inter> {j..<j + k} = {}"
  using alloc_Some(4) [OF alloc_Some(1) [OF assms(1,2,4)] assms(3,5)] alloc_Some(5) [OF assms(1,2,4)]
  by blast

lemma alloc_release:
  assumes "inv s" and "0 < n" and "alloc s n = Some (Some i, s1)"
  shows "\<exists>s2. release s1 i n = Some s2 \<and> inv s2 \<and> cap s2 = cap s \<and> in_use s2 = in_use s"
proof -
  note a = alloc_Some [OF assms]
  have "in_use s1 - {i..<i + n} = in_use s"
    using a(4,5) by auto
  then show ?thesis
    using release_law [OF a(1) assms(2), of i] a by auto
qed

text \<open>What has been given back can be allocated again.\<close>

lemma released_reusable:
  assumes "inv s" and "0 < n" and "{i..<i + n} \<subseteq> in_use s" and "i + n \<le> cap s" and "release s i n = Some s1"
  shows "\<exists>j s2. alloc s1 n = Some (Some j, s2) \<and> inv s2"
proof -
  have s1: "inv s1" "cap s1 = cap s" "in_use s1 = in_use s - {i..<i + n}"
    using release_law [OF assms(1-4)] assms(5) by auto
  then have "\<exists>i. i + n \<le> cap s1 \<and> {i..<i + n} \<inter> in_use s1 = {}"
    using assms(4) by (intro exI [of _ i]) auto
  moreover obtain r s2 where "alloc s1 n = Some (r, s2)" "inv s2"
    using alloc_total [OF s1(1) assms(2)] by blast
  ultimately show ?thesis
    using alloc_None(4) [OF s1(1) assms(2)] by (cases r) auto
qed

end

text \<open>The bitmap itself is such an allocator.\<close>

interpretation bm: range_allocator wf_bitmap used bit_cnt bitmap_alloc bitmap_release
  by unfold_locales (rule bitmap_alloc_used bitmap_release_used; assumption)+

end
