(* ===== verification/Vaddr.thy ===== *)
theory Vaddr
  imports Kernel_Prelude
begin

text \<open>
  Virtual addresses and page table entries, \<open>threads/vaddr.h\<close> and \<open>threads/pte.h\<close>, on
  32-bit words, with the arithmetic reading of the bit operations that the page
  allocator and the page directories rest on.
\<close>

section \<open>Virtual addresses\<close>

definition BITMASK :: "nat \<Rightarrow> nat \<Rightarrow> u32" where
  "BITMASK shift cnt = push_bit shift (push_bit cnt 1 - 1)"

definition PGSIZE :: nat where
  "PGSIZE = 4096"

definition PGMASK :: u32 where
  "PGMASK = BITMASK 0 12"

definition pg_ofs :: "u32 \<Rightarrow> u32" where
  "pg_ofs va = va AND PGMASK"

definition pg_no :: "u32 \<Rightarrow> u32" where
  "pg_no va = drop_bit 12 va"

definition pg_round_up :: "u32 \<Rightarrow> u32" where
  "pg_round_up va = (va + 4096 - 1) AND NOT PGMASK"

definition pg_round_down :: "u32 \<Rightarrow> u32" where
  "pg_round_down va = va AND NOT PGMASK"

definition PHYS_BASE :: u32 where
  "PHYS_BASE = 0xC0000000"

definition is_user_vaddr :: "u32 \<Rightarrow> bool" where
  "is_user_vaddr va \<longleftrightarrow> va < PHYS_BASE"

definition is_kernel_vaddr :: "u32 \<Rightarrow> bool" where
  "is_kernel_vaddr va \<longleftrightarrow> va \<ge> PHYS_BASE"

definition ptov :: "u32 \<Rightarrow> u32 option" where
  "ptov paddr = do { ASSERT (paddr < PHYS_BASE); Some (paddr + PHYS_BASE) }"

definition vtop :: "u32 \<Rightarrow> u32 option" where
  "vtop va = do { ASSERT (is_kernel_vaddr va); Some (va - PHYS_BASE) }"

section \<open>Page table entries\<close>

definition PTMASK :: u32 where
  "PTMASK = BITMASK 12 10"

definition pt_no :: "u32 \<Rightarrow> u32" where
  "pt_no va = drop_bit 12 (va AND PTMASK)"

definition pd_no :: "u32 \<Rightarrow> u32" where
  "pd_no va = drop_bit 22 va"

definition PTE_ADDR :: u32 where "PTE_ADDR = 0xfffff000"
definition PTE_P :: u32 where "PTE_P = 0x1"
definition PTE_W :: u32 where "PTE_W = 0x2"
definition PTE_U :: u32 where "PTE_U = 0x4"
definition PTE_A :: u32 where "PTE_A = 0x20"
definition PTE_D :: u32 where "PTE_D = 0x40"

definition pde_create :: "u32 \<Rightarrow> u32 option" where
  "pde_create pt = do {
     ASSERT (pg_ofs pt = 0);
     p \<leftarrow> vtop pt;
     Some (p OR PTE_U OR PTE_P OR PTE_W)
   }"

definition pde_get_pt :: "u32 \<Rightarrow> u32 option" where
  "pde_get_pt pde = do { ASSERT (pde AND PTE_P \<noteq> 0); ptov (pde AND PTE_ADDR) }"

definition pte_create_kernel :: "u32 \<Rightarrow> bool \<Rightarrow> u32 option" where
  "pte_create_kernel page w = do {
     ASSERT (pg_ofs page = 0);
     p \<leftarrow> vtop page;
     Some (p OR PTE_P OR (if w then PTE_W else 0))
   }"

definition pte_create_user :: "u32 \<Rightarrow> bool \<Rightarrow> u32 option" where
  "pte_create_user page w = do { p \<leftarrow> pte_create_kernel page w; Some (p OR PTE_U) }"

definition pte_get_page :: "u32 \<Rightarrow> u32 option" where
  "pte_get_page pte = ptov (pte AND PTE_ADDR)"

section \<open>Arithmetic reading\<close>

lemma PGMASK_mask: "PGMASK = mask 12"
  by (simp add: PGMASK_def BITMASK_def mask_eq_exp_minus_1 push_bit_eq_mult)

lemma PTE_ADDR_mask: "PTE_ADDR = NOT (mask 12)"
  by (simp add: PTE_ADDR_def mask_eq_exp_minus_1)

lemma PTMASK_mask: "PTMASK = push_bit 12 (mask 10)"
  by (simp add: PTMASK_def BITMASK_def mask_eq_exp_minus_1 push_bit_eq_mult)

lemma and_not_mask: "w AND NOT (mask n) = push_bit n (drop_bit n (w :: 'a::len word))"
  by (rule bit_word_eqI) (auto simp: bit_simps)

lemma unat_take_bit_mod: "unat (take_bit n (w :: 'a::len word)) = unat w mod 2 ^ n"
  unfolding unsigned_take_bit_eq by (rule take_bit_eq_mod)

lemma unat_drop_bit_div: "unat (drop_bit n (w :: 'a::len word)) = unat w div 2 ^ n"
  unfolding unat_drop_bit_eq by (rule drop_bit_eq_div)

lemma unat_pg_ofs: "unat (pg_ofs va) = unat va mod 4096"
  using unat_take_bit_mod [of 12 va] by (simp add: pg_ofs_def PGMASK_mask take_bit_eq_mask)

lemma unat_pg_no: "unat (pg_no va) = unat va div 4096"
  by (simp add: pg_no_def unat_drop_bit_div)

lemma unat_pd_no: "unat (pd_no va) = unat va div 4194304"
  by (simp add: pd_no_def unat_drop_bit_div)

lemma pt_no_take_bit: "pt_no va = take_bit 10 (drop_bit 12 va)"
  unfolding pt_no_def PTMASK_mask by (rule bit_word_eqI) (auto simp: bit_simps)

lemma unat_pt_no: "unat (pt_no va) = unat va div 4096 mod 1024"
  using unat_take_bit_mod [of 10 "drop_bit 12 va"] unat_drop_bit_div [of 12 va] by (simp add: pt_no_take_bit)

lemma unat_pg_round_down: "unat (pg_round_down va) = unat va - unat va mod 4096"
proof -
  have "push_bit 12 (drop_bit 12 va) + take_bit 12 va = va"
    by (rule bits_ident)
  then have "pg_round_down va = va - pg_ofs va"
    by (simp add: pg_round_down_def pg_ofs_def PGMASK_mask and_not_mask take_bit_eq_mask [symmetric] eq_diff_eq)
  moreover have "pg_ofs va \<le> va"
    by (simp add: word_le_nat_alt unat_pg_ofs)
  ultimately show ?thesis
    by (simp add: unat_sub unat_pg_ofs)
qed

lemma aligned_iff: "pg_ofs va = 0 \<longleftrightarrow> unat va mod 4096 = 0"
  by (metis unat_eq_zero unat_pg_ofs)

lemma unat_PHYS_BASE [simp]: "unat PHYS_BASE = 3221225472"
  by (simp add: PHYS_BASE_def)

lemma ptov_vtop:
  assumes "is_kernel_vaddr va"
  shows "\<exists>p. vtop va = Some p \<and> unat p = unat va - 3221225472 \<and> ptov p = Some va"
proof -
  have "PHYS_BASE \<le> va"
    using assms by (simp add: is_kernel_vaddr_def)
  then have p: "unat (va - PHYS_BASE) = unat va - 3221225472"
    by (simp add: unat_sub)
  then have "va - PHYS_BASE < PHYS_BASE"
    using unat_less_u32 [of va] by (simp add: word_less_nat_alt)
  then show ?thesis
    using p assms by (simp add: vtop_def ptov_def)
qed

text \<open>The three indices of an address determine it.\<close>

lemma vaddr_split: "unat va = unat (pd_no va) * 4194304 + unat (pt_no va) * 4096 + unat (pg_ofs va)"
proof -
  define x where "x = unat va"
  have "x div 4194304 = x div 4096 div 1024"
    by (simp add: div_mult2_eq [symmetric])
  then have "x div 4096 = x div 4194304 * 1024 + x div 4096 mod 1024"
    by simp
  then have "x = (x div 4194304 * 1024 + x div 4096 mod 1024) * 4096 + x mod 4096"
    by (metis div_mult_mod_eq)
  then show ?thesis
    unfolding unat_pd_no unat_pt_no unat_pg_ofs x_def [symmetric] by (simp add: algebra_simps)
qed

lemma pd_no_bound: "unat (pd_no va) < 1024"
  using unat_less_u32 [of va] by (simp add: unat_pd_no)

lemma pt_no_bound: "unat (pt_no va) < 1024"
  by (simp add: unat_pt_no)

lemma same_page: "pd_no a = pd_no b \<Longrightarrow> pt_no a = pt_no b \<Longrightarrow> pg_ofs a = pg_ofs b \<Longrightarrow> a = b"
  by (metis vaddr_split word_unat_eq_iff)

lemma same_page_aligned:
  "pg_ofs a = 0 \<Longrightarrow> pg_ofs b = 0 \<Longrightarrow> a \<noteq> b \<Longrightarrow> pd_no a \<noteq> pd_no b \<or> pt_no a \<noteq> pt_no b"
  using same_page by auto

text \<open>An entry built from an aligned frame address gives the frame back.\<close>

lemma aligned_low_bits: "pg_ofs p = 0 \<Longrightarrow> n < 12 \<Longrightarrow> \<not> bit p n"
proof -
  assume "pg_ofs p = 0" and "n < 12"
  then have "\<not> bit (p AND mask 12) n"
    by (simp add: pg_ofs_def PGMASK_mask)
  then show "\<not> bit p n"
    using \<open>n < 12\<close> by (simp add: bit_simps)
qed

lemma and_addr_flags:
  assumes "pg_ofs p = 0" and "f AND NOT (mask 12) = 0"
  shows "(p OR f) AND PTE_ADDR = p"
proof (rule bit_word_eqI)
  fix n :: nat
  have "bit (f AND NOT (mask 12)) n = bit (0 :: u32) n"
    by (simp only: assms(2))
  then have "bit f n \<Longrightarrow> n < 12 \<or> 32 \<le> n"
    by (auto simp: bit_simps)
  moreover assume "n < LENGTH(32)"
  ultimately show "bit ((p OR f) AND PTE_ADDR) n = bit p n"
    using aligned_low_bits [OF assms(1), of n] by (auto simp: PTE_ADDR_mask bit_simps)
qed

lemma vtop_aligned: "pg_ofs va = 0 \<Longrightarrow> vtop va = Some p \<Longrightarrow> pg_ofs p = 0"
  using ptov_vtop [of va] by (auto simp: vtop_def aligned_iff is_kernel_vaddr_def)

lemma pde_roundtrip:
  assumes "pg_ofs pt = 0" and "is_kernel_vaddr pt"
  shows "\<exists>e. pde_create pt = Some e \<and> pde_get_pt e = Some pt \<and> e \<noteq> 0"
proof -
  obtain p where p: "vtop pt = Some p" "ptov p = Some pt" "pg_ofs p = 0"
    using ptov_vtop [OF assms(2)] vtop_aligned [OF assms(1)] by blast
  let ?e = "p OR PTE_U OR PTE_P OR PTE_W"
  have "?e AND PTE_ADDR = p"
    using and_addr_flags [OF p(3), of "PTE_U OR PTE_P OR PTE_W"]
    by (simp add: PTE_U_def PTE_P_def PTE_W_def mask_eq_exp_minus_1 or.assoc)
  moreover have "bit ?e 0"
    by (simp add: bit_simps PTE_P_def)
  then have "?e AND PTE_P \<noteq> 0"
    by (metis PTE_P_def bit_0 and_one_eq odd_one zero_neq_one even_zero mod2_eq_if one_mod_two_eq_one bit_0_eq)
  ultimately show ?thesis
    using p assms(1) by (auto simp: pde_create_def pde_get_pt_def)
qed

lemma bit_0_PTE_P: "bit e 0 \<Longrightarrow> e AND PTE_P \<noteq> 0"
  by (auto simp: PTE_P_def and_one_eq bit_0 odd_iff_mod_2_eq_one)

lemma pte_user_entry:
  assumes "pg_ofs page = 0" and "is_kernel_vaddr page"
  shows "\<exists>e. pte_create_user page w = Some e \<and> pte_get_page e = Some page \<and> e AND PTE_P \<noteq> 0"
proof -
  obtain p where p: "vtop page = Some p" "ptov p = Some page" "pg_ofs p = 0"
    using ptov_vtop [OF assms(2)] vtop_aligned [OF assms(1)] by blast
  let ?f = "PTE_P OR (if w then PTE_W else 0) OR PTE_U"
  let ?e = "(p OR PTE_P OR (if w then PTE_W else 0)) OR PTE_U"
  have "?e AND PTE_ADDR = p"
    using and_addr_flags [OF p(3), of ?f] by (simp add: PTE_U_def PTE_P_def PTE_W_def mask_eq_exp_minus_1 or.assoc)
  moreover have "?e AND PTE_P \<noteq> 0"
    by (rule bit_0_PTE_P) (simp add: bit_simps PTE_P_def)
  moreover have "pte_create_user page w = Some ?e"
    using p assms(1) by (simp add: pte_create_user_def pte_create_kernel_def)
  ultimately show ?thesis
    using p(2) unfolding pte_get_page_def by (intro exI [of _ ?e]) simp
qed

text \<open>
  The entry made for a page-aligned kernel page leads back to that page, is present
  and accessible to user code, and is writable exactly when asked for.
\<close>

theorem pte_create_user_correct:
  assumes "pg_ofs page = 0" and "is_kernel_vaddr page"
  shows "\<exists>e. pte_create_user page w = Some e \<and> pte_get_page e = Some page
    \<and> e AND PTE_P \<noteq> 0 \<and> bit e 2 \<and> (bit e 1 \<longleftrightarrow> w)"
proof -
  obtain e where e: "pte_create_user page w = Some e" "pte_get_page e = Some page" "e AND PTE_P \<noteq> 0"
    using pte_user_entry [OF assms] by blast
  then obtain p where p: "vtop page = Some p" "e = (p OR PTE_P OR (if w then PTE_W else 0)) OR PTE_U"
    by (auto simp: pte_create_user_def pte_create_kernel_def)
  have "bit e 2" "bit e 1 \<longleftrightarrow> w"
    using aligned_low_bits [OF vtop_aligned [OF assms(1) p(1)], of 1] unfolding p(2)
    by (simp_all add: bit_simps PTE_P_def PTE_U_def PTE_W_def bit_numeral_rec numeral_2_eq_2)
  then show ?thesis
    using e by blast
qed

theorem pte_create_user_correct_witness:
  "\<exists>e. pte_create_user 0xC0100000 True = Some e \<and> pte_get_page e = Some 0xC0100000
    \<and> e AND PTE_P \<noteq> 0 \<and> bit e 2 \<and> (bit e 1 \<longleftrightarrow> True)"
  by (rule pte_create_user_correct)
    (simp_all add: pg_ofs_def PGMASK_def BITMASK_def is_kernel_vaddr_def PHYS_BASE_def push_bit_eq_mult)

end
