(* ===== verification/Palloc.thy ===== *)
theory Palloc
  imports Range_Alloc Vaddr
begin

text \<open>
  The page allocator, \<open>threads/palloc.c\<close>: two pools of page frames, each with a bitmap of
  the frames in use.  An allocation takes the lock of its pool, which is modelled as
  free, so that it is one step; freeing takes no lock.
  The contents of a frame are its 1024 words.
\<close>

section \<open>The operations\<close>

record pool =
  used_map :: bitmap
  pool_base :: u32

record palloc_state =
  kernel_pool :: pool
  user_pool :: pool
  frames :: "u32 \<Rightarrow> u32 list"

definition PAL_ASSERT :: u32 where "PAL_ASSERT = 1"
definition PAL_ZERO :: u32 where "PAL_ZERO = 2"
definition PAL_USER :: u32 where "PAL_USER = 4"

text \<open>\<open>memset\<close> over \<open>n\<close> whole pages, with the word that repeats the byte.\<close>

fun fill_pages :: "(u32 \<Rightarrow> u32 list) \<Rightarrow> u32 \<Rightarrow> u32 \<Rightarrow> nat \<Rightarrow> (u32 \<Rightarrow> u32 list)" where
  "fill_pages fr p w 0 = fr"
| "fill_pages fr p w (Suc n) = fill_pages (fr(p := replicate 1024 w)) (p + 4096) w n"

definition page_from_pool :: "pool \<Rightarrow> u32 \<Rightarrow> bool" where
  "page_from_pool pool page =
     (let page_no = unat (pg_no page);
          start_page = unat (pg_no (pool_base pool));
          end_page = size_wrap (start_page + bitmap_size (used_map pool))
      in start_page \<le> page_no \<and> page_no < end_page)"

text \<open>\<open>buf\<close> is what the memory behind the bitmap header holds at that time.\<close>

definition init_pool :: "u32 \<Rightarrow> nat \<Rightarrow> u32 list \<Rightarrow> pool option" where
  "init_pool base page_cnt buf = do {
     let bm_pages = size_wrap (bitmap_buf_size page_cnt + PGSIZE - 1) div PGSIZE;
     ASSERT (bm_pages \<le> page_cnt);
     let page_cnt = page_cnt - bm_pages;
     bm \<leftarrow> bitmap_create_in_buf page_cnt buf (size_wrap (bm_pages * PGSIZE));
     Some \<lparr>used_map = bm, pool_base = base + word_of_nat (bm_pages * PGSIZE)\<rparr>
   }"

text \<open>
  \<open>init_ram_pages\<close> is set by the loader; \<open>kbuf\<close> and \<open>ubuf\<close> are the initial contents of the
  two bitmaps' storage.
\<close>

definition palloc_init :: "nat \<Rightarrow> nat \<Rightarrow> u32 list \<Rightarrow> u32 list \<Rightarrow> (u32 \<Rightarrow> u32 list) \<Rightarrow> palloc_state option" where
  "palloc_init init_ram_pages user_page_limit kbuf ubuf fr = do {
     free_start \<leftarrow> ptov (1024 * 1024);
     free_end \<leftarrow> ptov (word_of_nat (init_ram_pages * PGSIZE));
     let free_pages = unat (free_end - free_start) div PGSIZE;
     let user_pages = free_pages div 2;
     let user_pages = (if user_page_limit < user_pages then user_page_limit else user_pages);
     let kernel_pages = free_pages - user_pages;
     kp \<leftarrow> init_pool free_start kernel_pages kbuf;
     up \<leftarrow> init_pool (free_start + word_of_nat (kernel_pages * PGSIZE)) user_pages ubuf;
     Some \<lparr>kernel_pool = kp, user_pool = up, frames = fr\<rparr>
   }"

text \<open>The pool a call works on, selected by \<open>PAL_USER\<close>, and its replacement.\<close>

definition get_pool :: "palloc_state \<Rightarrow> bool \<Rightarrow> pool" where
  "get_pool s usr = (if usr then user_pool s else kernel_pool s)"

definition put_pool :: "palloc_state \<Rightarrow> bool \<Rightarrow> pool \<Rightarrow> palloc_state" where
  "put_pool s usr p = (if usr then s\<lparr>user_pool := p\<rparr> else s\<lparr>kernel_pool := p\<rparr>)"

definition palloc_get_multiple :: "palloc_state \<Rightarrow> u32 \<Rightarrow> nat \<Rightarrow> (u32 \<times> palloc_state) option" where
  "palloc_get_multiple s flags page_cnt =
     (let usr = flags AND PAL_USER \<noteq> 0; pool = get_pool s usr in
      if page_cnt = 0 then Some (0, s)
      else do {
        (page_idx, bm) \<leftarrow> bitmap_scan_and_flip (used_map pool) 0 page_cnt False;
        let s = put_pool s usr (pool\<lparr>used_map := bm\<rparr>);
        let pages = (if page_idx \<noteq> BITMAP_ERROR then pool_base pool + word_of_nat (PGSIZE * page_idx) else 0);
        if pages \<noteq> 0
        then Some (pages, if flags AND PAL_ZERO \<noteq> 0
                          then s\<lparr>frames := fill_pages (frames s) pages 0 page_cnt\<rparr> else s)
        else if flags AND PAL_ASSERT \<noteq> 0 then None
        else Some (pages, s)
      })"

definition palloc_get_page :: "palloc_state \<Rightarrow> u32 \<Rightarrow> (u32 \<times> palloc_state) option" where
  "palloc_get_page s flags = palloc_get_multiple s flags 1"

definition palloc_free_multiple :: "palloc_state \<Rightarrow> u32 \<Rightarrow> nat \<Rightarrow> palloc_state option" where
  "palloc_free_multiple s pages page_cnt = do {
     ASSERT (pg_ofs pages = 0);
     if pages = 0 \<or> page_cnt = 0 then Some s
     else do {
       usr \<leftarrow> (if page_from_pool (kernel_pool s) pages then Some False
              else if page_from_pool (user_pool s) pages then Some True
              else None);
       let pool = get_pool s usr;
       let page_idx = unat (pg_no pages - pg_no (pool_base pool));
       let s = s\<lparr>frames := fill_pages (frames s) pages 0xcccccccc page_cnt\<rparr>;
       a \<leftarrow> bitmap_all (used_map pool) page_idx page_cnt;
       ASSERT a;
       bm \<leftarrow> bitmap_set_multiple (used_map pool) page_idx page_cnt False;
       Some (put_pool s usr (pool\<lparr>used_map := bm\<rparr>))
     }
   }"

definition palloc_free_page :: "palloc_state \<Rightarrow> u32 \<Rightarrow> palloc_state option" where
  "palloc_free_page s page = palloc_free_multiple s page 1"

section \<open>Well-formed pools\<close>

definition wf_pool :: "pool \<Rightarrow> bool" where
  "wf_pool p \<longleftrightarrow> wf_bitmap (used_map p) \<and> pg_ofs (pool_base p) = 0 \<and> is_kernel_vaddr (pool_base p)
     \<and> unat (pool_base p) + 4096 * bit_cnt (used_map p) \<le> 2 ^ 32"

definition wf_palloc :: "palloc_state \<Rightarrow> bool" where
  "wf_palloc s \<longleftrightarrow> wf_pool (kernel_pool s) \<and> wf_pool (user_pool s)
     \<and> unat (pool_base (kernel_pool s)) + 4096 * bit_cnt (used_map (kernel_pool s)) \<le> unat (pool_base (user_pool s))"

text \<open>The address of page \<open>i\<close> of a pool.\<close>

definition page_at :: "pool \<Rightarrow> nat \<Rightarrow> u32" where
  "page_at p i = pool_base p + word_of_nat (4096 * i)"

lemma unat_page_at:
  assumes "wf_pool p" and "i < bit_cnt (used_map p)"
  shows "unat (page_at p i) = unat (pool_base p) + 4096 * i"
proof -
  have lt: "unat (pool_base p) + 4096 * i < 2 ^ 32"
    using assms by (simp add: wf_pool_def)
  have "page_at p i = word_of_nat (unat (pool_base p) + 4096 * i)"
    by (simp add: page_at_def)
  moreover have "unat (word_of_nat (unat (pool_base p) + 4096 * i) :: u32) = unat (pool_base p) + 4096 * i"
    using lt by (intro unat_word_of_nat_small) simp
  ultimately show ?thesis
    by (simp only:)
qed

lemma page_at_facts:
  assumes "wf_pool p" and "i < bit_cnt (used_map p)"
  shows "page_at p i \<noteq> 0" and "pg_ofs (page_at p i) = 0" and "is_kernel_vaddr (page_at p i)"
    and "unat (pg_no (page_at p i)) = unat (pg_no (pool_base p)) + i"
    and "unat (pg_no (page_at p i) - pg_no (pool_base p)) = i"
proof -
  note u = unat_page_at [OF assms]
  have b: "unat (pool_base p) mod 4096 = 0" "3221225472 \<le> unat (pool_base p)"
    using assms(1) by (simp_all add: wf_pool_def aligned_iff is_kernel_vaddr_def word_le_nat_alt)
  show "page_at p i \<noteq> 0"
    using u b(2) by (metis add_leE le_zero_eq unat_0 zero_neq_numeral)
  show "pg_ofs (page_at p i) = 0"
    using u b by (simp add: aligned_iff mod_add_eq)
  show "is_kernel_vaddr (page_at p i)"
    using u b by (simp add: is_kernel_vaddr_def word_le_nat_alt)
  show n: "unat (pg_no (page_at p i)) = unat (pg_no (pool_base p)) + i"
    using u by (simp add: unat_pg_no)
  then show "unat (pg_no (page_at p i) - pg_no (pool_base p)) = i"
    by (subst unat_sub) (simp_all add: word_le_nat_alt)
qed

lemma page_from_pool_iff:
  assumes "wf_pool p" and "pg_ofs page = 0"
  shows "page_from_pool p page \<longleftrightarrow> (\<exists>i < bit_cnt (used_map p). page = page_at p i)"
proof
  have b: "unat (pool_base p) mod 4096 = 0" "unat (pool_base p) + 4096 * bit_cnt (used_map p) \<le> 2 ^ 32"
    using assms(1) by (simp_all add: wf_pool_def aligned_iff)
  have w: "size_wrap (unat (pg_no (pool_base p)) + bit_cnt (used_map p)) = unat (pg_no (pool_base p)) + bit_cnt (used_map p)"
    using b(2) by (intro size_wrap_id) (simp add: unat_pg_no)
  {
    assume "page_from_pool p page"
    then have r: "unat (pool_base p) div 4096 \<le> unat page div 4096"
        "unat page div 4096 < unat (pool_base p) div 4096 + bit_cnt (used_map p)"
      using w by (simp_all add: page_from_pool_def Let_def bitmap_size_def unat_pg_no)
    define i where "i = unat page div 4096 - unat (pool_base p) div 4096"
    have i: "i < bit_cnt (used_map p)"
      using r by (simp add: i_def)
    moreover have "unat page = unat (pool_base p) + 4096 * i"
    proof -
      have "unat page = 4096 * (unat page div 4096)" "unat (pool_base p) = 4096 * (unat (pool_base p) div 4096)"
        using assms(2) b(1) mult_div_mod_eq [of 4096 "unat page"] mult_div_mod_eq [of 4096 "unat (pool_base p)"]
        by (simp_all add: aligned_iff)
      then show ?thesis
        using r(1) by (simp add: i_def algebra_simps)
    qed
    ultimately show "\<exists>i < bit_cnt (used_map p). page = page_at p i"
      using unat_page_at [OF assms(1)] by (metis word_unat_eq_iff)
  }
  assume "\<exists>i < bit_cnt (used_map p). page = page_at p i"
  then show "page_from_pool p page"
    using page_at_facts(4) [OF assms(1)] w by (auto simp: page_from_pool_def Let_def bitmap_size_def)
qed

lemma fill_pages_at:
  "fill_pages fr p w n a = (if \<exists>k < n. a = p + word_of_nat (4096 * k) then replicate 1024 w else fr a)"
proof (induction n arbitrary: fr p)
  case (Suc n)
  have "(\<exists>k < Suc n. a = p + word_of_nat (4096 * k)) \<longleftrightarrow> a = p \<or> (\<exists>k < n. a = p + 4096 + word_of_nat (4096 * k))"
    by (auto simp: less_Suc_eq_0_disj algebra_simps)
  then show ?case
    unfolding fill_pages.simps Suc.IH by auto
qed simp

section \<open>The allocator contract\<close>

lemma get_put_pool [simp]:
  "get_pool (put_pool s usr p) usr = p" "get_pool (put_pool s usr p) (\<not> usr) = get_pool s (\<not> usr)"
  "get_pool (s\<lparr>frames := f\<rparr>) u = get_pool s u" "frames (put_pool s usr p) = frames s"
  by (simp_all add: get_pool_def put_pool_def)

lemma wf_get_pool: "wf_palloc s \<Longrightarrow> wf_pool (get_pool s u)"
  by (simp add: wf_palloc_def get_pool_def)

text \<open>Replacing a pool's bitmap by one of the same size, whatever is done to the frames.\<close>

lemma wf_palloc_put:
  assumes "wf_palloc s" and "wf_bitmap bm" and "bit_cnt bm = bit_cnt (used_map (get_pool s u))"
  shows "wf_palloc (put_pool s u ((get_pool s u)\<lparr>used_map := bm\<rparr>))"
  using assms by (auto simp: wf_palloc_def wf_pool_def put_pool_def get_pool_def)

lemma wf_palloc_frames [simp]: "wf_palloc (s\<lparr>frames := f\<rparr>) = wf_palloc s"
  by (simp add: wf_palloc_def)

definition free_range :: "palloc_state \<Rightarrow> bool \<Rightarrow> nat \<Rightarrow> nat \<Rightarrow> bool" where
  "free_range s u i n \<longleftrightarrow> i + n \<le> bit_cnt (used_map (get_pool s u)) \<and> {i..<i + n} \<inter> used (used_map (get_pool s u)) = {}"

lemma palloc_get_spec:
  fixes flags :: u32
  assumes wf: "wf_palloc s" and n: "0 < n"
  defines "u \<equiv> flags AND PAL_USER \<noteq> 0"
  shows "if \<exists>i. free_range s u i n
    then \<exists>i s'. palloc_get_multiple s flags n = Some (page_at (get_pool s u) i, s') \<and> wf_palloc s' \<and> free_range s u i n
      \<and> get_pool s' (\<not> u) = get_pool s (\<not> u) \<and> pool_base (get_pool s' u) = pool_base (get_pool s u)
      \<and> bit_cnt (used_map (get_pool s' u)) = bit_cnt (used_map (get_pool s u))
      \<and> used (used_map (get_pool s' u)) = used (used_map (get_pool s u)) \<union> {i..<i + n}
      \<and> frames s' = (if flags AND PAL_ZERO \<noteq> 0 then fill_pages (frames s) (page_at (get_pool s u) i) 0 n else frames s)
    else palloc_get_multiple s flags n = (if flags AND PAL_ASSERT \<noteq> 0 then None else Some (0, s))"
proof -
  let ?p = "get_pool s u"
  have wp: "wf_pool ?p" and wb: "wf_bitmap (used_map ?p)"
    using wf_get_pool [OF wf] by (simp_all add: wf_pool_def)
  obtain r where r: "bitmap_scan (used_map ?p) 0 n False = Some r"
      "if r = BITMAP_ERROR then \<forall>k \<ge> 0. \<not> group_at (bits_of (used_map ?p)) k n False
       else 0 \<le> r \<and> group_at (bits_of (used_map ?p)) r n False
         \<and> (\<forall>k. 0 \<le> k \<and> k < r \<longrightarrow> \<not> group_at (bits_of (used_map ?p)) k n False)"
    using bitmap_scan_bits [OF wb, of 0 n False] by auto
  have g: "group_at (bits_of (used_map ?p)) k n False \<longleftrightarrow> free_range s u k n" for k
    by (simp add: group_at_used free_range_def)
  show ?thesis
  proof (cases "r = BITMAP_ERROR")
    case True
    then have "\<not> (\<exists>i. free_range s u i n)"
      using r(2) g by simp
    moreover have "put_pool s u (?p\<lparr>used_map := used_map ?p\<rparr>) = s"
      by (simp add: put_pool_def get_pool_def)
    ultimately show ?thesis
      using r(1) True n by (simp add: palloc_get_multiple_def bitmap_scan_and_flip_def u_def Let_def)
  next
    case False
    then have fr: "free_range s u r n"
      using r(2) g by simp
    then have le: "r + n \<le> bit_cnt (used_map ?p)"
      by (simp add: free_range_def)
    obtain bm where bm: "bitmap_set_multiple (used_map ?p) r n True = Some bm" "wf_bitmap bm"
        "bit_cnt bm = bit_cnt (used_map ?p)" "bits_of bm = fill (bits_of (used_map ?p)) r n True"
      using bitmap_set_multiple_bits [OF wb le] by blast
    have us: "used bm = used (used_map ?p) \<union> {r..<r + n}"
      using used_fill [OF bm(4) le bm(3)] by simp
    have nz: "page_at ?p r \<noteq> 0"
      using page_at_facts(1) [OF wp, of r] le n by simp
    let ?s = "put_pool s u (?p\<lparr>used_map := bm\<rparr>)"
    let ?s' = "if flags AND PAL_ZERO \<noteq> 0 then ?s\<lparr>frames := fill_pages (frames s) (page_at ?p r) 0 n\<rparr> else ?s"
    have "palloc_get_multiple s flags n = Some (page_at ?p r, ?s')"
      using r(1) False bm(1) n nz
      by (simp add: palloc_get_multiple_def bitmap_scan_and_flip_def u_def Let_def page_at_def PGSIZE_def)
    moreover have "wf_palloc ?s'"
      using wf_palloc_put [OF wf bm(2,3)] by simp
    ultimately show ?thesis
      using fr us bm(3) by auto
  qed
qed

lemma palloc_get_ex:
  fixes flags :: u32
  assumes "wf_palloc s" and "0 < n" and "(flags AND PAL_USER \<noteq> 0) = u" and "free_range s u k n"
  shows "\<exists>i s'. palloc_get_multiple s flags n = Some (page_at (get_pool s u) i, s') \<and> wf_palloc s' \<and> free_range s u i n
      \<and> get_pool s' (\<not> u) = get_pool s (\<not> u) \<and> pool_base (get_pool s' u) = pool_base (get_pool s u)
      \<and> bit_cnt (used_map (get_pool s' u)) = bit_cnt (used_map (get_pool s u))
      \<and> used (used_map (get_pool s' u)) = used (used_map (get_pool s u)) \<union> {i..<i + n}
      \<and> frames s' = (if flags AND PAL_ZERO \<noteq> 0 then fill_pages (frames s) (page_at (get_pool s u) i) 0 n else frames s)"
proof -
  have "\<exists>i. free_range s u i n"
    using assms(4) by blast
  then show ?thesis
    using palloc_get_spec [OF assms(1,2), of flags] unfolding assms(3) by presburger
qed

lemma palloc_free_spec:
  assumes wf: "wf_palloc s" and n: "0 < n"
    and le: "i + n \<le> bit_cnt (used_map (get_pool s u))" and us: "{i..<i + n} \<subseteq> used (used_map (get_pool s u))"
  shows "\<exists>s'. palloc_free_multiple s (page_at (get_pool s u) i) n = Some s' \<and> wf_palloc s'
    \<and> get_pool s' (\<not> u) = get_pool s (\<not> u) \<and> pool_base (get_pool s' u) = pool_base (get_pool s u)
    \<and> bit_cnt (used_map (get_pool s' u)) = bit_cnt (used_map (get_pool s u))
    \<and> used (used_map (get_pool s' u)) = used (used_map (get_pool s u)) - {i..<i + n}
    \<and> frames s' = fill_pages (frames s) (page_at (get_pool s u) i) 0xcccccccc n"
proof -
  let ?p = "get_pool s u" and ?k = "get_pool s False"
  have wp: "wf_pool ?p" "wf_pool ?k" and wb: "wf_bitmap (used_map ?p)"
    using wf_get_pool [OF wf] by (simp_all add: wf_pool_def)
  have i: "i < bit_cnt (used_map ?p)"
    using le n by simp
  note pf = page_at_facts [OF wp(1) i]
  have from_u: "page_from_pool ?p (page_at ?p i)"
    using page_from_pool_iff [OF wp(1) pf(2)] i by blast
  have "\<not> page_from_pool ?k (page_at ?p i)" if "u"
  proof
    assume "page_from_pool ?k (page_at ?p i)"
    then obtain j where j: "j < bit_cnt (used_map ?k)" "page_at ?p i = page_at ?k j"
      using page_from_pool_iff [OF wp(2) pf(2)] by blast
    then have "unat (pool_base ?p) + 4096 * i = unat (pool_base ?k) + 4096 * j"
      using unat_page_at [OF wp(1) i] unat_page_at [OF wp(2) j(1)] by simp
    then show False
      using wf j(1) that by (simp add: wf_palloc_def get_pool_def)
  qed
  then have sel: "(if page_from_pool (kernel_pool s) (page_at ?p i) then Some False
      else if page_from_pool (user_pool s) (page_at ?p i) then Some True else None) = Some u"
    using from_u by (cases u) (simp_all add: get_pool_def)
  obtain bm where bm: "bitmap_release (used_map ?p) i n = Some bm" "wf_bitmap bm"
      "bit_cnt bm = bit_cnt (used_map ?p)" "used bm = used (used_map ?p) - {i..<i + n}"
    using bitmap_release_used [OF wb us le] by blast
  let ?s1 = "s\<lparr>frames := fill_pages (frames s) (page_at ?p i) 0xcccccccc n\<rparr>"
  let ?s' = "put_pool ?s1 u (?p\<lparr>used_map := bm\<rparr>)"
  have "palloc_free_multiple s (page_at ?p i) n = Some ?s'"
    using pf n sel bm(1) by (auto simp: palloc_free_multiple_def Let_def bitmap_release_def)
  moreover have "wf_palloc ?s'"
    using wf_palloc_put [of ?s1 bm u] wf bm(2,3) by simp
  ultimately show ?thesis
    using bm(3,4) by auto
qed

text \<open>The pools as instances of the allocator contract, with page numbers relative to the pool.\<close>

definition pool_alloc :: "bool \<Rightarrow> palloc_state \<Rightarrow> nat \<Rightarrow> (nat option \<times> palloc_state) option" where
  "pool_alloc u s n = do {
     (p, s') \<leftarrow> palloc_get_multiple s (if u then PAL_USER else 0) n;
     Some (if p = 0 then None else Some (unat (pg_no p - pg_no (pool_base (get_pool s u)))), s')
   }"

definition pool_release :: "bool \<Rightarrow> palloc_state \<Rightarrow> nat \<Rightarrow> nat \<Rightarrow> palloc_state option" where
  "pool_release u s i n = palloc_free_multiple s (page_at (get_pool s u) i) n"

lemma pool_flags [simp]:
  "((if u then PAL_USER else 0) AND PAL_USER \<noteq> 0) = u"
  "(if u then PAL_USER else 0) AND PAL_ASSERT = 0" "(if u then PAL_USER else 0) AND PAL_ZERO = 0"
  by (simp_all add: PAL_USER_def PAL_ASSERT_def PAL_ZERO_def)

lemma pool_alloc_law:
  assumes "wf_palloc s" and "0 < n"
  shows "\<exists>r s'. pool_alloc u s n = Some (r, s') \<and> wf_palloc s'
    \<and> bit_cnt (used_map (get_pool s' u)) = bit_cnt (used_map (get_pool s u)) \<and>
    (case r of
       None \<Rightarrow> used (used_map (get_pool s' u)) = used (used_map (get_pool s u))
         \<and> \<not> (\<exists>i. i + n \<le> bit_cnt (used_map (get_pool s u)) \<and> {i..<i + n} \<inter> used (used_map (get_pool s u)) = {})
     | Some i \<Rightarrow> i + n \<le> bit_cnt (used_map (get_pool s u)) \<and> {i..<i + n} \<inter> used (used_map (get_pool s u)) = {}
         \<and> used (used_map (get_pool s' u)) = used (used_map (get_pool s u)) \<union> {i..<i + n})"
proof (cases "\<exists>i. free_range s u i n")
  case True
  then obtain i s' where g: "palloc_get_multiple s (if u then PAL_USER else 0) n = Some (page_at (get_pool s u) i, s')"
      "wf_palloc s'" "free_range s u i n" "bit_cnt (used_map (get_pool s' u)) = bit_cnt (used_map (get_pool s u))"
      "used (used_map (get_pool s' u)) = used (used_map (get_pool s u)) \<union> {i..<i + n}"
    using palloc_get_spec [OF assms, of "if u then PAL_USER else 0", unfolded pool_flags] by auto
  then have "i < bit_cnt (used_map (get_pool s u))"
    using assms(2) by (simp add: free_range_def)
  note pf = page_at_facts [OF wf_get_pool [OF assms(1)] this]
  have "pool_alloc u s n = Some (Some i, s')"
    using g(1) pf(1,5) by (simp add: pool_alloc_def)
  then show ?thesis
    using g by (simp add: free_range_def)
next
  case False
  then have "pool_alloc u s n = Some (None, s)"
    using palloc_get_spec [OF assms, of "if u then PAL_USER else 0", unfolded pool_flags] by (simp add: pool_alloc_def)
  then show ?thesis
    using False assms(1) by (simp add: free_range_def)
qed

lemma pool_release_law:
  assumes "wf_palloc s" and "0 < n" and "{i..<i + n} \<subseteq> used (used_map (get_pool s u))"
    and "i + n \<le> bit_cnt (used_map (get_pool s u))"
  shows "\<exists>s'. pool_release u s i n = Some s' \<and> wf_palloc s'
    \<and> bit_cnt (used_map (get_pool s' u)) = bit_cnt (used_map (get_pool s u))
    \<and> used (used_map (get_pool s' u)) = used (used_map (get_pool s u)) - {i..<i + n}"
  using palloc_free_spec [OF assms(1,2,4,3)] unfolding pool_release_def by auto

interpretation pool: range_allocator wf_palloc "\<lambda>s. used (used_map (get_pool s u))"
    "\<lambda>s. bit_cnt (used_map (get_pool s u))" "pool_alloc u" "pool_release u" for u
  by unfold_locales (rule pool_alloc_law pool_release_law; assumption)+

section \<open>Properties\<close>

text \<open>
  C10: a successful page allocation returns the page-aligned kernel address of \<open>n\<close>
  consecutive pages that were free, marks exactly those, and fills them with zeros under
  \<open>PAL_ZERO\<close>; it fails exactly when the pool has no \<open>n\<close> consecutive free pages, by a null
  pointer or, under \<open>PAL_ASSERT\<close>, by a panic.
\<close>

theorem palloc_get_correct:
  assumes "wf_palloc s" and "0 < n"
  shows "let u = (flags AND PAL_USER \<noteq> 0); p = get_pool s u in
    if \<exists>i. free_range s u i n
    then \<exists>i s'. palloc_get_multiple s flags n = Some (page_at p i, s') \<and> wf_palloc s' \<and> free_range s u i n
      \<and> page_at p i \<noteq> 0 \<and> pg_ofs (page_at p i) = 0 \<and> is_kernel_vaddr (page_at p i)
      \<and> get_pool s' (\<not> u) = get_pool s (\<not> u) \<and> used (used_map (get_pool s' u)) = used (used_map p) \<union> {i..<i + n}
      \<and> (flags AND PAL_ZERO \<noteq> 0 \<longrightarrow> (\<forall>k < n. frames s' (page_at p (i + k)) = replicate 1024 0))
    else palloc_get_multiple s flags n = (if flags AND PAL_ASSERT \<noteq> 0 then None else Some (0, s))"
proof -
  define u where "u = (flags AND PAL_USER \<noteq> 0)"
  let ?p = "get_pool s u"
  have zero: "fill_pages (frames s) (page_at ?p i) 0 n (page_at ?p (i + k)) = replicate 1024 0" if "k < n" for i k
    using that by (auto simp: fill_pages_at page_at_def algebra_simps)
  have facts: "page_at ?p i \<noteq> 0 \<and> pg_ofs (page_at ?p i) = 0 \<and> is_kernel_vaddr (page_at ?p i)" if "free_range s u i n" for i
    using page_at_facts [OF wf_get_pool [OF assms(1)], of i u] that assms(2) by (simp add: free_range_def)
  show ?thesis
  proof (cases "\<exists>i. free_range s u i n")
    case True
    then obtain i s' where "palloc_get_multiple s flags n = Some (page_at ?p i, s')" "wf_palloc s'" "free_range s u i n"
        "get_pool s' (\<not> u) = get_pool s (\<not> u)" "used (used_map (get_pool s' u)) = used (used_map ?p) \<union> {i..<i + n}"
        "frames s' = (if flags AND PAL_ZERO \<noteq> 0 then fill_pages (frames s) (page_at ?p i) 0 n else frames s)"
      using palloc_get_spec [OF assms, of flags] unfolding u_def [symmetric] by auto
    then show ?thesis
      using True facts zero unfolding Let_def u_def [symmetric] by (auto intro!: exI [of _ i])
  next
    case False
    then show ?thesis
      using palloc_get_spec [OF assms, of flags] unfolding Let_def u_def [symmetric] by simp
  qed
qed

theorem palloc_get_correct_witness:
  "let s = \<lparr>kernel_pool = \<lparr>used_map = \<lparr>bit_cnt = 4, bm_bits = [1]\<rparr>, pool_base = 0xC0100000\<rparr>,
        user_pool = \<lparr>used_map = \<lparr>bit_cnt = 4, bm_bits = [0]\<rparr>, pool_base = 0xC0200000\<rparr>,
        frames = (\<lambda>_. [])\<rparr> in
   let u = (PAL_ZERO AND PAL_USER \<noteq> 0); p = get_pool s u in
    if \<exists>i. free_range s u i 2
    then \<exists>i s'. palloc_get_multiple s PAL_ZERO 2 = Some (page_at p i, s') \<and> wf_palloc s' \<and> free_range s u i 2
      \<and> page_at p i \<noteq> 0 \<and> pg_ofs (page_at p i) = 0 \<and> is_kernel_vaddr (page_at p i)
      \<and> get_pool s' (\<not> u) = get_pool s (\<not> u) \<and> used (used_map (get_pool s' u)) = used (used_map p) \<union> {i..<i + 2}
      \<and> (PAL_ZERO AND PAL_ZERO \<noteq> 0 \<longrightarrow> (\<forall>k < 2. frames s' (page_at p (i + k)) = replicate 1024 0))
    else palloc_get_multiple s PAL_ZERO 2 = (if PAL_ZERO AND PAL_ASSERT \<noteq> 0 then None else Some (0, s))"
  by (subst Let_def, rule palloc_get_correct)
    (simp_all add: wf_palloc_def wf_pool_def wf_bitmap_def pg_ofs_def PGMASK_def BITMASK_def push_bit_eq_mult
      is_kernel_vaddr_def PHYS_BASE_def)

lemma page_at_inj:
  assumes wf: "wf_palloc s" and "i < bit_cnt (used_map (get_pool s u))" and "j < bit_cnt (used_map (get_pool s v))"
    and "page_at (get_pool s u) i = page_at (get_pool s v) j"
  shows "u = v \<and> i = j"
proof -
  have e: "unat (pool_base (get_pool s u)) + 4096 * i = unat (pool_base (get_pool s v)) + 4096 * j"
    using unat_page_at [OF wf_get_pool [OF wf] assms(2)] unat_page_at [OF wf_get_pool [OF wf] assms(3)] assms(4) by simp
  moreover have "u = v"
    using e wf assms(2,3) by (cases u; cases v) (auto simp: wf_palloc_def get_pool_def)
  ultimately show ?thesis by simp
qed

lemma palloc_get_Some:
  assumes "wf_palloc s" and "0 < n" and "palloc_get_multiple s flags n = Some (p, s')" and "p \<noteq> 0"
  defines "u \<equiv> flags AND PAL_USER \<noteq> 0"
  obtains i where "p = page_at (get_pool s u) i" "wf_palloc s'" "free_range s u i n"
    "\<And>v. pool_base (get_pool s' v) = pool_base (get_pool s v)"
    "\<And>v. bit_cnt (used_map (get_pool s' v)) = bit_cnt (used_map (get_pool s v))"
    "used (used_map (get_pool s' u)) = used (used_map (get_pool s u)) \<union> {i..<i + n}"
proof (cases "\<exists>i. free_range s u i n")
  case True
  then obtain i where g: "p = page_at (get_pool s u) i" "wf_palloc s'" "free_range s u i n"
      "get_pool s' (\<not> u) = get_pool s (\<not> u)" "pool_base (get_pool s' u) = pool_base (get_pool s u)"
      "bit_cnt (used_map (get_pool s' u)) = bit_cnt (used_map (get_pool s u))"
      "used (used_map (get_pool s' u)) = used (used_map (get_pool s u)) \<union> {i..<i + n}"
    using palloc_get_spec [OF assms(1,2), of flags] assms(3) unfolding u_def [symmetric] by auto
  have "pool_base (get_pool s' v) = pool_base (get_pool s v)"
      "bit_cnt (used_map (get_pool s' v)) = bit_cnt (used_map (get_pool s v))" for v
    using g(4-6) by (cases "v = u"; auto)+
  then show thesis
    using that g by blast
next
  case False
  then show thesis
    using palloc_get_spec [OF assms(1,2), of flags] assms(3,4) unfolding u_def [symmetric] by (auto split: if_splits)
qed

text \<open>
  C8: two page groups handed out one after the other never share a page, whether they
  come from the same pool or from different pools.
\<close>

theorem palloc_groups_disjoint:
  assumes "wf_palloc s" and "0 < n" and "0 < k"
    and "palloc_get_multiple s f n = Some (p, s1)" and "p \<noteq> 0"
    and "palloc_get_multiple s1 f' k = Some (q, s2)" and "q \<noteq> 0"
  shows "\<forall>i < n. \<forall>j < k. p + word_of_nat (4096 * i) \<noteq> q + word_of_nat (4096 * j)"
proof (intro allI impI notI)
  fix i j assume i: "i < n" and j: "j < k" and eq: "p + word_of_nat (4096 * i) = q + word_of_nat (4096 * j)"
  let ?u = "f AND PAL_USER \<noteq> 0" and ?v = "f' AND PAL_USER \<noteq> 0"
  obtain a where a: "p = page_at (get_pool s ?u) a" "wf_palloc s1" "free_range s ?u a n"
      "\<And>v. pool_base (get_pool s1 v) = pool_base (get_pool s v)"
      "\<And>v. bit_cnt (used_map (get_pool s1 v)) = bit_cnt (used_map (get_pool s v))"
      "used (used_map (get_pool s1 ?u)) = used (used_map (get_pool s ?u)) \<union> {a..<a + n}"
    by (rule palloc_get_Some [OF assms(1,2,4,5)]) blast
  obtain b where b: "q = page_at (get_pool s1 ?v) b" "free_range s1 ?v b k"
    by (rule palloc_get_Some [OF a(2) assms(3,6,7)]) blast
  have "page_at (get_pool s1 ?u) (a + i) = page_at (get_pool s1 ?v) (b + j)"
    using eq a(1) b(1) by (simp add: page_at_def a(4) algebra_simps)
  moreover have "a + i < bit_cnt (used_map (get_pool s1 ?u))" "b + j < bit_cnt (used_map (get_pool s1 ?v))"
    using i j a(3) b(2) by (simp_all add: free_range_def a(5))
  ultimately have same: "?u = ?v" "a + i = b + j"
    using page_at_inj [OF a(2)] by blast+
  have "b + j \<in> {b..<b + k}" "b + j \<in> {a..<a + n}"
    using i j same(2) by auto
  moreover have "{a..<a + n} \<subseteq> used (used_map (get_pool s1 ?v))"
    using a(6) same(1) by simp
  ultimately show False
    using b(2) unfolding free_range_def by blast
qed

theorem palloc_groups_disjoint_witness:
  "let s = \<lparr>kernel_pool = \<lparr>used_map = \<lparr>bit_cnt = 4, bm_bits = [1]\<rparr>, pool_base = 0xC0100000\<rparr>,
        user_pool = \<lparr>used_map = \<lparr>bit_cnt = 4, bm_bits = [0]\<rparr>, pool_base = 0xC0200000\<rparr>,
        frames = (\<lambda>_. [])\<rparr> in
   \<exists>p s1 q s2. palloc_get_multiple s 0 2 = Some (p, s1) \<and> palloc_get_multiple s1 PAL_USER 1 = Some (q, s2)
     \<and> (\<forall>i < 2. \<forall>j < 1. p + word_of_nat (4096 * i) \<noteq> q + word_of_nat (4096 * j))"
proof -
  define s where "s = \<lparr>kernel_pool = \<lparr>used_map = \<lparr>bit_cnt = 4, bm_bits = [1]\<rparr>, pool_base = 0xC0100000\<rparr>,
        user_pool = \<lparr>used_map = \<lparr>bit_cnt = 4, bm_bits = [0]\<rparr>, pool_base = 0xC0200000\<rparr>,
        frames = (\<lambda>_. [])\<rparr>"
  have wf: "wf_palloc s"
    by (simp add: s_def wf_palloc_def wf_pool_def wf_bitmap_def pg_ofs_def PGMASK_def BITMASK_def push_bit_eq_mult
        is_kernel_vaddr_def PHYS_BASE_def)
  have fk: "free_range s False 1 2" and fu: "free_range s True 0 1"
    by (auto simp: free_range_def s_def get_pool_def used_def bits_of_def bit_0 less_Suc_eq numeral_2_eq_2 bit_Suc)
  obtain i s1 where g: "palloc_get_multiple s 0 2 = Some (page_at (get_pool s False) i, s1)" "wf_palloc s1"
      "free_range s False i 2" "get_pool s1 True = get_pool s True"
    using palloc_get_ex [OF wf _ _ fk, of 0] by auto
  then have "free_range s1 True 0 1"
    using fu by (simp add: free_range_def)
  then obtain j s2 where h: "palloc_get_multiple s1 PAL_USER 1 = Some (page_at (get_pool s1 True) j, s2)"
      "free_range s1 True j 1"
    using palloc_get_ex [OF g(2), of 1 PAL_USER True 0] pool_flags(1) [of True] by auto
  have "page_at (get_pool s False) i \<noteq> 0" "page_at (get_pool s1 True) j \<noteq> 0"
    using page_at_facts(1) [OF wf_get_pool [OF wf]] page_at_facts(1) [OF wf_get_pool [OF g(2)]] g(3) h(2)
    by (simp_all add: free_range_def)
  then show ?thesis
    unfolding Let_def s_def [symmetric]
    using palloc_groups_disjoint [OF wf _ _ g(1) _ h(1)] g(1) h(1) by auto
qed

section \<open>Initialisation\<close>

abbreviation bitmap_pages :: "nat \<Rightarrow> nat" where
  "bitmap_pages n \<equiv> (8 + 4 * ((n + 31) div 32) + 4095) div 4096"

lemma bitmap_buf_size_small: "n < 2 ^ 20 \<Longrightarrow> bitmap_buf_size n = 8 + 4 * ((n + 31) div 32)"
  by (simp add: bitmap_buf_size_def byte_cnt_def elem_cnt_def ELEM_BITS_def size_wrap_def)

lemma init_pool_wf:
  assumes base: "pg_ofs base = 0" "is_kernel_vaddr base" "unat base + 4096 * n \<le> 2 ^ 32"
    and n: "1 < n" "n < 2 ^ 20" and buf: "length buf = (n - bitmap_pages n + 31) div 32"
  shows "\<exists>p. init_pool base n buf = Some p \<and> wf_pool p \<and> used (used_map p) = {}
    \<and> unat (pool_base p) = unat base + 4096 * bitmap_pages n \<and> bit_cnt (used_map p) = n - bitmap_pages n"
proof -
  let ?b = "bitmap_pages n" and ?m = "n - bitmap_pages n"
  have lt: "?b < n"
    using n by simp
  then have le: "?b \<le> n"
    by simp
  have sz: "bitmap_buf_size n = 8 + 4 * ((n + 31) div 32)" "bitmap_buf_size ?m = 8 + 4 * ((?m + 31) div 32)"
    using bitmap_buf_size_small n(2) by auto
  have bmp: "size_wrap (bitmap_buf_size n + PGSIZE - 1) div PGSIZE = ?b"
    using n(2) by (simp add: sz PGSIZE_def size_wrap_def)
  have room: "bitmap_buf_size ?m \<le> size_wrap (?b * PGSIZE)"
  proof -
    have sw: "?b * PGSIZE < 2 ^ 32"
      using le n(2) by (simp add: PGSIZE_def)
    have "8 + 4 * ((?m + 31) div 32) \<le> ?b * 4096"
    proof -
      have "(?m + 31) div 32 \<le> (n + 31) div 32"
        by (simp add: div_le_mono)
      moreover have "8 + 4 * ((n + 31) div 32) \<le> ?b * 4096"
        by linarith
      ultimately show ?thesis by linarith
    qed
    then show ?thesis
      unfolding sz(2) PGSIZE_def size_wrap_id [OF sw, unfolded PGSIZE_def] .
  qed
  have "wf_bitmap \<lparr>bit_cnt = ?m, bm_bits = buf\<rparr>"
    using buf n(2) by (simp add: wf_bitmap_def)
  then obtain bm where bm: "bitmap_set_all \<lparr>bit_cnt = ?m, bm_bits = buf\<rparr> False = Some bm" "wf_bitmap bm"
      "bit_cnt bm = ?m" "bits_of bm = replicate ?m False"
    using bitmap_set_all_bits [of _ False] by fastforce
  have "init_pool base n buf = Some \<lparr>used_map = bm, pool_base = base + word_of_nat (?b * PGSIZE)\<rparr>"
    using le room bm(1) unfolding init_pool_def Let_def bmp bitmap_create_in_buf_def by simp
  moreover have ub: "unat (base + word_of_nat (?b * PGSIZE)) = unat base + 4096 * ?b"
  proof -
    have "unat (word_of_nat (unat base + 4096 * ?b) :: u32) = unat base + 4096 * ?b"
      using base(3) lt by (intro unat_word_of_nat_small) simp
    moreover have "base + word_of_nat (?b * PGSIZE) = word_of_nat (unat base + 4096 * ?b)"
      by (simp add: PGSIZE_def)
    ultimately show ?thesis
      by (simp only:)
  qed
  moreover have "wf_pool \<lparr>used_map = bm, pool_base = base + word_of_nat (?b * PGSIZE)\<rparr>"
  proof -
    have "pg_ofs (base + word_of_nat (?b * PGSIZE)) = 0"
      using base(1) unfolding aligned_iff ub by (simp add: mod_add_eq)
    moreover have "is_kernel_vaddr (base + word_of_nat (?b * PGSIZE))"
      using base(2) unfolding is_kernel_vaddr_def word_le_nat_alt ub by simp
    moreover have "unat base + 4096 * ?b + 4096 * ?m \<le> 2 ^ 32"
      using base(3) le by (simp add: algebra_simps flip: add_mult_distrib2)
    ultimately show ?thesis
      using bm(2) unfolding wf_pool_def pool.simps ub bm(3) by blast
  qed
  moreover have "used bm = {}"
    using bm(3,4) by (simp add: used_def)
  ultimately show ?thesis
    using bm(3) pool.simps by metis
qed

text \<open>
  C15: for a machine with more than 1 MB and less than 1 GB of memory the allocator comes up
  with two well-formed, disjoint pools in which every page is free, and the user pool
  has at most half of the free memory and at most \<open>user_page_limit\<close> pages.
\<close>

theorem palloc_init_correct:
  assumes ram: "260 \<le> ram" "ram < 2 ^ 18" and lim: "2 \<le> limit"
  defines "usr \<equiv> min limit ((ram - 256) div 2)"
  assumes kbuf: "length kbuf = (ram - 256 - usr - bitmap_pages (ram - 256 - usr) + 31) div 32"
    and ubuf: "length ubuf = (usr - bitmap_pages usr + 31) div 32"
  shows "\<exists>s. palloc_init ram limit kbuf ubuf fr = Some s \<and> wf_palloc s
    \<and> used (used_map (kernel_pool s)) = {} \<and> used (used_map (user_pool s)) = {}
    \<and> bit_cnt (used_map (user_pool s)) \<le> limit \<and> bit_cnt (used_map (user_pool s)) \<le> (ram - 256) div 2"
proof -
  let ?k = "ram - 256 - usr"
  have u: "2 \<le> usr" "usr \<le> ram - 256" "2 \<le> ?k"
    using ram lim by (auto simp: usr_def)
  have r4: "unat (word_of_nat (ram * PGSIZE) :: u32) = ram * 4096"
    unfolding PGSIZE_def using ram(2) by (intro unat_word_of_nat_small) simp
  then have fe: "ptov (word_of_nat (ram * PGSIZE)) = Some (word_of_nat (ram * PGSIZE) + PHYS_BASE)"
    using ram(2) by (simp add: ptov_def word_less_nat_alt)
  have fs: "ptov (1024 * 1024) = Some 0xC0100000"
    by (simp add: ptov_def PHYS_BASE_def)
  have "word_of_nat (ram * PGSIZE) + PHYS_BASE - 0xC0100000 = (word_of_nat (ram * 4096 - 1048576) :: u32)"
    using ram(1) by (simp add: PHYS_BASE_def PGSIZE_def of_nat_diff)
  moreover have "unat (word_of_nat (ram * 4096 - 1048576) :: u32) = ram * 4096 - 1048576"
    using ram(2) by (intro unat_word_of_nat_small) simp
  ultimately have fp: "unat (word_of_nat (ram * PGSIZE) + PHYS_BASE - 0xC0100000 :: u32) div PGSIZE = ram - 256"
    by (simp add: PGSIZE_def)
  have base: "unat (0xC0100000 :: u32) = 3222274048"
    by simp
  have kok: "pg_ofs (0xC0100000 :: u32) = 0" "is_kernel_vaddr 0xC0100000"
      "unat (0xC0100000 :: u32) + 4096 * ?k \<le> 2 ^ 32"
    unfolding aligned_iff is_kernel_vaddr_def word_le_nat_alt base using u ram by simp_all
  have k: "1 < ?k" "?k < 2 ^ 20"
    using u(3) ram(2) by simp_all
  obtain kp where kp: "init_pool 0xC0100000 ?k kbuf = Some kp" "wf_pool kp" "used (used_map kp) = {}"
      "unat (pool_base kp) = 3222274048 + 4096 * bitmap_pages ?k" "bit_cnt (used_map kp) = ?k - bitmap_pages ?k"
    using init_pool_wf [OF kok k kbuf] unfolding base by blast
  let ?ub = "0xC0100000 + word_of_nat (?k * PGSIZE) :: u32"
  have "?ub = word_of_nat (3222274048 + ?k * 4096)"
    by (simp add: PGSIZE_def)
  moreover have "unat (word_of_nat (3222274048 + ?k * 4096) :: u32) = 3222274048 + ?k * 4096"
    using u ram(2) by (intro unat_word_of_nat_small) simp
  ultimately have ub: "unat ?ub = 3222274048 + ?k * 4096"
    by (simp only:)
  have ubok: "pg_ofs ?ub = 0" "is_kernel_vaddr ?ub" "unat ?ub + 4096 * usr \<le> 2 ^ 32"
    unfolding aligned_iff is_kernel_vaddr_def word_le_nat_alt ub using u ram by simp_all
  obtain up where up: "init_pool ?ub usr ubuf = Some up" "wf_pool up" "used (used_map up) = {}"
      "unat (pool_base up) = unat ?ub + 4096 * bitmap_pages usr" "bit_cnt (used_map up) = usr - bitmap_pages usr"
    using init_pool_wf [OF ubok _ _ ubuf] u(1,2) ram(2) by force
  let ?s = "\<lparr>kernel_pool = kp, user_pool = up, frames = fr\<rparr>"
  have sel: "(if limit < (ram - 256) div 2 then limit else (ram - 256) div 2) = usr"
    by (simp add: usr_def)
  have "palloc_init ram limit kbuf ubuf fr = Some ?s"
    unfolding palloc_init_def fs fe Let_def by (simp only: Option.bind.simps fp sel kp(1) up(1))
  moreover have "wf_palloc ?s"
  proof -
    have "bitmap_pages ?k \<le> ?k"
      using k by simp
    then have "4096 * bitmap_pages ?k + 4096 * (?k - bitmap_pages ?k) = 4096 * ?k"
      by (metis add_mult_distrib2 le_add_diff_inverse)
    then show ?thesis
      unfolding wf_palloc_def palloc_state.simps kp(4,5) up(4) ub
      by (intro conjI kp(2) up(2)) linarith
  qed
  moreover have "bit_cnt (used_map up) \<le> usr"
    unfolding up(5) by (rule diff_le_self)
  moreover have "usr \<le> limit" "usr \<le> (ram - 256) div 2"
    unfolding usr_def by simp_all
  ultimately show ?thesis
    using kp(3) up(3) by (intro exI [of _ ?s]) (simp only: palloc_state.simps; simp)
qed

theorem palloc_init_correct_witness:
  "\<exists>s. palloc_init 1024 1000 (replicate 12 0) (replicate 12 7) (\<lambda>_. []) = Some s \<and> wf_palloc s
    \<and> used (used_map (kernel_pool s)) = {} \<and> used (used_map (user_pool s)) = {}
    \<and> bit_cnt (used_map (user_pool s)) \<le> 1000 \<and> bit_cnt (used_map (user_pool s)) \<le> (1024 - 256) div 2"
  by (rule palloc_init_correct) simp_all

end
