(* ===== verification/Pagedir.thy ===== *)
theory Pagedir
  imports Palloc
begin

text \<open>
  Page directories, \<open>userprog/pagedir.c\<close>, on top of the page allocator: directories and
  page tables are page frames of 1024 entries.  The processor is represented by its page
  directory base register and by the set of virtual pages whose translations it may hold
  in its lookaside buffer.
\<close>

section \<open>The operations\<close>

record paging =
  mem :: palloc_state
  init_page_dir :: u32
  init_ram_pages :: nat
  pdbr :: u32
  tlb :: "u32 set"

definition get_entry :: "paging \<Rightarrow> u32 \<Rightarrow> nat \<Rightarrow> u32 option" where
  "get_entry s t i = (let f = frames (mem s) t in if t \<noteq> 0 \<and> i < length f then Some (f ! i) else None)"

definition set_entry :: "paging \<Rightarrow> u32 \<Rightarrow> nat \<Rightarrow> u32 \<Rightarrow> paging option" where
  "set_entry s t i e = (let f = frames (mem s) t in
     if t \<noteq> 0 \<and> i < length f then Some (s\<lparr>mem := (mem s)\<lparr>frames := (frames (mem s))(t := f[i := e])\<rparr>\<rparr>) else None)"

definition pagedir_create :: "paging \<Rightarrow> (u32 \<times> paging) option" where
  "pagedir_create s = do {
     (pd, m) \<leftarrow> palloc_get_page (mem s) 0;
     Some (pd, if pd \<noteq> 0 then s\<lparr>mem := m\<lparr>frames := (frames m)(pd := frames m (init_page_dir s))\<rparr>\<rparr>
               else s\<lparr>mem := m\<rparr>)
   }"

text \<open>The entries of one page table, and of the directory, from index \<open>i\<close> on.\<close>

fun destroy_table :: "paging \<Rightarrow> u32 \<Rightarrow> nat \<Rightarrow> nat \<Rightarrow> paging option" where
  "destroy_table s pt i 0 = Some s"
| "destroy_table s pt i (Suc n) = do {
     pte \<leftarrow> get_entry s pt i;
     s \<leftarrow> (if pte AND PTE_P \<noteq> 0 then do {
              page \<leftarrow> pte_get_page pte;
              m \<leftarrow> palloc_free_page (mem s) page;
              Some (s\<lparr>mem := m\<rparr>)
            }
            else Some s);
     destroy_table s pt (i + 1) n
   }"

fun destroy_directory :: "paging \<Rightarrow> u32 \<Rightarrow> nat \<Rightarrow> nat \<Rightarrow> paging option" where
  "destroy_directory s pd i 0 = Some s"
| "destroy_directory s pd i (Suc n) = do {
     pde \<leftarrow> get_entry s pd i;
     s \<leftarrow> (if pde AND PTE_P \<noteq> 0 then do {
              pt \<leftarrow> pde_get_pt pde;
              s \<leftarrow> destroy_table s pt 0 1024;
              m \<leftarrow> palloc_free_page (mem s) pt;
              Some (s\<lparr>mem := m\<rparr>)
            }
            else Some s);
     destroy_directory s pd (i + 1) n
   }"

definition pagedir_destroy :: "paging \<Rightarrow> u32 \<Rightarrow> paging option" where
  "pagedir_destroy s pd =
     (if pd = 0 then Some s
      else do {
        ASSERT (pd \<noteq> init_page_dir s);
        s \<leftarrow> destroy_directory s pd 0 (unat (pd_no PHYS_BASE));
        m \<leftarrow> palloc_free_page (mem s) pd;
        Some (s\<lparr>mem := m\<rparr>)
      })"

text \<open>A pointer into a page table is the table with an index; \<open>None\<close> is the null pointer.\<close>

definition lookup_page :: "paging \<Rightarrow> u32 \<Rightarrow> u32 \<Rightarrow> bool \<Rightarrow> ((u32 \<times> nat) option \<times> paging) option" where
  "lookup_page s pd va create = do {
     ASSERT (pd \<noteq> 0);
     ASSERT (\<not> create \<or> is_user_vaddr va);
     let i = unat (pd_no va);
     pde \<leftarrow> get_entry s pd i;
     (found, s) \<leftarrow> (if pde = 0 then
         (if create then do {
            (pt, m) \<leftarrow> palloc_get_page (mem s) PAL_ZERO;
            let s = s\<lparr>mem := m\<rparr>;
            if pt = 0 then Some (False, s)
            else do { e \<leftarrow> pde_create pt; s \<leftarrow> set_entry s pd i e; Some (True, s) }
          }
          else Some (False, s))
       else Some (True, s));
     if found then do {
       pde \<leftarrow> get_entry s pd i;
       pt \<leftarrow> pde_get_pt pde;
       Some (Some (pt, unat (pt_no va)), s)
     }
     else Some (None, s)
   }"

definition pagedir_set_page :: "paging \<Rightarrow> u32 \<Rightarrow> u32 \<Rightarrow> u32 \<Rightarrow> bool \<Rightarrow> (bool \<times> paging) option" where
  "pagedir_set_page s pd upage kpage w = do {
     ASSERT (pg_ofs upage = 0);
     ASSERT (pg_ofs kpage = 0);
     ASSERT (is_user_vaddr upage);
     p \<leftarrow> vtop kpage;
     ASSERT (unat (drop_bit 12 p) < init_ram_pages s);
     ASSERT (pd \<noteq> init_page_dir s);
     (r, s) \<leftarrow> lookup_page s pd upage True;
     (case r of
       Some (pt, j) \<Rightarrow> do {
         pte \<leftarrow> get_entry s pt j;
         ASSERT (pte AND PTE_P = 0);
         e \<leftarrow> pte_create_user kpage w;
         s \<leftarrow> set_entry s pt j e;
         Some (True, s)
       }
     | None \<Rightarrow> Some (False, s))
   }"

definition pagedir_get_page :: "paging \<Rightarrow> u32 \<Rightarrow> u32 \<Rightarrow> u32 option" where
  "pagedir_get_page s pd uaddr = do {
     ASSERT (is_user_vaddr uaddr);
     (r, _) \<leftarrow> lookup_page s pd uaddr False;
     (case r of
       Some (pt, j) \<Rightarrow> do {
         pte \<leftarrow> get_entry s pt j;
         if pte AND PTE_P \<noteq> 0 then do { page \<leftarrow> pte_get_page pte; Some (page + pg_ofs uaddr) }
         else Some 0
       }
     | None \<Rightarrow> Some 0)
   }"

definition active_pd :: "paging \<Rightarrow> u32 option" where
  "active_pd s = ptov (pdbr s)"

definition pagedir_activate :: "paging \<Rightarrow> u32 \<Rightarrow> paging option" where
  "pagedir_activate s pd = do {
     let pd = (if pd = 0 then init_page_dir s else pd);
     p \<leftarrow> vtop pd;
     Some (s\<lparr>pdbr := p, tlb := {}\<rparr>)
   }"

definition invalidate_pagedir :: "paging \<Rightarrow> u32 \<Rightarrow> paging option" where
  "invalidate_pagedir s pd = do {
     a \<leftarrow> active_pd s;
     if a = pd then pagedir_activate s pd else Some s
   }"

definition pagedir_clear_page :: "paging \<Rightarrow> u32 \<Rightarrow> u32 \<Rightarrow> paging option" where
  "pagedir_clear_page s pd upage = do {
     ASSERT (pg_ofs upage = 0);
     ASSERT (is_user_vaddr upage);
     (r, s) \<leftarrow> lookup_page s pd upage False;
     (case r of
       Some (pt, j) \<Rightarrow> do {
         pte \<leftarrow> get_entry s pt j;
         if pte AND PTE_P \<noteq> 0 then do {
           s \<leftarrow> set_entry s pt j (pte AND NOT PTE_P);
           invalidate_pagedir s pd
         }
         else Some s
       }
     | None \<Rightarrow> Some s)
   }"

text \<open>The accessors of one flag of an entry, shared by the dirty and the accessed bit.\<close>

definition pte_flag :: "u32 \<Rightarrow> paging \<Rightarrow> u32 \<Rightarrow> u32 \<Rightarrow> bool option" where
  "pte_flag flag s pd vpage = do {
     (r, _) \<leftarrow> lookup_page s pd vpage False;
     (case r of
       Some (pt, j) \<Rightarrow> do { pte \<leftarrow> get_entry s pt j; Some (pte AND flag \<noteq> 0) }
     | None \<Rightarrow> Some False)
   }"

definition pte_set_flag :: "u32 \<Rightarrow> paging \<Rightarrow> u32 \<Rightarrow> u32 \<Rightarrow> bool \<Rightarrow> paging option" where
  "pte_set_flag flag s pd vpage v = do {
     (r, s) \<leftarrow> lookup_page s pd vpage False;
     (case r of
       Some (pt, j) \<Rightarrow> do {
         pte \<leftarrow> get_entry s pt j;
         if v then set_entry s pt j (pte OR flag)
         else do { s \<leftarrow> set_entry s pt j (pte AND NOT flag); invalidate_pagedir s pd }
       }
     | None \<Rightarrow> Some s)
   }"

definition pagedir_is_dirty :: "paging \<Rightarrow> u32 \<Rightarrow> u32 \<Rightarrow> bool option" where
  "pagedir_is_dirty = pte_flag PTE_D"

definition pagedir_set_dirty :: "paging \<Rightarrow> u32 \<Rightarrow> u32 \<Rightarrow> bool \<Rightarrow> paging option" where
  "pagedir_set_dirty = pte_set_flag PTE_D"

definition pagedir_is_accessed :: "paging \<Rightarrow> u32 \<Rightarrow> u32 \<Rightarrow> bool option" where
  "pagedir_is_accessed = pte_flag PTE_A"

definition pagedir_set_accessed :: "paging \<Rightarrow> u32 \<Rightarrow> u32 \<Rightarrow> bool \<Rightarrow> paging option" where
  "pagedir_set_accessed = pte_set_flag PTE_A"

end
