(* ===== verification/Pagedir_Correct.thy ===== *)
theory Pagedir_Correct
  imports Pagedir
begin

text \<open>
  Correctness of the page directory operations: in a well-formed directory a user
  address leads to at most one entry, installing a page changes the translation of
  exactly that page, clearing it removes exactly that translation and leaves no stale
  one in the lookaside buffer of the active directory.
\<close>

section \<open>Well-formed directories\<close>

text \<open>The frames handed out from the kernel pool.\<close>

definition kpages :: "paging \<Rightarrow> u32 set" where
  "kpages s = page_at (kernel_pool (mem s)) ` used (used_map (kernel_pool (mem s)))"

text \<open>The page table of directory slot \<open>i\<close>.\<close>

definition pt_at :: "paging \<Rightarrow> u32 \<Rightarrow> nat \<Rightarrow> u32 option" where
  "pt_at s pd i = (let e = frames (mem s) pd ! i in if e = 0 then None else pde_get_pt e)"

definition wf_pd :: "paging \<Rightarrow> u32 \<Rightarrow> bool" where
  "wf_pd s pd \<longleftrightarrow> wf_palloc (mem s) \<and> (\<forall>p. length (frames (mem s) p) = 1024) \<and> pd \<in> kpages s
     \<and> (\<forall>i < 768. frames (mem s) pd ! i = 0 \<or> (\<exists>pt \<in> kpages s - {pd}. pde_get_pt (frames (mem s) pd ! i) = Some pt))
     \<and> (\<forall>i < 768. \<forall>j < 768. pt_at s pd i \<noteq> None \<longrightarrow> pt_at s pd i = pt_at s pd j \<longrightarrow> i = j)"

lemma kpages_facts:
  assumes "wf_palloc (mem s)" and "p \<in> kpages s"
  shows "p \<noteq> 0" and "pg_ofs p = 0" and "is_kernel_vaddr p"
proof -
  obtain i where "p = page_at (kernel_pool (mem s)) i" "i < bit_cnt (used_map (kernel_pool (mem s)))"
    using assms(2) by (auto simp: kpages_def used_def)
  then show "p \<noteq> 0" "pg_ofs p = 0" "is_kernel_vaddr p"
    using page_at_facts [of "kernel_pool (mem s)" i] assms(1) by (auto simp: wf_palloc_def)
qed

lemma user_slot: "is_user_vaddr va \<Longrightarrow> unat (pd_no va) < 768"
  by (simp add: unat_pd_no is_user_vaddr_def word_less_nat_alt)

lemma wf_pdD:
  assumes wf: "wf_pd s pd"
  shows "wf_palloc (mem s)" and "length (frames (mem s) p) = 1024" and "pd \<in> kpages s" and "pd \<noteq> 0"
    and "i < 768 \<Longrightarrow> pt_at s pd i = Some pt \<Longrightarrow> pt \<in> kpages s \<and> pt \<noteq> pd \<and> pt \<noteq> 0"
    and "i < 768 \<Longrightarrow> pt_at s pd i = None \<longleftrightarrow> frames (mem s) pd ! i = 0"
    and "i < 768 \<Longrightarrow> j < 768 \<Longrightarrow> pt_at s pd i = Some pt \<Longrightarrow> pt_at s pd j = Some pt \<Longrightarrow> i = j"
proof -
  show pm: "wf_palloc (mem s)" and "length (frames (mem s) p) = 1024" and k: "pd \<in> kpages s"
    using wf by (simp_all add: wf_pd_def)
  show "pd \<noteq> 0"
    using kpages_facts(1) [OF pm k] .
  have slot: "frames (mem s) pd ! i = 0 \<or> (\<exists>pt \<in> kpages s - {pd}. pde_get_pt (frames (mem s) pd ! i) = Some pt)"
    if "i < 768"
    using wf that unfolding wf_pd_def by blast
  show "pt \<in> kpages s \<and> pt \<noteq> pd \<and> pt \<noteq> 0" if "i < 768" and "pt_at s pd i = Some pt"
    using slot [OF that(1)] that(2) kpages_facts(1) [OF pm, of pt] by (auto simp: pt_at_def Let_def split: if_splits)
  show "pt_at s pd i = None \<longleftrightarrow> frames (mem s) pd ! i = 0" if "i < 768"
    using slot [OF that] by (auto simp: pt_at_def Let_def)
  show "i = j" if "i < 768" and "j < 768" and "pt_at s pd i = Some pt" and "pt_at s pd j = Some pt"
    using wf that unfolding wf_pd_def by (metis option.distinct(1))
qed

section \<open>Looking up\<close>

text \<open>The entry for a user address, when there is a page table for it.\<close>

definition user_pte :: "paging \<Rightarrow> u32 \<Rightarrow> u32 \<Rightarrow> u32 option" where
  "user_pte s pd va = map_option (\<lambda>pt. frames (mem s) pt ! unat (pt_no va)) (pt_at s pd (unat (pd_no va)))"

text \<open>The present entry for a user address.\<close>

definition mapping :: "paging \<Rightarrow> u32 \<Rightarrow> u32 \<Rightarrow> u32 option" where
  "mapping s pd va = (case user_pte s pd va of None \<Rightarrow> None | Some e \<Rightarrow> if e AND PTE_P \<noteq> 0 then Some e else None)"

lemma get_entry_ok: "wf_pd s pd \<Longrightarrow> t \<noteq> 0 \<Longrightarrow> i < 1024 \<Longrightarrow> get_entry s t i = Some (frames (mem s) t ! i)"
  using wf_pdD(2) by (simp add: get_entry_def Let_def)

lemma lookup_page_False:
  assumes wf: "wf_pd s pd" and va: "is_user_vaddr va"
  shows "lookup_page s pd va False
    = Some (map_option (\<lambda>pt. (pt, unat (pt_no va))) (pt_at s pd (unat (pd_no va))), s)"
proof -
  let ?i = "unat (pd_no va)"
  have i: "?i < 768"
    using user_slot [OF va] .
  have g: "get_entry s pd ?i = Some (frames (mem s) pd ! ?i)"
    using get_entry_ok [OF wf wf_pdD(4) [OF wf]] i by simp
  show ?thesis
  proof (cases "pt_at s pd ?i")
    case None
    then show ?thesis
      using g wf_pdD(4,6) [OF wf] i by (simp add: lookup_page_def Let_def)
  next
    case (Some pt)
    then have "frames (mem s) pd ! ?i \<noteq> 0" "pde_get_pt (frames (mem s) pd ! ?i) = Some pt"
      by (auto simp: pt_at_def Let_def split: if_splits)
    then show ?thesis
      using g wf_pdD(4) [OF wf] Some by (simp add: lookup_page_def Let_def)
  qed
qed

lemma pagedir_get_page_mapping:
  assumes wf: "wf_pd s pd" and va: "is_user_vaddr va"
  shows "pagedir_get_page s pd va = (case mapping s pd va of None \<Rightarrow> Some 0
    | Some e \<Rightarrow> do { page \<leftarrow> pte_get_page e; Some (page + pg_ofs va) })"
proof (cases "pt_at s pd (unat (pd_no va))")
  case None
  then show ?thesis
    using lookup_page_False [OF assms] va by (simp add: pagedir_get_page_def mapping_def user_pte_def)
next
  case (Some pt)
  then have "get_entry s pt (unat (pt_no va)) = Some (frames (mem s) pt ! unat (pt_no va))"
    using get_entry_ok [OF wf] wf_pdD(5) [OF wf user_slot [OF va] Some] pt_no_bound by simp
  then show ?thesis
    using lookup_page_False [OF assms] va Some by (simp add: pagedir_get_page_def mapping_def user_pte_def)
qed

section \<open>Changing one entry of a page table\<close>

lemma set_entry_pt:
  assumes wf: "wf_pd s pd" and i: "i < 768" and pt: "pt_at s pd i = Some pt" and j: "j < 1024"
  shows "\<exists>s'. set_entry s pt j e = Some s' \<and> wf_pd s' pd \<and> (\<forall>k < 768. pt_at s' pd k = pt_at s pd k)
    \<and> (\<forall>va. is_user_vaddr va \<longrightarrow> user_pte s' pd va =
        (if unat (pd_no va) = i \<and> unat (pt_no va) = j then Some e else user_pte s pd va))
    \<and> pdbr s' = pdbr s \<and> tlb s' = tlb s \<and> init_page_dir s' = init_page_dir s"
proof -
  let ?f = "frames (mem s)"
  let ?s = "s\<lparr>mem := (mem s)\<lparr>frames := ?f(pt := (?f pt)[j := e])\<rparr>\<rparr>"
  note d = wf_pdD [OF wf]
  have ptk: "pt \<noteq> pd" "pt \<noteq> 0"
    using d(5) [OF i pt] by simp_all
  have run: "set_entry s pt j e = Some ?s"
    using ptk d(2) [of pt] j by (simp add: set_entry_def Let_def)
  have dir: "frames (mem ?s) pd = ?f pd"
    using ptk by simp
  have pts: "pt_at ?s pd k = pt_at s pd k" for k
    unfolding pt_at_def dir ..
  have kp: "kpages ?s = kpages s"
    by (simp add: kpages_def)
  have "\<forall>p. length (frames (mem ?s) p) = 1024" "wf_palloc (mem ?s)"
    using d(1,2) by simp_all
  then have "wf_pd ?s pd"
    using wf unfolding wf_pd_def dir pts kp by blast
  moreover have "user_pte ?s pd va = (if unat (pd_no va) = i \<and> unat (pt_no va) = j then Some e else user_pte s pd va)"
    if va: "is_user_vaddr va" for va
  proof (cases "unat (pd_no va) = i")
    case True
    then show ?thesis
      using pt j d(2) [of pt] by (simp add: user_pte_def pts nth_list_update)
  next
    case False
    then have "pt_at s pd (unat (pd_no va)) \<noteq> Some pt"
      using d(7) [OF user_slot [OF va] i _ pt] by blast
    then show ?thesis
      using False by (cases "pt_at s pd (unat (pd_no va))") (simp_all add: user_pte_def pts)
  qed
  ultimately show ?thesis
    using run pts by (intro exI [of _ ?s]) simp
qed

section \<open>Creating a page table\<close>

lemma fresh_kpage:
  assumes wf: "wf_palloc (mem s)" and "free_range (mem s) False i 1"
    and m: "pool_base (kernel_pool m) = pool_base (kernel_pool (mem s))"
    "used (used_map (kernel_pool m)) = used (used_map (kernel_pool (mem s))) \<union> {i..<i + 1}"
  shows "page_at (kernel_pool (mem s)) i \<notin> kpages s"
    and "kpages (s\<lparr>mem := m\<rparr>) = insert (page_at (kernel_pool (mem s)) i) (kpages s)"
proof -
  have i: "i < bit_cnt (used_map (kernel_pool (mem s)))" "i \<notin> used (used_map (kernel_pool (mem s)))"
    using assms(2) by (auto simp: free_range_def get_pool_def)
  show "page_at (kernel_pool (mem s)) i \<notin> kpages s"
  proof
    assume "page_at (kernel_pool (mem s)) i \<in> kpages s"
    then obtain j where "j \<in> used (used_map (kernel_pool (mem s)))"
        "page_at (kernel_pool (mem s)) i = page_at (kernel_pool (mem s)) j"
      by (auto simp: kpages_def)
    then show False
      using page_at_inj [OF wf, of i False j False] i by (auto simp: get_pool_def used_def)
  qed
  have "page_at (kernel_pool m) = page_at (kernel_pool (mem s))"
    by (rule ext) (simp add: page_at_def m(1))
  then show "kpages (s\<lparr>mem := m\<rparr>) = insert (page_at (kernel_pool (mem s)) i) (kpages s)"
    using m(2) by (auto simp: kpages_def)
qed

text \<open>The directory after a zeroed table \<open>pt\<close> has been entered in the empty slot \<open>i\<close>.\<close>

lemma enter_table:
  assumes wf: "wf_pd s pd" and i: "i < 768" and empty: "pt_at s pd i = None"
    and pt: "pt \<notin> kpages s" "pt \<noteq> pd" and e: "e \<noteq> 0" "pde_get_pt e = Some pt"
    and m: "wf_palloc (mem s')" "kpages s' = insert pt (kpages s)"
      "frames (mem s') = (frames (mem s))(pt := replicate 1024 0, pd := (frames (mem s) pd)[i := e])"
  shows "wf_pd s' pd" and "pt_at s' pd i = Some pt" and "\<And>k. k < 768 \<Longrightarrow> k \<noteq> i \<Longrightarrow> pt_at s' pd k = pt_at s pd k"
    and "\<And>va. is_user_vaddr va \<Longrightarrow> mapping s' pd va = mapping s pd va"
proof -
  note d = wf_pdD [OF wf]
  have slot: "frames (mem s') pd ! k = (if k = i then e else frames (mem s) pd ! k)" if "k < 768" for k
    using that i d(2) [of pd] by (simp add: m(3) nth_list_update)
  show at_i: "pt_at s' pd i = Some pt"
    using slot [OF i] e by (simp add: pt_at_def)
  show at_k: "pt_at s' pd k = pt_at s pd k" if "k < 768" "k \<noteq> i" for k
    using slot [OF that(1)] that(2) by (simp add: pt_at_def)
  have other: "pt_at s pd k \<noteq> Some pt" if "k < 768" for k
    using d(5) [OF that, of pt] pt(1) by blast
  show "wf_pd s' pd"
    unfolding wf_pd_def
  proof (intro conjI allI impI)
    show "wf_palloc (mem s')" "pd \<in> kpages s'"
      using m(1,2) d(3) by simp_all
    show "length (frames (mem s') p) = 1024" for p
      using d(2) by (simp add: m(3))
    show "frames (mem s') pd ! k = 0 \<or> (\<exists>pt \<in> kpages s' - {pd}. pde_get_pt (frames (mem s') pd ! k) = Some pt)"
      if k: "k < 768" for k
    proof (cases "k = i")
      case True
      then show ?thesis
        using slot [OF k] e m(2) pt(2) by auto
    next
      case False
      then show ?thesis
        using slot [OF k] m(2) wf k unfolding wf_pd_def by auto
    qed
    show "k = k'" if c: "k < 768" "k' < 768" "pt_at s' pd k \<noteq> None" "pt_at s' pd k = pt_at s' pd k'" for k k'
    proof -
      obtain t where t: "pt_at s' pd k = Some t" "pt_at s' pd k' = Some t"
        using c(3,4) by auto
      consider "k = i" "k' = i" | "k = i" "k' \<noteq> i" | "k \<noteq> i" "k' = i" | "k \<noteq> i" "k' \<noteq> i"
        by blast
      then show ?thesis
      proof cases
        case 2
        then show ?thesis
          using t at_i at_k [OF c(2)] other [OF c(2)] by simp
      next
        case 3
        then show ?thesis
          using t at_i at_k [OF c(1)] other [OF c(1)] by simp
      next
        case 4
        then show ?thesis
          using t at_k [OF c(1)] at_k [OF c(2)] d(7) [OF c(1,2), of t] by simp
      qed simp
    qed
  qed
  show "mapping s' pd va = mapping s pd va" if va: "is_user_vaddr va" for va
  proof (cases "unat (pd_no va) = i")
    case True
    have "user_pte s' pd va = Some 0"
      using True at_i pt(2) pt_no_bound [of va] by (simp add: user_pte_def m(3))
    moreover have "user_pte s pd va = None"
      using True empty by (simp add: user_pte_def)
    ultimately show ?thesis
      by (simp add: mapping_def)
  next
    case False
    let ?k = "unat (pd_no va)"
    have "frames (mem s') t = frames (mem s) t" if "pt_at s pd ?k = Some t" for t
      using d(5) [OF user_slot [OF va] that] other [OF user_slot [OF va]] that by (auto simp: m(3))
    then have "user_pte s' pd va = user_pte s pd va"
      using at_k [OF user_slot [OF va] False] by (cases "pt_at s pd ?k") (simp_all add: user_pte_def)
    then show ?thesis
      by (simp add: mapping_def)
  qed
qed

lemma lookup_page_True:
  assumes wf: "wf_pd s pd" and va: "is_user_vaddr va"
  shows "\<exists>r s'. lookup_page s pd va True = Some (r, s') \<and> wf_pd s' pd
    \<and> (\<forall>a. is_user_vaddr a \<longrightarrow> mapping s' pd a = mapping s pd a)
    \<and> (case r of None \<Rightarrow> \<not> (\<exists>i. free_range (mem s) False i 1) \<and> s' = s
       | Some (pt, j) \<Rightarrow> pt_at s' pd (unat (pd_no va)) = Some pt \<and> j = unat (pt_no va))
    \<and> pdbr s' = pdbr s \<and> tlb s' = tlb s \<and> init_page_dir s' = init_page_dir s"
proof -
  let ?i = "unat (pd_no va)"
  note d = wf_pdD [OF wf]
  have i: "?i < 768"
    using user_slot [OF va] .
  have g: "get_entry s pd ?i = Some (frames (mem s) pd ! ?i)"
    using get_entry_ok [OF wf d(4)] i by simp
  show ?thesis
  proof (cases "pt_at s pd ?i")
    case (Some pt)
    then have "frames (mem s) pd ! ?i \<noteq> 0" "pde_get_pt (frames (mem s) pd ! ?i) = Some pt"
      by (auto simp: pt_at_def Let_def split: if_splits)
    then show ?thesis
      using g d(4) va Some wf by (simp add: lookup_page_def Let_def)
  next
    case None
    then have e0: "frames (mem s) pd ! ?i = 0"
      using d(6) [OF i] by simp
    have fl: "(PAL_ZERO AND PAL_USER \<noteq> 0) = False" "PAL_ZERO AND PAL_ASSERT = 0" "PAL_ZERO AND PAL_ZERO \<noteq> 0"
      by (simp_all add: PAL_ZERO_def PAL_USER_def PAL_ASSERT_def)
    show ?thesis
    proof (cases "\<exists>k. free_range (mem s) False k 1")
      case False
      then have "palloc_get_page (mem s) PAL_ZERO = Some (0, mem s)"
        using palloc_get_spec [OF d(1), of 1 PAL_ZERO] fl by (simp add: palloc_get_page_def)
      then show ?thesis
        using g e0 d(4) va wf False by (simp add: lookup_page_def Let_def)
    next
      case True
      then obtain k m where p: "palloc_get_page (mem s) PAL_ZERO = Some (page_at (kernel_pool (mem s)) k, m)"
          "wf_palloc m" "free_range (mem s) False k 1" "pool_base (kernel_pool m) = pool_base (kernel_pool (mem s))"
          "used (used_map (kernel_pool m)) = used (used_map (kernel_pool (mem s))) \<union> {k..<k + 1}"
          "frames m = fill_pages (frames (mem s)) (page_at (kernel_pool (mem s)) k) 0 1"
        using palloc_get_ex [OF d(1) _ fl(1)] fl(3) unfolding palloc_get_page_def get_pool_def
        by (metis (no_types, lifting) zero_less_one)
      let ?pt = "page_at (kernel_pool (mem s)) k"
      note fk = fresh_kpage [OF d(1) p(3,4,5)]
      have pt: "?pt \<noteq> 0" "pg_ofs ?pt = 0" "is_kernel_vaddr ?pt" "?pt \<noteq> pd"
        using page_at_facts(1-3) [of "kernel_pool (mem s)" k] d(1,3) p(3) fk(1)
        by (auto simp: wf_palloc_def free_range_def get_pool_def)
      obtain e where e: "pde_create ?pt = Some e" "pde_get_pt e = Some ?pt" "e \<noteq> 0"
        using pde_roundtrip [OF pt(2,3)] by blast
      let ?s1 = "s\<lparr>mem := m\<rparr>"
      let ?s2 = "?s1\<lparr>mem := m\<lparr>frames := (frames m)(pd := (frames m pd)[?i := e])\<rparr>\<rparr>"
      have fm: "frames m = (frames (mem s))(?pt := replicate 1024 0)"
        using p(6) by simp
      have fr: "frames (mem ?s2) = (frames (mem s))(?pt := replicate 1024 0, pd := (frames (mem s) pd)[?i := e])"
        using pt(4) by (simp add: fm)
      have kp: "kpages ?s2 = insert ?pt (kpages s)"
        using fk(2) by (simp add: kpages_def)
      have "wf_palloc (mem ?s2)"
        using p(2) by simp
      note en = enter_table [OF wf i None fk(1) pt(4) e(3,2) this kp fr]
      have se: "set_entry ?s1 pd ?i e = Some ?s2"
        using d(2) [of pd] d(4) i pt(4) by (simp add: set_entry_def Let_def fm)
      have ge: "get_entry ?s2 pd ?i = Some e"
        using d(2) [of pd] d(4) i by (simp add: get_entry_def Let_def fm)
      have "lookup_page s pd va True = Some (Some (?pt, unat (pt_no va)), ?s2)"
        using g e0 d(4) va p(1) pt(1) e(1,2) se ge by (simp add: lookup_page_def Let_def)
      then show ?thesis
        using en by (intro exI [of _ "Some (?pt, unat (pt_no va))"] exI [of _ ?s2]) simp
    qed
  qed
qed

section \<open>Installing and clearing pages\<close>

lemma same_slot_iff:
  assumes "pg_ofs upage = 0"
  shows "unat (pd_no va) = unat (pd_no upage) \<and> unat (pt_no va) = unat (pt_no upage) \<longleftrightarrow> pg_round_down va = upage"
proof -
  have rd: "unat (pg_round_down va) = unat (pd_no va) * 4194304 + unat (pt_no va) * 4096"
    using vaddr_split [of va] by (simp add: unat_pg_round_down unat_pg_ofs)
  have up: "unat upage = unat (pd_no upage) * 4194304 + unat (pt_no upage) * 4096"
    using vaddr_split [of upage] assms by simp
  have "a = c \<and> b = d" if "a * 4194304 + b * 4096 = c * 4194304 + d * 4096" "b < 1024" "d < 1024" for a b c d :: nat
  proof -
    have e: "a * 1024 + b = c * 1024 + d"
      using that(1) by linarith
    have "(a * 1024 + b) div 1024 = a" "(c * 1024 + d) div 1024 = c"
      using that(2,3) by simp_all
    then have "a = c"
      using e by metis
    then show ?thesis
      using e by simp
  qed
  then show ?thesis
    using rd up pt_no_bound [of va] pt_no_bound [of upage] by (metis word_unat_eq_iff)
qed

lemma mapping_update:
  assumes up: "pg_ofs upage = 0" and va: "is_user_vaddr va"
    and m: "\<forall>va. is_user_vaddr va \<longrightarrow> user_pte s' pd va = (if unat (pd_no va) = unat (pd_no upage)
        \<and> unat (pt_no va) = unat (pt_no upage) then Some e else user_pte s pd va)"
  shows "mapping s' pd va = (if pg_round_down va = upage then (if e AND PTE_P \<noteq> 0 then Some e else None) else mapping s pd va)"
  using m va unfolding mapping_def same_slot_iff [OF up] by simp

lemma pagedir_set_page_maps:
  assumes wf: "wf_pd s pd" and up: "pg_ofs upage = 0" "is_user_vaddr upage"
    and kp: "pg_ofs kpage = 0" "is_kernel_vaddr kpage" "unat (pg_no (kpage - PHYS_BASE)) < init_ram_pages s"
    and pd: "pd \<noteq> init_page_dir s" and free: "mapping s pd upage = None"
  shows "\<exists>ok s'. pagedir_set_page s pd upage kpage w = Some (ok, s') \<and> wf_pd s' pd \<and> pdbr s' = pdbr s \<and> tlb s' = tlb s
    \<and> (\<not> ok \<longrightarrow> \<not> (\<exists>i. free_range (mem s) False i 1))
    \<and> (\<forall>va. is_user_vaddr va \<longrightarrow> mapping s' pd va = (if ok \<and> pg_round_down va = upage then pte_create_user kpage w else mapping s pd va))"
proof -
  obtain r s1 where l: "lookup_page s pd upage True = Some (r, s1)" "wf_pd s1 pd"
      "\<And>a. is_user_vaddr a \<Longrightarrow> mapping s1 pd a = mapping s pd a"
      "case r of None \<Rightarrow> \<not> (\<exists>i. free_range (mem s) False i 1) \<and> s1 = s
       | Some (pt, j) \<Rightarrow> pt_at s1 pd (unat (pd_no upage)) = Some pt \<and> j = unat (pt_no upage)"
      "pdbr s1 = pdbr s" "tlb s1 = tlb s"
    using lookup_page_True [OF wf up(2)] by blast
  obtain p where p: "vtop kpage = Some p" "unat (drop_bit 12 p) < init_ram_pages s"
    using kp(2,3) by (auto simp: vtop_def pg_no_def)
  show ?thesis
  proof (cases r)
    case None
    then have "pagedir_set_page s pd upage kpage w = Some (False, s)"
      using l(1,4) p up kp(1) pd by (simp add: pagedir_set_page_def)
    then show ?thesis
      using wf l(4) None by (intro exI [of _ False] exI [of _ s]) simp
  next
    case (Some x)
    then obtain pt j where x: "r = Some (pt, j)" "pt_at s1 pd (unat (pd_no upage)) = Some pt" "j = unat (pt_no upage)"
      using l(4) by (cases x) auto
    have slot: "unat (pd_no upage) < 768" "j < 1024" "pt \<noteq> 0"
      using user_slot [OF up(2)] pt_no_bound x wf_pdD(5) [OF l(2)] by auto
    obtain e where e: "pte_create_user kpage w = Some e" "e AND PTE_P \<noteq> 0"
      using pte_user_entry [OF kp(1,2)] by blast
    have old: "get_entry s1 pt j = Some (frames (mem s1) pt ! j)" "(frames (mem s1) pt ! j) AND PTE_P = 0"
      using get_entry_ok [OF l(2) slot(3,2)] l(3) [OF up(2)] free x
      by (simp_all add: mapping_def user_pte_def split: if_splits)
    obtain s2 where s2: "set_entry s1 pt j e = Some s2" "wf_pd s2 pd"
        "\<forall>va. is_user_vaddr va \<longrightarrow> user_pte s2 pd va =
          (if unat (pd_no va) = unat (pd_no upage) \<and> unat (pt_no va) = j then Some e else user_pte s1 pd va)"
        "pdbr s2 = pdbr s1" "tlb s2 = tlb s1"
      using set_entry_pt [OF l(2) slot(1) x(2) slot(2)] by blast
    have "pagedir_set_page s pd upage kpage w = Some (True, s2)"
      using l(1) x(1) p up kp(1) pd old e(1) s2(1) by (simp add: pagedir_set_page_def)
    moreover have "mapping s2 pd va = (if pg_round_down va = upage then pte_create_user kpage w else mapping s pd va)"
      if va: "is_user_vaddr va" for va
      using mapping_update [OF up(1) va s2(3) [unfolded x(3)]] l(3) [OF va] e by simp
    ultimately show ?thesis
      using s2(2,4,5) l(5,6) by (intro exI [of _ True] exI [of _ s2]) simp
  qed
qed

lemma and_PTE_flag: "e AND PTE_W \<noteq> 0 \<longleftrightarrow> bit e 1" "e AND PTE_U \<noteq> 0 \<longleftrightarrow> bit e 2"
  by (simp_all add: bit_iff_and_push_bit_not_eq_0 PTE_W_def PTE_U_def push_bit_eq_mult)

text \<open>
  C9: installing a page that is not mapped either fails, when a page table is needed and
  the kernel pool is empty, and changes no entry, or makes exactly the addresses of that page
  translate to the frame.  The entry is open to user code, and to writing exactly when that was asked for;
  the entries of all other pages, with their rights, stay as they were.
\<close>

theorem pagedir_set_page_correct:
  assumes "wf_pd s pd" and "pg_ofs upage = 0" "is_user_vaddr upage"
    and "pg_ofs kpage = 0" "is_kernel_vaddr kpage" "unat (pg_no (kpage - PHYS_BASE)) < init_ram_pages s"
    and "pd \<noteq> init_page_dir s" and "mapping s pd upage = None"
  shows "\<exists>ok s' e. pagedir_set_page s pd upage kpage w = Some (ok, s') \<and> wf_pd s' pd
    \<and> (\<not> ok \<longrightarrow> \<not> (\<exists>i. free_range (mem s) False i 1))
    \<and> (\<forall>va. is_user_vaddr va \<longrightarrow> pagedir_get_page s' pd va =
        (if ok \<and> pg_round_down va = upage then Some (kpage + pg_ofs va) else pagedir_get_page s pd va))
    \<and> (\<forall>va. is_user_vaddr va \<longrightarrow> mapping s' pd va = (if ok \<and> pg_round_down va = upage then Some e else mapping s pd va))
    \<and> e AND PTE_P \<noteq> 0 \<and> e AND PTE_U \<noteq> 0 \<and> (e AND PTE_W \<noteq> 0 \<longleftrightarrow> w)"
proof -
  obtain ok s' where s': "pagedir_set_page s pd upage kpage w = Some (ok, s')" "wf_pd s' pd"
      "\<not> ok \<longrightarrow> \<not> (\<exists>i. free_range (mem s) False i 1)"
      "\<forall>va. is_user_vaddr va \<longrightarrow> mapping s' pd va = (if ok \<and> pg_round_down va = upage then pte_create_user kpage w else mapping s pd va)"
    using pagedir_set_page_maps [OF assms] by blast
  obtain e where e: "pte_create_user kpage w = Some e" "pte_get_page e = Some kpage" "e AND PTE_P \<noteq> 0" "bit e 2" "bit e 1 \<longleftrightarrow> w"
    using pte_create_user_correct [OF assms(4,5)] by blast
  have "pagedir_get_page s' pd va = (if ok \<and> pg_round_down va = upage then Some (kpage + pg_ofs va) else pagedir_get_page s pd va)"
    if va: "is_user_vaddr va" for va
    using s'(4) e(1,2) va unfolding pagedir_get_page_mapping [OF s'(2) va] pagedir_get_page_mapping [OF assms(1) va] by simp
  then show ?thesis
    using s' e by (intro exI [of _ ok] exI [of _ s'] exI [of _ e]) (simp add: and_PTE_flag)
qed

text \<open>
  C14: clearing a page removes exactly its entry.  When the page was mapped in the active
  directory, the lookaside buffer holds nothing afterwards, so no stale translation of
  it survives; when it was not mapped, or the directory is not the active one, the buffer is left as it is.
\<close>

theorem pagedir_clear_page_correct:
  assumes wf: "wf_pd s pd" and up: "pg_ofs upage = 0" "is_user_vaddr upage" and act: "pdbr s < PHYS_BASE"
  shows "\<exists>s'. pagedir_clear_page s pd upage = Some s' \<and> wf_pd s' pd
    \<and> (\<forall>va. is_user_vaddr va \<longrightarrow> pagedir_get_page s' pd va =
        (if pg_round_down va = upage then Some 0 else pagedir_get_page s pd va))
    \<and> (\<forall>va. is_user_vaddr va \<longrightarrow> mapping s' pd va = (if pg_round_down va = upage then None else mapping s pd va))
    \<and> tlb s' = (if mapping s pd upage \<noteq> None \<and> active_pd s = Some pd then {} else tlb s) \<and> active_pd s' = active_pd s"
proof (cases "mapping s pd upage")
  case None
  then have "pagedir_clear_page s pd upage = Some s"
    using lookup_page_False [OF wf up(2)] up get_entry_ok [OF wf, of _ "unat (pt_no upage)"] pt_no_bound [of upage]
      wf_pdD(5) [OF wf user_slot [OF up(2)]]
    by (cases "pt_at s pd (unat (pd_no upage))") (auto simp: pagedir_clear_page_def mapping_def user_pte_def split: if_splits)
  moreover have m: "mapping s pd va = None" if "pg_round_down va = upage" for va
    using None that same_slot_iff [OF up(1), of va] by (simp add: mapping_def user_pte_def)
  then have "pagedir_get_page s pd va = Some 0" if "is_user_vaddr va" "pg_round_down va = upage" for va
    using that pagedir_get_page_mapping [OF wf that(1)] by simp
  ultimately show ?thesis
    using None wf m by simp
next
  case (Some e)
  then obtain pt where pt: "pt_at s pd (unat (pd_no upage)) = Some pt" "frames (mem s) pt ! unat (pt_no upage) = e"
      "e AND PTE_P \<noteq> 0"
    by (auto simp: mapping_def user_pte_def split: option.splits if_splits)
  have slot: "unat (pd_no upage) < 768" "unat (pt_no upage) < 1024" "pt \<noteq> 0"
    using user_slot [OF up(2)] pt_no_bound pt wf_pdD(5) [OF wf] by auto
  obtain s1 where s1: "set_entry s pt (unat (pt_no upage)) (e AND NOT PTE_P) = Some s1" "wf_pd s1 pd"
      "\<forall>va. is_user_vaddr va \<longrightarrow> user_pte s1 pd va = (if unat (pd_no va) = unat (pd_no upage)
        \<and> unat (pt_no va) = unat (pt_no upage) then Some (e AND NOT PTE_P) else user_pte s pd va)"
      "pdbr s1 = pdbr s" "tlb s1 = tlb s"
    using set_entry_pt [OF wf slot(1) pt(1) slot(2)] by blast
  have pdk: "is_kernel_vaddr pd" "pd \<noteq> 0"
    using kpages_facts [OF wf_pdD(1,3) [OF wf]] by blast+
  obtain q where q: "vtop pd = Some q" "ptov q = Some pd"
    using ptov_vtop [OF pdk(1)] by blast
  define s2 where "s2 = (if active_pd s = Some pd then s1\<lparr>pdbr := q, tlb := {}\<rparr> else s1)"
  have run: "pagedir_clear_page s pd upage = Some s2"
    using lookup_page_False [OF wf up(2)] up pt slot get_entry_ok [OF wf slot(3,2)] s1(1,4) act q(1) pdk(2)
    by (auto simp: pagedir_clear_page_def invalidate_pagedir_def active_pd_def pagedir_activate_def s2_def ptov_def)
  have same: "frames (mem s2) = frames (mem s1)" "mem s2 = mem s1"
    by (simp_all add: s2_def)
  have wf2: "wf_pd s2 pd"
    using s1(2) unfolding wf_pd_def kpages_def pt_at_def same .
  have "(e AND NOT PTE_P) AND PTE_P = 0"
    by (rule bit_word_eqI) (auto simp: bit_simps)
  moreover have "mapping s2 pd va = mapping s1 pd va" for va
    by (simp add: mapping_def user_pte_def pt_at_def same)
  ultimately have "mapping s2 pd va = (if pg_round_down va = upage then None else mapping s pd va)" if "is_user_vaddr va" for va
    using mapping_update [OF up(1) that s1(3)] by simp
  moreover from this have "pagedir_get_page s2 pd va = (if pg_round_down va = upage then Some 0 else pagedir_get_page s pd va)"
    if "is_user_vaddr va" for va
    unfolding pagedir_get_page_mapping [OF wf2 that] pagedir_get_page_mapping [OF wf that] using that by simp
  moreover have "tlb s2 = (if active_pd s = Some pd then {} else tlb s)" "active_pd s2 = active_pd s"
    using s1(4,5) q(2) by (auto simp: s2_def active_pd_def)
  ultimately show ?thesis
    using run wf2 Some by (intro exI [of _ s2]) simp
qed

section \<open>A sample machine\<close>

text \<open>One empty directory at the first page of the kernel pool, and free pages in both pools.\<close>

definition sample_paging :: paging where
  "sample_paging = \<lparr>mem = \<lparr>kernel_pool = \<lparr>used_map = \<lparr>bit_cnt = 4, bm_bits = [1]\<rparr>, pool_base = 0xC0100000\<rparr>,
     user_pool = \<lparr>used_map = \<lparr>bit_cnt = 4, bm_bits = [0]\<rparr>, pool_base = 0xC0200000\<rparr>,
     frames = (\<lambda>_. replicate 1024 0)\<rparr>,
     init_page_dir = 0xC0000000, init_ram_pages = 1024, pdbr = 0x100000, tlb = {0x8048000}\<rparr>"

lemma sample_pt_at: "i < 1024 \<Longrightarrow> pt_at sample_paging pd i = None"
  by (simp add: pt_at_def sample_paging_def)

lemma sample_wf: "wf_pd sample_paging 0xC0100000"
proof -
  have "wf_palloc (mem sample_paging)"
    by (simp add: sample_paging_def wf_palloc_def wf_pool_def wf_bitmap_def aligned_iff is_kernel_vaddr_def PHYS_BASE_def)
  moreover have "0xC0100000 \<in> kpages sample_paging"
    by (auto simp: kpages_def sample_paging_def used_def bits_of_def page_at_def image_iff intro!: exI [of _ 0])
  ultimately show ?thesis
    using sample_pt_at by (simp add: wf_pd_def) (simp add: sample_paging_def)
qed

lemma sample_install:
  shows "pg_ofs 0x8048000 = 0" "is_user_vaddr 0x8048000" "pg_ofs 0xC0200000 = 0" "is_kernel_vaddr 0xC0200000"
    "unat (pg_no (0xC0200000 - PHYS_BASE)) < init_ram_pages sample_paging" "0xC0100000 \<noteq> init_page_dir sample_paging"
    "mapping sample_paging 0xC0100000 0x8048000 = None" "\<exists>i. free_range (mem sample_paging) False i 1"
proof -
  show "mapping sample_paging 0xC0100000 0x8048000 = None"
    using pd_no_bound [of "0x8048000"] by (simp add: mapping_def user_pte_def sample_pt_at)
  show "\<exists>i. free_range (mem sample_paging) False i 1"
    by (rule exI [of _ 1]) (simp add: free_range_def get_pool_def sample_paging_def used_def bits_of_def)
qed (simp_all add: aligned_iff is_user_vaddr_def is_kernel_vaddr_def PHYS_BASE_def sample_paging_def pg_no_def drop_bit_eq_div)

theorem pagedir_set_page_correct_witness:
  "\<exists>s' e. pagedir_set_page sample_paging 0xC0100000 0x8048000 0xC0200000 False = Some (True, s')
    \<and> mapping s' 0xC0100000 0x8048000 = Some e \<and> e AND PTE_U \<noteq> 0 \<and> e AND PTE_W = 0
    \<and> pagedir_get_page s' 0xC0100000 0x8048004 = Some 0xC0200004"
proof -
  have "is_user_vaddr 0x8048004" "pg_round_down 0x8048004 = 0x8048000" "pg_ofs 0x8048004 = 4" "pg_round_down 0x8048000 = 0x8048000"
    by (simp_all add: is_user_vaddr_def PHYS_BASE_def pg_round_down_def pg_ofs_def PGMASK_def BITMASK_def push_bit_eq_mult)
  then show ?thesis
    using pagedir_set_page_correct [OF sample_wf sample_install(1-7), of False] sample_install(2,8) by fastforce
qed

theorem pagedir_clear_page_correct_witness:
  "\<exists>s e s'. pagedir_set_page sample_paging 0xC0100000 0x8048000 0xC0200000 True = Some (True, s)
    \<and> mapping s 0xC0100000 0x8048000 = Some e \<and> active_pd s = Some 0xC0100000 \<and> tlb s = {0x8048000}
    \<and> pagedir_clear_page s 0xC0100000 0x8048000 = Some s' \<and> mapping s' 0xC0100000 0x8048000 = None \<and> tlb s' = {}"
proof -
  obtain s where s: "pagedir_set_page sample_paging 0xC0100000 0x8048000 0xC0200000 True = Some (True, s)" "wf_pd s 0xC0100000"
      "pdbr s = pdbr sample_paging" "tlb s = tlb sample_paging"
      "\<forall>va. is_user_vaddr va \<longrightarrow> mapping s 0xC0100000 va = (if pg_round_down va = 0x8048000 then pte_create_user 0xC0200000 True else mapping sample_paging 0xC0100000 va)"
    using pagedir_set_page_maps [OF sample_wf sample_install(1-7), of True] sample_install(8) by fastforce
  have r: "pg_round_down 0x8048000 = 0x8048000"
    by (simp add: pg_round_down_def PGMASK_def BITMASK_def push_bit_eq_mult)
  obtain e where e: "mapping s 0xC0100000 0x8048000 = Some e"
    using s(5) r sample_install(2) pte_user_entry [OF sample_install(3,4), of True] by auto
  have a: "pdbr s < PHYS_BASE" "active_pd s = Some 0xC0100000" "tlb s = {0x8048000}"
    using s(3,4) by (simp_all add: sample_paging_def active_pd_def ptov_def PHYS_BASE_def)
  show ?thesis
    using pagedir_clear_page_correct [OF s(2) sample_install(1,2) a(1)] s(1) e a r sample_install(2) by fastforce
qed

end
