(* ===== verification/Kstring.thy ===== *)
theory Kstring
  imports Kernel_Prelude
begin

text \<open>
  The string library, \<open>lib/string.c\<close>, over a byte-addressed memory.  An access to an
  unmapped byte or through a null pointer has no outcome, and a scan that finds no
  terminator runs off the mapped memory in the same way.
\<close>

section \<open>Memory\<close>

type_synonym addr = nat
type_synonym bmem = "addr \<Rightarrow> u8 option"

definition load :: "bmem \<Rightarrow> addr \<Rightarrow> u8 option" where
  "load m p = (if p = 0 then None else m p)"

definition store :: "bmem \<Rightarrow> addr \<Rightarrow> u8 \<Rightarrow> bmem option" where
  "store m p b = (if load m p = None then None else Some (m(p \<mapsto> b)))"

section \<open>Block operations\<close>

text \<open>The copy loop returns the final value of \<open>dst\<close> with the memory.\<close>

fun memcpy_loop :: "bmem \<Rightarrow> addr \<Rightarrow> addr \<Rightarrow> nat \<Rightarrow> (addr \<times> bmem) option" where
  "memcpy_loop m dst src 0 = Some (dst, m)"
| "memcpy_loop m dst src (Suc n) = do {
     b \<leftarrow> load m src;
     m \<leftarrow> store m dst b;
     memcpy_loop m (dst + 1) (src + 1) n
   }"

definition memcpy :: "bmem \<Rightarrow> addr \<Rightarrow> addr \<Rightarrow> nat \<Rightarrow> (addr \<times> bmem) option" where
  "memcpy m dst src sz = do {
     ASSERT (dst \<noteq> 0 \<or> sz = 0);
     ASSERT (src \<noteq> 0 \<or> sz = 0);
     (_, m) \<leftarrow> memcpy_loop m dst src sz;
     Some (dst, m)
   }"

fun memmove_down :: "bmem \<Rightarrow> addr \<Rightarrow> addr \<Rightarrow> nat \<Rightarrow> (addr \<times> bmem) option" where
  "memmove_down m dst src 0 = Some (dst, m)"
| "memmove_down m dst src (Suc n) = do {
     b \<leftarrow> load m (src - 1);
     m \<leftarrow> store m (dst - 1) b;
     memmove_down m (dst - 1) (src - 1) n
   }"

definition memmove :: "bmem \<Rightarrow> addr \<Rightarrow> addr \<Rightarrow> nat \<Rightarrow> (addr \<times> bmem) option" where
  "memmove m dst src sz = do {
     ASSERT (dst \<noteq> 0 \<or> sz = 0);
     ASSERT (src \<noteq> 0 \<or> sz = 0);
     if dst < src then memcpy_loop m dst src sz
     else memmove_down m (dst + sz) (src + sz) sz
   }"

fun memcmp_loop :: "bmem \<Rightarrow> addr \<Rightarrow> addr \<Rightarrow> nat \<Rightarrow> int option" where
  "memcmp_loop m a b 0 = Some 0"
| "memcmp_loop m a b (Suc n) = do {
     x \<leftarrow> load m a;
     y \<leftarrow> load m b;
     if x \<noteq> y then Some (if y < x then 1 else - 1) else memcmp_loop m (a + 1) (b + 1) n
   }"

definition memcmp :: "bmem \<Rightarrow> addr \<Rightarrow> addr \<Rightarrow> nat \<Rightarrow> int option" where
  "memcmp m a b sz = do {
     ASSERT (a \<noteq> 0 \<or> sz = 0);
     ASSERT (b \<noteq> 0 \<or> sz = 0);
     memcmp_loop m a b sz
   }"

fun memchr_loop :: "bmem \<Rightarrow> addr \<Rightarrow> u8 \<Rightarrow> nat \<Rightarrow> addr option" where
  "memchr_loop m p ch 0 = Some 0"
| "memchr_loop m p ch (Suc n) = do {
     b \<leftarrow> load m p;
     if b = ch then Some p else memchr_loop m (p + 1) ch n
   }"

text \<open>The character argument is an \<open>int\<close>, converted to a byte on entry.\<close>

definition memchr :: "bmem \<Rightarrow> addr \<Rightarrow> int \<Rightarrow> nat \<Rightarrow> addr option" where
  "memchr m block ch' sz = do {
     ASSERT (block \<noteq> 0 \<or> sz = 0);
     memchr_loop m block (word_of_int ch') sz
   }"

fun memset_loop :: "bmem \<Rightarrow> addr \<Rightarrow> u8 \<Rightarrow> nat \<Rightarrow> bmem option" where
  "memset_loop m dst v 0 = Some m"
| "memset_loop m dst v (Suc n) = do { m \<leftarrow> store m dst v; memset_loop m (dst + 1) v n }"

definition memset :: "bmem \<Rightarrow> addr \<Rightarrow> int \<Rightarrow> nat \<Rightarrow> (addr \<times> bmem) option" where
  "memset m dst v sz = do {
     ASSERT (dst \<noteq> 0 \<or> sz = 0);
     m \<leftarrow> memset_loop m dst (word_of_int v) sz;
     Some (dst, m)
   }"

section \<open>String operations\<close>

partial_function (option) strcmp_loop :: "bmem \<Rightarrow> addr \<Rightarrow> addr \<Rightarrow> int option" where
  "strcmp_loop m a b = do {
     x \<leftarrow> load m a;
     y \<leftarrow> load m b;
     if x \<noteq> 0 \<and> x = y then strcmp_loop m (a + 1) (b + 1)
     else Some (if x < y then - 1 else if y < x then 1 else 0)
   }"

definition strcmp :: "bmem \<Rightarrow> addr \<Rightarrow> addr \<Rightarrow> int option" where
  "strcmp m a b = do { ASSERT (a \<noteq> 0); ASSERT (b \<noteq> 0); strcmp_loop m a b }"

partial_function (option) strchr_loop :: "bmem \<Rightarrow> addr \<Rightarrow> u8 \<Rightarrow> addr option" where
  "strchr_loop m p c = do {
     b \<leftarrow> load m p;
     if b = c then Some p
     else if b = 0 then Some 0
     else strchr_loop m (p + 1) c
   }"

definition strchr :: "bmem \<Rightarrow> addr \<Rightarrow> int \<Rightarrow> addr option" where
  "strchr m string c' = do { ASSERT (string \<noteq> 0); strchr_loop m string (word_of_int c') }"

text \<open>A byte passed as the \<open>int\<close> argument of \<open>strchr\<close> (a \<open>char\<close> is signed).\<close>

abbreviation char_int :: "u8 \<Rightarrow> int" where
  "char_int b \<equiv> sint b"

partial_function (option) strcspn_loop :: "bmem \<Rightarrow> addr \<Rightarrow> addr \<Rightarrow> nat \<Rightarrow> nat option" where
  "strcspn_loop m string stop len = do {
     b \<leftarrow> load m (string + len);
     if b = 0 then Some len
     else do {
       q \<leftarrow> strchr m stop (char_int b);
       if q \<noteq> 0 then Some len else strcspn_loop m string stop (len + 1)
     }
   }"

definition strcspn :: "bmem \<Rightarrow> addr \<Rightarrow> addr \<Rightarrow> nat option" where
  "strcspn m string stop = strcspn_loop m string stop 0"

partial_function (option) strpbrk :: "bmem \<Rightarrow> addr \<Rightarrow> addr \<Rightarrow> addr option" where
  "strpbrk m string stop = do {
     b \<leftarrow> load m string;
     if b = 0 then Some 0
     else do {
       q \<leftarrow> strchr m stop (char_int b);
       if q \<noteq> 0 then Some string else strpbrk m (string + 1) stop
     }
   }"

partial_function (option) strrchr_loop :: "bmem \<Rightarrow> addr \<Rightarrow> u8 \<Rightarrow> addr \<Rightarrow> addr option" where
  "strrchr_loop m string c p = do {
     b \<leftarrow> load m string;
     if b = 0 then Some p
     else strrchr_loop m (string + 1) c (if b = c then string else p)
   }"

definition strrchr :: "bmem \<Rightarrow> addr \<Rightarrow> int \<Rightarrow> addr option" where
  "strrchr m string c' = strrchr_loop m string (word_of_int c') 0"

partial_function (option) strspn_loop :: "bmem \<Rightarrow> addr \<Rightarrow> addr \<Rightarrow> nat \<Rightarrow> nat option" where
  "strspn_loop m string skip len = do {
     b \<leftarrow> load m (string + len);
     if b = 0 then Some len
     else do {
       q \<leftarrow> strchr m skip (char_int b);
       if q = 0 then Some len else strspn_loop m string skip (len + 1)
     }
   }"

definition strspn :: "bmem \<Rightarrow> addr \<Rightarrow> addr \<Rightarrow> nat option" where
  "strspn m string skip = strspn_loop m string skip 0"

partial_function (option) strlen_loop :: "bmem \<Rightarrow> addr \<Rightarrow> addr option" where
  "strlen_loop m p = do { b \<leftarrow> load m p; if b \<noteq> 0 then strlen_loop m (p + 1) else Some p }"

definition strlen :: "bmem \<Rightarrow> addr \<Rightarrow> nat option" where
  "strlen m string = do { ASSERT (string \<noteq> 0); p \<leftarrow> strlen_loop m string; Some (p - string) }"

text \<open>The terminator is tested before the bound, as in the source.\<close>

partial_function (option) strnlen_loop :: "bmem \<Rightarrow> addr \<Rightarrow> nat \<Rightarrow> nat \<Rightarrow> nat option" where
  "strnlen_loop m string maxlen len = do {
     b \<leftarrow> load m (string + len);
     if b \<noteq> 0 \<and> len < maxlen then strnlen_loop m string maxlen (len + 1) else Some len
   }"

definition strnlen :: "bmem \<Rightarrow> addr \<Rightarrow> nat \<Rightarrow> nat option" where
  "strnlen m string maxlen = strnlen_loop m string maxlen 0"

text \<open>The number of positions left to try is the structural argument.\<close>

fun strstr_loop :: "bmem \<Rightarrow> addr \<Rightarrow> addr \<Rightarrow> nat \<Rightarrow> nat \<Rightarrow> nat \<Rightarrow> addr option" where
  "strstr_loop m haystack needle needle_len i 0 = Some 0"
| "strstr_loop m haystack needle needle_len i (Suc n) = do {
     c \<leftarrow> memcmp m (haystack + i) needle needle_len;
     if c = 0 then Some (haystack + i) else strstr_loop m haystack needle needle_len (i + 1) n
   }"

definition strstr :: "bmem \<Rightarrow> addr \<Rightarrow> addr \<Rightarrow> addr option" where
  "strstr m haystack needle = do {
     haystack_len \<leftarrow> strlen m haystack;
     needle_len \<leftarrow> strlen m needle;
     if needle_len \<le> haystack_len
     then strstr_loop m haystack needle needle_len 0 (haystack_len - needle_len + 1)
     else Some 0
   }"

text \<open>
  The two scans of \<open>strtok_r\<close>.  The first returns no position when it meets the end of
  the string (\<open>Inl\<close> the end), the second stops at a delimiter or at the terminator.
\<close>

partial_function (option) strtok_skip :: "bmem \<Rightarrow> addr \<Rightarrow> addr \<Rightarrow> (addr + addr) option" where
  "strtok_skip m delimiters s = do {
     b \<leftarrow> load m s;
     q \<leftarrow> strchr m delimiters (char_int b);
     if q \<noteq> 0 then (if b = 0 then Some (Inl s) else strtok_skip m delimiters (s + 1))
     else Some (Inr s)
   }"

partial_function (option) strtok_token :: "bmem \<Rightarrow> addr \<Rightarrow> addr \<Rightarrow> addr option" where
  "strtok_token m delimiters s = do {
     b \<leftarrow> load m s;
     q \<leftarrow> strchr m delimiters (char_int b);
     if q = 0 then strtok_token m delimiters (s + 1) else Some s
   }"

text \<open>The saved position is passed in and returned: (token, save, memory).\<close>

definition strtok_r :: "bmem \<Rightarrow> addr \<Rightarrow> addr \<Rightarrow> addr \<Rightarrow> (addr \<times> addr \<times> bmem) option" where
  "strtok_r m s delimiters save_ptr = do {
     ASSERT (delimiters \<noteq> 0);
     let s = (if s = 0 then save_ptr else s);
     ASSERT (s \<noteq> 0);
     r \<leftarrow> strtok_skip m delimiters s;
     (case r of
       Inl s \<Rightarrow> Some (0, s, m)
     | Inr token \<Rightarrow> do {
         s \<leftarrow> strtok_token m delimiters token;
         b \<leftarrow> load m s;
         if b \<noteq> 0 then do { m \<leftarrow> store m s 0; Some (token, s + 1, m) }
         else Some (token, s, m)
       })
   }"

definition strlcpy :: "bmem \<Rightarrow> addr \<Rightarrow> addr \<Rightarrow> nat \<Rightarrow> (nat \<times> bmem) option" where
  "strlcpy m dst src sz = do {
     ASSERT (dst \<noteq> 0);
     ASSERT (src \<noteq> 0);
     src_len \<leftarrow> strlen m src;
     if sz > 0 then do {
       let dst_len = (if src_len < sz - 1 then src_len else sz - 1);
       (_, m) \<leftarrow> memcpy m dst src dst_len;
       m \<leftarrow> store m (dst + dst_len) 0;
       Some (src_len, m)
     }
     else Some (src_len, m)
   }"

definition strlcat :: "bmem \<Rightarrow> addr \<Rightarrow> addr \<Rightarrow> nat \<Rightarrow> (nat \<times> bmem) option" where
  "strlcat m dst src sz = do {
     ASSERT (dst \<noteq> 0);
     ASSERT (src \<noteq> 0);
     src_len \<leftarrow> strlen m src;
     dst_len \<leftarrow> strlen m dst;
     if sz > 0 \<and> dst_len < sz then do {
       let copy_cnt = (if src_len < sz - dst_len - 1 then src_len else sz - dst_len - 1);
       (_, m) \<leftarrow> memcpy m (dst + dst_len) src copy_cnt;
       m \<leftarrow> store m (dst + dst_len + copy_cnt) 0;
       Some (src_len + dst_len, m)
     }
     else Some (src_len + dst_len, m)
   }"

end
