(* ===== verification/Kstring_Correct.thy ===== *)
theory Kstring_Correct
  imports Kstring
begin

text \<open>
  What the string library computes: \<open>block m p bs\<close> says that the bytes \<open>bs\<close> lie at
  address \<open>p\<close>, \<open>cstr m p s\<close> that the null-terminated string \<open>s\<close> does.  Each routine is
  shown to return on such memory, with the value of the operation on byte sequences and
  the exact memory it leaves (\<open>patch\<close>).
\<close>

section \<open>Blocks of memory\<close>

fun block :: "bmem \<Rightarrow> addr \<Rightarrow> u8 list \<Rightarrow> bool" where
  "block m p [] \<longleftrightarrow> True"
| "block m p (b # bs) \<longleftrightarrow> load m p = Some b \<and> block m (p + 1) bs"

definition cstr :: "bmem \<Rightarrow> addr \<Rightarrow> u8 list \<Rightarrow> bool" where
  "cstr m p s \<longleftrightarrow> block m p (s @ [0]) \<and> 0 \<notin> set s"

definition writable :: "bmem \<Rightarrow> addr \<Rightarrow> nat \<Rightarrow> bool" where
  "writable m p n \<longleftrightarrow> (\<forall>a. p \<le> a \<and> a < p + n \<longrightarrow> load m a \<noteq> None)"

definition patch :: "bmem \<Rightarrow> addr \<Rightarrow> u8 list \<Rightarrow> bmem" where
  "patch m p bs = (\<lambda>a. if p \<le> a \<and> a < p + length bs then Some (bs ! (a - p)) else m a)"

lemma patch_Nil [simp]: "patch m p [] = m"
  by (rule ext) (auto simp: patch_def)

lemma patch_Cons: "patch m p (b # bs) = patch (m(p \<mapsto> b)) (p + 1) bs"
  by (rule ext) (auto simp: patch_def nth_Cons')

lemma patch_snoc: "patch m p (bs @ [b]) = patch (m(p + length bs \<mapsto> b)) p bs"
  by (rule ext) (auto simp: patch_def nth_append)

lemma load_upd [simp]: "load (m(p \<mapsto> b)) a = (if a = p \<and> p \<noteq> 0 then Some b else load m a)"
  by (auto simp: load_def)

lemma load_0 [simp]: "load m 0 = None"
  by (simp add: load_def)

lemma load_patch: "p \<noteq> 0 \<Longrightarrow> load (patch m p bs) a = (if p \<le> a \<and> a < p + length bs then Some (bs ! (a - p)) else load m a)"
  by (auto simp: load_def patch_def)

lemma store_ok: "load m p \<noteq> None \<Longrightarrow> store m p b = Some (m(p \<mapsto> b))"
  by (simp add: store_def)

lemma block_append: "block m p (xs @ ys) \<longleftrightarrow> block m p xs \<and> block m (p + length xs) ys"
  by (induction xs arbitrary: p) auto

lemma block_nth: "block m p bs \<longleftrightarrow> (\<forall>i < length bs. load m (p + i) = Some (bs ! i))"
  by (induction bs arbitrary: p) (auto simp: nth_Cons' less_Suc_eq_0_disj)

lemma block_cong: "(\<And>a. p \<le> a \<Longrightarrow> a < p + length bs \<Longrightarrow> load m' a = load m a) \<Longrightarrow> block m' p bs = block m p bs"
  by (simp add: block_nth)

lemma block_upd [simp]: "\<not> (p \<le> q \<and> q < p + length bs) \<Longrightarrow> block (m(q \<mapsto> b)) p bs = block m p bs"
  by (rule block_cong) auto

lemma block_nonnull: "block m p (b # bs) \<Longrightarrow> p \<noteq> 0"
  by (cases "p = 0") auto

lemma writable_upd [simp]: "load m q \<noteq> None \<Longrightarrow> writable (m(q \<mapsto> b)) p n = writable m p n"
  by (auto simp: writable_def)

lemma writable_Suc: "writable m p (Suc n) \<longleftrightarrow> load m p \<noteq> None \<and> writable m (p + 1) n"
  by (auto simp: writable_def) (metis Suc_leI add_Suc le_eq_less_or_eq)

lemma writable_0 [simp]: "writable m p 0"
  by (auto simp: writable_def)

lemma writable_snoc: "writable m p (Suc n) \<longleftrightarrow> writable m p n \<and> load m (p + n) \<noteq> None"
  unfolding writable_def by (metis add_Suc_right le_add1 lessI less_SucE less_Suc_eq)

lemma block_null: "block m 0 bs \<Longrightarrow> bs = []"
  by (cases bs) auto

lemma writable_null: "writable m 0 n \<Longrightarrow> n = 0"
  by (cases n) (auto simp: writable_Suc)

lemma block_patch: "block (patch m p bs) p bs" if "bs \<noteq> [] \<Longrightarrow> p \<noteq> 0"
  using that by (cases "bs = []") (simp_all add: block_nth load_patch)

lemma block_patch_other:
  "q + length cs \<le> p \<or> p + length bs \<le> q \<Longrightarrow> block (patch m p bs) q cs = block m q cs"
  by (rule block_cong) (auto simp: patch_def load_def)

section \<open>Copying\<close>

lemma memcpy_loop_block:
  assumes "block m src bs" and "writable m dst (length bs)" and "dst \<le> src \<or> src + length bs \<le> dst"
  shows "memcpy_loop m dst src (length bs) = Some (dst + length bs, patch m dst bs)"
  using assms
proof (induction bs arbitrary: m dst src)
  case (Cons b bs)
  then have w: "load m dst \<noteq> None" "writable m (dst + 1) (length bs)"
    by (simp_all add: writable_Suc)
  moreover have "block (m(dst \<mapsto> b)) (src + 1) bs"
    using Cons.prems by (subst block_upd) auto
  ultimately show ?case
    using Cons.prems Cons.IH [of "m(dst \<mapsto> b)" "src + 1" "dst + 1"]
    by (auto simp: store_ok patch_Cons simp del: fun_upd_apply)
qed simp

lemma memmove_down_block:
  assumes "block m src bs" and "writable m dst (length bs)" and "src \<le> dst"
  shows "memmove_down m (dst + length bs) (src + length bs) (length bs) = Some (dst, patch m dst bs)"
  using assms
proof (induction bs arbitrary: m rule: rev_induct)
  case (snoc b bs)
  then have w: "load m (dst + length bs) \<noteq> None" "writable m dst (length bs)"
    by (simp_all add: writable_snoc)
  moreover have "block (m(dst + length bs \<mapsto> b)) src bs"
    using snoc.prems by (subst block_upd) (auto simp: block_append)
  ultimately have "memmove_down (m(dst + length bs \<mapsto> b)) (dst + length bs) (src + length bs) (length bs)
      = Some (dst, patch (m(dst + length bs \<mapsto> b)) dst bs)"
    using snoc.prems(3) by (intro snoc.IH) (simp_all del: fun_upd_apply)
  then show ?case
    using snoc.prems(1) w(1) by (simp add: store_ok patch_snoc block_append)
qed simp

lemma memcpy_block:
  assumes "block m src bs" and "writable m dst (length bs)" and "dst \<le> src \<or> src + length bs \<le> dst"
  shows "memcpy m dst src (length bs) = Some (dst, patch m dst bs)"
proof -
  have "src \<noteq> 0 \<or> bs = []" and "dst \<noteq> 0 \<or> bs = []"
    using block_null [of m bs] writable_null [of m "length bs"] assms(1,2)
    by (metis length_0_conv)+
  then show ?thesis
    using memcpy_loop_block [OF assms] by (auto simp: memcpy_def)
qed

text \<open>
  C12: \<open>memmove\<close> leaves at the destination the bytes that were at the source, whatever the
  overlap, and changes no other byte; the value it returns is the destination only when
  the copy runs downwards, and the end of the destination when it runs upwards.
\<close>

theorem memmove_correct:
  assumes "block m src bs" and "writable m dst (length bs)"
  shows "memmove m dst src (length bs)
    = Some (if dst < src then dst + length bs else dst, patch m dst bs)"
proof -
  have "src \<noteq> 0 \<or> bs = []" and "dst \<noteq> 0 \<or> bs = []"
    using block_null [of m bs] writable_null [of m "length bs"] assms(1,2)
    by (metis length_0_conv)+
  then show ?thesis
    using memcpy_loop_block [OF assms] memmove_down_block [OF assms]
    by (auto simp: memmove_def)
qed

theorem memmove_correct_witness:
  "let m = (\<lambda>a. if 100 \<le> a \<and> a < 104 then Some (of_nat a) else None) in
   memmove m 100 101 (length [101, 102, 103 :: u8])
     = Some (if (100 :: addr) < 101 then 100 + length [101, 102, 103 :: u8] else 100, patch m 100 [101, 102, 103])"
  unfolding Let_def by (rule memmove_correct) (auto simp: load_def writable_def)

section \<open>Scanning\<close>

lemma cstr_Nil [simp]: "cstr m p [] \<longleftrightarrow> load m p = Some 0"
  by (simp add: cstr_def)

lemma cstr_Cons [simp]: "cstr m p (b # s) \<longleftrightarrow> b \<noteq> 0 \<and> load m p = Some b \<and> cstr m (p + 1) s"
  by (auto simp: cstr_def)

lemma cstr_append: "cstr m p (s @ t) \<Longrightarrow> cstr m (p + length s) t"
  by (simp add: cstr_def block_append add.assoc)

lemma cstr_nonnull: "cstr m p s \<Longrightarrow> p \<noteq> 0"
  by (cases s) (auto intro: gr0I)

lemma cstr_blockD: "cstr m p s \<Longrightarrow> block m p s \<and> load m (p + length s) = Some 0 \<and> 0 \<notin> set s"
  by (simp add: cstr_def block_append)

lemma strlen_loop_cstr: "cstr m p s \<Longrightarrow> strlen_loop m p = Some (p + length s)"
proof (induction s arbitrary: p)
  case Nil
  then show ?case by (simp add: strlen_loop.simps [of m p])
next
  case (Cons b s)
  then show ?case by (simp add: strlen_loop.simps [of m p])
qed

lemma strlen_cstr: "cstr m p s \<Longrightarrow> strlen m p = Some (length s)"
  using strlen_loop_cstr [of m p s] cstr_nonnull [of m p s] by (simp add: strlen_def)

text \<open>The position \<open>strchr\<close> returns, with the terminator found for a null byte.\<close>

lemma strchr_loop_cstr:
  "cstr m p s \<Longrightarrow> strchr_loop m p c =
    Some (if c \<in> set s \<or> c = 0 then p + length (takeWhile (\<lambda>b. b \<noteq> c) s) else 0)"
proof (induction s arbitrary: p)
  case Nil
  then show ?case by (auto simp: strchr_loop.simps [of m p])
next
  case (Cons b s)
  then show ?case by (auto simp: strchr_loop.simps [of m p])
qed

lemma strchr_cstr:
  assumes "cstr m p s"
  shows "strchr m p (char_int c) =
    Some (if c \<in> set s \<or> c = 0 then p + length (takeWhile (\<lambda>b. b \<noteq> c) s) else 0)"
  using strchr_loop_cstr [OF assms, of c] cstr_nonnull [OF assms] by (simp add: strchr_def)

lemma strchr_found:
  assumes "cstr m p s"
  shows "\<exists>q. strchr m p (char_int c) = Some q \<and> (q \<noteq> 0 \<longleftrightarrow> c \<in> set s \<or> c = 0)"
  using strchr_cstr [OF assms, of c] cstr_nonnull [OF assms] by auto

lemma strspn_loop_cstr:
  assumes "cstr m k ks"
  shows "cstr m (p + n) s \<Longrightarrow> strspn_loop m p k n = Some (n + length (takeWhile (\<lambda>b. b \<in> set ks) s))"
proof (induction s arbitrary: n)
  case Nil
  then show ?case by (simp add: strspn_loop.simps [of m p k n])
next
  case (Cons b s)
  then show ?case
    using strchr_found [OF assms, of b] by (auto simp: strspn_loop.simps [of m p k n])
qed

lemma strcspn_loop_cstr:
  assumes "cstr m k ks"
  shows "cstr m (p + n) s \<Longrightarrow> strcspn_loop m p k n = Some (n + length (takeWhile (\<lambda>b. b \<notin> set ks) s))"
proof (induction s arbitrary: n)
  case Nil
  then show ?case by (simp add: strcspn_loop.simps [of m p k n])
next
  case (Cons b s)
  then show ?case
    using strchr_found [OF assms, of b] by (auto simp: strcspn_loop.simps [of m p k n])
qed

lemma strspn_cstr:
  "cstr m p s \<Longrightarrow> cstr m k ks \<Longrightarrow> strspn m p k = Some (length (takeWhile (\<lambda>b. b \<in> set ks) s))"
  "cstr m p s \<Longrightarrow> cstr m k ks \<Longrightarrow> strcspn m p k = Some (length (takeWhile (\<lambda>b. b \<notin> set ks) s))"
  using strspn_loop_cstr [of m k ks p 0 s] strcspn_loop_cstr [of m k ks p 0 s]
  by (simp_all add: strspn_def strcspn_def)

lemma strpbrk_cstr:
  assumes "cstr m k ks"
  shows "cstr m p s \<Longrightarrow> strpbrk m p k =
    Some (if set s \<inter> set ks = {} then 0 else p + length (takeWhile (\<lambda>b. b \<notin> set ks) s))"
proof (induction s arbitrary: p)
  case Nil
  then show ?case by (simp add: strpbrk.simps [of m p])
next
  case (Cons b s)
  then show ?case
    using strchr_found [OF assms, of b] by (auto simp: strpbrk.simps [of m p] split: if_splits)
qed

lemma takeWhile_neq_length: "c \<in> set s \<Longrightarrow> length (takeWhile (\<lambda>b. b \<noteq> c) s) < length s"
  by (induction s) auto

lemma strrchr_loop_cstr:
  "cstr m p s \<Longrightarrow> strrchr_loop m p c q =
    Some (if c \<in> set s then p + (length s - Suc (length (takeWhile (\<lambda>b. b \<noteq> c) (rev s)))) else q)"
proof (induction s arbitrary: p q)
  case Nil
  then show ?case by (simp add: strrchr_loop.simps [of m p])
next
  case (Cons b s)
  have "length (takeWhile (\<lambda>b. b \<noteq> c) (rev s)) < length s" if "c \<in> set s"
    using takeWhile_neq_length [of c "rev s"] that by simp
  moreover have "takeWhile (\<lambda>b. b \<noteq> c) (rev s) = rev s" if "c \<notin> set s"
    using that by (auto simp: takeWhile_eq_all_conv)
  ultimately show ?case
    using Cons by (auto simp: strrchr_loop.simps [of m p] takeWhile_append)
qed

lemma strnlen_loop_cstr:
  "cstr m (p + n) s \<Longrightarrow> n \<le> k \<Longrightarrow> strnlen_loop m p k n = Some (min (n + length s) k)"
proof (induction s arbitrary: n)
  case Nil
  then show ?case by (simp add: strnlen_loop.simps [of m p k n])
next
  case (Cons b s)
  then show ?case
    using Cons.IH [of "n + 1"] by (cases "n = k") (auto simp: strnlen_loop.simps [of m p k n] strnlen_loop.simps [of m p k k])
qed

lemma strnlen_cstr: "cstr m p s \<Longrightarrow> strnlen m p k = Some (min (length s) k)"
  using strnlen_loop_cstr [of m p 0 s k] by (simp add: strnlen_def)

section \<open>Comparison and search\<close>

text \<open>The lexicographic order of byte strings as the sign \<open>strcmp\<close> returns.\<close>

fun str_order :: "u8 list \<Rightarrow> u8 list \<Rightarrow> int" where
  "str_order [] [] = 0"
| "str_order [] (y # ys) = - 1"
| "str_order (x # xs) [] = 1"
| "str_order (x # xs) (y # ys) = (if x < y then - 1 else if y < x then 1 else str_order xs ys)"

lemma str_order_0: "str_order xs ys = 0 \<longleftrightarrow> xs = ys"
  by (induction xs ys rule: str_order.induct) auto

lemma strcmp_loop_cstr:
  "cstr m a s \<Longrightarrow> cstr m b t \<Longrightarrow> strcmp_loop m a b = Some (str_order s t)"
proof (induction s t arbitrary: a b rule: str_order.induct)
  case (4 x xs y ys)
  then show ?case
    by (auto simp: strcmp_loop.simps [of m a b])
qed (auto simp: strcmp_loop.simps [of m a b for a b] word_gt_0)

lemma strcmp_cstr: "cstr m a s \<Longrightarrow> cstr m b t \<Longrightarrow> strcmp m a b = Some (str_order s t)"
  using strcmp_loop_cstr [of m a s b t] cstr_nonnull [of m a s] cstr_nonnull [of m b t]
  by (simp add: strcmp_def)

lemma memcmp_block:
  assumes "block m a xs" and "block m b ys" and "length xs = length ys"
  shows "\<exists>r. memcmp m a b (length ys) = Some r \<and> (r = 0 \<longleftrightarrow> xs = ys)"
proof -
  have "\<exists>r. memcmp_loop m a b (length ys) = Some r \<and> (r = 0 \<longleftrightarrow> xs = ys)"
    using assms(3,1,2) by (induction xs ys arbitrary: a b rule: list_induct2) auto
  moreover have "a \<noteq> 0 \<or> ys = []" and "b \<noteq> 0 \<or> ys = []"
    using assms block_null [of m xs] block_null [of m ys] by (metis length_0_conv)+
  ultimately show ?thesis
    by (auto simp: memcmp_def)
qed

lemma strstr_loop_cstr:
  assumes s: "cstr m p s" and t: "cstr m q t"
  shows "i + n + length t = Suc (length s) \<Longrightarrow>
    strstr_loop m p q (length t) i n =
    Some (case find (\<lambda>i. take (length t) (drop i s) = t) [i..<i + n] of Some j \<Rightarrow> p + j | None \<Rightarrow> 0)"
proof (induction n arbitrary: i)
  case (Suc n)
  have "block m (p + i) (take (length t) (drop i s))"
    using cstr_blockD [OF s] by (auto simp: block_nth add.assoc)
  then obtain r where r: "memcmp m (p + i) q (length t) = Some r" "r = 0 \<longleftrightarrow> take (length t) (drop i s) = t"
    using memcmp_block [of m "p + i" "take (length t) (drop i s)" q t] cstr_blockD [OF t] Suc.prems by auto
  have "[i..<i + Suc n] = i # [Suc i..<Suc i + n]"
    by (simp add: upt_conv_Cons)
  then show ?case
    using r Suc.IH [of "i + 1"] Suc.prems by (simp del: upt_Suc)
qed simp

text \<open>
  C16: \<open>strstr\<close> returns the address of the first position at which the needle occurs in the
  haystack, and a null pointer when it does not occur.
\<close>

theorem strstr_correct:
  assumes "cstr m p s" and "cstr m q t"
  shows "strstr m p q = Some (case find (\<lambda>i. take (length t) (drop i s) = t) [0..<Suc (length s) - length t]
    of Some j \<Rightarrow> p + j | None \<Rightarrow> 0)"
  using strlen_cstr [OF assms(1)] strlen_cstr [OF assms(2)]
    strstr_loop_cstr [OF assms, of 0 "Suc (length s) - length t"]
  by (cases "length t \<le> length s") (auto simp: strstr_def Suc_diff_le simp del: upt_Suc)

theorem strstr_correct_witness:
  "let m = [10 \<mapsto> 1, 11 \<mapsto> 2, 12 \<mapsto> 2, 13 \<mapsto> 0, 20 \<mapsto> 2, 21 \<mapsto> 0] in
   strstr m 10 20 = Some (case find (\<lambda>i. take (length [2 :: u8]) (drop i [1, 2, 2 :: u8]) = [2])
     [0..<Suc (length [1, 2, 2 :: u8]) - length [2 :: u8]] of Some j \<Rightarrow> 10 + j | None \<Rightarrow> 0)"
  unfolding Let_def by (rule strstr_correct) (auto simp: load_def)

section \<open>Tokens\<close>

lemma strtok_skip_cstr:
  assumes "cstr m d ds"
  shows "cstr m p s \<Longrightarrow> strtok_skip m d p =
    Some (let k = length (takeWhile (\<lambda>b. b \<in> set ds) s) in if k = length s then Inl (p + k) else Inr (p + k))"
proof (induction s arbitrary: p)
  case Nil
  then show ?case
    using strchr_found [OF assms, of 0] by (auto simp: strtok_skip.simps [of m d p])
next
  case (Cons b s)
  then show ?case
    using strchr_found [OF assms, of b] by (auto simp: strtok_skip.simps [of m d p] Let_def)
qed

lemma strtok_token_cstr:
  assumes "cstr m d ds"
  shows "cstr m p s \<Longrightarrow> strtok_token m d p = Some (p + length (takeWhile (\<lambda>b. b \<notin> set ds) s))"
proof (induction s arbitrary: p)
  case Nil
  then show ?case
    using strchr_found [OF assms, of 0] by (auto simp: strtok_token.simps [of m d p])
next
  case (Cons b s)
  then show ?case
    using strchr_found [OF assms, of b] by (auto simp: strtok_token.simps [of m d p])
qed

lemma cstr_upd_before: "q < p \<Longrightarrow> cstr (m(q \<mapsto> b)) p s = cstr m p s"
  by (simp add: cstr_def del: fun_upd_apply)

text \<open>Cutting a string at one of its bytes.\<close>

lemma cstr_cut:
  assumes "cstr m p (s @ b # t)"
  shows "cstr (m(p + length s \<mapsto> 0)) p s" and "cstr (m(p + length s \<mapsto> 0)) (p + length s + 1) t"
proof -
  have "cstr m (p + length s) (b # t)"
    using cstr_append [OF assms] .
  moreover from this have "p + length s \<noteq> 0"
    by (rule cstr_nonnull)
  ultimately show "cstr (m(p + length s \<mapsto> 0)) p s" "cstr (m(p + length s \<mapsto> 0)) (p + length s + 1) t"
    using assms by (auto simp: cstr_def block_append simp del: fun_upd_apply)
qed

text \<open>
  C11: on a string with text left, \<open>strtok_r\<close> skips the delimiters, returns a pointer to the
  next maximal delimiter-free token, terminated in place, and saves the position of the
  rest of the string; only the delimiter behind the token is overwritten.
\<close>

theorem strtok_r_correct:
  assumes s: "cstr m p s" and d: "cstr m d ds" and pre: "s = pre @ tok @ rest"
    and "set pre \<subseteq> set ds" and "tok \<noteq> []" and "set tok \<inter> set ds = {}"
    and "rest \<noteq> [] \<Longrightarrow> hd rest \<in> set ds"
  shows "\<exists>m'. strtok_r m p d save = Some (p + length pre, p + length pre + length tok + min 1 (length rest), m')
    \<and> cstr m' (p + length pre) tok \<and> cstr m' (p + length pre + length tok + min 1 (length rest)) (tl rest)
    \<and> (\<forall>a. a \<noteq> p + length pre + length tok \<longrightarrow> m' a = m a)"
proof -
  let ?t = "p + length pre" and ?e = "p + length pre + length tok"
  have k: "takeWhile (\<lambda>b. b \<in> set ds) s = pre"
    unfolding pre using assms(4-6) by (subst takeWhile_append2) (auto simp: neq_Nil_conv)
  have "cstr m ?t (tok @ rest)"
    using cstr_append [of m p pre] s pre by simp
  moreover have tw: "takeWhile (\<lambda>b. b \<notin> set ds) (tok @ rest) = tok"
    using assms(6,7) by (subst takeWhile_append2) (auto simp: neq_Nil_conv takeWhile_eq_Nil_iff)
  ultimately have tt: "strtok_token m d ?t = Some ?e"
    using strtok_token_cstr [OF d, of ?t "tok @ rest"] by simp
  have sk: "strtok_skip m d p = Some (Inr ?t)"
    using strtok_skip_cstr [OF d s] k pre assms(5) by simp
  have c: "cstr m ?t (tok @ rest)" by fact
  have nn: "p \<noteq> 0" "d \<noteq> 0"
    using cstr_nonnull [OF s] cstr_nonnull [OF d] .
  show ?thesis
  proof (cases rest)
    case Nil
    then have "load m ?e = Some 0" and "cstr m ?t tok"
      using cstr_blockD [OF c] c by simp_all
    then show ?thesis
      using Nil sk tt nn by (simp add: strtok_r_def)
  next
    case (Cons b t)
    have "load m ?e = Some b" "b \<noteq> 0"
      using cstr_append [OF c [unfolded Cons]] by simp_all
    moreover note cstr_cut [OF c [unfolded Cons]]
    ultimately show ?thesis
      using Cons sk tt nn by (simp add: strtok_r_def store_ok)
  qed
qed

theorem strtok_r_correct_witness:
  "let m = [10 \<mapsto> 32, 11 \<mapsto> 65, 12 \<mapsto> 32, 13 \<mapsto> 66, 14 \<mapsto> 0, 20 \<mapsto> 32, 21 \<mapsto> 0] in
   \<exists>m'. strtok_r m 10 20 0 = Some (10 + length [32 :: u8],
       10 + length [32 :: u8] + length [65 :: u8] + min 1 (length [32, 66 :: u8]), m')
    \<and> cstr m' (10 + length [32 :: u8]) [65]
    \<and> cstr m' (10 + length [32 :: u8] + length [65 :: u8] + min 1 (length [32, 66 :: u8])) (tl [32, 66])
    \<and> (\<forall>a. a \<noteq> 10 + length [32 :: u8] + length [65 :: u8] \<longrightarrow> m' a = m a)"
  unfolding Let_def by (rule strtok_r_correct [where s = "[32, 65, 32, 66]" and ds = "[32]"]) (auto simp: load_def)

text \<open>When only delimiters are left there is no token and the saved position is the end.\<close>

lemma strtok_r_none:
  assumes "cstr m p s" and "cstr m d ds" and "set s \<subseteq> set ds"
  shows "strtok_r m p d save = Some (0, p + length s, m)"
proof -
  have k: "takeWhile (\<lambda>b. b \<in> set ds) s = s"
    using assms(3) by (auto simp: takeWhile_eq_all_conv)
  show ?thesis
    using strtok_skip_cstr [OF assms(2,1), unfolded k Let_def] cstr_nonnull [OF assms(1)] cstr_nonnull [OF assms(2)]
    by (simp add: strtok_r_def)
qed

section \<open>Bounded copies\<close>

lemma strlcpy_patch:
  assumes s: "cstr m src s" and w: "writable m dst (min (length s) (sz - 1) + 1)" and sz: "0 < sz"
    and dj: "dst + min (length s) (sz - 1) + 1 \<le> src \<or> src + length s + 1 \<le> dst"
  shows "strlcpy m dst src sz = Some (length s, patch m dst (take (sz - 1) s @ [0]))"
proof -
  let ?n = "min (length s) (sz - 1)" and ?bs = "take (sz - 1) s"
  have b: "block m src ?bs"
    using cstr_blockD [OF s] block_append [of m src ?bs "drop (sz - 1) s"] by simp
  have w': "writable m dst (length ?bs)" "load m (dst + ?n) \<noteq> None"
    using w by (simp_all add: writable_snoc)
  have c: "memcpy m dst src ?n = Some (dst, patch m dst ?bs)"
    using memcpy_block [OF b w'(1)] dj by auto
  have d0: "dst \<noteq> 0"
    using w'(2) w by (auto simp: writable_def) 
  have "load (patch m dst ?bs) (dst + ?n) \<noteq> None"
    using w'(2) d0 by (simp add: load_patch)
  moreover have "(patch m dst ?bs)(dst + ?n \<mapsto> 0) = patch m dst (?bs @ [0])"
    by (rule ext) (auto simp: patch_def nth_append)
  moreover have "(if length s < sz - 1 then length s else sz - 1) = ?n"
    by simp
  ultimately show ?thesis
    using c strlen_cstr [OF s] sz d0 cstr_nonnull [OF s]
    by (simp add: strlcpy_def store_ok Let_def)
qed

text \<open>
  C17: for a nonzero size and a destination apart from the source, \<open>strlcpy\<close> leaves at the
  destination the source cut to \<open>sz - 1\<close> bytes and terminated, writes no byte beyond
  that terminator, and returns the length of the source.
\<close>

theorem strlcpy_correct:
  assumes "cstr m src s" and "writable m dst (min (length s) (sz - 1) + 1)" and "0 < sz"
    and "dst + min (length s) (sz - 1) + 1 \<le> src \<or> src + length s + 1 \<le> dst"
  shows "\<exists>m'. strlcpy m dst src sz = Some (length s, m') \<and> cstr m' dst (take (sz - 1) s)
    \<and> (\<forall>a. a < dst \<or> dst + sz \<le> a \<longrightarrow> m' a = m a)"
proof -
  have "dst \<noteq> 0"
    using writable_null [of m "min (length s) (sz - 1) + 1"] assms(2) by (cases "dst = 0") auto
  then have "cstr (patch m dst (take (sz - 1) s @ [0])) dst (take (sz - 1) s)"
    using cstr_blockD [OF assms(1)] block_patch [of "take (sz - 1) s @ [0]" dst m]
    by (auto simp: cstr_def dest: in_set_takeD)
  moreover have "\<forall>a. a < dst \<or> dst + sz \<le> a \<longrightarrow> patch m dst (take (sz - 1) s @ [0]) a = m a"
    using assms(3) by (auto simp: patch_def)
  ultimately show ?thesis
    using strlcpy_patch [OF assms] by blast
qed

theorem strlcpy_correct_witness:
  "let m = [10 \<mapsto> 65, 11 \<mapsto> 66, 12 \<mapsto> 0, 20 \<mapsto> 9, 21 \<mapsto> 9] in
   \<exists>m'. strlcpy m 20 10 2 = Some (length [65, 66 :: u8], m') \<and> cstr m' 20 (take (2 - 1) [65, 66])
    \<and> (\<forall>a. a < 20 \<or> 20 + 2 \<le> a \<longrightarrow> m' a = m a)"
  unfolding Let_def
proof (rule strlcpy_correct)
  let ?m = "[10 \<mapsto> 65, 11 \<mapsto> 66, 12 \<mapsto> 0, 20 \<mapsto> 9, 21 \<mapsto> 9] :: bmem"
  show "writable ?m 20 (min (length [65, 66 :: u8]) (2 - 1) + 1)"
    by (simp add: writable_Suc numeral_2_eq_2 load_def)
qed (simp_all add: load_def)

end
