(* ===== verification/Khash.thy ===== *)
theory Khash
  imports Kstring_Correct Klist_Ops
begin

text \<open>
  Hash tables, \<open>lib/kernel/hash.c\<close>.  A bucket is the sequence of the elements of its
  list (the list routines themselves are treated in the list theories).  The hash
  function \<open>hf\<close> and the comparison \<open>lt\<close> of a table are parameters of the operations, and
  the outcome \<open>ok\<close> of the allocation in \<open>rehash\<close> is an argument.
\<close>

section \<open>The operations\<close>

record 'e hash =
  elem_cnt :: nat
  bucket_cnt :: nat
  buckets :: "'e list list"

definition turn_off_least_1bit :: "nat \<Rightarrow> nat" where
  "turn_off_least_1bit x = x AND (x - 1)"

definition is_power_of_2 :: "nat \<Rightarrow> bool" where
  "is_power_of_2 x \<longleftrightarrow> x \<noteq> 0 \<and> turn_off_least_1bit x = 0"

definition bucket_idx :: "('e \<Rightarrow> u32) \<Rightarrow> nat \<Rightarrow> 'e \<Rightarrow> nat" where
  "bucket_idx hf cnt e = unat (hf e) AND (cnt - 1)"

text \<open>The bucket, as its index; an index outside the array faults.\<close>

definition find_bucket :: "('e \<Rightarrow> u32) \<Rightarrow> 'e hash \<Rightarrow> 'e \<Rightarrow> nat option" where
  "find_bucket hf h e = (let i = bucket_idx hf (bucket_cnt h) e in if i < length (buckets h) then Some i else None)"

fun find_elem :: "('e \<Rightarrow> 'e \<Rightarrow> bool) \<Rightarrow> 'e list \<Rightarrow> 'e \<Rightarrow> 'e option" where
  "find_elem lt [] e = None"
| "find_elem lt (hi # rest) e = (if \<not> lt hi e \<and> \<not> lt e hi then Some hi else find_elem lt rest e)"

definition insert_elem :: "'e hash \<Rightarrow> nat \<Rightarrow> 'e \<Rightarrow> 'e hash" where
  "insert_elem h b e = h\<lparr>elem_cnt := size_wrap (elem_cnt h + 1), buckets := (buckets h)[b := e # buckets h ! b]\<rparr>"

text \<open>Unlinking an element takes it out of the one bucket that holds it.\<close>

definition remove_elem :: "'e hash \<Rightarrow> 'e \<Rightarrow> 'e hash" where
  "remove_elem h e = h\<lparr>elem_cnt := elem_cnt h - 1, buckets := map (remove1 e) (buckets h)\<rparr>"

lemma and_pred_less: "0 < x \<Longrightarrow> x AND (x - 1) < (x :: nat)"
proof -
  assume "0 < x"
  have "int x AND int (x - 1) \<le> int (x - 1)"
    by (rule AND_upper2) simp
  then have "int (x AND (x - 1)) \<le> int (x - 1)"
    by (simp add: of_nat_and_eq)
  then show ?thesis
    using \<open>0 < x\<close> by linarith
qed

text \<open>The rounding loop of \<open>rehash\<close>; from 0 it would not end.\<close>

function round_pow2 :: "nat \<Rightarrow> nat option" where
  "round_pow2 n = (if n = 0 then None else if is_power_of_2 n then Some n else round_pow2 (turn_off_least_1bit n))"
  by pat_completeness auto
termination
  by (relation "measure id") (auto simp: turn_off_least_1bit_def intro: and_pred_less [simplified])

declare round_pow2.simps [simp del]

definition move_elem :: "('e \<Rightarrow> u32) \<Rightarrow> 'e \<Rightarrow> 'e hash \<Rightarrow> 'e hash option" where
  "move_elem hf e h = do {
     b \<leftarrow> find_bucket hf h e;
     Some (h\<lparr>buckets := (buckets h)[b := e # buckets h ! b]\<rparr>)
   }"

fun move_elems :: "('e \<Rightarrow> u32) \<Rightarrow> 'e list \<Rightarrow> 'e hash \<Rightarrow> 'e hash option" where
  "move_elems hf [] h = Some h"
| "move_elems hf (e # es) h = do { h \<leftarrow> move_elem hf e h; move_elems hf es h }"

definition rehash :: "('e \<Rightarrow> u32) \<Rightarrow> bool \<Rightarrow> 'e hash \<Rightarrow> 'e hash option" where
  "rehash hf ok h = do {
     let new_bucket_cnt = elem_cnt h div 2;
     let new_bucket_cnt = (if new_bucket_cnt < 4 then 4 else new_bucket_cnt);
     new_bucket_cnt \<leftarrow> round_pow2 new_bucket_cnt;
     if new_bucket_cnt = bucket_cnt h then Some h
     else if \<not> ok then Some h
     else move_elems hf (concat (buckets h))
            (h\<lparr>buckets := replicate new_bucket_cnt [], bucket_cnt := new_bucket_cnt\<rparr>)
   }"

text \<open>The destructor, when there is one, acts on a state \<open>s\<close> of its own.\<close>

definition hash_clear :: "('e \<Rightarrow> 's \<Rightarrow> 's) option \<Rightarrow> 'e hash \<Rightarrow> 's \<Rightarrow> 's \<times> 'e hash" where
  "hash_clear destructor h s =
     (case destructor of None \<Rightarrow> s | Some d \<Rightarrow> fold (\<lambda>bucket s. fold d bucket s) (buckets h) s,
      h\<lparr>elem_cnt := 0, buckets := map (\<lambda>_. []) (buckets h)\<rparr>)"

definition hash_destroy :: "('e \<Rightarrow> 's \<Rightarrow> 's) option \<Rightarrow> 'e hash \<Rightarrow> 's \<Rightarrow> 's" where
  "hash_destroy destructor h s = (if destructor \<noteq> None then fst (hash_clear destructor h s) else s)"

text \<open>The four buckets are allocated with whatever contents and then cleared.\<close>

definition hash_init :: "bool \<Rightarrow> 'e hash option" where
  "hash_init ok = (if ok then Some \<lparr>elem_cnt = 0, bucket_cnt = 4, buckets = replicate 4 []\<rparr> else None)"

definition hash_insert ::
    "('e \<Rightarrow> u32) \<Rightarrow> ('e \<Rightarrow> 'e \<Rightarrow> bool) \<Rightarrow> bool \<Rightarrow> 'e hash \<Rightarrow> 'e \<Rightarrow> ('e option \<times> 'e hash) option" where
  "hash_insert hf lt ok h new = do {
     b \<leftarrow> find_bucket hf h new;
     let old = find_elem lt (buckets h ! b) new;
     let h = (if old = None then insert_elem h b new else h);
     h \<leftarrow> rehash hf ok h;
     Some (old, h)
   }"

definition hash_replace ::
    "('e \<Rightarrow> u32) \<Rightarrow> ('e \<Rightarrow> 'e \<Rightarrow> bool) \<Rightarrow> bool \<Rightarrow> 'e hash \<Rightarrow> 'e \<Rightarrow> ('e option \<times> 'e hash) option" where
  "hash_replace hf lt ok h new = do {
     b \<leftarrow> find_bucket hf h new;
     let old = find_elem lt (buckets h ! b) new;
     let h = (case old of Some e \<Rightarrow> remove_elem h e | None \<Rightarrow> h);
     let h = insert_elem h b new;
     h \<leftarrow> rehash hf ok h;
     Some (old, h)
   }"

definition hash_find :: "('e \<Rightarrow> u32) \<Rightarrow> ('e \<Rightarrow> 'e \<Rightarrow> bool) \<Rightarrow> 'e hash \<Rightarrow> 'e \<Rightarrow> 'e option option" where
  "hash_find hf lt h e = do { b \<leftarrow> find_bucket hf h e; Some (find_elem lt (buckets h ! b) e) }"

definition hash_delete ::
    "('e \<Rightarrow> u32) \<Rightarrow> ('e \<Rightarrow> 'e \<Rightarrow> bool) \<Rightarrow> bool \<Rightarrow> 'e hash \<Rightarrow> 'e \<Rightarrow> ('e option \<times> 'e hash) option" where
  "hash_delete hf lt ok h e = do {
     b \<leftarrow> find_bucket hf h e;
     (case find_elem lt (buckets h ! b) e of
       None \<Rightarrow> Some (None, h)
     | Some found \<Rightarrow> do { h \<leftarrow> rehash hf ok (remove_elem h found); Some (Some found, h) })
   }"

text \<open>The elements in the order in which \<open>hash_apply\<close> hands them to its action.\<close>

definition hash_apply :: "('e \<Rightarrow> 's \<Rightarrow> 's) \<Rightarrow> 'e hash \<Rightarrow> 's \<Rightarrow> 's" where
  "hash_apply action h s = fold (\<lambda>bucket s. fold action bucket s) (buckets h) s"

definition hash_size :: "'e hash \<Rightarrow> nat" where
  "hash_size h = elem_cnt h"

definition hash_empty :: "'e hash \<Rightarrow> bool" where
  "hash_empty h \<longleftrightarrow> elem_cnt h = 0"

text \<open>
  An iterator is a bucket number and a position in its list: 0 is the head, \<open>k\<close> the
  \<open>k\<close>-th element and one more than the length the tail.
\<close>

record hash_iterator =
  it_bucket :: nat
  it_pos :: nat
  it_done :: bool

definition hash_first :: "'e hash \<Rightarrow> hash_iterator" where
  "hash_first h = \<lparr>it_bucket = 0, it_pos = 0, it_done = False\<rparr>"

text \<open>Skipping to the first nonempty bucket, \<open>n\<close> buckets being left.\<close>

fun hash_next_loop :: "'e hash \<Rightarrow> nat \<Rightarrow> nat \<Rightarrow> hash_iterator \<Rightarrow> ('e option \<times> hash_iterator) option" where
  "hash_next_loop h b 0 i = Some (None, i\<lparr>it_bucket := b, it_pos := 0, it_done := True\<rparr>)"
| "hash_next_loop h b (Suc n) i =
     (if b < length (buckets h) then
        (case buckets h ! b of
           [] \<Rightarrow> hash_next_loop h (b + 1) n i
         | e # _ \<Rightarrow> Some (Some e, i\<lparr>it_bucket := b, it_pos := 1\<rparr>))
      else None)"

definition hash_next :: "'e hash \<Rightarrow> hash_iterator \<Rightarrow> ('e option \<times> hash_iterator) option" where
  "hash_next h i = do {
     ASSERT (\<not> it_done i);
     let b = it_bucket i;
     ASSERT (b < length (buckets h));
     if it_pos i < length (buckets h ! b)
     then Some (Some (buckets h ! b ! it_pos i), i\<lparr>it_pos := it_pos i + 1\<rparr>)
     else hash_next_loop h (b + 1) (bucket_cnt h - (b + 1)) i
   }"

section \<open>The Fowler-Noll-Vo hash\<close>

definition FNV_32_PRIME :: u32 where "FNV_32_PRIME = 16777619"
definition FNV_32_BASIS :: u32 where "FNV_32_BASIS = 2166136261"

fun hash_bytes_loop :: "bmem \<Rightarrow> addr \<Rightarrow> nat \<Rightarrow> u32 \<Rightarrow> u32 option" where
  "hash_bytes_loop m buf 0 hash = Some hash"
| "hash_bytes_loop m buf (Suc n) hash = do {
     b \<leftarrow> load m buf;
     hash_bytes_loop m (buf + 1) n ((hash * FNV_32_PRIME) XOR ucast b)
   }"

definition hash_bytes :: "bmem \<Rightarrow> addr \<Rightarrow> nat \<Rightarrow> u32 option" where
  "hash_bytes m buf sz = do { ASSERT (buf \<noteq> 0); hash_bytes_loop m buf sz FNV_32_BASIS }"

partial_function (option) hash_string_loop :: "bmem \<Rightarrow> addr \<Rightarrow> u32 \<Rightarrow> u32 option" where
  "hash_string_loop m s hash = do {
     b \<leftarrow> load m s;
     if b \<noteq> 0 then hash_string_loop m (s + 1) ((hash * FNV_32_PRIME) XOR ucast b) else Some hash
   }"

definition hash_string :: "bmem \<Rightarrow> addr \<Rightarrow> u32 option" where
  "hash_string m s = do { ASSERT (s \<noteq> 0); hash_string_loop m s FNV_32_BASIS }"

text \<open>The bytes of an \<open>int\<close>, lowest first.\<close>

definition hash_int :: "u32 \<Rightarrow> u32" where
  "hash_int i = foldl (\<lambda>hash k. (hash * FNV_32_PRIME) XOR (drop_bit (8 * k) i AND 0xff)) FNV_32_BASIS [0, 1, 2, 3]"

lemma hash_bytes_loop_block:
  "block m p bs \<Longrightarrow> hash_bytes_loop m p (length bs) v = Some (foldl (\<lambda>hash b. (hash * FNV_32_PRIME) XOR ucast b) v bs)"
  by (induction bs arbitrary: p v) auto

lemma hash_string_loop_cstr:
  "cstr m p s \<Longrightarrow> hash_string_loop m p v = Some (foldl (\<lambda>hash b. (hash * FNV_32_PRIME) XOR ucast b) v s)"
proof (induction s arbitrary: p v)
  case Nil
  then show ?case by (simp add: hash_string_loop.simps [of m p])
next
  case (Cons b s)
  then show ?case by (simp add: hash_string_loop.simps [of m p])
qed

text \<open>
  The hash of a string is the hash of its bytes without the terminator.
\<close>

theorem hash_string_bytes:
  assumes "cstr m p s"
  shows "hash_string m p = hash_bytes m p (length s) \<and> hash_string m p \<noteq> None"
  using hash_string_loop_cstr [OF assms] hash_bytes_loop_block cstr_blockD [OF assms] cstr_nonnull [OF assms]
  by (simp add: hash_string_def hash_bytes_def)

theorem hash_string_bytes_witness:
  "let m = [10 \<mapsto> 65, 11 \<mapsto> 66, 12 \<mapsto> 0] in
   hash_string m 10 = hash_bytes m 10 (length [65, 66 :: u8]) \<and> hash_string m 10 \<noteq> None"
  unfolding Let_def by (rule hash_string_bytes) (simp add: load_def)

section \<open>Powers of two\<close>

lemma drop_bit_and_pred:
  assumes "2 ^ k < x" and "x < 2 ^ (k + 1)"
  shows "2 ^ k \<le> x AND (x - 1)" and "x AND (x - 1) < (x :: nat)"
proof -
  have 1: "drop_bit k x = 1" "drop_bit k (x - 1) = 1"
    using assms by (auto simp: drop_bit_eq_div div_nat_eqI)
  have "drop_bit k (x AND (x - 1)) = 1"
    by (simp only: drop_bit_and 1 and.idem)
  then show "2 ^ k \<le> x AND (x - 1)"
    by (metis drop_bit_eq_div div_less not_less zero_neq_one)
  show "x AND (x - 1) < x"
    using assms(1) by (intro and_pred_less) simp
qed

text \<open>The rounding loop ends with the largest power of two not above its argument.\<close>

lemma round_pow2_eq: "2 ^ k \<le> x \<Longrightarrow> x < 2 ^ (k + 1) \<Longrightarrow> round_pow2 x = Some (2 ^ k)"
proof (induction x rule: less_induct)
  case (less x)
  have pos: "0 < x"
    using less.prems(1) by (cases "x = 0") auto
  show ?case
  proof (cases "x = 2 ^ k")
    case True
    have "x AND (x - 1) = 0"
      unfolding True mask_eq_exp_minus_1 [symmetric] take_bit_eq_mask [symmetric] by simp
    then show ?thesis
      using True by (simp add: round_pow2.simps [of "2 ^ k"] is_power_of_2_def turn_off_least_1bit_def)
  next
    case False
    then have lt: "2 ^ k < x"
      using less.prems(1) by simp
    note a = drop_bit_and_pred [OF lt less.prems(2)]
    have "\<not> is_power_of_2 x"
      using a(1) by (auto simp: is_power_of_2_def turn_off_least_1bit_def)
    then show ?thesis
      using pos less.IH [OF a(2,1)] a(2) less.prems(2)
      by (simp add: round_pow2.simps [of x] turn_off_least_1bit_def)
  qed
qed

lemma round_pow2_cases:
  assumes "4 \<le> x"
  obtains k where "round_pow2 x = Some (2 ^ k)" and "2 \<le> k" and "2 ^ k \<le> x"
proof -
  obtain k where k: "2 ^ k \<le> x" "x < 2 ^ (k + 1)"
    using ex_power_ivl1 [of 2 x] assms by auto
  moreover have "2 \<le> k"
  proof (rule ccontr)
    assume "\<not> 2 \<le> k"
    then have "(2 :: nat) ^ (k + 1) \<le> 2 ^ 2"
      by (intro power_increasing) auto
    then show False
      using k(2) assms by simp
  qed
  ultimately show thesis
    using that round_pow2_eq by blast
qed

lemma bucket_idx_less: "bucket_idx hf (2 ^ k) e < 2 ^ k"
  unfolding bucket_idx_def mask_eq_exp_minus_1 [symmetric] take_bit_eq_mask [symmetric]
  by (rule take_bit_nat_less_exp)

section \<open>The invariant and the contents of a table\<close>

definition contents :: "'e hash \<Rightarrow> 'e set" where
  "contents h = set (concat (buckets h))"

text \<open>Every element lies in its bucket, and the count is the number of elements.\<close>

definition wf_hash :: "('e \<Rightarrow> u32) \<Rightarrow> 'e hash \<Rightarrow> bool" where
  "wf_hash hf h \<longleftrightarrow> (\<exists>k \<ge> 2. bucket_cnt h = 2 ^ k) \<and> length (buckets h) = bucket_cnt h
     \<and> (\<forall>i < bucket_cnt h. \<forall>e \<in> set (buckets h ! i). bucket_idx hf (bucket_cnt h) e = i)
     \<and> elem_cnt h = length (concat (buckets h)) \<and> distinct (concat (buckets h)) \<and> elem_cnt h < 2 ^ 32"

lemma contents_iff: "e \<in> contents h \<longleftrightarrow> (\<exists>i < length (buckets h). e \<in> set (buckets h ! i))"
  by (simp add: contents_def) (metis in_set_conv_nth)

lemma wf_hash_bucket:
  assumes "wf_hash hf h"
  shows "find_bucket hf h e = Some (bucket_idx hf (bucket_cnt h) e)"
    and "bucket_idx hf (bucket_cnt h) e < length (buckets h)"
  using assms bucket_idx_less [of hf _ e] by (auto simp: wf_hash_def find_bucket_def Let_def)

lemma in_contents_bucket:
  assumes "wf_hash hf h"
  shows "e \<in> contents h \<longleftrightarrow> e \<in> set (buckets h ! bucket_idx hf (bucket_cnt h) e)"
  using assms wf_hash_bucket(2) [OF assms, of e] unfolding contents_iff wf_hash_def by metis

end
