(* ===== verification/Khash_Correct.thy ===== *)
theory Khash_Correct
  imports Khash
begin

text \<open>
  Correctness of the hash tables.  Rehashing, with or without success of its allocation,
  keeps the elements; the contract of a table over a comparison and a compatible hash
  function is a locale, in which the operations are shown to maintain a set with one
  element of each equivalence class.
\<close>

section \<open>Buckets\<close>

lemma mset_concat_update:
  "b < length xs \<Longrightarrow> mset (concat (xs[b := e # xs ! b])) = add_mset e (mset (concat xs))"
  by (induction xs arbitrary: b) (auto split: nat.splits)

lemma mset_concat_remove1:
  assumes "distinct (concat xs)" and "e \<in> set (concat xs)"
  shows "mset (concat (map (remove1 e) xs)) = mset (concat xs) - {#e#}"
  using assms
proof (induction xs)
  case (Cons x xs)
  show ?case
  proof (cases "e \<in> set x")
    case True
    then have "e \<notin> set (concat xs)"
      using Cons.prems(1) by auto
    then have "map (remove1 e) xs = xs"
      by (auto intro!: map_idI simp: remove1_idem)
    then show ?thesis
      using True by simp
  next
    case False
    then have e: "e \<in> set (concat xs)" and d: "distinct (concat xs)"
      using Cons.prems by auto
    have "mset (concat (map (remove1 e) (x # xs))) = mset x + mset (concat (map (remove1 e) xs))"
      using False by (simp only: list.map concat.simps mset_append remove1_idem simp_thms)
    also have "\<dots> = mset x + (mset (concat xs) - {#e#})"
      by (simp only: Cons.IH [OF d e])
    also have "\<dots> = mset x + mset (concat xs) - {#e#}"
      using e by (intro diff_union_single_conv [symmetric]) (simp only: set_mset_mset)
    finally show ?thesis
      by (simp only: concat.simps mset_append)
  qed
qed simp

lemma wf_hash_mset:
  assumes "mset (concat (buckets h')) = mset (concat (buckets h))"
  shows "contents h' = contents h" and "length (concat (buckets h')) = length (concat (buckets h))"
    and "distinct (concat (buckets h')) = distinct (concat (buckets h))"
  using assms mset_eq_setD mset_eq_length mset_eq_imp_distinct_iff unfolding contents_def by blast+

text \<open>The part of the invariant that concerns the places of the elements.\<close>

definition placed :: "('e \<Rightarrow> u32) \<Rightarrow> 'e hash \<Rightarrow> bool" where
  "placed hf h \<longleftrightarrow> (\<exists>k \<ge> 2. bucket_cnt h = 2 ^ k) \<and> length (buckets h) = bucket_cnt h
     \<and> (\<forall>i < bucket_cnt h. \<forall>e \<in> set (buckets h ! i). bucket_idx hf (bucket_cnt h) e = i)"

lemma wf_hash_placed:
  "wf_hash hf h \<longleftrightarrow> placed hf h \<and> elem_cnt h = length (concat (buckets h)) \<and> distinct (concat (buckets h)) \<and> elem_cnt h < 2 ^ 32"
  by (auto simp: wf_hash_def placed_def)

lemma placed_bucket:
  assumes "placed hf h"
  shows "find_bucket hf h e = Some (bucket_idx hf (bucket_cnt h) e)" and "bucket_idx hf (bucket_cnt h) e < length (buckets h)"
  using assms bucket_idx_less [of hf _ e] by (auto simp: placed_def find_bucket_def Let_def)

lemma placed_insert:
  assumes "placed hf h"
  shows "placed hf (h\<lparr>buckets := (buckets h)[bucket_idx hf (bucket_cnt h) e := e # buckets h ! bucket_idx hf (bucket_cnt h) e]\<rparr>)"
  using assms placed_bucket(2) [OF assms, of e] unfolding placed_def by (auto simp: nth_list_update)

lemma placed_mono:
  assumes "placed hf h" and "bucket_cnt h' = bucket_cnt h" and "length (buckets h') = length (buckets h)"
    and sub: "\<And>i. i < length (buckets h) \<Longrightarrow> set (buckets h' ! i) \<subseteq> set (buckets h ! i)"
  shows "placed hf h'"
proof -
  have "bucket_idx hf (bucket_cnt h') e = i" if "i < bucket_cnt h'" and "e \<in> set (buckets h' ! i)" for i e
  proof -
    have "e \<in> set (buckets h ! i)"
      using sub [of i] that assms(1,2) by (auto simp: placed_def)
    then show ?thesis
      using that(1) assms(1,2) by (simp add: placed_def)
  qed
  then show ?thesis
    using assms(1-3) by (simp add: placed_def)
qed

lemma move_elems_placed:
  "placed hf h \<Longrightarrow> \<exists>h'. move_elems hf es h = Some h' \<and> placed hf h' \<and> elem_cnt h' = elem_cnt h
     \<and> mset (concat (buckets h')) = mset es + mset (concat (buckets h))"
proof (induction es arbitrary: h)
  case (Cons e es)
  let ?b = "bucket_idx hf (bucket_cnt h) e"
  let ?h = "h\<lparr>buckets := (buckets h)[?b := e # buckets h ! ?b]\<rparr>"
  have "move_elem hf e h = Some ?h"
    using placed_bucket [OF Cons.prems, of e] by (simp add: move_elem_def)
  moreover obtain h' where "move_elems hf es ?h = Some h'" "placed hf h'" "elem_cnt h' = elem_cnt ?h"
      "mset (concat (buckets h')) = mset es + mset (concat (buckets ?h))"
    using Cons.IH [OF placed_insert [OF Cons.prems]] by blast
  ultimately show ?case
    using mset_concat_update [OF placed_bucket(2) [OF Cons.prems, of e], of e] by simp
qed simp

lemma rehash_wf:
  assumes wf: "wf_hash hf h"
  shows "\<exists>h'. rehash hf ok h = Some h' \<and> wf_hash hf h' \<and> mset (concat (buckets h')) = mset (concat (buckets h))
    \<and> elem_cnt h' = elem_cnt h"
proof -
  let ?n = "if elem_cnt h div 2 < 4 then 4 else elem_cnt h div 2"
  obtain k where k: "round_pow2 ?n = Some (2 ^ k)" "2 \<le> k"
    by (rule round_pow2_cases [of ?n]) auto
  show ?thesis
  proof (cases "2 ^ k = bucket_cnt h \<or> \<not> ok")
    case True
    then show ?thesis
      using k(1) wf by (auto simp: rehash_def Let_def)
  next
    case False
    let ?h = "h\<lparr>buckets := replicate (2 ^ k) [], bucket_cnt := 2 ^ k\<rparr>"
    have "placed hf ?h"
      using k(2) by (auto simp: placed_def)
    then obtain h' where h': "move_elems hf (concat (buckets h)) ?h = Some h'" "placed hf h'" "elem_cnt h' = elem_cnt h"
        "mset (concat (buckets h')) = mset (concat (buckets h))"
      using move_elems_placed [of hf ?h "concat (buckets h)"] by auto
    moreover have "rehash hf ok h = Some h'"
      using False k(1) h'(1) by (simp add: rehash_def Let_def)
    moreover have "wf_hash hf h'"
      using wf h'(2,3) wf_hash_mset [OF h'(4)] by (simp add: wf_hash_placed)
    ultimately show ?thesis by blast
  qed
qed

section \<open>The contract of a table\<close>

locale hash_table =
  fixes hf :: "'e \<Rightarrow> u32" and lt :: "'e \<Rightarrow> 'e \<Rightarrow> bool"
  assumes weak: "weak_order lt"
    and compat: "\<not> lt a b \<Longrightarrow> \<not> lt b a \<Longrightarrow> hf a = hf b"
begin

definition same :: "'e \<Rightarrow> 'e \<Rightarrow> bool" where
  "same a b \<longleftrightarrow> \<not> lt a b \<and> \<not> lt b a"

definition inv :: "'e hash \<Rightarrow> bool" where
  "inv h \<longleftrightarrow> wf_hash hf h \<and> (\<forall>a \<in> contents h. \<forall>b \<in> contents h. same a b \<longrightarrow> a = b)"

lemma same_refl [simp]: "same a a"
  using weak_order_asym [OF weak, of a a] by (auto simp: same_def)

lemma same_sym: "same a b \<Longrightarrow> same b a"
  by (simp add: same_def)

lemma same_trans: "same a b \<Longrightarrow> same b c \<Longrightarrow> same a c"
  using weak_order_trans [OF weak, of a b c] weak_order_trans [OF weak, of c b a] by (simp add: same_def)

lemma same_bucket: "same a b \<Longrightarrow> bucket_idx hf n a = bucket_idx hf n b"
  using compat [of a b] by (simp add: same_def bucket_idx_def)

lemma find_elem_same:
  "find_elem lt xs e = Some x \<Longrightarrow> x \<in> set xs \<and> same x e"
  "find_elem lt xs e = None \<Longrightarrow> y \<in> set xs \<Longrightarrow> \<not> same y e"
  by (induction xs) (auto simp: same_def split: if_splits)

lemma find_contents:
  fixes e :: 'e
  assumes wf: "wf_hash hf h"
  defines "r \<equiv> find_elem lt (buckets h ! bucket_idx hf (bucket_cnt h) e) e"
  shows "r = Some x \<Longrightarrow> x \<in> contents h \<and> same x e" and "r = None \<Longrightarrow> y \<in> contents h \<Longrightarrow> \<not> same y e"
proof -
  show "x \<in> contents h \<and> same x e" if "r = Some x"
  proof -
    have "x \<in> set (buckets h ! bucket_idx hf (bucket_cnt h) e)" and "same x e"
      using find_elem_same(1) that unfolding r_def by blast+
    then show ?thesis
      using wf_hash_bucket(2) [OF wf, of e] by (auto simp: contents_iff)
  qed
  show "\<not> same y e" if n: "r = None" and y: "y \<in> contents h"
  proof
    assume s: "same y e"
    then have "y \<in> set (buckets h ! bucket_idx hf (bucket_cnt h) e)"
      using y in_contents_bucket [OF wf, of y] same_bucket [OF s] by simp
    then show False
      using find_elem_same(2) n s unfolding r_def by blast
  qed
qed

lemma hash_find_inv:
  assumes "inv h"
  shows "\<exists>r. hash_find hf lt h e = Some r \<and> (\<forall>x. r = Some x \<longleftrightarrow> x \<in> contents h \<and> same x e)"
proof -
  have wf: "wf_hash hf h" and u: "\<And>a b. a \<in> contents h \<Longrightarrow> b \<in> contents h \<Longrightarrow> same a b \<Longrightarrow> a = b"
    using assms by (auto simp: inv_def)
  let ?r = "find_elem lt (buckets h ! bucket_idx hf (bucket_cnt h) e) e"
  have "\<forall>x. ?r = Some x \<longleftrightarrow> x \<in> contents h \<and> same x e"
  proof (cases ?r)
    case None
    then show ?thesis
      using find_contents(2) [OF wf None] by auto
  next
    case (Some y)
    then have y: "y \<in> contents h" "same y e"
      using find_contents(1) [OF wf Some] by auto
    have "x = y" if "x \<in> contents h" "same x e" for x
      using u [OF that(1) y(1)] same_trans [OF that(2) same_sym [OF y(2)]] .
    then show ?thesis
      unfolding Some option.inject using y by blast
  qed
  then show ?thesis
    using wf_hash_bucket(1) [OF wf, of e] by (simp add: hash_find_def)
qed

lemma insert_elem_wf:
  assumes wf: "wf_hash hf h" and new: "e \<notin> contents h" and room: "elem_cnt h + 1 < 2 ^ 32"
  defines "h' \<equiv> insert_elem h (bucket_idx hf (bucket_cnt h) e) e"
  shows "wf_hash hf h'" and "contents h' = insert e (contents h)" and "elem_cnt h' = elem_cnt h + 1"
proof -
  let ?b = "bucket_idx hf (bucket_cnt h) e"
  have m: "mset (concat (buckets h')) = add_mset e (mset (concat (buckets h)))"
    using mset_concat_update [OF wf_hash_bucket(2) [OF wf, of e]] by (simp add: h'_def insert_elem_def)
  then show c: "contents h' = insert e (contents h)"
    unfolding contents_def by (metis set_mset_add_mset_insert set_mset_mset)
  show n: "elem_cnt h' = elem_cnt h + 1"
    using room by (simp add: h'_def insert_elem_def)
  have "length (concat (buckets h')) = length (concat (buckets h)) + 1"
    using m by (metis size_add_mset size_mset Suc_eq_plus1)
  moreover have "distinct (concat (buckets h'))"
  proof -
    have "distinct (e # concat (buckets h))"
      using wf new by (simp add: wf_hash_def contents_def)
    moreover have "mset (concat (buckets h')) = mset (e # concat (buckets h))"
      using m by simp
    ultimately show ?thesis
      using mset_eq_imp_distinct_iff by blast
  qed
  moreover have "placed hf h'"
    by (rule placed_mono [OF placed_insert [of hf h e]]) (use wf in \<open>simp_all add: wf_hash_placed h'_def insert_elem_def\<close>)
  ultimately show "wf_hash hf h'"
    using wf n room by (simp add: wf_hash_placed)
qed

lemma remove_elem_wf:
  assumes wf: "wf_hash hf h" and old: "e \<in> contents h"
  shows "wf_hash hf (remove_elem h e)" and "contents (remove_elem h e) = contents h - {e}"
    and "elem_cnt (remove_elem h e) + 1 = elem_cnt h"
proof -
  let ?h = "remove_elem h e"
  have d: "distinct (concat (buckets h))" "elem_cnt h = length (concat (buckets h))"
    using wf by (simp_all add: wf_hash_def)
  have m: "mset (concat (buckets ?h)) = mset (concat (buckets h)) - {#e#}"
    using mset_concat_remove1 [OF d(1)] old by (simp add: remove_elem_def contents_def)
  also have "\<dots> = mset (remove1 e (concat (buckets h)))"
    by simp
  finally have r: "mset (concat (buckets ?h)) = mset (remove1 e (concat (buckets h)))" .
  show "contents ?h = contents h - {e}"
    using mset_eq_setD [OF r] d(1) by (simp add: contents_def)
  have len: "length (concat (buckets ?h)) + 1 = length (concat (buckets h))"
    using mset_eq_length [OF r] old length_pos_if_in_set [of e "concat (buckets h)"]
    by (simp add: length_remove1 contents_def)
  then show "elem_cnt ?h + 1 = elem_cnt h"
    using d(2) by (simp add: remove_elem_def)
  have "placed hf ?h"
    by (rule placed_mono [of hf h]) (use wf in \<open>simp_all add: wf_hash_placed remove_elem_def set_remove1_subset\<close>)
  moreover have "distinct (concat (buckets ?h))"
    using mset_eq_imp_distinct_iff [OF r] d(1) by simp
  ultimately show "wf_hash hf ?h"
    using wf len by (auto simp: wf_hash_placed remove_elem_def)
qed

lemma rehash_inv:
  assumes "inv h"
  shows "\<exists>h'. rehash hf ok h = Some h' \<and> inv h' \<and> contents h' = contents h \<and> elem_cnt h' = elem_cnt h"
proof -
  obtain h' where h': "rehash hf ok h = Some h'" "wf_hash hf h'" "mset (concat (buckets h')) = mset (concat (buckets h))"
      "elem_cnt h' = elem_cnt h"
    using rehash_wf [of hf h ok] assms unfolding inv_def by blast
  then show ?thesis
    using wf_hash_mset(1) [OF h'(3)] assms by (simp add: inv_def)
qed

lemma hash_insert_inv:
  assumes "inv h" and room: "elem_cnt h + 1 < 2 ^ 32"
  shows "\<exists>old h'. hash_insert hf lt ok h e = Some (old, h') \<and> inv h' \<and>
    (case old of Some x \<Rightarrow> x \<in> contents h \<and> same x e \<and> contents h' = contents h
     | None \<Rightarrow> (\<forall>x \<in> contents h. \<not> same x e) \<and> contents h' = insert e (contents h))"
proof -
  let ?b = "bucket_idx hf (bucket_cnt h) e"
  have wf: "wf_hash hf h"
    using assms(1) by (simp add: inv_def)
  show ?thesis
  proof (cases "find_elem lt (buckets h ! ?b) e")
    case None
    then have no: "\<forall>x \<in> contents h. \<not> same x e"
      using find_contents(2) [OF wf] by blast
    then have new: "e \<notin> contents h"
      by auto
    note i = insert_elem_wf [OF wf new room]
    have "inv (insert_elem h ?b e)"
      using assms(1) i(1,2) no same_sym by (auto simp: inv_def)
    then obtain h' where "rehash hf ok (insert_elem h ?b e) = Some h'" "inv h'"
        "contents h' = contents (insert_elem h ?b e)"
      using rehash_inv [of _ ok] by blast
    then show ?thesis
      using None no i(2) wf_hash_bucket(1) [OF wf, of e] by (simp add: hash_insert_def Let_def)
  next
    case (Some x)
    then have x: "x \<in> contents h" "same x e"
      using find_contents(1) [OF wf Some] by auto
    obtain h' where "rehash hf ok h = Some h'" "inv h'" "contents h' = contents h"
      using rehash_inv [OF assms(1), of ok] by blast
    then show ?thesis
      using Some x wf_hash_bucket(1) [OF wf, of e] by (simp add: hash_insert_def Let_def)
  qed
qed

lemma hash_delete_inv:
  assumes "inv h"
  shows "\<exists>old h'. hash_delete hf lt ok h e = Some (old, h') \<and> inv h' \<and>
    (case old of Some x \<Rightarrow> x \<in> contents h \<and> same x e \<and> contents h' = contents h - {x}
     | None \<Rightarrow> (\<forall>x \<in> contents h. \<not> same x e) \<and> h' = h)"
proof -
  let ?b = "bucket_idx hf (bucket_cnt h) e"
  have wf: "wf_hash hf h"
    using assms by (simp add: inv_def)
  show ?thesis
  proof (cases "find_elem lt (buckets h ! ?b) e")
    case None
    then show ?thesis
      using find_contents(2) [OF wf] assms wf_hash_bucket(1) [OF wf, of e] by (auto simp: hash_delete_def)
  next
    case (Some x)
    then have x: "x \<in> contents h" "same x e"
      using find_contents(1) [OF wf Some] by auto
    note r = remove_elem_wf [OF wf x(1)]
    have "inv (remove_elem h x)"
      using assms r(1,2) by (simp add: inv_def)
    then obtain h' where "rehash hf ok (remove_elem h x) = Some h'" "inv h'" "contents h' = contents (remove_elem h x)"
      using rehash_inv [of _ ok] by blast
    then show ?thesis
      using Some x r(2) wf_hash_bucket(1) [OF wf, of e] by (simp add: hash_delete_def)
  qed
qed

lemma hash_replace_inv:
  assumes "inv h" and room: "elem_cnt h + 1 < 2 ^ 32" and "e \<notin> contents h"
  shows "\<exists>old h'. hash_replace hf lt ok h e = Some (old, h') \<and> inv h' \<and>
    contents h' = insert e {x \<in> contents h. \<not> same x e} \<and>
    (\<forall>x. old = Some x \<longleftrightarrow> x \<in> contents h \<and> same x e)"
proof -
  let ?b = "bucket_idx hf (bucket_cnt h) e"
  let ?old = "find_elem lt (buckets h ! ?b) e"
  have wf: "wf_hash hf h" and u: "\<And>a b. a \<in> contents h \<Longrightarrow> b \<in> contents h \<Longrightarrow> same a b \<Longrightarrow> a = b"
    using assms(1) by (auto simp: inv_def)
  define h1 where "h1 = (case ?old of Some x \<Rightarrow> remove_elem h x | None \<Rightarrow> h)"
  have old: "\<forall>x. ?old = Some x \<longleftrightarrow> x \<in> contents h \<and> same x e"
    using hash_find_inv [OF assms(1), of e] wf_hash_bucket(1) [OF wf, of e] by (simp add: hash_find_def)
  have h1: "wf_hash hf h1 \<and> contents h1 = {x \<in> contents h. \<not> same x e} \<and> elem_cnt h1 \<le> elem_cnt h \<and> bucket_cnt h1 = bucket_cnt h"
  proof (cases ?old)
    case None
    then show ?thesis
      using old wf by (auto simp: h1_def)
  next
    case (Some x)
    then have x: "x \<in> contents h" "same x e"
      using old by auto
    have only: "y = x" if "y \<in> contents h" "same y e" for y
      using u [OF that(1) x(1)] same_trans [OF that(2) same_sym [OF x(2)]] .
    have eq: "h1 = remove_elem h x" "bucket_cnt h1 = bucket_cnt h"
      using Some by (simp_all add: h1_def remove_elem_def)
    have "contents h - {x} = {x \<in> contents h. \<not> same x e}"
      using only x by blast
    then show ?thesis
      using remove_elem_wf [OF wf x(1)] eq by simp
  qed
  have w1: "wf_hash hf h1" and c1: "contents h1 = {x \<in> contents h. \<not> same x e}"
    and n1: "elem_cnt h1 + 1 < 2 ^ 32" and b1: "bucket_cnt h1 = bucket_cnt h"
    using h1 room by auto
  have "e \<notin> contents h1"
    using c1 assms(3) by simp
  note i = insert_elem_wf [OF w1 this n1, unfolded b1]
  have c: "contents (insert_elem h1 ?b e) = insert e {x \<in> contents h. \<not> same x e}"
    using i(2) c1 by simp
  have "inv (insert_elem h1 ?b e)"
    unfolding inv_def c
  proof (intro conjI ballI impI i(1))
    fix a b assume a: "a \<in> insert e {x \<in> contents h. \<not> same x e}" and b: "b \<in> insert e {x \<in> contents h. \<not> same x e}"
      and s: "same a b"
    show "a = b"
    proof (cases "a = e \<or> b = e")
      case True
      then show ?thesis
        using a b s same_sym [OF s] by blast
    next
      case False
      then show ?thesis
        using a b u [OF _ _ s] by blast
    qed
  qed
  then obtain h' where "rehash hf ok (insert_elem h1 ?b e) = Some h'" "inv h'"
      "contents h' = insert e {x \<in> contents h. \<not> same x e}"
    using rehash_inv [of _ ok] c by blast
  then show ?thesis
    using old wf_hash_bucket(1) [OF wf, of e] unfolding hash_replace_def h1_def by (simp add: Let_def)
qed

end

end
