(* ===== verification/Fixed_Point.thy ===== *)
theory Fixed_Point
  imports Arith64
begin

text \<open>
  The 17.14 fixed-point numbers of \<open>lib/kernel/arith_fp.c\<close>, which the feedback-queue
  scheduler computes with.  An \<open>int\<close> is a 32-bit word read with \<open>sint\<close>; sums and products
  wrap, the quotients truncate towards zero, and a zero divisor traps.
\<close>

type_synonym i32 = "32 word"
type_synonym i64 = "64 word"

section \<open>The operations\<close>

definition NUM_1 :: int where
  "NUM_1 = 2 ^ 14"

definition int_to_FP :: "i32 \<Rightarrow> i32" where
  "int_to_FP integer = integer * word_of_int NUM_1"

definition FP_to_int :: "i32 \<Rightarrow> i32" where
  "FP_to_int decimal = word_of_int (sint decimal sdiv NUM_1)"

definition FP_to_int_round_off :: "i32 \<Rightarrow> i32" where
  "FP_to_int_round_off decimal =
     (if 0 \<le> sint decimal
      then word_of_int (sint (decimal + word_of_int (NUM_1 div 2)) sdiv NUM_1)
      else word_of_int (sint (decimal - word_of_int (NUM_1 div 2)) sdiv NUM_1))"

definition add_FP_to_FP :: "i32 \<Rightarrow> i32 \<Rightarrow> i32" where
  "add_FP_to_FP dec_a dec_b = dec_a + dec_b"

definition mul_FP_to_FP :: "i32 \<Rightarrow> i32 \<Rightarrow> i32" where
  "mul_FP_to_FP dec_a dec_b = word_of_int ((sint dec_a * sint dec_b) sdiv NUM_1)"

definition sub_FP_to_FP :: "i32 \<Rightarrow> i32 \<Rightarrow> i32" where
  "sub_FP_to_FP dec_a dec_b = dec_a - dec_b"

text \<open>The 64-bit division is the library call of the support routines.\<close>

definition div_FP_to_FP :: "i32 \<Rightarrow> i32 \<Rightarrow> i32 option" where
  "div_FP_to_FP dec_a dec_b = do {
     q \<leftarrow> divdi3 (word_of_int (sint dec_a * NUM_1)) (word_of_int (sint dec_b));
     Some (ucast q)
   }"

section \<open>The operations as integer arithmetic\<close>

definition in_int :: "int \<Rightarrow> bool" where
  "in_int i \<longleftrightarrow> - (2 ^ 31) \<le> i \<and> i < 2 ^ 31"

lemma sint_in_int [simp]: "in_int (sint (w :: i32))"
  using sint_range_size [of w] by (simp add: in_int_def word_size)

lemma sint_range_i32: "- 2147483648 \<le> sint (w :: i32)" "sint (w :: i32) < 2147483648"
  using sint_in_int [of w] by (simp_all add: in_int_def)

lemma sint_of_int_i32 [simp]: "in_int i \<Longrightarrow> sint (word_of_int i :: i32) = i"
  by (simp add: in_int_def signed_of_int signed_take_bit_int_eq_self_iff)

lemma sint_plus_i32: "in_int (sint a + sint b) \<Longrightarrow> sint (a + b :: i32) = sint a + sint b"
  using sint_of_int_i32 [of "sint a + sint b"] by simp

lemma sint_minus_i32: "in_int (sint a - sint b) \<Longrightarrow> sint (a - b :: i32) = sint a - sint b"
  using sint_of_int_i32 [of "sint a - sint b"] by simp

lemma sint_times_i32: "in_int (sint a * sint b) \<Longrightarrow> sint (a * b :: i32) = sint a * sint b"
  using sint_of_int_i32 [of "sint a * sint b"] by simp

lemma sdiv_nonneg: "0 \<le> (a :: int) \<Longrightarrow> 0 < b \<Longrightarrow> a sdiv b = a div b"
  by (auto simp: signed_divide_int_def sgn_if)

lemma sdiv_neg: "a < (0 :: int) \<Longrightarrow> 0 < b \<Longrightarrow> a sdiv b = - ((- a) div b)"
  by (auto simp: signed_divide_int_def sgn_if)

lemma sint_int_to_FP: "in_int (sint i * 16384) \<Longrightarrow> sint (int_to_FP i) = sint i * 16384"
  unfolding int_to_FP_def NUM_1_def using sint_times_i32 [of i "word_of_int (2 ^ 14)"]
  by (simp add: in_int_def)

lemma sint_mul_FP: "in_int ((sint a * sint b) sdiv 16384) \<Longrightarrow> sint (mul_FP_to_FP a b) = (sint a * sint b) sdiv 16384"
  unfolding mul_FP_to_FP_def NUM_1_def by simp

lemma sdiv_abs_le: "\<bar>a sdiv b\<bar> \<le> \<bar>a :: int\<bar>"
proof (cases "b = 0")
  case False
  have "\<bar>a\<bar> div \<bar>b\<bar> \<le> \<bar>a\<bar>" "0 \<le> \<bar>a\<bar> div \<bar>b\<bar>"
    using False zdiv_mono2 [of "\<bar>a\<bar>" 1 "\<bar>b\<bar>"] by (simp_all add: pos_imp_zdiv_nonneg_iff)
  then show ?thesis
    by (auto simp: signed_divide_int_def sgn_if)
qed (simp add: signed_divide_int_def)

lemma div_FP_total:
  assumes "b \<noteq> 0"
  shows "div_FP_to_FP a b = Some (word_of_int ((sint a * 16384) sdiv sint b))"
proof -
  have s: "sint (word_of_int (sint a * NUM_1) :: u64) = sint a * NUM_1" "sint (word_of_int (sint b) :: u64) = sint b"
    using sint_range_i32 [of a] sint_range_i32 [of b] by (intro int_word_sint_range; simp add: NUM_1_def)+
  then have "(word_of_int (sint b) :: u64) \<noteq> 0"
    using assms by (metis signed_0 signed_word_eqI)
  then have "divdi3 (word_of_int (sint a * NUM_1)) (word_of_int (sint b)) = Some (word_of_int ((sint a * NUM_1) sdiv sint b))"
    unfolding divdi3_def using s by (simp only: sdiv64_eq not_False_eq_True)
  then show ?thesis
    by (simp add: div_FP_to_FP_def ucast_word_of_int_u32 NUM_1_def)
qed

lemma sint_div_FP:
  assumes "0 < sint b" and "0 \<le> sint a" and "sint a \<le> sint b"
  shows "\<exists>q. div_FP_to_FP a b = Some q \<and> sint q = (sint a * 16384) div sint b"
proof -
  have "b \<noteq> 0"
    using assms(1) by auto
  moreover have "in_int ((sint a * 16384) div sint b)"
  proof -
    have "0 \<le> (sint a * 16384) div sint b"
      using assms by (simp add: pos_imp_zdiv_nonneg_iff)
    moreover have "(sint a * 16384) div sint b \<le> (sint b * 16384) div sint b"
      using assms by (intro zdiv_mono1) simp_all
    ultimately show ?thesis
      using assms(1) by (simp add: in_int_def)
  qed
  ultimately show ?thesis
    using assms by (simp add: div_FP_total sdiv_nonneg)
qed

lemma round_off_nonneg:
  assumes "0 \<le> sint d" and "sint d < 2 ^ 31 - 8192"
  shows "sint (FP_to_int_round_off d) = (sint d + 8192) div 16384"
proof -
  have s: "sint (d + 8192) = sint d + 8192"
    using assms sint_plus_i32 [of d 8192] by (simp add: in_int_def)
  have "in_int ((sint d + 8192) div 16384)"
    using assms by (auto simp: in_int_def)
  then show ?thesis
    using assms s by (simp add: FP_to_int_round_off_def NUM_1_def sdiv_nonneg)
qed

lemma round_off_neg:
  assumes "sint d < 0" and "- (2 ^ 31) + 8192 \<le> sint d"
  shows "sint (FP_to_int_round_off d) = - ((8192 - sint d) div 16384)"
proof -
  have s: "sint (d - 8192) = sint d - 8192"
    using assms sint_minus_i32 [of d 8192] by (simp add: in_int_def)
  have "in_int (- ((8192 - sint d) div 16384))"
    using assms by (auto simp: in_int_def)
  moreover have "FP_to_int_round_off d = word_of_int (- ((8192 - sint d) div 16384))"
    using assms s by (simp add: FP_to_int_round_off_def NUM_1_def sdiv_neg)
  ultimately show ?thesis
    by (simp only: sint_of_int_i32)
qed

lemma nearest_div: "2 * \<bar>a - 16384 * ((a + 8192) div 16384)\<bar> \<le> (16384 :: int)"
proof -
  have "a + 8192 = 16384 * ((a + 8192) div 16384) + (a + 8192) mod 16384" "0 \<le> (a + 8192) mod 16384" "(a + 8192) mod 16384 < 16384"
    by simp_all
  then have "\<bar>a - 16384 * ((a + 8192) div 16384)\<bar> \<le> 8192"
    unfolding abs_le_iff by linarith
  then show ?thesis
    by simp
qed

text \<open>
  C19: away from the ends of the range, \<open>FP_to_int_round_off\<close> returns the nearest integer,
  for negative numbers as well as for positive ones, and an integer converted to fixed
  point comes back unchanged.
\<close>

theorem round_off_nearest:
  assumes "\<bar>sint d\<bar> < 2 ^ 31 - 8192" and "\<bar>sint i * 16384\<bar> < 2 ^ 31 - 8192"
  shows "2 * \<bar>sint d - 16384 * sint (FP_to_int_round_off d)\<bar> \<le> 16384
    \<and> FP_to_int_round_off (int_to_FP i) = i \<and> FP_to_int (int_to_FP i) = i"
proof (intro conjI)
  show "2 * \<bar>sint d - 16384 * sint (FP_to_int_round_off d)\<bar> \<le> 16384"
  proof (cases "0 \<le> sint d")
    case True
    then show ?thesis
      using assms(1) nearest_div [of "sint d"] by (simp add: round_off_nonneg)
  next
    case False
    then show ?thesis
      using assms(1) nearest_div [of "- sint d"] by (simp add: round_off_neg)
  qed
  have f: "sint (int_to_FP i) = sint i * 16384"
    using assms(2) unfolding abs_less_iff by (intro sint_int_to_FP) (simp add: in_int_def)
  have "sint (FP_to_int_round_off (int_to_FP i)) = sint i"
  proof (cases "0 \<le> sint i")
    case True
    then show ?thesis
      using f assms(2) round_off_nonneg [of "int_to_FP i"] by simp
  next
    case False
    then have "sint (FP_to_int_round_off (int_to_FP i)) = - ((8192 - sint i * 16384) div 16384)"
      using f assms(2) round_off_neg [of "int_to_FP i"] by simp
    also have "\<dots> = sint i"
      by linarith
    finally show ?thesis .
  qed
  then show "FP_to_int_round_off (int_to_FP i) = i"
    by (rule signed_word_eqI)
  have "sint (int_to_FP i) sdiv 16384 = sint i"
    unfolding f by (cases "0 \<le> sint i") (simp_all add: sdiv_nonneg sdiv_neg)
  then show "FP_to_int (int_to_FP i) = i"
    by (simp add: FP_to_int_def NUM_1_def)
qed

theorem round_off_nearest_witness:
  "2 * \<bar>sint (- 24577 :: i32) - 16384 * sint (FP_to_int_round_off (- 24577))\<bar> \<le> 16384
    \<and> FP_to_int_round_off (int_to_FP (- 3)) = - 3 \<and> FP_to_int (int_to_FP (- 3)) = - 3"
  by (rule round_off_nearest) simp_all

end
