(* ===== verification/Interrupt.thy ===== *)
theory Interrupt
  imports Kernel_Prelude
begin

text \<open>
  The interrupt system, \<open>threads/interrupt.c\<close>: the interrupt flag of the processor, the
  descriptor table with its gates, the table of handlers, and the two flags that describe
  an external interrupt in progress.  Writes to the ports of the interrupt controllers are
  recorded in \<open>pic_out\<close>.  Handlers are function addresses; the assembly stubs that the
  gates point to are a parameter.
\<close>

section \<open>The interrupt flag\<close>

datatype intr_level = INTR_OFF | INTR_ON

record intr_state =
  if_flag :: bool
  idt :: "u64 list"
  intr_handlers :: "u32 list"
  intr_names :: "string list"
  unexpected_cnt :: "u32 list"
  in_external_intr :: bool
  yield_on_return :: bool
  pic_out :: "(nat \<times> u8) list"
  idtr :: u64

definition INTR_CNT :: nat where
  "INTR_CNT = 256"

definition intr_context :: "intr_state \<Rightarrow> bool" where
  "intr_context s = in_external_intr s"

definition intr_get_level :: "intr_state \<Rightarrow> intr_level" where
  "intr_get_level s = (if if_flag s then INTR_ON else INTR_OFF)"

definition intr_enable :: "intr_state \<Rightarrow> (intr_level \<times> intr_state) option" where
  "intr_enable s = do {
     let old_level = intr_get_level s;
     ASSERT (\<not> intr_context s);
     Some (old_level, s\<lparr>if_flag := True\<rparr>)
   }"

definition intr_disable :: "intr_state \<Rightarrow> intr_level \<times> intr_state" where
  "intr_disable s = (intr_get_level s, s\<lparr>if_flag := False\<rparr>)"

definition intr_set_level :: "intr_state \<Rightarrow> intr_level \<Rightarrow> (intr_level \<times> intr_state) option" where
  "intr_set_level s level = (if level = INTR_ON then intr_enable s else Some (intr_disable s))"

definition intr_yield_on_return :: "intr_state \<Rightarrow> intr_state option" where
  "intr_yield_on_return s = do { ASSERT (intr_context s); Some (s\<lparr>yield_on_return := True\<rparr>) }"

section \<open>The interrupt controllers\<close>

definition PIC0_CTRL :: nat where "PIC0_CTRL = 0x20"
definition PIC0_DATA :: nat where "PIC0_DATA = 0x21"
definition PIC1_CTRL :: nat where "PIC1_CTRL = 0xa0"
definition PIC1_DATA :: nat where "PIC1_DATA = 0xa1"

definition pic_outb :: "(nat \<times> u8) list \<Rightarrow> intr_state \<Rightarrow> intr_state" where
  "pic_outb ws s = s\<lparr>pic_out := pic_out s @ ws\<rparr>"

definition pic_init :: "intr_state \<Rightarrow> intr_state" where
  "pic_init s = pic_outb
     [(PIC0_DATA, 0xff), (PIC1_DATA, 0xff),
      (PIC0_CTRL, 0x11), (PIC0_DATA, 0x20), (PIC0_DATA, 0x04), (PIC0_DATA, 0x01),
      (PIC1_CTRL, 0x11), (PIC1_DATA, 0x28), (PIC1_DATA, 0x02), (PIC1_DATA, 0x01),
      (PIC0_DATA, 0x00), (PIC1_DATA, 0x00)] s"

definition pic_end_of_interrupt :: "intr_state \<Rightarrow> nat \<Rightarrow> intr_state option" where
  "pic_end_of_interrupt s irq = do {
     ASSERT (0x20 \<le> irq \<and> irq < 0x30);
     let s = pic_outb [(0x20, 0x20)] s;
     Some (if 0x28 \<le> irq then pic_outb [(0xa0, 0x20)] s else s)
   }"

section \<open>Gates\<close>

definition SEL_KCSEG :: u32 where "SEL_KCSEG = 0x08"

definition make_gate :: "u32 \<Rightarrow> nat \<Rightarrow> nat \<Rightarrow> u64 option" where
  "make_gate function dpl type = do {
     ASSERT (function \<noteq> 0);
     ASSERT (dpl \<le> 3);
     ASSERT (type \<le> 15);
     let e0 = (function AND 0xffff) OR push_bit 16 SEL_KCSEG;
     let e1 = (function AND 0xffff0000) OR push_bit 15 1 OR push_bit 13 (word_of_nat dpl) OR push_bit 12 0
              OR push_bit 8 (word_of_nat type);
     Some (ucast e0 OR push_bit 32 (ucast e1))
   }"

definition make_intr_gate :: "u32 \<Rightarrow> nat \<Rightarrow> u64 option" where
  "make_intr_gate function dpl = make_gate function dpl 14"

definition make_trap_gate :: "u32 \<Rightarrow> nat \<Rightarrow> u64 option" where
  "make_trap_gate function dpl = make_gate function dpl 15"

definition make_idtr_operand :: "u16 \<Rightarrow> u32 \<Rightarrow> u64" where
  "make_idtr_operand limit base = ucast limit OR push_bit 16 (ucast base)"

section \<open>The table of handlers\<close>

fun init_gates :: "(nat \<Rightarrow> u32) \<Rightarrow> nat \<Rightarrow> u64 list option" where
  "init_gates intr_stubs 0 = Some []"
| "init_gates intr_stubs (Suc i) = do {
     gs \<leftarrow> init_gates intr_stubs i;
     g \<leftarrow> make_intr_gate (intr_stubs i) 0;
     Some (gs @ [g])
   }"

definition fault_names :: "(nat \<times> string) list" where
  "fault_names =
     [(0, ''#DE Divide Error''), (1, ''#DB Debug Exception''), (2, ''NMI Interrupt''),
      (3, ''#BP Breakpoint Exception''), (4, ''#OF Overflow Exception''),
      (5, ''#BR BOUND Range Exceeded Exception''), (6, ''#UD Invalid Opcode Exception''),
      (7, ''#NM Device Not Available Exception''), (8, ''#DF Double Fault Exception''),
      (9, ''Coprocessor Segment Overrun''), (10, ''#TS Invalid TSS Exception''),
      (11, ''#NP Segment Not Present''), (12, ''#SS Stack Fault Exception''),
      (13, ''#GP General Protection Exception''), (14, ''#PF Page-Fault Exception''),
      (16, ''#MF x87 FPU Floating-Point Error''), (17, ''#AC Alignment Check Exception''),
      (18, ''#MC Machine-Check Exception''), (19, ''#XF SIMD Floating-Point Exception'')]"

text \<open>\<open>idt_base\<close> is the address of the table itself.\<close>

definition intr_init :: "(nat \<Rightarrow> u32) \<Rightarrow> u32 \<Rightarrow> intr_state \<Rightarrow> intr_state option" where
  "intr_init intr_stubs idt_base s = do {
     let s = pic_init s;
     gates \<leftarrow> init_gates intr_stubs INTR_CNT;
     let s = s\<lparr>idt := gates\<rparr>;
     let s = s\<lparr>idtr := make_idtr_operand (word_of_nat (8 * INTR_CNT - 1)) idt_base\<rparr>;
     Some (s\<lparr>intr_names := foldl (\<lambda>names (i, n). names[i := n]) (replicate INTR_CNT ''unknown'') fault_names\<rparr>)
   }"

definition register_handler ::
    "(nat \<Rightarrow> u32) \<Rightarrow> intr_state \<Rightarrow> u8 \<Rightarrow> nat \<Rightarrow> intr_level \<Rightarrow> u32 \<Rightarrow> string \<Rightarrow> intr_state option" where
  "register_handler intr_stubs s vec_no dpl level handler nm = do {
     let i = unat vec_no;
     ASSERT (i < length (intr_handlers s) \<and> intr_handlers s ! i = 0);
     g \<leftarrow> (if level = INTR_ON then make_trap_gate (intr_stubs i) dpl else make_intr_gate (intr_stubs i) dpl);
     Some (s\<lparr>idt := (idt s)[i := g], intr_handlers := (intr_handlers s)[i := handler],
             intr_names := (intr_names s)[i := nm]\<rparr>)
   }"

definition intr_register_ext :: "(nat \<Rightarrow> u32) \<Rightarrow> intr_state \<Rightarrow> u8 \<Rightarrow> u32 \<Rightarrow> string \<Rightarrow> intr_state option" where
  "intr_register_ext intr_stubs s vec_no handler nm = do {
     ASSERT (0x20 \<le> vec_no \<and> vec_no \<le> 0x2f);
     register_handler intr_stubs s vec_no 0 INTR_OFF handler nm
   }"

definition intr_register_int ::
    "(nat \<Rightarrow> u32) \<Rightarrow> intr_state \<Rightarrow> u8 \<Rightarrow> nat \<Rightarrow> intr_level \<Rightarrow> u32 \<Rightarrow> string \<Rightarrow> intr_state option" where
  "intr_register_int intr_stubs s vec_no dpl level handler nm = do {
     ASSERT (vec_no < 0x20 \<or> 0x2f < vec_no);
     register_handler intr_stubs s vec_no dpl level handler nm
   }"

text \<open>Counting; the result says whether a message is printed.\<close>

definition unexpected_interrupt :: "intr_state \<Rightarrow> nat \<Rightarrow> (bool \<times> intr_state) option" where
  "unexpected_interrupt s vec_no = do {
     ASSERT (vec_no < length (unexpected_cnt s));
     let n = unexpected_cnt s ! vec_no + 1;
     Some (n AND (n - 1) = 0, s\<lparr>unexpected_cnt := (unexpected_cnt s)[vec_no := n]\<rparr>)
   }"

definition intr_name :: "intr_state \<Rightarrow> u8 \<Rightarrow> string" where
  "intr_name s vec = intr_names s ! unat vec"

section \<open>What the processor reads from a gate\<close>

definition gate_target :: "u64 \<Rightarrow> u32" where
  "gate_target g = ucast (take_bit 16 g OR push_bit 16 (drop_bit 48 g))"

definition gate_selector :: "u64 \<Rightarrow> u32" where
  "gate_selector g = ucast (take_bit 16 (drop_bit 16 g))"

definition gate_type :: "u64 \<Rightarrow> nat" where
  "gate_type g = unat (take_bit 4 (drop_bit 40 g))"

definition gate_dpl :: "u64 \<Rightarrow> nat" where
  "gate_dpl g = unat (take_bit 2 (drop_bit 45 g))"

definition gate_present :: "u64 \<Rightarrow> bool" where
  "gate_present g = bit g 47"

lemma bit_ffff: "bit (0xffff :: u32) n \<longleftrightarrow> n < 16"
proof -
  have "(0xffff :: u32) = mask 16"
    by (simp add: mask_eq_exp_minus_1)
  then show ?thesis
    by (simp only: bit_mask_iff) (auto simp: possible_bit_def)
qed

lemma bit_ffff0000: "bit (0xffff0000 :: u32) n \<longleftrightarrow> 16 \<le> n \<and> n < 32"
proof -
  have "(0xffff0000 :: u32) = push_bit 16 (mask 16)"
    by (simp add: mask_eq_exp_minus_1)
  then show ?thesis
    by (simp only: bit_push_bit_iff bit_mask_iff) (auto simp: possible_bit_def)
qed

lemma bit_8: "bit (8 :: u32) n \<longleftrightarrow> n = 3"
proof -
  have "(8 :: u32) = push_bit 3 1"
    by simp
  then show ?thesis
    by (simp only: bit_push_bit_iff bit_1_iff) auto
qed

lemma small_nat_bit: "(m :: nat) < 2 ^ k \<Longrightarrow> bit m n \<Longrightarrow> n < k"
  by (metis bit_take_bit_iff take_bit_nat_eq_self)

lemma bit_gate_low: "bit ((f AND 0xffff) OR push_bit 16 SEL_KCSEG :: u32) k \<longleftrightarrow> k < 16 \<and> bit f k \<or> k = 19"
proof -
  have "k < 32 \<and> 16 \<le> k \<and> k - 16 = 3 \<longleftrightarrow> k = 19"
    by linarith
  then show ?thesis
    unfolding SEL_KCSEG_def bit_or_iff bit_and_iff bit_push_bit_iff bit_ffff bit_8 by (auto simp: possible_bit_def)
qed

lemma bit_gate_high:
  assumes "type < 2 ^ 4" and "dpl < 2 ^ 2"
  shows "bit ((f AND 0xffff0000) OR push_bit 15 1 OR push_bit 13 (word_of_nat dpl) OR push_bit 12 0
      OR push_bit 8 (word_of_nat type) :: u32) k
    \<longleftrightarrow> 16 \<le> k \<and> k < 32 \<and> bit f k \<or> k = 15 \<or> 13 \<le> k \<and> k < 15 \<and> bit dpl (k - 13) \<or> 8 \<le> k \<and> k < 12 \<and> bit type (k - 8)"
proof -
  have t: "bit (push_bit 8 (word_of_nat type) :: u32) k \<longleftrightarrow> 8 \<le> k \<and> k < 12 \<and> bit type (k - 8)"
    using small_nat_bit [OF assms(1), of "k - 8"] by (auto simp: bit_push_bit_iff bit_of_nat_iff possible_bit_def)
  have d: "bit (push_bit 13 (word_of_nat dpl) :: u32) k \<longleftrightarrow> 13 \<le> k \<and> k < 15 \<and> bit dpl (k - 13)"
    using small_nat_bit [OF assms(2), of "k - 13"] by (auto simp: bit_push_bit_iff bit_of_nat_iff possible_bit_def)
  have p: "bit (push_bit 15 1 :: u32) k \<longleftrightarrow> k = 15"
    by (simp only: bit_push_bit_iff bit_1_iff) (auto simp: possible_bit_def)
  show ?thesis
    unfolding bit_or_iff bit_and_iff bit_ffff0000 t d p by auto
qed

lemma bit_concat: "bit (ucast e0 OR push_bit 32 (ucast e1) :: u64) n \<longleftrightarrow> n < 32 \<and> bit (e0 :: u32) n \<or> 32 \<le> n \<and> n < 64 \<and> bit (e1 :: u32) (n - 32)"
proof -
  have "bit e0 n \<Longrightarrow> n < 32"
    using bit_imp_le_length [of e0 n] by simp
  then show ?thesis
    by (auto simp: bit_or_iff bit_unsigned_iff bit_push_bit_iff possible_bit_def)
qed

lemma bit_make_gate:
  assumes "make_gate f dpl type = Some g"
  shows "bit g n \<longleftrightarrow> n < 16 \<and> bit f n \<or> n = 19 \<or> 40 \<le> n \<and> n < 44 \<and> bit type (n - 40)
    \<or> 45 \<le> n \<and> n < 47 \<and> bit dpl (n - 45) \<or> n = 47 \<or> 48 \<le> n \<and> n < 64 \<and> bit f (n - 32)"
proof -
  have t: "type < 2 ^ 4" "dpl < 2 ^ 2"
    using assms by (auto simp: make_gate_def ASSERT_bind split: if_splits)
  let ?e0 = "(f AND 0xffff) OR push_bit 16 SEL_KCSEG" and ?e1 = "(f AND 0xffff0000) OR
      push_bit 15 1 OR push_bit 13 (word_of_nat dpl) OR push_bit 12 0 OR push_bit 8 (word_of_nat type)"
  have "g = ucast ?e0 OR push_bit 32 (ucast ?e1)"
    using assms by (auto simp: make_gate_def ASSERT_bind Let_def split: if_splits)
  then have g: "bit g n \<longleftrightarrow> n < 32 \<and> bit ?e0 n \<or> 32 \<le> n \<and> n < 64 \<and> bit ?e1 (n - 32)"
    by (simp only: bit_concat)
  show ?thesis
  proof (cases "n < 32")
    case True
    then show ?thesis
      unfolding g bit_gate_low by auto
  next
    case False
    then obtain k where "n = k + 32"
      by (metis add.commute le_Suc_ex not_less)
    then show ?thesis
      unfolding g bit_gate_high [OF t] by auto
  qed
qed

lemma make_gate_total:
  "f \<noteq> 0 \<Longrightarrow> dpl \<le> 3 \<Longrightarrow> type \<le> 15 \<Longrightarrow> \<exists>g. make_gate f dpl type = Some g"
  by (simp add: make_gate_def)

lemma make_gate_fields:
  assumes "make_gate f dpl type = Some g"
  shows "gate_target g = f" and "gate_selector g = SEL_KCSEG" and "gate_type g = type" and "gate_dpl g = dpl"
    and "gate_present g"
proof -
  note b = bit_make_gate [OF assms]
  show "gate_target g = f"
  proof (rule bit_word_eqI)
    fix n assume "n < LENGTH(32)"
    then show "bit (gate_target g) n \<longleftrightarrow> bit f n"
      by (cases "n < 16") (auto simp: gate_target_def bit_simps b dest: le_Suc_ex)
  qed
  show "gate_selector g = SEL_KCSEG"
  proof (rule bit_word_eqI)
    fix n
    have "bit (gate_selector g) n \<longleftrightarrow> n = 3"
      by (cases "n < 16") (auto simp: gate_selector_def bit_simps b)
    then show "bit (gate_selector g) n \<longleftrightarrow> bit SEL_KCSEG n"
      by (simp only: SEL_KCSEG_def bit_8)
  qed
  have t: "type < 2 ^ 4" "dpl < 2 ^ 2"
    using assms by (auto simp: make_gate_def ASSERT_bind split: if_splits)
  have "take_bit 4 (drop_bit 40 g) = word_of_nat type"
    by (rule bit_word_eqI) (use small_nat_bit [OF t(1)] in \<open>auto simp: bit_simps b\<close>)
  moreover have "unat (word_of_nat type :: u64) = type"
    using t(1) by (intro unat_word_of_nat_small) simp
  ultimately show "gate_type g = type"
    by (simp only: gate_type_def)
  have "take_bit 2 (drop_bit 45 g) = word_of_nat dpl"
    by (rule bit_word_eqI) (use small_nat_bit [OF t(2)] in \<open>auto simp: bit_simps b\<close>)
  moreover have "unat (word_of_nat dpl :: u64) = dpl"
    using t(2) by (intro unat_word_of_nat_small) simp
  ultimately show "gate_dpl g = dpl"
    by (simp only: gate_dpl_def)
  show "gate_present g"
    by (simp add: gate_present_def b)
qed

text \<open>
  C18: registering a handler for an external interrupt installs it for exactly that vector,
  behind a present gate that enters the vector's stub in the kernel code segment with
  interrupts disabled (an interrupt gate, type 14) and that user code cannot invoke
  (privilege level 0); a second registration for the same vector panics.
\<close>

theorem intr_register_ext_correct:
  assumes "length (idt s) = INTR_CNT" and "length (intr_handlers s) = INTR_CNT"
    and "0x20 \<le> vec" and "vec \<le> 0x2f" and "intr_handlers s ! unat vec = 0"
    and "intr_stubs (unat vec) \<noteq> 0" and "handler \<noteq> 0"
  shows "\<exists>s' g. intr_register_ext intr_stubs s vec handler nm = Some s'
    \<and> intr_handlers s' = (intr_handlers s)[unat vec := handler] \<and> idt s' = (idt s)[unat vec := g]
    \<and> gate_target g = intr_stubs (unat vec) \<and> gate_selector g = SEL_KCSEG \<and> gate_type g = 14 \<and> gate_dpl g = 0
    \<and> gate_present g \<and> intr_register_ext intr_stubs s' vec handler' nm' = None"
proof -
  obtain g where g: "make_gate (intr_stubs (unat vec)) 0 14 = Some g"
    using make_gate_total [OF assms(6), of 0 14] by auto
  have "unat vec < 256"
    using unsigned_less [of vec] by simp
  then show ?thesis
    using assms make_gate_fields [OF g] g
    by (auto simp: intr_register_ext_def register_handler_def make_intr_gate_def INTR_CNT_def Let_def)
qed

theorem intr_register_ext_correct_witness:
  "let s = \<lparr>if_flag = False, idt = replicate 256 0, intr_handlers = replicate 256 0, intr_names = replicate 256 [],
       unexpected_cnt = replicate 256 0, in_external_intr = False, yield_on_return = False, pic_out = [], idtr = 0\<rparr> in
   \<exists>s' g. intr_register_ext (\<lambda>i. 0xc0021000 + word_of_nat i) s 0x20 0xc0022000 ''8254 Timer'' = Some s'
    \<and> intr_handlers s' = (intr_handlers s)[unat (0x20 :: u8) := 0xc0022000] \<and> idt s' = (idt s)[unat (0x20 :: u8) := g]
    \<and> gate_target g = 0xc0021000 + word_of_nat (unat (0x20 :: u8)) \<and> gate_selector g = SEL_KCSEG \<and> gate_type g = 14 \<and> gate_dpl g = 0
    \<and> gate_present g \<and> intr_register_ext (\<lambda>i. 0xc0021000 + word_of_nat i) s' 0x20 5 [] = None"
  unfolding Let_def by (rule intr_register_ext_correct) (simp_all add: INTR_CNT_def)

end
