(* ===== verification/Threads.thy ===== *)
theory Threads
  imports Fixed_Point Interrupt Pagedir Khash
begin

text \<open>
  The scheduler core of \<open>threads/thread.c\<close>: threads, the queues they wait in, the switch
  from one thread to the next, and the operations that make a thread ready, blocked or
  dying.  A thread pointer is the address of its page.  A queue is the sequence of its
  threads; the list theories show that the pointer lists implement these sequences.

  A call that gives up the processor does not return before its thread is scheduled again.
  What the thread still has to do then, which the machine keeps on the thread's stack, is
  the list \<open>work\<close> of the thread: its first item is what it does next.  Each item is a piece
  of code that runs without another thread in between.  The type variable stands for the
  items of other components.
\<close>

section \<open>Threads and their pending work\<close>

type_synonym tptr = u32

datatype thread_status = THREAD_RUNNING | THREAD_READY | THREAD_BLOCKED | THREAD_DYING

text \<open>
  The semaphores of the kernel by the place that holds them: the three of a thread, the one
  inside a lock, the one a thread waits on for a condition (a local of \<open>cond_wait\<close>), and
  any other.
\<close>

datatype sema_ref =
    SemaWait tptr | SemaLoad tptr | SemaElim tptr | LockSema u32 | CondSema tptr | SemaAt u32

record semaphore =
  sema_value :: u32
  waiters :: "tptr list"

datatype 'w work =
    IntrSet intr_level
  | Iret
  | Yield
  | Down sema_ref
  | DownLoop sema_ref intr_level
  | Up sema_ref
  | Acquire u32
  | SetHolder u32
  | Release u32
  | Wait u32 u32
  | Signal u32 u32
  | Broadcast u32 u32
  | Create "u8 list" i32 u32 u32 bool
  | Start u32 u32
  | Body u32 u32
  | Idle u32
  | IdleLoop
  | IdleHalt
  | Exit
  | ExitChildren
  | ExitTail
  | Sleep i64
  | SetPriority i32
  | SetNice i32
  | Ext 'w

record 'w thread =
  tid :: i32
  status :: thread_status
  name :: "u8 list"
  stack :: u32
  priority :: i32
  pagedir :: u32
  child_tlist :: "tptr list"
  is_loaded :: i32
  exit_status :: i32
  fd_num :: i32
  fd_tab :: "u32 list"
  exec_file :: u32
  magic :: u32
  wake_up_tick :: i64
  nice :: i32
  recent_cpu :: i32
  sup_page_tab :: "u32 hash"
  work :: "'w work list"
  ret :: u32

text \<open>
  The kernel.  \<open>running\<close> is the page the stack pointer lies in, \<open>userprog\<close> says whether the
  kernel is built with \<open>USERPROG\<close>, and \<open>idle_fn\<close> is the address of the function \<open>idle\<close>.
\<close>

record 'w kernel =
  userprog :: bool
  idle_fn :: u32
  threads :: "tptr \<Rightarrow> 'w thread option"
  running :: tptr
  ready_list :: "tptr list"
  sleeping_list :: "tptr list"
  all_list :: "tptr list"
  idle_thread :: tptr
  initial_thread :: tptr
  next_tid :: i32
  idle_ticks :: i64
  kernel_ticks :: i64
  user_ticks :: i64
  thread_ticks :: u32
  thread_prior_aging :: bool
  aging_ticks :: u32
  load_avg :: i32
  thread_mlfqs :: bool
  ticks :: i64
  semas :: "sema_ref \<Rightarrow> semaphore"
  lock_holder :: "u32 \<Rightarrow> tptr"
  cond_waiters :: "u32 \<Rightarrow> tptr list"
  irq :: intr_state
  vmem :: paging
  tss_esp0 :: u32

definition THREAD_MAGIC :: u32 where "THREAD_MAGIC = 0xcd6abf4b"
definition TID_ERROR :: i32 where "TID_ERROR = - 1"
definition PRI_MIN :: int where "PRI_MIN = 0"
definition PRI_DEFAULT :: int where "PRI_DEFAULT = 31"
definition PRI_MAX :: int where "PRI_MAX = 63"
definition TIME_SLICE :: nat where "TIME_SLICE = 4"
definition TIMER_FREQ :: int where "TIMER_FREQ = 100"

text \<open>A change of the thread at an address, and more work for it in front of what it has.\<close>

definition upd_thread :: "'w kernel \<Rightarrow> tptr \<Rightarrow> ('w thread \<Rightarrow> 'w thread) \<Rightarrow> 'w kernel option" where
  "upd_thread k t f = (case threads k t of
     None \<Rightarrow> None | Some th \<Rightarrow> Some (k\<lparr>threads := (threads k)(t \<mapsto> f th)\<rparr>))"

definition push :: "'w work list \<Rightarrow> 'w kernel \<Rightarrow> 'w kernel option" where
  "push ws k = upd_thread k (running k) (\<lambda>th. th\<lparr>work := ws @ work th\<rparr>)"

definition k_disable :: "'w kernel \<Rightarrow> intr_level \<times> 'w kernel" where
  "k_disable k = (let (old, s) = intr_disable (irq k) in (old, k\<lparr>irq := s\<rparr>))"

definition k_set_level :: "'w kernel \<Rightarrow> intr_level \<Rightarrow> 'w kernel option" where
  "k_set_level k level = do { (_, s) \<leftarrow> intr_set_level (irq k) level; Some (k\<lparr>irq := s\<rparr>) }"

section \<open>The running thread\<close>

definition running_thread :: "'w kernel \<Rightarrow> tptr" where
  "running_thread k = running k"

definition is_thread :: "'w kernel \<Rightarrow> tptr \<Rightarrow> bool" where
  "is_thread k t \<longleftrightarrow> t \<noteq> 0 \<and> (case threads k t of Some th \<Rightarrow> magic th = THREAD_MAGIC | None \<Rightarrow> False)"

definition thread_current :: "'w kernel \<Rightarrow> tptr option" where
  "thread_current k = do {
     let t = running_thread k;
     ASSERT (is_thread k t);
     th \<leftarrow> threads k t;
     ASSERT (status th = THREAD_RUNNING);
     Some t
   }"

definition cur_thread :: "'w kernel \<Rightarrow> 'w thread option" where
  "cur_thread k = do { t \<leftarrow> thread_current k; threads k t }"

definition thread_tid :: "'w kernel \<Rightarrow> i32 option" where
  "thread_tid k = do { th \<leftarrow> cur_thread k; Some (tid th) }"

definition thread_name :: "'w kernel \<Rightarrow> u8 list option" where
  "thread_name k = do { th \<leftarrow> cur_thread k; Some (name th) }"

definition thread_get_priority :: "'w kernel \<Rightarrow> i32 option" where
  "thread_get_priority k = do { th \<leftarrow> cur_thread k; Some (priority th) }"

definition thread_get_nice :: "'w kernel \<Rightarrow> i32 option" where
  "thread_get_nice k = do { th \<leftarrow> cur_thread k; Some (nice th) }"

definition thread_set_nice :: "'w kernel \<Rightarrow> i32 \<Rightarrow> 'w kernel option" where
  "thread_set_nice k n = do { t \<leftarrow> thread_current k; upd_thread k t (\<lambda>th. th\<lparr>nice := n\<rparr>) }"

definition thread_get_load_avg :: "'w kernel \<Rightarrow> i32" where
  "thread_get_load_avg k = FP_to_int_round_off (mul_FP_to_FP (load_avg k) (int_to_FP 100))"

definition thread_get_recent_cpu :: "'w kernel \<Rightarrow> i32 option" where
  "thread_get_recent_cpu k = do {
     th \<leftarrow> cur_thread k;
     Some (FP_to_int_round_off (mul_FP_to_FP (recent_cpu th) (int_to_FP 100)))
   }"

section \<open>Queues in order of priority or of waking time\<close>

definition cmp_priority_thread :: "'w kernel \<Rightarrow> tptr \<Rightarrow> tptr \<Rightarrow> bool" where
  "cmp_priority_thread k a b = (case (threads k a, threads k b) of
     (Some t_a, Some t_b) \<Rightarrow> sint (priority t_a) > sint (priority t_b) | _ \<Rightarrow> False)"

definition cmp_sleeping_thread :: "'w kernel \<Rightarrow> tptr \<Rightarrow> tptr \<Rightarrow> bool" where
  "cmp_sleeping_thread k a b = (case (threads k a, threads k b) of
     (Some t_a, Some t_b) \<Rightarrow> sint (wake_up_tick t_b) > sint (wake_up_tick t_a) | _ \<Rightarrow> False)"

text \<open>\<open>list_insert_ordered\<close> on the \<open>elem\<close> of threads; each of them is read.\<close>

definition queue_insert :: "'w kernel \<Rightarrow> (tptr \<Rightarrow> tptr \<Rightarrow> bool) \<Rightarrow> tptr \<Rightarrow> tptr list \<Rightarrow> tptr list option" where
  "queue_insert k lt t q = (if list_all (\<lambda>u. threads k u \<noteq> None) (t # q) then Some (seq_insert lt t q) else None)"

section \<open>Switching threads\<close>

definition next_thread_to_run :: "'w kernel \<Rightarrow> tptr \<times> 'w kernel" where
  "next_thread_to_run k = (case ready_list k of
     [] \<Rightarrow> (idle_thread k, k)
   | t # ts \<Rightarrow> (t, k\<lparr>ready_list := ts\<rparr>))"

definition tss_update :: "'w kernel \<Rightarrow> 'w kernel option" where
  "tss_update k = do { t \<leftarrow> thread_current k; Some (k\<lparr>tss_esp0 := t + word_of_nat PGSIZE\<rparr>) }"

definition process_activate :: "'w kernel \<Rightarrow> 'w kernel option" where
  "process_activate k = do {
     th \<leftarrow> cur_thread k;
     v \<leftarrow> pagedir_activate (vmem k) (pagedir th);
     tss_update (k\<lparr>vmem := v\<rparr>)
   }"

text \<open>The page of a dying thread is given back, and there is no thread at its address any more.\<close>

definition destroy_thread :: "'w kernel \<Rightarrow> tptr \<Rightarrow> 'w kernel option" where
  "destroy_thread k t = do {
     m \<leftarrow> palloc_free_page (mem (vmem k)) t;
     Some (k\<lparr>vmem := (vmem k)\<lparr>mem := m\<rparr>, threads := (threads k)(t := None)\<rparr>)
   }"

definition thread_schedule_tail :: "'w kernel \<Rightarrow> tptr \<Rightarrow> 'w kernel option" where
  "thread_schedule_tail k prev = do {
     let cur = running_thread k;
     ASSERT (intr_get_level (irq k) = INTR_OFF);
     k \<leftarrow> upd_thread k cur (\<lambda>th. th\<lparr>status := THREAD_RUNNING\<rparr>);
     let k = k\<lparr>thread_ticks := 0\<rparr>;
     k \<leftarrow> (if userprog k then process_activate k else Some k);
     if prev = 0 then Some k
     else do {
       p \<leftarrow> threads k prev;
       if status p = THREAD_DYING \<and> prev \<noteq> initial_thread k
       then do { ASSERT (prev \<noteq> cur); destroy_thread k prev }
       else Some k
     }
   }"

definition schedule :: "'w kernel \<Rightarrow> 'w kernel option" where
  "schedule k = do {
     let cur = running_thread k;
     let (nxt, k) = next_thread_to_run k;
     ASSERT (intr_get_level (irq k) = INTR_OFF);
     c \<leftarrow> threads k cur;
     ASSERT (status c \<noteq> THREAD_RUNNING);
     ASSERT (is_thread k nxt);
     let prev = (if cur \<noteq> nxt then cur else 0);
     thread_schedule_tail (k\<lparr>running := nxt\<rparr>) prev
   }"

definition thread_block :: "'w kernel \<Rightarrow> 'w kernel option" where
  "thread_block k = do {
     ASSERT (\<not> intr_context (irq k));
     ASSERT (intr_get_level (irq k) = INTR_OFF);
     t \<leftarrow> thread_current k;
     k \<leftarrow> upd_thread k t (\<lambda>th. th\<lparr>status := THREAD_BLOCKED\<rparr>);
     schedule k
   }"

definition thread_unblock :: "'w kernel \<Rightarrow> tptr \<Rightarrow> 'w kernel option" where
  "thread_unblock k t = do {
     ASSERT (is_thread k t);
     let (old_level, k) = k_disable k;
     th \<leftarrow> threads k t;
     ASSERT (status th = THREAD_BLOCKED);
     q \<leftarrow> queue_insert k (cmp_priority_thread k) t (ready_list k);
     k \<leftarrow> upd_thread (k\<lparr>ready_list := q\<rparr>) t (\<lambda>th. th\<lparr>status := THREAD_READY\<rparr>);
     k_set_level k old_level
   }"

text \<open>After the switch back, the thread restores its interrupt level.\<close>

definition thread_yield :: "'w kernel \<Rightarrow> 'w kernel option" where
  "thread_yield k = do {
     cur \<leftarrow> thread_current k;
     ASSERT (\<not> intr_context (irq k));
     let (old_level, k) = k_disable k;
     q \<leftarrow> (if cur \<noteq> idle_thread k then queue_insert k (cmp_priority_thread k) cur (ready_list k)
           else Some (ready_list k));
     k \<leftarrow> upd_thread (k\<lparr>ready_list := q\<rparr>) cur (\<lambda>th. th\<lparr>status := THREAD_READY\<rparr>);
     k \<leftarrow> push [IntrSet old_level] k;
     schedule k
   }"

definition thread_set_priority :: "'w kernel \<Rightarrow> i32 \<Rightarrow> 'w kernel option" where
  "thread_set_priority k new_priority = do {
     t \<leftarrow> thread_current k;
     k \<leftarrow> upd_thread k t (\<lambda>th. th\<lparr>priority := new_priority\<rparr>);
     thread_yield k
   }"

definition thread_sleep :: "'w kernel \<Rightarrow> i64 \<Rightarrow> 'w kernel option" where
  "thread_sleep k tick = do {
     tc \<leftarrow> thread_current k;
     k \<leftarrow> upd_thread k tc (\<lambda>th. th\<lparr>wake_up_tick := tick\<rparr>);
     q \<leftarrow> queue_insert k (cmp_sleeping_thread k) tc (sleeping_list k);
     thread_block (k\<lparr>sleeping_list := q\<rparr>)
   }"

fun thread_wake_up_loop :: "nat \<Rightarrow> 'w kernel \<Rightarrow> i64 \<Rightarrow> 'w kernel option" where
  "thread_wake_up_loop n k now_tick =
     (case (n, sleeping_list k) of
        (_, []) \<Rightarrow> Some k
      | (0, _) \<Rightarrow> None
      | (Suc n, t # ts) \<Rightarrow> do {
          th \<leftarrow> threads k t;
          if sint now_tick < sint (wake_up_tick th) then Some k
          else do {
            k \<leftarrow> thread_unblock (k\<lparr>sleeping_list := ts\<rparr>) t;
            thread_wake_up_loop n k now_tick
          }
        })"

declare thread_wake_up_loop.simps [simp del]

text \<open>Each round takes one thread off the list, so its length bounds the number of rounds.\<close>

definition thread_wake_up :: "'w kernel \<Rightarrow> i64 \<Rightarrow> 'w kernel option" where
  "thread_wake_up k now_tick = thread_wake_up_loop (length (sleeping_list k)) k now_tick"

fun find_child :: "'w kernel \<Rightarrow> tptr list \<Rightarrow> i32 \<Rightarrow> tptr option" where
  "find_child k [] t = Some 0"
| "find_child k (c # cs) t = do { th \<leftarrow> threads k c; if tid th = t then Some c else find_child k cs t }"

definition thread_get_child :: "'w kernel \<Rightarrow> i32 \<Rightarrow> tptr option" where
  "thread_get_child k t = do { tc \<leftarrow> cur_thread k; find_child k (child_tlist tc) t }"

fun thread_foreach_loop :: "('w kernel \<Rightarrow> tptr \<Rightarrow> 'w kernel option) \<Rightarrow> tptr list \<Rightarrow> 'w kernel \<Rightarrow> 'w kernel option" where
  "thread_foreach_loop func [] k = Some k"
| "thread_foreach_loop func (t # ts) k = do { k \<leftarrow> func k t; thread_foreach_loop func ts k }"

definition thread_foreach :: "('w kernel \<Rightarrow> tptr \<Rightarrow> 'w kernel option) \<Rightarrow> 'w kernel \<Rightarrow> 'w kernel option" where
  "thread_foreach func k = do {
     ASSERT (intr_get_level (irq k) = INTR_OFF);
     thread_foreach_loop func (all_list k) k
   }"

end
