(* ===== verification/Synch.thy ===== *)
theory Synch
  imports Threads
begin

text \<open>
  Semaphores, locks and condition variables, \<open>threads/synch.c\<close>, and the operations of
  \<open>threads/thread.c\<close> that use them: creating a thread, its first instructions, the idle
  thread and the end of a thread.  A call that continues after another call that may block
  leaves its continuation as work of the thread.
\<close>

section \<open>Semaphores\<close>

definition set_sema :: "'w kernel \<Rightarrow> sema_ref \<Rightarrow> semaphore \<Rightarrow> 'w kernel" where
  "set_sema k s v = k\<lparr>semas := (semas k)(s := v)\<rparr>"

definition sema_init :: "'w kernel \<Rightarrow> sema_ref \<Rightarrow> u32 \<Rightarrow> 'w kernel" where
  "sema_init k s value = set_sema k s \<lparr>sema_value = value, waiters = []\<rparr>"

text \<open>One round of the loop of \<open>sema_down\<close>, which runs with interrupts off.\<close>

definition sema_down_loop :: "'w kernel \<Rightarrow> sema_ref \<Rightarrow> intr_level \<Rightarrow> 'w kernel option" where
  "sema_down_loop k s old_level = (let sema = semas k s in
     if sema_value sema = 0
     then do {
       t \<leftarrow> thread_current k;
       q \<leftarrow> queue_insert k (cmp_priority_thread k) t (waiters sema);
       k \<leftarrow> push [DownLoop s old_level] (set_sema k s (sema\<lparr>waiters := q\<rparr>));
       thread_block k
     }
     else k_set_level (set_sema k s (sema\<lparr>sema_value := sema_value sema - 1\<rparr>)) old_level)"

definition sema_down :: "'w kernel \<Rightarrow> sema_ref \<Rightarrow> 'w kernel option" where
  "sema_down k s = do {
     ASSERT (\<not> intr_context (irq k));
     let (old_level, k) = k_disable k;
     sema_down_loop k s old_level
   }"

definition sema_try_down :: "'w kernel \<Rightarrow> sema_ref \<Rightarrow> (bool \<times> 'w kernel) option" where
  "sema_try_down k s = do {
     let (old_level, k) = k_disable k;
     let sema = semas k s;
     let success = sema_value sema > 0;
     let k = (if success then set_sema k s (sema\<lparr>sema_value := sema_value sema - 1\<rparr>) else k);
     k \<leftarrow> k_set_level k old_level;
     Some (success, k)
   }"

definition sema_up :: "'w kernel \<Rightarrow> sema_ref \<Rightarrow> 'w kernel option" where
  "sema_up k s = do {
     let (old_level, k) = k_disable k;
     k \<leftarrow> (case waiters (semas k s) of
            [] \<Rightarrow> Some k
          | t # ts \<Rightarrow> thread_unblock (set_sema k s ((semas k s)\<lparr>waiters := ts\<rparr>)) t);
     let sema = semas k s;
     k \<leftarrow> k_set_level (set_sema k s (sema\<lparr>sema_value := sema_value sema + 1\<rparr>)) old_level;
     if \<not> userprog k then thread_yield k else Some k
   }"

section \<open>Locks\<close>

definition lock_init :: "'w kernel \<Rightarrow> u32 \<Rightarrow> 'w kernel" where
  "lock_init k l = sema_init (k\<lparr>lock_holder := (lock_holder k)(l := 0)\<rparr>) (LockSema l) 1"

definition lock_held_by_current_thread :: "'w kernel \<Rightarrow> u32 \<Rightarrow> bool option" where
  "lock_held_by_current_thread k l = do { t \<leftarrow> thread_current k; Some (lock_holder k l = t) }"

definition lock_acquire :: "'w kernel \<Rightarrow> u32 \<Rightarrow> 'w kernel option" where
  "lock_acquire k l = do {
     ASSERT (\<not> intr_context (irq k));
     h \<leftarrow> lock_held_by_current_thread k l;
     ASSERT (\<not> h);
     push [Down (LockSema l), SetHolder l] k
   }"

definition lock_set_holder :: "'w kernel \<Rightarrow> u32 \<Rightarrow> 'w kernel option" where
  "lock_set_holder k l = do { t \<leftarrow> thread_current k; Some (k\<lparr>lock_holder := (lock_holder k)(l := t)\<rparr>) }"

definition lock_try_acquire :: "'w kernel \<Rightarrow> u32 \<Rightarrow> (bool \<times> 'w kernel) option" where
  "lock_try_acquire k l = do {
     h \<leftarrow> lock_held_by_current_thread k l;
     ASSERT (\<not> h);
     (success, k) \<leftarrow> sema_try_down k (LockSema l);
     k \<leftarrow> (if success then lock_set_holder k l else Some k);
     Some (success, k)
   }"

definition lock_release :: "'w kernel \<Rightarrow> u32 \<Rightarrow> 'w kernel option" where
  "lock_release k l = do {
     h \<leftarrow> lock_held_by_current_thread k l;
     ASSERT h;
     push [Up (LockSema l)] (k\<lparr>lock_holder := (lock_holder k)(l := 0)\<rparr>)
   }"

section \<open>Condition variables\<close>

definition cond_init :: "'w kernel \<Rightarrow> u32 \<Rightarrow> 'w kernel" where
  "cond_init k c = k\<lparr>cond_waiters := (cond_waiters k)(c := [])\<rparr>"

definition cond_wait :: "'w kernel \<Rightarrow> u32 \<Rightarrow> u32 \<Rightarrow> 'w kernel option" where
  "cond_wait k c l = do {
     ASSERT (\<not> intr_context (irq k));
     h \<leftarrow> lock_held_by_current_thread k l;
     ASSERT h;
     t \<leftarrow> thread_current k;
     let k = sema_init k (CondSema t) 0;
     let k = k\<lparr>cond_waiters := (cond_waiters k)(c := cond_waiters k c @ [t])\<rparr>;
     push [Release l, Down (CondSema t), Acquire l] k
   }"

definition cond_signal :: "'w kernel \<Rightarrow> u32 \<Rightarrow> u32 \<Rightarrow> 'w kernel option" where
  "cond_signal k c l = do {
     ASSERT (\<not> intr_context (irq k));
     h \<leftarrow> lock_held_by_current_thread k l;
     ASSERT h;
     (case cond_waiters k c of
        [] \<Rightarrow> Some k
      | t # ts \<Rightarrow> push [Up (CondSema t)] (k\<lparr>cond_waiters := (cond_waiters k)(c := ts)\<rparr>))
   }"

definition cond_broadcast :: "'w kernel \<Rightarrow> u32 \<Rightarrow> u32 \<Rightarrow> 'w kernel option" where
  "cond_broadcast k c l = (if cond_waiters k c \<noteq> [] then push [Signal c l, Broadcast c l] k else Some k)"

section \<open>The life of a thread\<close>

text \<open>\<open>tid_lock\<close> protects one statement; the call is one step.\<close>

definition allocate_tid :: "'w kernel \<Rightarrow> i32 \<times> 'w kernel" where
  "allocate_tid k = (next_tid k, k\<lparr>next_tid := next_tid k + 1\<rparr>)"

text \<open>The structure after it has been cleared and its first members have been set.\<close>

definition blank_thread :: "tptr \<Rightarrow> u8 list \<Rightarrow> i32 \<Rightarrow> 'w thread" where
  "blank_thread t nm prio =
     \<lparr>tid = 0, status = THREAD_BLOCKED, name = take 15 nm, stack = t + word_of_nat PGSIZE, priority = prio,
      pagedir = 0, child_tlist = [], is_loaded = 0, exit_status = 0, fd_num = 0, fd_tab = replicate 128 0,
      exec_file = 0, magic = THREAD_MAGIC, wake_up_tick = 0, nice = 0, recent_cpu = 0,
      sup_page_tab = \<lparr>elem_cnt = 0, bucket_cnt = 0, buckets = []\<rparr>, work = [], ret = 0\<rparr>"

definition init_thread :: "'w kernel \<Rightarrow> tptr \<Rightarrow> u8 list \<Rightarrow> i32 \<Rightarrow> 'w kernel option" where
  "init_thread k t nm prio = do {
     ASSERT (t \<noteq> 0);
     ASSERT (PRI_MIN \<le> sint prio \<and> sint prio \<le> PRI_MAX);
     let th = blank_thread t nm prio;
     let k = k\<lparr>threads := (threads k)(t \<mapsto> th), all_list := all_list k @ [t]\<rparr>;
     let k = sema_init (sema_init (sema_init k (SemaWait t) 0) (SemaLoad t) 0) (SemaElim t) 0;
     if t \<noteq> initial_thread k
     then do {
       c \<leftarrow> cur_thread k;
       upd_thread k t (\<lambda>th. th\<lparr>nice := nice c, recent_cpu := recent_cpu c\<rparr>)
     }
     else Some k
   }"

text \<open>\<open>esp\<close> is the stack pointer at that time; the thread is the page around it.\<close>

definition thread_init :: "'w kernel \<Rightarrow> u32 \<Rightarrow> u32 \<Rightarrow> 'w kernel option" where
  "thread_init k esp tid_lock = do {
     ASSERT (intr_get_level (irq k) = INTR_OFF);
     let k = lock_init k tid_lock;
     let k = k\<lparr>ready_list := [], all_list := [], sleeping_list := [], load_avg := 0,
               running := pg_round_down esp\<rparr>;
     let k = k\<lparr>initial_thread := running_thread k\<rparr>;
     k \<leftarrow> init_thread k (initial_thread k) [109, 97, 105, 110] (word_of_int PRI_DEFAULT);
     k \<leftarrow> upd_thread k (initial_thread k) (\<lambda>th. th\<lparr>status := THREAD_RUNNING\<rparr>);
     let (n, k) = allocate_tid k;
     upd_thread k (initial_thread k) (\<lambda>th. th\<lparr>tid := n, work := [Body 0 0]\<rparr>)
   }"

definition alloc_frame :: "'w kernel \<Rightarrow> tptr \<Rightarrow> nat \<Rightarrow> 'w kernel option" where
  "alloc_frame k t sz = do {
     ASSERT (is_thread k t);
     ASSERT (sz mod 4 = 0);
     upd_thread k t (\<lambda>th. th\<lparr>stack := stack th - word_of_nat sz\<rparr>)
   }"

text \<open>\<open>spt_init\<close> ignores a failure of \<open>hash_init\<close>, which leaves a table without buckets.\<close>

definition spt_init :: "bool \<Rightarrow> u32 hash" where
  "spt_init ok = (case hash_init ok of Some h \<Rightarrow> h | None \<Rightarrow> \<lparr>elem_cnt = 0, bucket_cnt = 4, buckets = []\<rparr>)"

text \<open>
  The three frames on the new stack make the thread enter \<open>kernel_thread\<close> with \<open>function\<close>
  and \<open>aux\<close> when it is first scheduled; \<open>ok\<close> is the outcome of the allocation in \<open>hash_init\<close>.
\<close>

definition thread_create :: "'w kernel \<Rightarrow> u8 list \<Rightarrow> i32 \<Rightarrow> u32 \<Rightarrow> u32 \<Rightarrow> bool \<Rightarrow> 'w kernel option" where
  "thread_create k nm prio function aux ok = do {
     ASSERT (function \<noteq> 0);
     (t, m) \<leftarrow> palloc_get_page (mem (vmem k)) PAL_ZERO;
     let k = k\<lparr>vmem := (vmem k)\<lparr>mem := m\<rparr>\<rparr>;
     if t = 0 then upd_thread k (running k) (\<lambda>th. th\<lparr>ret := TID_ERROR\<rparr>)
     else do {
       k \<leftarrow> init_thread k t nm prio;
       let (n, k) = allocate_tid k;
       k \<leftarrow> upd_thread k t (\<lambda>th. th\<lparr>tid := n\<rparr>);
       let (old_level, k) = k_disable k;
       k \<leftarrow> alloc_frame k t 12;
       k \<leftarrow> alloc_frame k t 4;
       k \<leftarrow> alloc_frame k t 28;
       k \<leftarrow> upd_thread k t (\<lambda>th. th\<lparr>work := [Start function aux]\<rparr>);
       k \<leftarrow> k_set_level k old_level;
       k \<leftarrow> upd_thread k t (\<lambda>th. th\<lparr>fd_num := 2\<rparr>);
       c \<leftarrow> thread_current k;
       k \<leftarrow> upd_thread k c (\<lambda>th. th\<lparr>child_tlist := child_tlist th @ [t]\<rparr>);
       k \<leftarrow> upd_thread k t (\<lambda>th. th\<lparr>sup_page_tab := spt_init ok\<rparr>);
       k \<leftarrow> thread_unblock k t;
       k \<leftarrow> upd_thread k (running k) (\<lambda>th. th\<lparr>ret := n\<rparr>);
       thread_yield k
     }
   }"

definition kernel_thread :: "'w kernel \<Rightarrow> u32 \<Rightarrow> u32 \<Rightarrow> 'w kernel option" where
  "kernel_thread k function aux = do {
     ASSERT (function \<noteq> 0);
     (_, s) \<leftarrow> intr_enable (irq k);
     push [if function = idle_fn k then Idle aux else Body function aux, Exit] (k\<lparr>irq := s\<rparr>)
   }"

definition idle :: "'w kernel \<Rightarrow> u32 \<Rightarrow> 'w kernel option" where
  "idle k idle_started = do {
     t \<leftarrow> thread_current k;
     push [Up (SemaAt idle_started), IdleLoop] (k\<lparr>idle_thread := t\<rparr>)
   }"

definition idle_loop :: "'w kernel \<Rightarrow> 'w kernel option" where
  "idle_loop k = do {
     let (_, k) = k_disable k;
     k \<leftarrow> push [IdleHalt] k;
     thread_block k
   }"

text \<open>\<open>sti; hlt\<close>\<close>

definition idle_halt :: "'w kernel \<Rightarrow> 'w kernel option" where
  "idle_halt k = push [IdleLoop] (k\<lparr>irq := (irq k)\<lparr>if_flag := True\<rparr>\<rparr>)"

definition thread_start :: "'w kernel \<Rightarrow> u32 \<Rightarrow> bool \<Rightarrow> 'w kernel option" where
  "thread_start k start_idle ok =
     push [Create [105, 100, 108, 101] (word_of_int PRI_MIN) (idle_fn k) start_idle ok, IntrSet INTR_ON, Down (SemaAt start_idle)]
       (sema_init k (SemaAt start_idle) 0)"

text \<open>\<open>pe\<close> is the work of \<open>process_exit\<close>.\<close>

definition thread_exit :: "'w work list \<Rightarrow> 'w kernel \<Rightarrow> 'w kernel option" where
  "thread_exit pe k = do {
     tc \<leftarrow> thread_current k;
     ASSERT (\<not> intr_context (irq k));
     push ((if userprog k then pe else []) @ [ExitChildren, Up (SemaWait tc), Down (SemaElim tc), ExitTail]) k
   }"

definition thread_exit_children :: "'w kernel \<Rightarrow> 'w kernel option" where
  "thread_exit_children k = do {
     tc \<leftarrow> threads k (running k);
     (case child_tlist tc of
        [] \<Rightarrow> Some k
      | c # cs \<Rightarrow> do {
          k \<leftarrow> upd_thread k (running k) (\<lambda>th. th\<lparr>child_tlist := cs\<rparr>);
          push [Up (SemaElim c), ExitChildren] k
        })
   }"

definition thread_exit_tail :: "'w kernel \<Rightarrow> 'w kernel option" where
  "thread_exit_tail k = do {
     let (_, k) = k_disable k;
     t \<leftarrow> thread_current k;
     let k = k\<lparr>all_list := remove1 t (all_list k)\<rparr>;
     t \<leftarrow> thread_current k;
     k \<leftarrow> upd_thread k t (\<lambda>th. th\<lparr>status := THREAD_DYING\<rparr>);
     schedule k
   }"

end
