(* ===== verification/Timer.thy ===== *)
theory Timer
  imports Synch
begin

text \<open>
  The clock: \<open>devices/timer.c\<close>, the tick processing of \<open>threads/thread.c\<close> (statistics, the
  feedback-queue scheduler, time slices, aging), the dispatch of interrupts in
  \<open>threads/interrupt.c\<close>, and the step relation of the kernel, in which threads run their
  pending work and interrupts arrive whenever they are enabled.
\<close>

section \<open>The feedback-queue scheduler\<close>

text \<open>The number of threads that are ready or running, the idle thread left out.\<close>

fun ready_threads :: "'w kernel \<Rightarrow> tptr list \<Rightarrow> nat option" where
  "ready_threads k [] = Some 0"
| "ready_threads k (t # ts) = do {
     th \<leftarrow> threads k t;
     n \<leftarrow> ready_threads k ts;
     Some (if t \<noteq> idle_thread k \<and> (status th = THREAD_READY \<or> status th = THREAD_RUNNING) then n + 1 else n)
   }"

definition new_load_avg :: "i32 \<Rightarrow> nat \<Rightarrow> i32 option" where
  "new_load_avg avg n = do {
     c59 \<leftarrow> div_FP_to_FP (int_to_FP 59) (int_to_FP 60);
     let avg = mul_FP_to_FP c59 avg;
     c1 \<leftarrow> div_FP_to_FP (int_to_FP 1) (int_to_FP 60);
     Some (add_FP_to_FP avg (mul_FP_to_FP c1 (int_to_FP (word_of_nat n))))
   }"

definition new_recent_cpu :: "i32 \<Rightarrow> 'w thread \<Rightarrow> i32 option" where
  "new_recent_cpu double_load_avg th = do {
     r \<leftarrow> div_FP_to_FP double_load_avg (add_FP_to_FP double_load_avg (int_to_FP 1));
     let r = mul_FP_to_FP r (recent_cpu th);
     Some (add_FP_to_FP r (int_to_FP (nice th)))
   }"

definition new_priority :: "'w thread \<Rightarrow> i32 option" where
  "new_priority th = do {
     let p = int_to_FP (word_of_int PRI_MAX);
     q \<leftarrow> div_FP_to_FP (recent_cpu th) (int_to_FP 4);
     let p = sub_FP_to_FP p q;
     let p = sub_FP_to_FP p (int_to_FP (nice th * 2));
     let p = FP_to_int_round_off p;
     let p = (if sint p > PRI_MAX then word_of_int PRI_MAX else p);
     let p = (if sint p < PRI_MIN then word_of_int PRI_MIN else p);
     Some p
   }"

fun update_recent_cpus :: "i32 \<Rightarrow> tptr list \<Rightarrow> 'w kernel \<Rightarrow> 'w kernel option" where
  "update_recent_cpus double_load_avg [] k = Some k"
| "update_recent_cpus double_load_avg (t # ts) k = do {
     th \<leftarrow> threads k t;
     r \<leftarrow> new_recent_cpu double_load_avg th;
     k \<leftarrow> upd_thread k t (\<lambda>th. th\<lparr>recent_cpu := r\<rparr>);
     update_recent_cpus double_load_avg ts k
   }"

fun update_priorities :: "tptr list \<Rightarrow> 'w kernel \<Rightarrow> 'w kernel option" where
  "update_priorities [] k = Some k"
| "update_priorities (t # ts) k = do {
     th \<leftarrow> threads k t;
     p \<leftarrow> new_priority th;
     k \<leftarrow> upd_thread k t (\<lambda>th. th\<lparr>priority := p\<rparr>);
     update_priorities ts k
   }"

definition mlfqs_tick :: "'w kernel \<Rightarrow> tptr \<Rightarrow> 'w kernel option" where
  "mlfqs_tick k t = do {
     let cur_ticks = ticks k;
     let (old_level, k) = k_disable k;
     k \<leftarrow> (if t \<noteq> idle_thread k
           then upd_thread k t (\<lambda>th. th\<lparr>recent_cpu := add_FP_to_FP (recent_cpu th) (int_to_FP 1)\<rparr>) else Some k);
     k \<leftarrow> (if sint cur_ticks mod TIMER_FREQ = 0
           then do {
             n \<leftarrow> ready_threads k (all_list k);
             avg \<leftarrow> new_load_avg (load_avg k) n;
             let k = k\<lparr>load_avg := avg\<rparr>;
             let double_load_avg = mul_FP_to_FP avg (int_to_FP 2);
             update_recent_cpus double_load_avg (all_list k) k
           }
           else Some k);
     k \<leftarrow> (if sint cur_ticks mod int TIME_SLICE = 0 then update_priorities (all_list k) k else Some k);
     k_set_level k old_level
   }"

section \<open>Ticks\<close>

fun age_threads :: "tptr list \<Rightarrow> 'w kernel \<Rightarrow> 'w kernel option" where
  "age_threads [] k = Some k"
| "age_threads (t # ts) k = do {
     th \<leftarrow> threads k t;
     let p = priority th + 1;
     let p = (if sint p > PRI_MAX then word_of_int PRI_MAX else p);
     k \<leftarrow> upd_thread k t (\<lambda>th. th\<lparr>priority := p\<rparr>);
     age_threads ts k
   }"

definition thread_aging :: "'w kernel \<Rightarrow> 'w kernel option" where
  "thread_aging k = do {
     let k = k\<lparr>aging_ticks := aging_ticks k + 1\<rparr>;
     if thread_prior_aging k \<and> aging_ticks k = word_of_nat (TIME_SLICE * 100)
     then do { k \<leftarrow> age_threads (ready_list k) k; Some (k\<lparr>aging_ticks := 0\<rparr>) }
     else Some k
   }"

definition thread_tick :: "'w kernel \<Rightarrow> 'w kernel option" where
  "thread_tick k = do {
     t \<leftarrow> thread_current k;
     th \<leftarrow> threads k t;
     let k = (if t = idle_thread k then k\<lparr>idle_ticks := idle_ticks k + 1\<rparr>
              else if userprog k \<and> pagedir th \<noteq> 0 then k\<lparr>user_ticks := user_ticks k + 1\<rparr>
              else k\<lparr>kernel_ticks := kernel_ticks k + 1\<rparr>);
     k \<leftarrow> (if thread_mlfqs k then mlfqs_tick k t else Some k);
     let k = k\<lparr>thread_ticks := thread_ticks k + 1\<rparr>;
     k \<leftarrow> (if thread_ticks k \<ge> word_of_nat TIME_SLICE
           then do { s \<leftarrow> intr_yield_on_return (irq k); Some (k\<lparr>irq := s\<rparr>) } else Some k);
     if \<not> userprog k \<and> thread_prior_aging k then thread_aging k else Some k
   }"

definition timer_ticks :: "'w kernel \<Rightarrow> (i64 \<times> 'w kernel) option" where
  "timer_ticks k = do {
     let (old_level, k) = k_disable k;
     let t = ticks k;
     k \<leftarrow> k_set_level k old_level;
     Some (t, k)
   }"

definition timer_elapsed :: "'w kernel \<Rightarrow> i64 \<Rightarrow> (i64 \<times> 'w kernel) option" where
  "timer_elapsed k since = do { (t, k) \<leftarrow> timer_ticks k; Some (t - since, k) }"

definition timer_sleep :: "'w kernel \<Rightarrow> i64 \<Rightarrow> 'w kernel option" where
  "timer_sleep k n = do {
     (start, k) \<leftarrow> timer_ticks k;
     ASSERT (intr_get_level (irq k) = INTR_ON);
     let (old_level, k) = k_disable k;
     k \<leftarrow> push [IntrSet old_level] k;
     thread_sleep k (start + n)
   }"

definition timer_interrupt :: "'w kernel \<Rightarrow> 'w kernel option" where
  "timer_interrupt k = do {
     let k = k\<lparr>ticks := ticks k + 1\<rparr>;
     k \<leftarrow> thread_tick k;
     let (old_level, k) = k_disable k;
     k \<leftarrow> thread_wake_up k (ticks k);
     k_set_level k old_level
   }"

section \<open>Sub-tick delays\<close>

text \<open>
  \<open>real_time_sleep\<close> decides between sleeping for whole ticks and spinning for a number of
  loops; the quotients are signed 64-bit ones.
\<close>

datatype delay = SleepTicks i64 | BusyWait i64

definition real_time_delay :: "u32 \<Rightarrow> i64 \<Rightarrow> i32 \<Rightarrow> i64 option" where
  "real_time_delay loops_per_tick num denom = do {
     ASSERT (sint denom smod 1000 = 0);
     a \<leftarrow> divdi3 (ucast loops_per_tick * num) 1000;
     divdi3 (a * word_of_int TIMER_FREQ) (word_of_int (sint denom sdiv 1000))
   }"

definition real_time_sleep :: "intr_level \<Rightarrow> u32 \<Rightarrow> i64 \<Rightarrow> i32 \<Rightarrow> delay option" where
  "real_time_sleep level loops_per_tick num denom = do {
     n \<leftarrow> divdi3 (num * word_of_int TIMER_FREQ) (word_of_int (sint denom));
     ASSERT (level = INTR_ON);
     if sint n > 0 then Some (SleepTicks n)
     else do { l \<leftarrow> real_time_delay loops_per_tick num denom; Some (BusyWait l) }
   }"

definition timer_msleep :: "intr_level \<Rightarrow> u32 \<Rightarrow> i64 \<Rightarrow> delay option" where
  "timer_msleep level lpt ms = real_time_sleep level lpt ms 1000"

definition timer_usleep :: "intr_level \<Rightarrow> u32 \<Rightarrow> i64 \<Rightarrow> delay option" where
  "timer_usleep level lpt us = real_time_sleep level lpt us (1000 * 1000)"

definition timer_nsleep :: "intr_level \<Rightarrow> u32 \<Rightarrow> i64 \<Rightarrow> delay option" where
  "timer_nsleep level lpt ns = real_time_sleep level lpt ns (1000 * 1000 * 1000)"

definition timer_mdelay :: "u32 \<Rightarrow> i64 \<Rightarrow> i64 option" where
  "timer_mdelay lpt ms = real_time_delay lpt ms 1000"

definition timer_udelay :: "u32 \<Rightarrow> i64 \<Rightarrow> i64 option" where
  "timer_udelay lpt us = real_time_delay lpt us (1000 * 1000)"

definition timer_ndelay :: "u32 \<Rightarrow> i64 \<Rightarrow> i64 option" where
  "timer_ndelay lpt ns = real_time_delay lpt ns (1000 * 1000 * 1000)"

text \<open>
  Calibration, with the clock as the predicate \<open>too_many_loops\<close>: doubling, until twice the
  value is too much, and then the refinement by the next lower bits.
\<close>

fun calibrate_double :: "(u32 \<Rightarrow> bool) \<Rightarrow> nat \<Rightarrow> u32 \<Rightarrow> u32 option" where
  "calibrate_double too_many 0 lpt = None"
| "calibrate_double too_many (Suc n) lpt =
     (if \<not> too_many (push_bit 1 lpt)
      then do { let lpt = push_bit 1 lpt; ASSERT (lpt \<noteq> 0); calibrate_double too_many n lpt }
      else Some lpt)"

fun calibrate_refine :: "(u32 \<Rightarrow> bool) \<Rightarrow> nat \<Rightarrow> u32 \<Rightarrow> u32 \<Rightarrow> u32 \<Rightarrow> u32" where
  "calibrate_refine too_many 0 high_bit test_bit lpt = lpt"
| "calibrate_refine too_many (Suc n) high_bit test_bit lpt =
     (if test_bit \<noteq> drop_bit 10 high_bit
      then calibrate_refine too_many n high_bit (drop_bit 1 test_bit)
             (if \<not> too_many (high_bit OR test_bit) then lpt OR test_bit else lpt)
      else lpt)"

text \<open>The doubled value leaves the 32-bit range after 22 rounds; nine bits are refined.\<close>

definition timer_calibrate :: "intr_level \<Rightarrow> (u32 \<Rightarrow> bool) \<Rightarrow> u32 option" where
  "timer_calibrate level too_many = do {
     ASSERT (level = INTR_ON);
     lpt \<leftarrow> calibrate_double too_many 23 (push_bit 10 1);
     Some (calibrate_refine too_many 32 lpt (drop_bit 1 lpt) lpt)
   }"

section \<open>Interrupt dispatch\<close>

text \<open>\<open>call\<close> gives the effect of the handler at an address.\<close>

definition intr_handler :: "(u32 \<Rightarrow> nat \<Rightarrow> 'w kernel \<Rightarrow> 'w kernel option) \<Rightarrow> 'w kernel \<Rightarrow> nat \<Rightarrow> 'w kernel option" where
  "intr_handler call k vec_no = do {
     let external = (0x20 \<le> vec_no \<and> vec_no < 0x30);
     k \<leftarrow> (if external
           then do {
             ASSERT (intr_get_level (irq k) = INTR_OFF);
             ASSERT (\<not> intr_context (irq k));
             Some (k\<lparr>irq := (irq k)\<lparr>in_external_intr := True, yield_on_return := False\<rparr>\<rparr>)
           }
           else Some k);
     ASSERT (vec_no < length (intr_handlers (irq k)));
     let handler = intr_handlers (irq k) ! vec_no;
     k \<leftarrow> (if handler \<noteq> 0 then call handler vec_no k
           else if vec_no = 0x27 \<or> vec_no = 0x2f then Some k
           else do { (_, s) \<leftarrow> unexpected_interrupt (irq k) vec_no; Some (k\<lparr>irq := s\<rparr>) });
     if external
     then do {
       ASSERT (intr_get_level (irq k) = INTR_OFF);
       ASSERT (intr_context (irq k));
       let k = k\<lparr>irq := (irq k)\<lparr>in_external_intr := False\<rparr>\<rparr>;
       s \<leftarrow> pic_end_of_interrupt (irq k) vec_no;
       let k = k\<lparr>irq := s\<rparr>;
       if yield_on_return (irq k) then thread_yield k else Some k
     }
     else Some k
   }"

text \<open>
  An external interrupt enters through its gate with interrupts disabled; the return
  instruction, which enables them again, is pending work of the interrupted thread.
\<close>

definition external_interrupt :: "(u32 \<Rightarrow> nat \<Rightarrow> 'w kernel \<Rightarrow> 'w kernel option) \<Rightarrow> 'w kernel \<Rightarrow> nat \<Rightarrow> 'w kernel option" where
  "external_interrupt call k vec_no = do {
     k \<leftarrow> push [Iret] (k\<lparr>irq := (irq k)\<lparr>if_flag := False\<rparr>\<rparr>);
     intr_handler call k vec_no
   }"

end
