(* ===== verification/Page_Source.thy ===== *)
theory Page_Source
  imports Palloc
begin

text \<open>
  The page allocator as its clients see it: a source of single pages.  A page handed out
  was not live before, a page given back is live no more, and nothing else changes.
\<close>

locale page_source =
  fixes inv :: "'m \<Rightarrow> bool"
    and region :: "'m \<Rightarrow> u32 set"
    and live :: "'m \<Rightarrow> u32 set"
    and get :: "'m \<Rightarrow> u32 \<Rightarrow> (u32 \<times> 'm) option"
    and free :: "'m \<Rightarrow> u32 \<Rightarrow> 'm option"
  assumes get_law: "inv m \<Longrightarrow> flags AND PAL_ASSERT = 0 \<Longrightarrow> \<exists>p m'. get m flags = Some (p, m') \<and> inv m' \<and> region m' = region m \<and>
      (if p = 0 then m' = m else p \<in> region m - live m \<and> live m' = insert p (live m))"
    and free_law: "inv m \<Longrightarrow> p \<in> live m \<Longrightarrow> \<exists>m'. free m p = Some m' \<and> inv m' \<and> region m' = region m \<and> live m' = live m - {p}"
    and region_page: "inv m \<Longrightarrow> p \<in> region m \<Longrightarrow> p \<noteq> 0 \<and> pg_ofs p = 0 \<and> is_kernel_vaddr p"
    and live_region: "live m \<subseteq> region m"
begin

lemma get_cases:
  assumes "inv m" and "flags AND PAL_ASSERT = 0"
  obtains "get m flags = Some (0, m)"
  | p m' where "get m flags = Some (p, m')" and "p \<noteq> 0" and "inv m'" and "region m' = region m"
      and "p \<in> region m" and "p \<notin> live m" and "live m' = insert p (live m)"
proof -
  obtain p m' where g: "get m flags = Some (p, m')" "inv m'" "region m' = region m"
      "if p = 0 then m' = m else p \<in> region m - live m \<and> live m' = insert p (live m)"
    using get_law [OF assms] by blast
  show thesis
    using that g by (cases "p = 0") auto
qed

lemma get_free:
  assumes "inv m" and "flags AND PAL_ASSERT = 0" and "get m flags = Some (p, m')" and "p \<noteq> 0"
  shows "\<exists>m''. free m' p = Some m'' \<and> inv m'' \<and> live m'' = live m"
proof -
  have "inv m'" "p \<notin> live m" "live m' = insert p (live m)"
    using get_law [OF assms(1,2)] assms(3,4) by auto
  then show ?thesis
    using free_law [of m' p] by auto
qed

end

definition live_slots :: "palloc_state \<Rightarrow> (bool \<times> nat) set" where
  "live_slots m = {(u, i). i < bit_cnt (used_map (get_pool m u)) \<and> i \<in> used (used_map (get_pool m u))}"

definition slot_page :: "palloc_state \<Rightarrow> bool \<times> nat \<Rightarrow> u32" where
  "slot_page m = (\<lambda>(u, i). page_at (get_pool m u) i)"

definition live_pages :: "palloc_state \<Rightarrow> u32 set" where
  "live_pages m = slot_page m ` live_slots m"

definition pool_pages :: "palloc_state \<Rightarrow> u32 set" where
  "pool_pages m = slot_page m ` {(u, i). i < bit_cnt (used_map (get_pool m u))}"

lemma slot_page_inj:
  assumes "wf_palloc m"
  shows "inj_on (slot_page m) {(u, i). i < bit_cnt (used_map (get_pool m u))}"
proof (rule inj_onI, clarify)
  fix u i v j
  assume "i < bit_cnt (used_map (get_pool m u))" "j < bit_cnt (used_map (get_pool m v))" "slot_page m (u, i) = slot_page m (v, j)"
  then show "u = v \<and> i = j"
    by (intro page_at_inj [OF assms]) (simp_all add: slot_page_def)
qed

lemma live_pages_update:
  assumes wf: "wf_palloc m" "wf_palloc m'" and i: "i < bit_cnt (used_map (get_pool m u))"
    and other: "get_pool m' (\<not> u) = get_pool m (\<not> u)" and base: "pool_base (get_pool m' u) = pool_base (get_pool m u)"
    and cnt: "bit_cnt (used_map (get_pool m' u)) = bit_cnt (used_map (get_pool m u))"
  shows "used (used_map (get_pool m' u)) = used (used_map (get_pool m u)) \<union> {i..<i + 1} \<Longrightarrow>
      live_pages m' = insert (page_at (get_pool m u) i) (live_pages m)"
    and "used (used_map (get_pool m' u)) = used (used_map (get_pool m u)) - {i..<i + 1} \<Longrightarrow>
      live_pages m' = live_pages m - {page_at (get_pool m u) i}"
    and "page_at (get_pool m u) i \<in> live_pages m \<longleftrightarrow> i \<in> used (used_map (get_pool m u))"
    and "pool_pages m' = pool_pages m" and "page_at (get_pool m u) i \<in> pool_pages m"
proof -
  let ?A = "{(u, i). i < bit_cnt (used_map (get_pool m u))}"
  have at: "page_at (get_pool m' v) j = page_at (get_pool m v) j" and ct: "bit_cnt (used_map (get_pool m' v)) = bit_cnt (used_map (get_pool m v))" for v j
    using other base cnt by (cases "v = u"; simp add: page_at_def)+
  have sp: "slot_page m' = slot_page m" "slot_page m (u, i) = page_at (get_pool m u) i"
    by (auto simp: slot_page_def fun_eq_iff at)
  have us: "v \<noteq> u \<Longrightarrow> used (used_map (get_pool m' v)) = used (used_map (get_pool m v))" for v
    using other by (cases u; cases v) simp_all
  have sub: "live_slots m \<subseteq> ?A" "(u, i) \<in> ?A"
    using i by (auto simp: live_slots_def)
  show "live_pages m' = insert (page_at (get_pool m u) i) (live_pages m)"
    if a: "used (used_map (get_pool m' u)) = used (used_map (get_pool m u)) \<union> {i..<i + 1}"
  proof -
    have "(v, j) \<in> live_slots m' \<longleftrightarrow> (v, j) \<in> insert (u, i) (live_slots m)" for v j
      using a us [of v] i by (cases "v = u") (auto simp: live_slots_def ct)
    then have "live_slots m' = insert (u, i) (live_slots m)"
      by (metis set_eqI surj_pair)
    then show ?thesis
      using sp by (simp add: live_pages_def)
  qed
  show "live_pages m' = live_pages m - {page_at (get_pool m u) i}"
    if a: "used (used_map (get_pool m' u)) = used (used_map (get_pool m u)) - {i..<i + 1}"
  proof -
    have "(v, j) \<in> live_slots m' \<longleftrightarrow> (v, j) \<in> live_slots m - {(u, i)}" for v j
      using a us [of v] i by (cases "v = u") (auto simp: live_slots_def ct)
    then have "live_slots m' = live_slots m - {(u, i)}"
      by (metis set_eqI surj_pair)
    then show ?thesis
      using sp inj_on_image_set_diff [OF slot_page_inj [OF wf(1)], of "live_slots m" "{(u, i)}"] sub
      by (auto simp: live_pages_def)
  qed
  show "page_at (get_pool m u) i \<in> live_pages m \<longleftrightarrow> i \<in> used (used_map (get_pool m u))"
    using inj_on_image_mem_iff [OF slot_page_inj [OF wf(1)] sub(2,1)] i sp(2) by (simp add: live_pages_def) (simp add: live_slots_def)
  show "pool_pages m' = pool_pages m" and "page_at (get_pool m u) i \<in> pool_pages m"
    using sub(2) unfolding pool_pages_def sp(1) sp(2) [symmetric] ct by blast+
qed

lemma palloc_get_page_law:
  assumes "wf_palloc m" and "flags AND PAL_ASSERT = 0"
  shows "\<exists>p m'. palloc_get_page m flags = Some (p, m') \<and> wf_palloc m' \<and> pool_pages m' = pool_pages m \<and>
    (if p = 0 then m' = m else p \<in> pool_pages m - live_pages m \<and> live_pages m' = insert p (live_pages m))"
proof -
  define u where "u = (flags AND PAL_USER \<noteq> 0)"
  note sp = palloc_get_spec [OF assms(1) zero_less_one, of flags, folded u_def]
  show ?thesis
  proof (cases "\<exists>i. free_range m u i 1")
    case True
    then obtain i m' where g: "palloc_get_multiple m flags 1 = Some (page_at (get_pool m u) i, m')" "wf_palloc m'" "free_range m u i 1"
        "get_pool m' (\<not> u) = get_pool m (\<not> u)" "pool_base (get_pool m' u) = pool_base (get_pool m u)"
        "bit_cnt (used_map (get_pool m' u)) = bit_cnt (used_map (get_pool m u))"
        "used (used_map (get_pool m' u)) = used (used_map (get_pool m u)) \<union> {i..<i + 1}"
      using sp by auto
    have i: "i < bit_cnt (used_map (get_pool m u))" "i \<notin> used (used_map (get_pool m u))"
      using g(3) by (auto simp: free_range_def)
    note l = live_pages_update [OF assms(1) g(2) i(1) g(4-6)]
    show ?thesis
      unfolding palloc_get_page_def using g(1,2) l(1) [OF g(7)] l(3-5) i(2) page_at_facts(1) [OF wf_get_pool [OF assms(1)] i(1)] by auto
  next
    case False
    then show ?thesis
      unfolding palloc_get_page_def using sp assms by simp
  qed
qed

lemma palloc_free_page_law:
  assumes "wf_palloc m" and "p \<in> live_pages m"
  shows "\<exists>m'. palloc_free_page m p = Some m' \<and> wf_palloc m' \<and> pool_pages m' = pool_pages m \<and> live_pages m' = live_pages m - {p}"
proof -
  obtain u i where p: "i < bit_cnt (used_map (get_pool m u))" "i \<in> used (used_map (get_pool m u))" "p = page_at (get_pool m u) i"
    using assms(2) by (auto simp: live_pages_def live_slots_def slot_page_def)
  have le: "i + 1 \<le> bit_cnt (used_map (get_pool m u))" and us: "{i..<i + 1} \<subseteq> used (used_map (get_pool m u))"
    using p by auto
  obtain m' where "palloc_free_multiple m (page_at (get_pool m u) i) 1 = Some m'" "wf_palloc m'"
      "get_pool m' (\<not> u) = get_pool m (\<not> u)" "pool_base (get_pool m' u) = pool_base (get_pool m u)"
      "bit_cnt (used_map (get_pool m' u)) = bit_cnt (used_map (get_pool m u))"
      "used (used_map (get_pool m' u)) = used (used_map (get_pool m u)) - {i..<i + 1}"
    using palloc_free_spec [OF assms(1) zero_less_one le us] by blast
  then show ?thesis
    unfolding palloc_free_page_def p(3) using live_pages_update(2,4) [OF assms(1) _ p(1)] by blast
qed

interpretation pages: page_source wf_palloc pool_pages live_pages palloc_get_page palloc_free_page
proof unfold_locales
  show "p \<noteq> 0 \<and> pg_ofs p = 0 \<and> is_kernel_vaddr p" if "wf_palloc m" and "p \<in> pool_pages m" for m p
    using that page_at_facts [OF wf_get_pool [OF that(1)]] by (auto simp: pool_pages_def slot_page_def)
  show "live_pages m \<subseteq> pool_pages m" for m
    by (auto simp: live_pages_def pool_pages_def live_slots_def)
qed (rule palloc_get_page_law palloc_free_page_law; assumption)+

end
