(* ===== verification/Sched_Inv.thy ===== *)
theory Sched_Inv
  imports Timer Page_Source
begin

text \<open>
  The scheduler's invariant: every thread is in at most one queue, the queue fits its
  status, a ready thread is queued, and only the running thread has the status running.
  It is stated on the statuses and the queues alone, so that each scheduling operation is
  a function update; the operations of the kernel are then shown to keep it.
\<close>

section \<open>Statuses and queues\<close>

datatype queue_id = Ready | Sleeping | Waiters sema_ref

fun queue_status :: "queue_id \<Rightarrow> thread_status" where
  "queue_status Ready = THREAD_READY"
| "queue_status Sleeping = THREAD_BLOCKED"
| "queue_status (Waiters s) = THREAD_BLOCKED"

lemma queue_status_iff: "queue_status q = THREAD_READY \<longleftrightarrow> q = Ready" "queue_status q \<noteq> THREAD_RUNNING" "queue_status q \<noteq> THREAD_DYING"
  "queue_status q = THREAD_BLOCKED \<longleftrightarrow> q \<noteq> Ready"
  by (cases q; simp)+

definition qinv :: "(tptr \<Rightarrow> thread_status option) \<Rightarrow> (queue_id \<Rightarrow> tptr list) \<Rightarrow> tptr \<Rightarrow> tptr \<Rightarrow> bool" where
  "qinv st Q r i \<longleftrightarrow>
     (\<forall>q. distinct (Q q))
     \<and> (\<forall>q q' t. t \<in> set (Q q) \<longrightarrow> t \<in> set (Q q') \<longrightarrow> q = q')
     \<and> (\<forall>q t. t \<in> set (Q q) \<longrightarrow> t \<noteq> i \<and> st t = Some (queue_status q))
     \<and> (\<forall>t. st t = Some THREAD_READY \<longrightarrow> t \<in> set (Q Ready) \<or> t = i)
     \<and> (\<forall>t. st t = Some THREAD_RUNNING \<longrightarrow> t = r)
     \<and> (i \<noteq> 0 \<longrightarrow> st i \<noteq> None \<and> st i \<noteq> Some THREAD_DYING)"

lemma qinv_distinct: "qinv st Q r i \<Longrightarrow> distinct (Q q)"
  and qinv_unique: "qinv st Q r i \<Longrightarrow> t \<in> set (Q q) \<Longrightarrow> t \<in> set (Q q') \<Longrightarrow> q = q'"
  and qinv_status: "qinv st Q r i \<Longrightarrow> t \<in> set (Q q) \<Longrightarrow> st t = Some (queue_status q)"
  and qinv_not_idle: "qinv st Q r i \<Longrightarrow> t \<in> set (Q q) \<Longrightarrow> t \<noteq> i"
  and qinv_ready: "qinv st Q r i \<Longrightarrow> st t = Some THREAD_READY \<Longrightarrow> t \<in> set (Q Ready) \<or> t = i"
  and qinv_running: "qinv st Q r i \<Longrightarrow> st t = Some THREAD_RUNNING \<Longrightarrow> t = r"
  and qinv_idle: "qinv st Q r i \<Longrightarrow> i \<noteq> 0 \<Longrightarrow> st i \<noteq> None \<and> st i \<noteq> Some THREAD_DYING"
  unfolding qinv_def by blast+

lemma qinv_running_unqueued:
  "qinv st Q r i \<Longrightarrow> st t = Some THREAD_RUNNING \<or> st t = Some THREAD_DYING \<or> st t = None \<Longrightarrow> t \<notin> set (Q q)"
  using qinv_status [of st Q r i t q] queue_status_iff(2,3) [of q] by auto

lemma qinvI:
  assumes "\<And>q. distinct (Q q)" and "\<And>q q' t. t \<in> set (Q q) \<Longrightarrow> t \<in> set (Q q') \<Longrightarrow> q = q'"
    and "\<And>q t. t \<in> set (Q q) \<Longrightarrow> t \<noteq> i \<and> st t = Some (queue_status q)"
    and "\<And>t. st t = Some THREAD_READY \<Longrightarrow> t \<in> set (Q Ready) \<or> t = i"
    and "\<And>t. st t = Some THREAD_RUNNING \<Longrightarrow> t = r"
    and "i \<noteq> 0 \<Longrightarrow> st i \<noteq> None \<and> st i \<noteq> Some THREAD_DYING"
  shows "qinv st Q r i"
  using assms unfolding qinv_def by blast

text \<open>The running thread enters a queue, with the status that belongs to it.\<close>

lemma distinct_seq_insert [simp]: "distinct (seq_insert lt t xs) \<longleftrightarrow> t \<notin> set xs \<and> distinct xs"
  by (metis distinct.simps(2) mset.simps(2) mset_eq_imp_distinct_iff mset_seq_insert)

lemma qinv_enqueue:
  assumes inv: "qinv st Q r i" and new: "\<And>q. t \<notin> set (Q q)" and "t \<noteq> i"
  shows "qinv (st(t \<mapsto> queue_status q)) (Q(q := seq_insert lt t (Q q))) r i"
proof -
  let ?Q = "Q(q := seq_insert lt t (Q q))"
  have m: "u \<in> set (?Q p) \<longleftrightarrow> u \<in> set (Q p) \<or> p = q \<and> u = t" for u p
    by auto
  show ?thesis
  proof (rule qinvI)
    show "distinct (?Q p)" for p
      using qinv_distinct [OF inv] new by simp
    show "p = p'" if "u \<in> set (?Q p)" "u \<in> set (?Q p')" for p p' u
      using that new qinv_unique [OF inv] unfolding m by blast
    show "u \<noteq> i \<and> (st(t \<mapsto> queue_status q)) u = Some (queue_status p)" if "u \<in> set (?Q p)" for p u
      using that new qinv_status [OF inv, of u p] qinv_not_idle [OF inv, of u p] assms(3) unfolding m by auto
    show "u \<in> set (?Q Ready) \<or> u = i" if "(st(t \<mapsto> queue_status q)) u = Some THREAD_READY" for u
      using that qinv_ready [OF inv, of u] queue_status_iff(1) [of q] unfolding m by (auto split: if_splits)
    show "u = r" if "(st(t \<mapsto> queue_status q)) u = Some THREAD_RUNNING" for u
      using that qinv_running [OF inv, of u] queue_status_iff(2) [of q] by (auto split: if_splits)
    show "(st(t \<mapsto> queue_status q)) i \<noteq> None \<and> (st(t \<mapsto> queue_status q)) i \<noteq> Some THREAD_DYING" if "i \<noteq> 0"
      using that qinv_idle [OF inv] assms(3) by simp
  qed
qed

lemma qinv_set_status:
  assumes "qinv st Q r i" and "\<And>q. t \<notin> set (Q q)"
    and "s = THREAD_READY \<Longrightarrow> t = i" and "s = THREAD_RUNNING \<Longrightarrow> t = r" and "s = THREAD_DYING \<Longrightarrow> t \<noteq> i"
  shows "qinv (st(t \<mapsto> s)) Q r i"
proof (rule qinvI)
  note inv = assms(1)
  show "distinct (Q p)" for p
    by (rule qinv_distinct [OF inv])
  show "p = p'" if "u \<in> set (Q p)" "u \<in> set (Q p')" for p p' u
    by (rule qinv_unique [OF inv that])
  show "u \<noteq> i \<and> (st(t \<mapsto> s)) u = Some (queue_status p)" if "u \<in> set (Q p)" for p u
    using that assms(2) qinv_status [OF inv that] qinv_not_idle [OF inv that] by auto
  show "u \<in> set (Q Ready) \<or> u = i" if "(st(t \<mapsto> s)) u = Some THREAD_READY" for u
    using that assms(3) qinv_ready [OF inv, of u] by (auto split: if_splits)
  show "u = r" if "(st(t \<mapsto> s)) u = Some THREAD_RUNNING" for u
    using that assms(4) qinv_running [OF inv, of u] by (auto split: if_splits)
  show "(st(t \<mapsto> s)) i \<noteq> None \<and> (st(t \<mapsto> s)) i \<noteq> Some THREAD_DYING" if "i \<noteq> 0"
    using qinv_idle [OF inv that] assms(5) by auto
qed

lemma qinv_forget:
  assumes "qinv st Q r i" and "\<And>q. t \<notin> set (Q q)" and "t \<noteq> i"
  shows "qinv (st(t := None)) Q r i"
  using assms unfolding qinv_def by auto

text \<open>The scheduler takes the first ready thread, or the idle thread.\<close>

lemma qinv_dequeue:
  assumes inv: "qinv st Q r i" and t: "Q q = t # ts"
  shows "\<And>p. t \<notin> set ((Q(q := ts)) p)" and "t \<noteq> i" and "\<And>u p. u \<in> set ((Q(q := ts)) p) \<longleftrightarrow> u \<in> set (Q p) \<and> u \<noteq> t"
    and "\<And>p. distinct ((Q(q := ts)) p)"
proof -
  have mem: "t \<in> set (Q q)" "t \<notin> set ts" "distinct ts"
    using t qinv_distinct [OF inv, of q] by simp_all
  show n: "t \<notin> set ((Q(q := ts)) p)" for p
    using mem qinv_unique [OF inv mem(1), of p] by auto
  show "u \<in> set ((Q(q := ts)) p) \<longleftrightarrow> u \<in> set (Q p) \<and> u \<noteq> t" for u p
    using t n [of p] by (cases "p = q") auto
  show "t \<noteq> i"
    using qinv_not_idle [OF inv mem(1)] .
  show "distinct ((Q(q := ts)) p)" for p
    using mem(3) qinv_distinct [OF inv] by simp
qed

lemma qinv_dispatch:
  assumes inv: "qinv st Q r i" and "st r \<noteq> Some THREAD_RUNNING" and t: "Q Ready = t # ts"
  shows "qinv (st(t \<mapsto> THREAD_RUNNING)) (Q(Ready := ts)) t i"
proof (rule qinvI)
  note d = qinv_dequeue [OF inv t]
  show "distinct ((Q(Ready := ts)) p)" for p
    by (rule d(4))
  show "p = p'" if "u \<in> set ((Q(Ready := ts)) p)" "u \<in> set ((Q(Ready := ts)) p')" for p p' u
    using that qinv_unique [OF inv] unfolding d(3) by blast
  show "u \<noteq> i \<and> (st(t \<mapsto> THREAD_RUNNING)) u = Some (queue_status p)" if "u \<in> set ((Q(Ready := ts)) p)" for p u
    using that qinv_status [OF inv, of u p] qinv_not_idle [OF inv, of u p] unfolding d(3) by simp
  show "u \<in> set ((Q(Ready := ts)) Ready) \<or> u = i" if "(st(t \<mapsto> THREAD_RUNNING)) u = Some THREAD_READY" for u
    using that qinv_ready [OF inv, of u] unfolding d(3) by (auto split: if_splits)
  show "u = t" if "(st(t \<mapsto> THREAD_RUNNING)) u = Some THREAD_RUNNING" for u
    using that qinv_running [OF inv, of u] assms(2) by (auto split: if_splits)
  show "(st(t \<mapsto> THREAD_RUNNING)) i \<noteq> None \<and> (st(t \<mapsto> THREAD_RUNNING)) i \<noteq> Some THREAD_DYING" if "i \<noteq> 0"
    using that qinv_idle [OF inv] by simp
qed

lemma qinv_dispatch_idle:
  assumes "qinv st Q r i" and "st r \<noteq> Some THREAD_RUNNING" and "Q Ready = []" and "i \<noteq> 0"
  shows "qinv (st(i \<mapsto> THREAD_RUNNING)) Q i i"
  using assms unfolding qinv_def by auto

text \<open>A thread is taken out of the queue it waits in and becomes ready.\<close>

lemma qinv_wake:
  assumes inv: "qinv st Q r i" and "q \<noteq> Ready" and t: "Q q = t # ts"
  shows "qinv (st(t \<mapsto> THREAD_READY)) (Q(q := ts, Ready := seq_insert lt t (Q Ready))) r i"
proof -
  note d = qinv_dequeue [OF inv t]
  have "qinv (st(t \<mapsto> THREAD_BLOCKED)) (Q(q := ts)) r i"
  proof (rule qinvI)
    show "distinct ((Q(q := ts)) p)" for p
      by (rule d(4))
    show "p = p'" if "u \<in> set ((Q(q := ts)) p)" "u \<in> set ((Q(q := ts)) p')" for p p' u
      using that qinv_unique [OF inv] unfolding d(3) by blast
    show "u \<noteq> i \<and> (st(t \<mapsto> THREAD_BLOCKED)) u = Some (queue_status p)" if "u \<in> set ((Q(q := ts)) p)" for p u
      using that qinv_status [OF inv, of u p] qinv_not_idle [OF inv, of u p] unfolding d(3) by simp
    show "u \<in> set ((Q(q := ts)) Ready) \<or> u = i" if "(st(t \<mapsto> THREAD_BLOCKED)) u = Some THREAD_READY" for u
      using that qinv_ready [OF inv, of u] unfolding d(3) by (auto split: if_splits)
    show "u = r" if "(st(t \<mapsto> THREAD_BLOCKED)) u = Some THREAD_RUNNING" for u
      using that qinv_running [OF inv, of u] by (auto split: if_splits)
    show "(st(t \<mapsto> THREAD_BLOCKED)) i \<noteq> None \<and> (st(t \<mapsto> THREAD_BLOCKED)) i \<noteq> Some THREAD_DYING" if "i \<noteq> 0"
      using that qinv_idle [OF inv] d(2) by simp
  qed
  note e = qinv_enqueue [OF this d(1,2), of Ready lt]
  have "(Q(q := ts)) Ready = Q Ready"
    using assms(2) by simp
  then show ?thesis
    using e by (simp only: queue_status.simps fun_upd_upd)
qed

lemma qinv_change_idle:
  assumes "qinv st Q r j" and "st i = Some THREAD_RUNNING" and "j = 0 \<and> st 0 = None \<or> j = i"
  shows "qinv st Q r i"
proof (rule qinvI)
  note inv = assms(1)
  show "distinct (Q p)" for p
    by (rule qinv_distinct [OF inv])
  show "p = p'" if "u \<in> set (Q p)" "u \<in> set (Q p')" for p p' u
    by (rule qinv_unique [OF inv that])
  show "u \<noteq> i \<and> st u = Some (queue_status p)" if "u \<in> set (Q p)" for p u
    using qinv_running_unqueued [OF inv, of i p] that assms(2) qinv_status [OF inv that] by auto
  show "u \<in> set (Q Ready) \<or> u = i" if "st u = Some THREAD_READY" for u
    using qinv_ready [OF inv that] assms(3) that by auto
  show "u = r" if "st u = Some THREAD_RUNNING" for u
    by (rule qinv_running [OF inv that])
  show "st i \<noteq> None \<and> st i \<noteq> Some THREAD_DYING"
    using assms(2) by simp
qed

section \<open>The invariant of the kernel\<close>

definition st :: "'w kernel \<Rightarrow> tptr \<Rightarrow> thread_status option" where
  "st k t = map_option status (threads k t)"

fun queue :: "'w kernel \<Rightarrow> queue_id \<Rightarrow> tptr list" where
  "queue k Ready = ready_list k"
| "queue k Sleeping = sleeping_list k"
| "queue k (Waiters s) = waiters (semas k s)"

definition wf_queues :: "'w kernel \<Rightarrow> bool" where
  "wf_queues k \<longleftrightarrow> qinv (st k) (queue k) (running k) (idle_thread k)"

text \<open>
  Every thread lies in a live page of its own, the initial thread excepted, and its page
  directory is one the processor can be given.
\<close>

definition wf_threads :: "'w kernel \<Rightarrow> bool" where
  "wf_threads k \<longleftrightarrow> wf_palloc (mem (vmem k)) \<and> is_kernel_vaddr (init_page_dir (vmem k))
     \<and> initial_thread k \<notin> pool_pages (mem (vmem k)) \<and> initial_thread k \<noteq> 0
     \<and> (\<forall>t th. threads k t = Some th \<longrightarrow> magic th = THREAD_MAGIC \<and> (pagedir th = 0 \<or> is_kernel_vaddr (pagedir th))
          \<and> (t = initial_thread k \<or> t \<in> live_pages (mem (vmem k))))"

definition wf_kernel :: "'w kernel \<Rightarrow> bool" where
  "wf_kernel k \<longleftrightarrow> wf_threads k \<and> wf_queues k \<and> st k (running k) = Some THREAD_RUNNING"

lemma wf_threadsD:
  assumes "wf_threads k" and "threads k t = Some th"
  shows "magic th = THREAD_MAGIC" and "pagedir th = 0 \<or> is_kernel_vaddr (pagedir th)" and "t \<noteq> 0"
    and "t \<noteq> initial_thread k \<Longrightarrow> t \<in> live_pages (mem (vmem k))"
proof -
  show "magic th = THREAD_MAGIC" and "pagedir th = 0 \<or> is_kernel_vaddr (pagedir th)"
    and l: "t \<noteq> initial_thread k \<Longrightarrow> t \<in> live_pages (mem (vmem k))"
    using assms unfolding wf_threads_def by blast+
  show "t \<noteq> 0"
  proof (cases "t = initial_thread k")
    case True
    then show ?thesis
      using assms(1) by (simp add: wf_threads_def)
  next
    case False
    then show ?thesis
      using l pages.region_page [of "mem (vmem k)" t] pages.live_region [of "mem (vmem k)"] assms(1)
      by (auto simp: wf_threads_def)
  qed
qed

lemma st_Some: "st k t = Some s \<longleftrightarrow> (\<exists>th. threads k t = Some th \<and> status th = s)"
  by (auto simp: st_def)

lemma st_None: "st k t = None \<longleftrightarrow> threads k t = None"
  by (simp add: st_def)

lemma is_thread_wf: "wf_threads k \<Longrightarrow> is_thread k t \<longleftrightarrow> threads k t \<noteq> None"
  using wf_threadsD(1,3) [of k t] by (auto simp: is_thread_def split: option.splits)

lemma wf_kernel_current:
  assumes "wf_kernel k"
  obtains th where "threads k (running k) = Some th" and "status th = THREAD_RUNNING" and "thread_current k = Some (running k)"
    and "cur_thread k = Some th"
proof -
  obtain th where "threads k (running k) = Some th" "status th = THREAD_RUNNING"
    using assms by (auto simp: wf_kernel_def st_Some)
  moreover have "is_thread k (running k)"
    using assms calculation by (simp add: wf_kernel_def is_thread_wf)
  ultimately show thesis
    using that by (simp add: thread_current_def cur_thread_def running_thread_def)
qed

lemma st_upd [simp]:
  "st (k\<lparr>threads := (threads k)(t \<mapsto> th)\<rparr>) = (st k)(t \<mapsto> status th)"
  by (auto simp: st_def fun_eq_iff)

text \<open>A change of a thread that keeps its status, magic number and page directory.\<close>

lemma wf_kernel_upd:
  assumes "upd_thread k t f = Some k'" and "wf_kernel k"
    and "\<And>th. status (f th) = status th \<and> magic (f th) = magic th \<and> pagedir (f th) = pagedir th"
  shows "wf_kernel k'"
proof -
  obtain th where th: "threads k t = Some th" "k' = k\<lparr>threads := (threads k)(t \<mapsto> f th)\<rparr>"
    using assms(1) by (auto simp: upd_thread_def split: option.splits)
  have "(st k)(t \<mapsto> status (f th)) = st k"
    using th(1) assms(3) [of th] by (auto simp: st_def fun_eq_iff)
  moreover have "queue k' = queue k"
    unfolding th(2) by (rule ext) (case_tac x; simp)
  moreover have "wf_threads k'"
    using assms(2,3) th by (auto simp: wf_kernel_def wf_threads_def)
  ultimately show ?thesis
    using assms(2) th(2) by (simp add: wf_kernel_def wf_queues_def)
qed

section \<open>The switch\<close>

lemma vtop_kernel: "is_kernel_vaddr a \<Longrightarrow> \<exists>p. vtop a = Some p"
  by (simp add: vtop_def)

lemma process_activate_ok:
  assumes "wf_kernel k"
  shows "\<exists>v e. process_activate k = Some (k\<lparr>vmem := v, tss_esp0 := e\<rparr>) \<and> mem v = mem (vmem k)
    \<and> init_page_dir v = init_page_dir (vmem k)"
proof -
  obtain th where th: "threads k (running k) = Some th" "status th = THREAD_RUNNING" "thread_current k = Some (running k)"
      "cur_thread k = Some th"
    by (rule wf_kernel_current [OF assms])
  have wf: "wf_threads k"
    using assms by (simp add: wf_kernel_def)
  then have "is_kernel_vaddr (if pagedir th = 0 then init_page_dir (vmem k) else pagedir th)"
    using wf_threadsD(2) [OF wf th(1)] by (auto simp: wf_threads_def)
  then obtain p where "vtop (if pagedir th = 0 then init_page_dir (vmem k) else pagedir th) = Some p"
    using vtop_kernel by blast
  then obtain v where v: "pagedir_activate (vmem k) (pagedir th) = Some v" "mem v = mem (vmem k)"
      "init_page_dir v = init_page_dir (vmem k)"
    by (simp add: pagedir_activate_def)
  have "thread_current (k\<lparr>vmem := v\<rparr>) = Some (running k)"
    using th(1-3) by (simp add: thread_current_def running_thread_def is_thread_def)
  then show ?thesis
    using v th(4) by (auto simp: process_activate_def tss_update_def intro!: exI [of _ v])
qed

text \<open>The thread switched from is destroyed when it is dying.\<close>

definition destroyed :: "'w kernel \<Rightarrow> tptr \<Rightarrow> bool" where
  "destroyed k t \<longleftrightarrow> st k t = Some THREAD_DYING \<and> t \<noteq> initial_thread k"

lemma destroy_thread_ok:
  assumes "wf_threads k" and "destroyed k t"
  shows "\<exists>v. destroy_thread k t = Some (k\<lparr>vmem := v, threads := (threads k)(t := None)\<rparr>)
    \<and> wf_threads (k\<lparr>vmem := v, threads := (threads k)(t := None)\<rparr>)"
proof -
  let ?m = "mem (vmem k)"
  have "t \<in> live_pages ?m" and wf: "wf_palloc ?m"
    using assms wf_threadsD(4) [OF assms(1)] by (auto simp: destroyed_def st_Some wf_threads_def)
  then obtain m where m: "palloc_free_page ?m t = Some m" "wf_palloc m" "pool_pages m = pool_pages ?m"
      "live_pages m = live_pages ?m - {t}"
    using pages.free_law by blast
  let ?v = "(vmem k)\<lparr>mem := m\<rparr>"
  have "destroy_thread k t = Some (k\<lparr>vmem := ?v, threads := (threads k)(t := None)\<rparr>)"
    using m(1) by (simp add: destroy_thread_def)
  moreover have "wf_threads (k\<lparr>vmem := ?v, threads := (threads k)(t := None)\<rparr>)"
    using assms(1) m(2-4) unfolding wf_threads_def by auto
  ultimately show ?thesis by blast
qed

lemma thread_schedule_tail_ok:
  assumes wf: "wf_threads k" and c: "threads k (running k) = Some c" and off: "\<not> if_flag (irq k)"
    and prev: "prev = 0 \<or> threads k prev \<noteq> None \<and> prev \<noteq> running k"
    and inv: "qinv ((st k)(running k \<mapsto> THREAD_RUNNING)) (queue k) (running k) (idle_thread k)"
  defines "T \<equiv> (threads k)(running k \<mapsto> c\<lparr>status := THREAD_RUNNING\<rparr>)"
  shows "\<exists>v e. thread_schedule_tail k prev = Some (k\<lparr>threads := (if destroyed k prev then T(prev := None) else T),
      thread_ticks := 0, vmem := v, tss_esp0 := e\<rparr>)
    \<and> wf_threads (k\<lparr>threads := (if destroyed k prev then T(prev := None) else T),
      thread_ticks := 0, vmem := v, tss_esp0 := e\<rparr>)"
proof -
  let ?k = "k\<lparr>threads := T, thread_ticks := 0\<rparr>"
  have q: "queue ?k = queue k"
    by (rule ext) (case_tac x; simp)
  have wft: "wf_threads ?k"
    using wf c by (auto simp: wf_threads_def T_def)
  moreover have st: "st ?k = (st k)(running k \<mapsto> THREAD_RUNNING)"
    by (auto simp: st_def T_def fun_eq_iff)
  ultimately have wfk: "wf_kernel ?k"
    using inv q by (simp add: wf_kernel_def wf_queues_def)
  obtain v e where v: "(if userprog k then process_activate ?k else Some ?k) = Some (?k\<lparr>vmem := v, tss_esp0 := e\<rparr>)"
      "mem v = mem (vmem k)" "init_page_dir v = init_page_dir (vmem k)"
  proof (cases "userprog k")
    case True
    then show thesis
      using process_activate_ok [OF wfk] that by auto
  next
    case False
    then show thesis
      using that [of "tss_esp0 k" "vmem k"] by simp
  qed
  let ?k2 = "?k\<lparr>vmem := v, tss_esp0 := e\<rparr>"
  have wf2: "wf_threads ?k2"
    using wft v(2,3) by (simp add: wf_threads_def)
  have u: "upd_thread k (running_thread k) (\<lambda>th. th\<lparr>status := THREAD_RUNNING\<rparr>) = Some (k\<lparr>threads := T\<rparr>)"
    using c by (simp add: upd_thread_def running_thread_def T_def)
  have st2: "st ?k2 = (st k)(running k \<mapsto> THREAD_RUNNING)"
    using st by (simp add: st_def fun_eq_iff)
  have eq: "thread_schedule_tail k prev = (if prev = 0 then Some ?k2 else do { p \<leftarrow> threads ?k2 prev;
      if status p = THREAD_DYING \<and> prev \<noteq> initial_thread k
      then do { ASSERT (prev \<noteq> running k); destroy_thread ?k2 prev } else Some ?k2 })"
    using off u v(1) by (simp add: thread_schedule_tail_def intr_get_level_def running_thread_def Let_def)
  show ?thesis
  proof (cases "destroyed k prev")
    case True
    then have p: "prev \<noteq> 0" "prev \<noteq> running k"
      using prev wf_threadsD(3) [OF wf, of prev] by (auto simp: destroyed_def st_Some)
    have "destroyed ?k2 prev"
      using True p st2 by (simp add: destroyed_def)
    then obtain v' where v': "destroy_thread ?k2 prev = Some (?k2\<lparr>vmem := v', threads := (threads ?k2)(prev := None)\<rparr>)"
        "wf_threads (?k2\<lparr>vmem := v', threads := (threads ?k2)(prev := None)\<rparr>)"
      using destroy_thread_ok [OF wf2] by blast
    obtain p where "threads k prev = Some p" "status p = THREAD_DYING" "prev \<noteq> initial_thread k"
      using True by (auto simp: destroyed_def st_Some)
    then have "thread_schedule_tail k prev = destroy_thread ?k2 prev"
      using eq p by (simp add: T_def)
    moreover have "?k2\<lparr>vmem := v', threads := (threads ?k2)(prev := None)\<rparr>
        = k\<lparr>threads := T(prev := None), thread_ticks := 0, vmem := v', tss_esp0 := e\<rparr>"
      by simp
    ultimately show ?thesis
      using v' True by (intro exI [of _ v'] exI [of _ e]) (simp only: if_True)
  next
    case False
    have "thread_schedule_tail k prev = Some ?k2"
    proof (cases "prev = 0")
      case False
      then obtain p where "threads k prev = Some p" "prev \<noteq> running k"
        using prev by auto
      then show ?thesis
        using False eq \<open>\<not> destroyed k prev\<close> by (auto simp: T_def destroyed_def st_Some)
    next
      case True
      then show ?thesis
        using eq by simp
    qed
    then show ?thesis
      using wf2 False by (intro exI [of _ v] exI [of _ e]) simp
  qed
qed

text \<open>The state after the switch to the next thread; \<open>v\<close> and \<open>e\<close> are the processor's new address space and stack.\<close>

definition next_thread :: "'w kernel \<Rightarrow> tptr" where
  "next_thread k = (if ready_list k = [] then idle_thread k else hd (ready_list k))"

definition switched_threads :: "'w kernel \<Rightarrow> tptr \<Rightarrow> 'w thread option" where
  "switched_threads k = (let n = next_thread k;
       T = (threads k)(n := map_option (\<lambda>th. th\<lparr>status := THREAD_RUNNING\<rparr>) (threads k n))
     in if destroyed k (running k) then T(running k := None) else T)"

definition switched :: "'w kernel \<Rightarrow> paging \<Rightarrow> u32 \<Rightarrow> 'w kernel" where
  "switched k v e = k\<lparr>ready_list := tl (ready_list k), running := next_thread k, threads := switched_threads k,
     thread_ticks := 0, vmem := v, tss_esp0 := e\<rparr>"

definition sched_pre :: "'w kernel \<Rightarrow> bool" where
  "sched_pre k \<longleftrightarrow> wf_threads k \<and> wf_queues k \<and> \<not> if_flag (irq k) \<and> st k (running k) \<noteq> None
     \<and> st k (running k) \<noteq> Some THREAD_RUNNING \<and> (ready_list k = [] \<longrightarrow> idle_thread k \<noteq> 0)"

lemma queue_ready: "queue (k\<lparr>ready_list := q\<rparr>) = (queue k)(Ready := q)"
  by (rule ext) (case_tac x; simp)

lemma schedule_qinv:
  assumes "sched_pre k"
  shows "qinv ((st k)(next_thread k \<mapsto> THREAD_RUNNING)) ((queue k)(Ready := tl (ready_list k))) (next_thread k) (idle_thread k)"
    and "st k (next_thread k) \<noteq> None" and "destroyed k (running k) \<Longrightarrow> running k \<noteq> next_thread k \<and> running k \<noteq> idle_thread k"
proof -
  note pre = assms [unfolded sched_pre_def wf_queues_def]
  have inv: "qinv (st k) (queue k) (running k) (idle_thread k)" and run: "st k (running k) \<noteq> Some THREAD_RUNNING"
    using pre by auto
  show "qinv ((st k)(next_thread k \<mapsto> THREAD_RUNNING)) ((queue k)(Ready := tl (ready_list k))) (next_thread k) (idle_thread k)"
  proof (cases "ready_list k")
    case Nil
    then have "qinv ((st k)(idle_thread k \<mapsto> THREAD_RUNNING)) (queue k) (idle_thread k) (idle_thread k)"
      using qinv_dispatch_idle [OF inv run] pre by auto
    moreover have "(queue k)(Ready := tl (ready_list k)) = queue k"
      using Nil by (auto simp: fun_eq_iff)
    ultimately show ?thesis
      using Nil by (simp add: next_thread_def del: fun_upd_apply)
  next
    case (Cons t ts)
    then show ?thesis
      using qinv_dispatch [OF inv run, of t ts] by (simp add: next_thread_def del: fun_upd_apply)
  qed
  have n: "st k (next_thread k) = Some THREAD_READY \<or> next_thread k = idle_thread k \<and> idle_thread k \<noteq> 0"
    using pre qinv_status [OF inv, of "hd (ready_list k)" Ready] by (auto simp: next_thread_def)
  have i: "idle_thread k \<noteq> 0 \<Longrightarrow> st k (idle_thread k) \<noteq> None \<and> st k (idle_thread k) \<noteq> Some THREAD_DYING"
    by (rule qinv_idle [OF inv])
  show "st k (next_thread k) \<noteq> None"
    using n i by auto
  show "running k \<noteq> next_thread k \<and> running k \<noteq> idle_thread k" if "destroyed k (running k)"
  proof -
    have d: "st k (running k) = Some THREAD_DYING"
      using that by (simp add: destroyed_def)
    then have "running k \<noteq> 0"
      using pre wf_threadsD(3) [of k "running k"] by (auto simp: st_Some)
    then have "running k \<noteq> idle_thread k"
      using d i by auto
    then show ?thesis
      using n d by auto
  qed
qed

lemma queue_switched: "queue (switched k v e) = (queue k)(Ready := tl (ready_list k))"
  unfolding switched_def by (rule ext) (case_tac x; simp)

lemma st_switched:
  assumes "sched_pre k"
  shows "st (switched k v e) = (if destroyed k (running k) then (st k)(next_thread k \<mapsto> THREAD_RUNNING, running k := None)
     else (st k)(next_thread k \<mapsto> THREAD_RUNNING))"
proof -
  obtain th where "threads k (next_thread k) = Some th"
    using schedule_qinv(2) [OF assms] by (auto simp: st_None)
  then show ?thesis
    by (auto simp: st_def switched_def switched_threads_def Let_def fun_eq_iff)
qed

lemma schedule_ok:
  assumes "sched_pre k"
  shows "\<exists>v e. schedule k = Some (switched k v e) \<and> wf_kernel (switched k v e)"
proof -
  note q = schedule_qinv [OF assms]
  have pre: "wf_threads k" "\<not> if_flag (irq k)" "threads k (running k) \<noteq> None" "st k (running k) \<noteq> Some THREAD_RUNNING"
    using assms by (auto simp: sched_pre_def st_None)
  obtain c n where c: "threads k (running k) = Some c" "status c \<noteq> THREAD_RUNNING" and n: "threads k (next_thread k) = Some n"
    using pre(3,4) q(2) by (auto simp: st_None st_Some)
  let ?k = "k\<lparr>ready_list := tl (ready_list k), running := next_thread k\<rparr>"
  let ?p = "if running k \<noteq> next_thread k then running k else 0"
  let ?T = "(threads k)(next_thread k \<mapsto> n\<lparr>status := THREAD_RUNNING\<rparr>)"
  have wf: "wf_threads ?k"
    using pre(1) by (simp add: wf_threads_def)
  have nz: "running k \<noteq> 0"
    using wf_threadsD(3) [OF pre(1) c(1)] .
  have stk: "st ?k = st k"
    by (simp add: st_def fun_eq_iff)
  have "queue ?k = (queue k)(Ready := tl (ready_list k))"
    by (rule ext) (case_tac x; simp)
  then have inv: "qinv ((st ?k)(running ?k \<mapsto> THREAD_RUNNING)) (queue ?k) (running ?k) (idle_thread ?k)"
    using q(1) stk by (simp del: fun_upd_apply)
  have d: "destroyed ?k ?p \<longleftrightarrow> destroyed k (running k)"
    using q(3) stk wf_threadsD(3) [OF pre(1), of 0] by (auto simp: destroyed_def st_Some)
  have T: "switched_threads k = (if destroyed k (running k) then ?T(?p := None) else ?T)"
    using n q(3) by (auto simp: switched_threads_def Let_def)
  have h: "threads ?k (running ?k) = Some n" "\<not> if_flag (irq ?k)" "?p = 0 \<or> threads ?k ?p \<noteq> None \<and> ?p \<noteq> running ?k"
    using n pre(2) c by auto
  let ?K = "\<lambda>v e. ?k\<lparr>threads := (if destroyed ?k ?p
      then (threads ?k)(running ?k \<mapsto> n\<lparr>status := THREAD_RUNNING\<rparr>, ?p := None)
      else (threads ?k)(running ?k \<mapsto> n\<lparr>status := THREAD_RUNNING\<rparr>)), thread_ticks := 0, vmem := v, tss_esp0 := e\<rparr>"
  obtain v e where t: "thread_schedule_tail ?k ?p = Some (?K v e)" "wf_threads (?K v e)"
    using thread_schedule_tail_ok [OF wf h inv] by blast
  have sw: "?K v e = switched k v e"
    unfolding d switched_def T by simp
  have "next_thread_to_run k = (next_thread k, k\<lparr>ready_list := tl (ready_list k)\<rparr>)"
    by (cases "ready_list k") (simp_all add: next_thread_to_run_def next_thread_def)
  moreover have "is_thread (k\<lparr>ready_list := tl (ready_list k)\<rparr>) (next_thread k)"
    using n is_thread_wf [OF wf, of "next_thread k"] by (simp add: is_thread_def)
  ultimately have "schedule k = thread_schedule_tail ?k ?p"
    using c pre(2) by (simp add: schedule_def running_thread_def intr_get_level_def)
  moreover have "wf_queues (switched k v e)"
  proof -
    have f: "qinv (st (switched k v e)) ((queue k)(Ready := tl (ready_list k))) (next_thread k) (idle_thread k)"
    proof (cases "destroyed k (running k)")
      case True
      have "running k \<notin> set (((queue k)(Ready := tl (ready_list k))) p)" for p
        using qinv_running_unqueued [OF q(1), of "running k" p] True q(3) by (simp add: destroyed_def)
      then show ?thesis
        using qinv_forget [OF q(1), of "running k"] True q(3) st_switched [OF assms] by simp
    next
      case False
      then show ?thesis
        using q(1) st_switched [OF assms] by simp
    qed
    then show ?thesis
      unfolding wf_queues_def queue_switched by (simp add: switched_def)
  qed
  moreover have "st (switched k v e) (running (switched k v e)) = Some THREAD_RUNNING"
    using st_switched [OF assms, of v e] q(3) by (auto simp: switched_def)
  ultimately show ?thesis
    using t unfolding sw wf_kernel_def by (intro exI [of _ v] exI [of _ e]) simp
qed

text \<open>Without a ready thread and before there is an idle thread, the scheduler panics.\<close>

lemma schedule_Some:
  assumes "wf_threads k" and "wf_queues k" and "\<not> if_flag (irq k)" and "st k (running k) \<noteq> None"
    and "st k (running k) \<noteq> Some THREAD_RUNNING" and "schedule k = Some k'"
  obtains v e where "k' = switched k v e" and "wf_kernel k'" and "sched_pre k"
proof (cases "ready_list k = [] \<and> idle_thread k = 0")
  case True
  then have "next_thread_to_run k = (0, k)"
    by (simp add: next_thread_to_run_def)
  then have "schedule k = None"
    using assms(3) by (cases "threads k (running k)") (simp_all add: schedule_def running_thread_def intr_get_level_def is_thread_def ASSERT_bind Let_def)
  then show thesis
    using assms(6) by simp
next
  case False
  then have "sched_pre k"
    using assms by (simp add: sched_pre_def)
  then show thesis
    using schedule_ok [of k] assms(6) that by auto
qed

section \<open>The invariant and irrelevant fields\<close>

lemma queue_cong:
  "ready_list k' = ready_list k \<Longrightarrow> sleeping_list k' = sleeping_list k \<Longrightarrow> (\<And>s. waiters (semas k' s) = waiters (semas k s))
    \<Longrightarrow> queue k' = queue k"
  by (rule ext) (case_tac x; simp)

lemma st_cong: "threads k' = threads k \<Longrightarrow> st k' = st k"
  by (simp add: st_def fun_eq_iff)

definition same_sched :: "'w kernel \<Rightarrow> 'w kernel \<Rightarrow> bool" where
  "same_sched k' k \<longleftrightarrow> threads k' = threads k \<and> ready_list k' = ready_list k \<and> sleeping_list k' = sleeping_list k
     \<and> (\<forall>s. waiters (semas k' s) = waiters (semas k s)) \<and> running k' = running k \<and> idle_thread k' = idle_thread k
     \<and> initial_thread k' = initial_thread k \<and> vmem k' = vmem k"

lemma same_schedD:
  assumes "same_sched k' k"
  shows "st k' = st k" and "queue k' = queue k" and "wf_threads k' = wf_threads k" and "wf_queues k' = wf_queues k"
    and "wf_kernel k' = wf_kernel k" and "thread_current k' = thread_current k" and "cmp_priority_thread k' = cmp_priority_thread k"
proof -
  note s = assms [unfolded same_sched_def]
  show st: "st k' = st k" and q: "queue k' = queue k"
    using s by (auto intro: st_cong queue_cong)
  show t: "wf_threads k' = wf_threads k"
    using s by (simp add: wf_threads_def)
  show w: "wf_queues k' = wf_queues k"
    using s st q by (simp add: wf_queues_def)
  show "wf_kernel k' = wf_kernel k"
    using s st t w by (simp add: wf_kernel_def)
  show "thread_current k' = thread_current k" and "cmp_priority_thread k' = cmp_priority_thread k"
    using s by (auto simp: thread_current_def running_thread_def is_thread_def cmp_priority_thread_def fun_eq_iff)
qed

text \<open>Disabling interrupts and restoring the old level leaves the interrupt state as it was.\<close>

definition irq_ok :: "'w kernel \<Rightarrow> bool" where
  "irq_ok k \<longleftrightarrow> (in_external_intr (irq k) \<longrightarrow> \<not> if_flag (irq k))"

lemma k_disable_eq: "k_disable k = (intr_get_level (irq k), k\<lparr>irq := (irq k)\<lparr>if_flag := False\<rparr>\<rparr>)"
  by (simp add: k_disable_def intr_disable_def)

lemma k_set_level_restore:
  assumes "irq_ok k" and "irq k' = (irq k)\<lparr>if_flag := False\<rparr>"
  shows "k_set_level k' (intr_get_level (irq k)) = Some (k'\<lparr>irq := irq k\<rparr>)"
  using assms by (auto simp: k_set_level_def intr_set_level_def intr_enable_def intr_disable_def intr_get_level_def
      intr_context_def irq_ok_def ASSERT_bind)

lemma k_set_level_Some:
  assumes "k_set_level k l = Some k'"
  shows "\<exists>b. k' = k\<lparr>irq := (irq k)\<lparr>if_flag := b\<rparr>\<rparr>"
  using assms by (auto simp: k_set_level_def intr_set_level_def intr_enable_def intr_disable_def split: if_splits)

section \<open>Making a thread ready\<close>

lemma queue_insert_wf:
  assumes "wf_queues k" and "threads k t \<noteq> None"
  shows "queue_insert k lt t (queue k q) = Some (seq_insert lt t (queue k q))"
proof -
  have "threads k u \<noteq> None" if "u \<in> set (queue k q)" for u
    using qinv_status [OF assms(1) [unfolded wf_queues_def] that] by (auto simp: st_Some)
  then show ?thesis
    using assms(2) by (simp add: queue_insert_def list_all_iff)
qed

definition unblocked :: "'w kernel \<Rightarrow> tptr \<Rightarrow> 'w kernel" where
  "unblocked k t = k\<lparr>ready_list := seq_insert (cmp_priority_thread k) t (ready_list k),
     threads := (threads k)(t := map_option (\<lambda>th. th\<lparr>status := THREAD_READY\<rparr>) (threads k t))\<rparr>"

lemma thread_unblock_ok:
  assumes wf: "wf_threads k" "wf_queues k" and "irq_ok k" and t: "st k t = Some THREAD_BLOCKED"
    and new: "\<And>q. t \<notin> set (queue k q)" "t \<noteq> idle_thread k"
  shows "thread_unblock k t = Some (unblocked k t)" and "wf_threads (unblocked k t)" and "wf_queues (unblocked k t)"
proof -
  obtain th where th: "threads k t = Some th" "status th = THREAD_BLOCKED"
    using t by (auto simp: st_Some)
  let ?k = "k\<lparr>irq := (irq k)\<lparr>if_flag := False\<rparr>\<rparr>"
  have same: "same_sched ?k k"
    by (simp add: same_sched_def)
  have "queue_insert ?k (cmp_priority_thread ?k) t (queue ?k Ready) = Some (seq_insert (cmp_priority_thread ?k) t (queue ?k Ready))"
    by (rule queue_insert_wf) (use th wf same_schedD(4) [OF same] in simp_all)
  then have q: "queue_insert ?k (cmp_priority_thread ?k) t (ready_list k) = Some (seq_insert (cmp_priority_thread k) t (ready_list k))"
    using same_schedD(7) [OF same] by simp
  show "thread_unblock k t = Some (unblocked k t)"
    using th is_thread_wf [OF wf(1), of t] q
    by (simp add: thread_unblock_def k_disable_eq upd_thread_def unblocked_def k_set_level_restore [OF assms(3)])
  show "wf_threads (unblocked k t)"
    using wf(1) th by (auto simp: wf_threads_def unblocked_def)
  have "qinv ((st k)(t \<mapsto> queue_status Ready)) ((queue k)(Ready := seq_insert (cmp_priority_thread k) t (queue k Ready))) (running k) (idle_thread k)"
    using qinv_enqueue [OF wf(2) [unfolded wf_queues_def] new] .
  moreover have "st (unblocked k t) = (st k)(t \<mapsto> THREAD_READY)"
    using th by (auto simp: st_def unblocked_def fun_eq_iff)
  moreover have "queue (unblocked k t) = (queue k)(Ready := seq_insert (cmp_priority_thread k) t (ready_list k))"
    unfolding unblocked_def by (rule ext) (case_tac x; simp)
  ultimately show "wf_queues (unblocked k t)"
    unfolding wf_queues_def by (simp add: unblocked_def)
qed

end
