(* ===== verification/Sched_Ops.thy ===== *)
theory Sched_Ops
  imports Sched_Inv
begin

text \<open>
  What the scheduling operations do to a well-formed kernel: giving up the processor,
  blocking in a queue, sleeping and waking, and the semaphore operations.  Each lemma gives
  the resulting state and shows that it is well formed again.
\<close>

section \<open>Giving up the processor\<close>

definition set_running :: "('w thread \<Rightarrow> 'w thread) \<Rightarrow> 'w kernel \<Rightarrow> 'w kernel" where
  "set_running f k = k\<lparr>threads := (threads k)(running k := map_option f (threads k (running k)))\<rparr>"

lemma upd_running: "threads k (running k) \<noteq> None \<Longrightarrow> upd_thread k (running k) f = Some (set_running f k)"
  by (auto simp: upd_thread_def set_running_def)

lemma st_set_running: "threads k (running k) = Some th \<Longrightarrow> st (set_running f k) = (st k)(running k \<mapsto> status (f th))"
  by (auto simp: st_def set_running_def fun_eq_iff)

lemma queue_set_running [simp]: "queue (set_running f k) = queue k"
  by (rule queue_cong) (simp_all add: set_running_def)

lemma set_running_fields [simp]:
  "irq (set_running f k) = irq k" "running (set_running f k) = running k" "idle_thread (set_running f k) = idle_thread k"
  "ready_list (set_running f k) = ready_list k" "semas (set_running f k) = semas k" "vmem (set_running f k) = vmem k"
  "sleeping_list (set_running f k) = sleeping_list k" "initial_thread (set_running f k) = initial_thread k"
  "lock_holder (set_running f k) = lock_holder k" "cond_waiters (set_running f k) = cond_waiters k"
  "userprog (set_running f k) = userprog k"
  by (simp_all add: set_running_def)

lemma wf_threads_set_running:
  assumes "wf_threads k" and "\<And>th. magic (f th) = magic th \<and> pagedir (f th) = pagedir th"
  shows "wf_threads (set_running f k)"
proof -
  have "magic th = THREAD_MAGIC \<and> (pagedir th = 0 \<or> is_kernel_vaddr (pagedir th)) \<and> (t = initial_thread k \<or> t \<in> live_pages (mem (vmem k)))"
    if t: "threads (set_running f k) t = Some th" for t th
  proof -
    obtain u where u: "threads k t = Some u" "magic th = magic u" "pagedir th = pagedir u"
      using t assms(2) by (auto simp: set_running_def split: if_splits)
    then show ?thesis
      using wf_threadsD [OF assms(1) u(1)] by auto
  qed
  then show ?thesis
    using assms(1) unfolding wf_threads_def by simp
qed

definition yielded :: "'w kernel \<Rightarrow> 'w kernel" where
  "yielded k = set_running (\<lambda>th. th\<lparr>status := THREAD_READY, work := IntrSet (intr_get_level (irq k)) # work th\<rparr>)
     (k\<lparr>irq := (irq k)\<lparr>if_flag := False\<rparr>,
        ready_list := (if running k \<noteq> idle_thread k then seq_insert (cmp_priority_thread k) (running k) (ready_list k)
                       else ready_list k)\<rparr>)"

lemma yielded_pre:
  assumes "wf_kernel k"
  shows "sched_pre (yielded k)"
proof -
  obtain th where th: "threads k (running k) = Some th" "status th = THREAD_RUNNING"
    using assms by (rule wf_kernel_current)
  let ?k = "k\<lparr>irq := (irq k)\<lparr>if_flag := False\<rparr>,
        ready_list := (if running k \<noteq> idle_thread k then seq_insert (cmp_priority_thread k) (running k) (ready_list k)
                       else ready_list k)\<rparr>"
  have inv: "qinv (st k) (queue k) (running k) (idle_thread k)" and wf: "wf_threads k"
    using assms by (simp_all add: wf_kernel_def wf_queues_def)
  have r: "running k \<notin> set (queue k q)" for q
    by (rule qinv_running_unqueued [OF inv]) (simp add: st_Some th)
  have st: "st (yielded k) = (st k)(running k \<mapsto> THREAD_READY)"
    unfolding yielded_def using st_set_running [of ?k th] th(1) st_cong [of ?k k] by simp
  have q: "queue (yielded k) = (queue k)(Ready := ready_list ?k)"
    unfolding yielded_def queue_set_running by (rule ext) (case_tac x; simp)
  have "wf_queues (yielded k)"
  proof (cases "running k = idle_thread k")
    case True
    then have "(queue k)(Ready := ready_list ?k) = queue k"
      by (auto simp: fun_eq_iff)
    then show ?thesis
      using qinv_set_status [OF inv r, of THREAD_READY] True unfolding wf_queues_def st q by (simp add: yielded_def)
  next
    case False
    then show ?thesis
      using qinv_enqueue [OF inv r False, of Ready "cmp_priority_thread k"] unfolding wf_queues_def st q by (simp add: yielded_def)
  qed
  moreover have "wf_threads (yielded k)"
    unfolding yielded_def using wf by (intro wf_threads_set_running) (simp_all add: wf_threads_def)
  moreover have "ready_list (yielded k) = [] \<longrightarrow> idle_thread (yielded k) \<noteq> 0"
    using wf_threadsD(3) [OF wf th(1)] by (auto simp: yielded_def seq_insert_def)
  ultimately show ?thesis
    using st by (simp add: sched_pre_def) (simp add: yielded_def)
qed

lemma thread_yield_ok:
  assumes "wf_kernel k" and "\<not> in_external_intr (irq k)"
  shows "\<exists>v e. thread_yield k = Some (switched (yielded k) v e) \<and> wf_kernel (switched (yielded k) v e)"
proof -
  obtain th where th: "threads k (running k) = Some th" "thread_current k = Some (running k)"
    using assms(1) by (rule wf_kernel_current)
  let ?k = "k\<lparr>irq := (irq k)\<lparr>if_flag := False\<rparr>\<rparr>"
  have same: "same_sched ?k k"
    by (simp add: same_sched_def)
  have "queue_insert ?k (cmp_priority_thread ?k) (running k) (queue ?k Ready) = Some (seq_insert (cmp_priority_thread ?k) (running k) (queue ?k Ready))"
    by (rule queue_insert_wf) (use th assms(1) same_schedD(4) [OF same] in \<open>simp_all add: wf_kernel_def\<close>)
  then have q: "queue_insert ?k (cmp_priority_thread ?k) (running k) (ready_list k) = Some (seq_insert (cmp_priority_thread k) (running k) (ready_list k))"
    using same_schedD(7) [OF same] by simp
  have "thread_yield k = schedule (yielded k)"
    using th assms(2) q
    by (simp add: thread_yield_def k_disable_eq upd_thread_def push_def intr_context_def yielded_def set_running_def)
  then show ?thesis
    using schedule_ok [OF yielded_pre [OF assms(1)]] by simp
qed

text \<open>A thread that blocks outside of every queue, as the idle thread does.\<close>

definition block_running :: "'w kernel \<Rightarrow> 'w kernel" where
  "block_running = set_running (\<lambda>th. th\<lparr>status := THREAD_BLOCKED\<rparr>)"

lemma thread_block_eq:
  assumes "thread_current k = Some (running k)" and "thread_block k = Some k'"
  shows "\<not> if_flag (irq k)" and "schedule (block_running k) = Some k'"
proof -
  have "threads k (running k) \<noteq> None"
    using assms(1) by (auto simp: thread_current_def running_thread_def is_thread_def Let_def)
  then show "\<not> if_flag (irq k)" and "schedule (block_running k) = Some k'"
    using assms upd_running [of k "\<lambda>th. th\<lparr>status := THREAD_BLOCKED\<rparr>"]
    by (auto simp: thread_block_def block_running_def intr_get_level_def split: if_splits)
qed

lemma thread_block_Some:
  assumes "wf_kernel k" and "thread_block k = Some k'"
  obtains v e where "k' = switched (block_running k) v e" and "wf_kernel k'" and "sched_pre (block_running k)"
proof -
  obtain th where th: "threads k (running k) = Some th" "status th = THREAD_RUNNING" "thread_current k = Some (running k)"
    using assms(1) by (rule wf_kernel_current)
  note s = thread_block_eq [OF th(3) assms(2)]
  have inv: "qinv (st k) (queue k) (running k) (idle_thread k)" and wf: "wf_threads k"
    using assms by (simp_all add: wf_kernel_def wf_queues_def)
  have r: "running k \<notin> set (queue k q)" for q
    by (rule qinv_running_unqueued [OF inv]) (simp add: st_Some th)
  have st: "st (block_running k) = (st k)(running k \<mapsto> THREAD_BLOCKED)"
    using th(1) by (simp add: block_running_def st_set_running)
  have a: "wf_threads (block_running k)"
    unfolding block_running_def using wf by (rule wf_threads_set_running) simp
  have b: "wf_queues (block_running k)"
    using qinv_set_status [OF inv r, of THREAD_BLOCKED] unfolding wf_queues_def st by (simp add: block_running_def)
  have c: "\<not> if_flag (irq (block_running k))" "st (block_running k) (running (block_running k)) \<noteq> None"
      "st (block_running k) (running (block_running k)) \<noteq> Some THREAD_RUNNING"
    using s(1) st by (simp_all add: block_running_def)
  show thesis
    by (rule schedule_Some [OF a b c s(2)]) (rule that)
qed

text \<open>A thread that enters a queue other than the ready list and blocks.\<close>

lemma block_in_queue_wf:
  assumes wf: "wf_kernel k" and "running k \<noteq> idle_thread k" and "q \<noteq> Ready"
    and k1: "threads k1 = threads k" "running k1 = running k" "idle_thread k1 = idle_thread k"
      "initial_thread k1 = initial_thread k" "vmem k1 = vmem k"
    and q1: "queue k1 = (queue k)(q := seq_insert lt (running k) (queue k q))"
  shows "wf_threads (block_running k1)" and "wf_queues (block_running k1)"
    and "st (block_running k1) = (st k)(running k \<mapsto> THREAD_BLOCKED)" and "thread_current k1 = Some (running k1)"
proof -
  obtain th where th: "threads k (running k) = Some th" "status th = THREAD_RUNNING" "thread_current k = Some (running k)"
    using wf by (rule wf_kernel_current)
  then show "thread_current k1 = Some (running k1)"
    using k1 by (simp add: thread_current_def running_thread_def is_thread_def)
  have inv: "qinv (st k) (queue k) (running k) (idle_thread k)" and wft: "wf_threads k1"
    using wf k1 by (simp_all add: wf_kernel_def wf_queues_def wf_threads_def)
  have r: "running k \<notin> set (queue k q)" for q
    by (rule qinv_running_unqueued [OF inv]) (simp add: st_Some th)
  show st: "st (block_running k1) = (st k)(running k \<mapsto> THREAD_BLOCKED)"
    using th(1) k1 st_cong [OF k1(1)] by (simp add: block_running_def st_set_running)
  show "wf_threads (block_running k1)"
    unfolding block_running_def using wft by (rule wf_threads_set_running) simp
  have "queue_status q = THREAD_BLOCKED"
    using assms(3) by (cases q) simp_all
  then show "wf_queues (block_running k1)"
    using qinv_enqueue [OF inv r assms(2), of q lt] k1 q1 unfolding wf_queues_def st by (simp add: block_running_def)
qed

lemma block_in_queue:
  assumes wf: "wf_kernel k" and "running k \<noteq> idle_thread k" and "q \<noteq> Ready"
    and k1: "threads k1 = threads k" "running k1 = running k" "idle_thread k1 = idle_thread k"
      "initial_thread k1 = initial_thread k" "vmem k1 = vmem k"
    and q1: "queue k1 = (queue k)(q := seq_insert lt (running k) (queue k q))"
    and "thread_block k1 = Some k'"
  obtains v e where "k' = switched (block_running k1) v e" and "wf_kernel k'" and "sched_pre (block_running k1)"
proof -
  note w = block_in_queue_wf [OF assms(1-9)]
  note s = thread_block_eq [OF w(4) assms(10)]
  have c: "\<not> if_flag (irq (block_running k1))" "st (block_running k1) (running (block_running k1)) \<noteq> None"
      "st (block_running k1) (running (block_running k1)) \<noteq> Some THREAD_RUNNING"
    using s(1) w(3) k1 by (simp_all add: block_running_def)
  show thesis
    by (rule schedule_Some [OF w(1,2) c s(2)]) (rule that)
qed

text \<open>Once the idle thread exists, blocking in a queue always finds a thread to switch to.\<close>

lemma block_in_queue_ok:
  assumes "wf_kernel k" and "running k \<noteq> idle_thread k" and "q \<noteq> Ready"
    and k1: "threads k1 = threads k" "running k1 = running k" "idle_thread k1 = idle_thread k"
      "initial_thread k1 = initial_thread k" "vmem k1 = vmem k"
    and "queue k1 = (queue k)(q := seq_insert lt (running k) (queue k q))"
    and irq: "\<not> if_flag (irq k1)" "\<not> in_external_intr (irq k1)" and idle: "idle_thread k \<noteq> 0"
  obtains v e where "thread_block k1 = Some (switched (block_running k1) v e)" and "wf_kernel (switched (block_running k1) v e)"
    and "next_thread (block_running k1) \<noteq> running k" and "st (block_running k1) = (st k)(running k \<mapsto> THREAD_BLOCKED)"
proof -
  note w = block_in_queue_wf [OF assms(1-9)]
  have pre: "sched_pre (block_running k1)"
    using w irq(1) k1 idle by (simp add: sched_pre_def) (simp add: block_running_def)
  have "threads k1 (running k1) \<noteq> None"
    using w(4) by (auto simp: thread_current_def running_thread_def is_thread_def Let_def)
  then have b: "thread_block k1 = schedule (block_running k1)"
    using w(4) irq upd_running [of k1 "\<lambda>th. th\<lparr>status := THREAD_BLOCKED\<rparr>"]
    by (simp add: thread_block_def block_running_def intr_get_level_def intr_context_def)
  have "next_thread (block_running k1) \<noteq> running k"
  proof (cases "ready_list (block_running k1) = []")
    case True
    then show ?thesis
      using assms(2) k1(3) by (simp add: next_thread_def block_running_def)
  next
    case False
    then have "hd (ready_list (block_running k1)) \<in> set (queue (block_running k1) Ready)"
      by simp
    then have "st (block_running k1) (hd (ready_list (block_running k1))) = Some THREAD_READY"
      using w(2) qinv_status [of "st (block_running k1)" "queue (block_running k1)" "running (block_running k1)" "idle_thread (block_running k1)" _ Ready]
      by (auto simp: wf_queues_def)
    then show ?thesis
      using False w(3) by (auto simp: next_thread_def)
  qed
  then show thesis
    using schedule_ok [OF pre] b w(3) that by metis
qed

section \<open>Semaphores\<close>

lemma queue_set_sema: "queue (set_sema k s v) = (queue k)(Waiters s := waiters v)"
  by (rule ext) (case_tac x; simp add: set_sema_def)

lemma set_sema_fields [simp]:
  "irq (set_sema k s v) = irq k" "running (set_sema k s v) = running k" "idle_thread (set_sema k s v) = idle_thread k"
  "ready_list (set_sema k s v) = ready_list k" "threads (set_sema k s v) = threads k" "vmem (set_sema k s v) = vmem k"
  "sleeping_list (set_sema k s v) = sleeping_list k" "initial_thread (set_sema k s v) = initial_thread k"
  "semas (set_sema k s v) = (semas k)(s := v)" "userprog (set_sema k s v) = userprog k"
  "lock_holder (set_sema k s v) = lock_holder k" "cond_waiters (set_sema k s v) = cond_waiters k"
  by (simp_all add: set_sema_def)

lemma same_sched_value: "waiters v = waiters (semas k s) \<Longrightarrow> same_sched (set_sema k s v) k"
  by (simp add: same_sched_def)

lemma wf_set_running_work:
  assumes "wf_kernel k" and "\<And>th. status (f th) = status th \<and> magic (f th) = magic th \<and> pagedir (f th) = pagedir th"
  shows "wf_kernel (set_running f k)"
proof -
  obtain th where "threads k (running k) = Some th"
    using assms(1) by (rule wf_kernel_current)
  then show ?thesis
    using wf_kernel_upd [of k "running k" f] upd_running [of k f] assms by simp
qed

definition push_work :: "'w work list \<Rightarrow> 'w kernel \<Rightarrow> 'w kernel" where
  "push_work ws = set_running (\<lambda>th. th\<lparr>work := ws @ work th\<rparr>)"

lemma push_eq: "threads k (running k) \<noteq> None \<Longrightarrow> push ws k = Some (push_work ws k)"
  by (simp add: push_def push_work_def upd_running)

lemma push_wf: "wf_kernel k \<Longrightarrow> wf_kernel (push_work ws k)"
  unfolding push_work_def by (rule wf_set_running_work) simp_all

text \<open>The state in which the thread enters the queue of the semaphore.\<close>

definition at_sema :: "'w kernel \<Rightarrow> sema_ref \<Rightarrow> intr_level \<Rightarrow> 'w kernel" where
  "at_sema k s l = push_work [DownLoop s l]
     (set_sema k s ((semas k s)\<lparr>waiters := seq_insert (cmp_priority_thread k) (running k) (waiters (semas k s))\<rparr>))"

lemma sema_down_loop_cases:
  assumes wf: "wf_kernel k" and "running k \<noteq> idle_thread k" and "sema_down_loop k s l = Some k'"
  obtains (taken) b where "sema_value (semas k s) \<noteq> 0"
      and "k' = set_sema k s ((semas k s)\<lparr>sema_value := sema_value (semas k s) - 1\<rparr>)\<lparr>irq := (irq k)\<lparr>if_flag := b\<rparr>\<rparr>"
      and "wf_kernel k'"
    | (wait) v e where "sema_value (semas k s) = 0" and "k' = switched (block_running (at_sema k s l)) v e"
      and "wf_kernel k'" and "sched_pre (block_running (at_sema k s l))"
proof (cases "sema_value (semas k s) = 0")
  case False
  let ?k = "set_sema k s ((semas k s)\<lparr>sema_value := sema_value (semas k s) - 1\<rparr>)"
  have "k_set_level ?k l = Some k'"
    using assms(3) False by (simp add: sema_down_loop_def Let_def)
  then obtain b where b: "k' = ?k\<lparr>irq := (irq ?k)\<lparr>if_flag := b\<rparr>\<rparr>"
    using k_set_level_Some by blast
  have "same_sched k' k"
    unfolding b by (simp add: same_sched_def set_sema_def)
  then show thesis
    using taken [OF False] b wf same_schedD(5) by auto
next
  case True
  obtain th where th: "threads k (running k) = Some th" "thread_current k = Some (running k)"
    using wf by (rule wf_kernel_current)
  have "queue_insert k (cmp_priority_thread k) (running k) (queue k (Waiters s)) = Some (seq_insert (cmp_priority_thread k) (running k) (queue k (Waiters s)))"
    by (rule queue_insert_wf) (use wf th in \<open>simp_all add: wf_kernel_def\<close>)
  then have blk: "thread_block (at_sema k s l) = Some k'"
    using assms(3) True th by (simp add: sema_down_loop_def at_sema_def Let_def push_eq)
  let ?k0 = "push_work [DownLoop s l] k"
  have wf0: "wf_kernel ?k0" and ni: "running ?k0 \<noteq> idle_thread ?k0"
    using push_wf [OF wf] assms(2) by (simp, simp add: push_work_def)
  show thesis
  proof (rule block_in_queue [OF wf0 ni, of "Waiters s" "at_sema k s l" "cmp_priority_thread k"])
    show "queue (at_sema k s l) = (queue ?k0)(Waiters s := seq_insert (cmp_priority_thread k) (running ?k0) (queue ?k0 (Waiters s)))"
      by (simp add: at_sema_def push_work_def queue_set_sema)
    show "threads (at_sema k s l) = threads ?k0"
      by (simp add: at_sema_def push_work_def set_running_def set_sema_def)
  qed (use blk wait [OF True] in \<open>auto simp: at_sema_def push_work_def\<close>)
qed

text \<open>\<open>sema_down\<close> takes a positive semaphore at once, and blocks the thread otherwise.\<close>

lemma sema_down_taken:
  assumes "\<not> in_external_intr (irq k)" and "sema_value (semas k s) \<noteq> 0"
  shows "sema_down k s = Some (set_sema k s ((semas k s)\<lparr>sema_value := sema_value (semas k s) - 1\<rparr>))"
proof -
  let ?k = "k\<lparr>irq := (irq k)\<lparr>if_flag := False\<rparr>\<rparr>"
  let ?v = "(semas k s)\<lparr>sema_value := sema_value (semas k s) - 1\<rparr>"
  have "k_set_level (set_sema ?k s ?v) (intr_get_level (irq k)) = Some ((set_sema ?k s ?v)\<lparr>irq := irq k\<rparr>)"
    by (rule k_set_level_restore) (use assms(1) in \<open>simp_all add: irq_ok_def\<close>)
  then show ?thesis
    using assms by (simp add: sema_down_def sema_down_loop_def k_disable_eq intr_context_def Let_def) (simp add: set_sema_def)
qed

lemma sema_down_waits:
  assumes wf: "wf_kernel k" and "running k \<noteq> idle_thread k" and "idle_thread k \<noteq> 0" and ext: "\<not> in_external_intr (irq k)"
    and "sema_value (semas k s) = 0"
  obtains k1 v e where "sema_down k s = Some (switched (block_running k1) v e)" and "next_thread (block_running k1) \<noteq> running k"
    and "st (block_running k1) = (st k)(running k \<mapsto> THREAD_BLOCKED)" and "running k1 = running k"
    and "threads k1 = threads (push_work [DownLoop s (intr_get_level (irq k))] k)"
    and "waiters (semas k1 s) = seq_insert (cmp_priority_thread k) (running k) (waiters (semas k s))"
proof -
  let ?l = "intr_get_level (irq k)" and ?k = "k\<lparr>irq := (irq k)\<lparr>if_flag := False\<rparr>\<rparr>"
  let ?kq = "at_sema ?k s ?l" and ?kp = "push_work [DownLoop s ?l] ?k"
  have wfk: "wf_kernel ?k"
    using wf same_schedD(5) [of ?k k] by (simp add: same_sched_def)
  obtain th where th: "threads ?k (running ?k) = Some th" "thread_current ?k = Some (running ?k)"
    using wfk by (rule wf_kernel_current)
  have "queue_insert ?k (cmp_priority_thread ?k) (running ?k) (queue ?k (Waiters s)) = Some (seq_insert (cmp_priority_thread ?k) (running ?k) (queue ?k (Waiters s)))"
    by (rule queue_insert_wf) (use wfk th in \<open>simp_all add: wf_kernel_def\<close>)
  then have d: "sema_down k s = thread_block ?kq"
    using th assms(5) ext by (simp add: sema_down_def sema_down_loop_def k_disable_eq intr_context_def Let_def at_sema_def push_eq)
  have k0: "st ?kp = st k" "running ?kp = running k" "idle_thread ?kp = idle_thread k"
    using th(1) st_cong [of ?k k] by (simp_all add: push_work_def st_set_running st_Some fun_upd_idem)
  have q: "queue ?kq = (queue ?kp)(Waiters s := seq_insert (cmp_priority_thread ?k) (running ?kp) (queue ?kp (Waiters s)))"
    by (simp add: at_sema_def push_work_def queue_set_sema)
  have t: "threads ?kq = threads ?kp" "threads ?kp = threads (push_work [DownLoop s ?l] k)"
    by (simp_all add: at_sema_def push_work_def set_running_def set_sema_def)
  have c: "cmp_priority_thread ?k = cmp_priority_thread k"
    by (simp add: cmp_priority_thread_def fun_eq_iff)
  have w: "running ?kq = running k" "waiters (semas ?kq s) = seq_insert (cmp_priority_thread k) (running k) (waiters (semas k s))"
    unfolding at_sema_def c by (simp_all add: push_work_def)
  show thesis
  proof (rule block_in_queue_ok [OF push_wf [OF wfk] _ _ t(1) _ _ _ _ q])
    fix v e
    assume b: "thread_block ?kq = Some (switched (block_running ?kq) v e)" "next_thread (block_running ?kq) \<noteq> running ?kp"
      "st (block_running ?kq) = (st ?kp)(running ?kp \<mapsto> THREAD_BLOCKED)"
    show thesis
      by (rule that [OF d [unfolded b(1)] b(2,3) [unfolded k0] w(1) trans [OF t] w(2)])
  qed (use assms k0 in \<open>simp_all add: at_sema_def push_work_def\<close>)
qed

text \<open>The effect of \<open>sema_up\<close>: the first waiter becomes ready, and the value grows by one.\<close>

definition woken_first :: "'w kernel \<Rightarrow> sema_ref \<Rightarrow> 'w kernel" where
  "woken_first k s = (case waiters (semas k s) of [] \<Rightarrow> k
     | t # ts \<Rightarrow> unblocked (set_sema k s ((semas k s)\<lparr>waiters := ts\<rparr>)) t)"

definition upped :: "'w kernel \<Rightarrow> sema_ref \<Rightarrow> 'w kernel" where
  "upped k s = (let k1 = woken_first k s in
     set_sema k1 s ((semas k1 s)\<lparr>sema_value := sema_value (semas k1 s) + 1\<rparr>))"

lemma unblocked_fields [simp]:
  "irq (unblocked k t) = irq k" "running (unblocked k t) = running k" "idle_thread (unblocked k t) = idle_thread k"
  "vmem (unblocked k t) = vmem k" "sleeping_list (unblocked k t) = sleeping_list k" "semas (unblocked k t) = semas k"
  "initial_thread (unblocked k t) = initial_thread k" "userprog (unblocked k t) = userprog k"
  "lock_holder (unblocked k t) = lock_holder k" "cond_waiters (unblocked k t) = cond_waiters k"
  by (simp_all add: unblocked_def)

lemma wf_queues_pop:
  assumes "wf_queues k" and q: "queue k q = t # ts" "q \<noteq> Ready" and k1: "queue k1 = (queue k)(q := ts)"
    "threads k1 = threads k" "running k1 = running k" "idle_thread k1 = idle_thread k"
  shows "wf_queues k1" and "st k1 t = Some THREAD_BLOCKED" and "\<And>q. t \<notin> set (queue k1 q)" and "t \<noteq> idle_thread k1"
proof -
  have inv: "qinv (st k) (queue k) (running k) (idle_thread k)"
    using assms by (simp add: wf_queues_def)
  note d = qinv_dequeue [OF inv q(1)]
  show "\<And>q. t \<notin> set (queue k1 q)" and "t \<noteq> idle_thread k1"
    using d(1,2) k1 by auto
  have b: "st k t = Some THREAD_BLOCKED"
    using qinv_status [OF inv, of t q] q queue_status_iff(4) [of q] by simp
  then show "st k1 t = Some THREAD_BLOCKED"
    using st_cong [OF k1(2)] by simp
  have "qinv (st k) ((queue k)(q := ts)) (running k) (idle_thread k)"
  proof (rule qinvI)
    show "distinct (((queue k)(q := ts)) p)" for p
      by (rule d(4))
    show "p = p'" if "u \<in> set (((queue k)(q := ts)) p)" "u \<in> set (((queue k)(q := ts)) p')" for p p' u
      using that qinv_unique [OF inv] unfolding d(3) by blast
    show "u \<noteq> idle_thread k \<and> st k u = Some (queue_status p)" if "u \<in> set (((queue k)(q := ts)) p)" for p u
      using that qinv_status [OF inv, of u p] qinv_not_idle [OF inv, of u p] unfolding d(3) by simp
    show "u \<in> set (((queue k)(q := ts)) Ready) \<or> u = idle_thread k" if "st k u = Some THREAD_READY" for u
      using that qinv_ready [OF inv, of u] b unfolding d(3) by auto
  qed (use qinv_running [OF inv] qinv_idle [OF inv] in blast)+
  then show "wf_queues k1"
    unfolding wf_queues_def k1(1,3,4) st_cong [OF k1(2)] .
qed

lemma unblock_first:
  assumes wf: "wf_kernel k" and "irq_ok k" and w: "waiters (semas k s) = t # ts"
  shows "thread_unblock (set_sema k s ((semas k s)\<lparr>waiters := ts\<rparr>)) t = Some (woken_first k s)" and "wf_kernel (woken_first k s)"
proof -
  let ?k = "set_sema k s ((semas k s)\<lparr>waiters := ts\<rparr>)"
  have wq: "wf_queues k" "wf_threads k" and run: "st k (running k) = Some THREAD_RUNNING"
    using wf by (simp_all add: wf_kernel_def)
  have "queue k (Waiters s) = t # ts"
    using w by simp
  note p = wf_queues_pop [OF wq(1) this, of ?k, unfolded queue_set_sema, simplified]
  have "wf_threads ?k" "irq_ok ?k"
    using wq(2) assms(2) by (simp_all add: wf_threads_def irq_ok_def)
  then have u: "thread_unblock ?k t = Some (unblocked ?k t)" "wf_threads (unblocked ?k t)" "wf_queues (unblocked ?k t)"
    using thread_unblock_ok [of ?k t] p by (simp_all add: queue_set_sema)
  have "running k \<noteq> t"
    using p(2) run st_cong [of ?k k] by auto
  then have "st (unblocked ?k t) (running (unblocked ?k t)) = Some THREAD_RUNNING"
    using run by (simp add: st_def unblocked_def)
  then show "thread_unblock ?k t = Some (woken_first k s)" and "wf_kernel (woken_first k s)"
    using u w by (simp_all add: woken_first_def wf_kernel_def)
qed

lemma cmp_priority_cong: "threads k' = threads k \<Longrightarrow> cmp_priority_thread k' = cmp_priority_thread k"
  by (simp add: cmp_priority_thread_def fun_eq_iff)

lemma cmp_priority_fields [simp]:
  "cmp_priority_thread (k\<lparr>irq := i\<rparr>) = cmp_priority_thread k" "cmp_priority_thread (k\<lparr>semas := m\<rparr>) = cmp_priority_thread k"
  "cmp_priority_thread (set_sema k s v) = cmp_priority_thread k" "cmp_priority_thread (k\<lparr>ready_list := q\<rparr>) = cmp_priority_thread k"
  "cmp_priority_thread (k\<lparr>sleeping_list := q\<rparr>) = cmp_priority_thread k"
  by (auto intro: cmp_priority_cong)

lemma woken_first_irq: "woken_first (k\<lparr>irq := i\<rparr>) s = (woken_first k s)\<lparr>irq := i\<rparr>"
  by (cases "waiters (semas k s)")
    (simp_all add: woken_first_def unblocked_def set_sema_def)

lemma sema_up_ok:
  assumes wf: "wf_kernel k" and ok: "irq_ok k"
  shows "sema_up k s = (if userprog k then Some (upped k s) else thread_yield (upped k s))" and "wf_kernel (upped k s)"
proof -
  let ?i = "(irq k)\<lparr>if_flag := False\<rparr>"
  let ?k = "k\<lparr>irq := ?i\<rparr>"
  have wf': "wf_kernel ?k" "irq_ok ?k"
    using wf same_schedD(5) [of ?k k] by (simp_all add: same_sched_def irq_ok_def)
  have w: "(case waiters (semas ?k s) of [] \<Rightarrow> Some ?k
      | t # ts \<Rightarrow> thread_unblock (set_sema ?k s ((semas ?k s)\<lparr>waiters := ts\<rparr>)) t) = Some (woken_first ?k s)"
    using unblock_first(1) [OF wf', of s] by (cases "waiters (semas k s)") (simp_all add: woken_first_def)
  let ?k1 = "woken_first k s"
  have e: "sema_up k s = do {
      k2 \<leftarrow> k_set_level (set_sema (?k1\<lparr>irq := ?i\<rparr>) s ((semas ?k1 s)\<lparr>sema_value := sema_value (semas ?k1 s) + 1\<rparr>)) (intr_get_level (irq k));
      if \<not> userprog k2 then thread_yield k2 else Some k2 }"
    unfolding sema_up_def k_disable_eq using w by (simp add: woken_first_irq Let_def)
  have "irq ?k1 = irq k" "userprog ?k1 = userprog k"
    by (simp_all add: woken_first_def split: list.splits)
  moreover have "set_sema (?k1\<lparr>irq := ?i\<rparr>) s v\<lparr>irq := irq k\<rparr> = set_sema ?k1 s v" for v
    using calculation(1) by (simp add: set_sema_def)
  ultimately show "sema_up k s = (if userprog k then Some (upped k s) else thread_yield (upped k s))"
    unfolding e by (simp add: k_set_level_restore [OF ok] upped_def Let_def)
  have "wf_kernel ?k1"
    using unblock_first(2) [OF wf ok, of s] wf by (cases "waiters (semas k s)") (simp_all add: woken_first_def)
  then show "wf_kernel (upped k s)"
    unfolding upped_def Let_def by (subst same_schedD(5) [OF same_sched_value]) simp_all
qed

section \<open>Sleeping and waking\<close>

definition asleep :: "'w kernel \<Rightarrow> i64 \<Rightarrow> 'w kernel" where
  "asleep k n = (let k1 = set_running (\<lambda>th. th\<lparr>wake_up_tick := n\<rparr>) k in
     k1\<lparr>sleeping_list := seq_insert (cmp_sleeping_thread k1) (running k) (sleeping_list k)\<rparr>)"

lemma thread_sleep_Some:
  assumes wf: "wf_kernel k" and "running k \<noteq> idle_thread k" and "thread_sleep k n = Some k'"
  obtains v e where "k' = switched (block_running (asleep k n)) v e" and "wf_kernel k'" and "sched_pre (block_running (asleep k n))"
proof -
  obtain th where th: "threads k (running k) = Some th" "thread_current k = Some (running k)"
    using wf by (rule wf_kernel_current)
  let ?k = "set_running (\<lambda>th. th\<lparr>wake_up_tick := n\<rparr>) k"
  have wf1: "wf_kernel ?k"
    using wf by (rule wf_set_running_work) simp_all
  have u: "upd_thread k (running k) (\<lambda>th. th\<lparr>wake_up_tick := n\<rparr>) = Some ?k"
    using th by (intro upd_running) simp
  have "queue_insert ?k (cmp_sleeping_thread ?k) (running k) (queue ?k Sleeping) = Some (seq_insert (cmp_sleeping_thread ?k) (running k) (queue ?k Sleeping))"
    using wf1 th by (intro queue_insert_wf) (simp_all add: wf_kernel_def set_running_def)
  then have q: "queue_insert ?k (cmp_sleeping_thread ?k) (running k) (sleeping_list k) = Some (seq_insert (cmp_sleeping_thread ?k) (running k) (sleeping_list k))"
    by simp
  then have blk: "thread_block (asleep k n) = Some k'"
    using assms(3) th(2) u by (simp add: thread_sleep_def asleep_def Let_def)
  show thesis
  proof (rule block_in_queue [OF wf1, of Sleeping "asleep k n" "cmp_sleeping_thread ?k"])
    show "queue (asleep k n) = (queue ?k)(Sleeping := seq_insert (cmp_sleeping_thread ?k) (running ?k) (queue ?k Sleeping))"
      unfolding asleep_def Let_def by (rule ext) (case_tac x; simp)
  qed (use blk that assms(2) in \<open>auto simp: asleep_def Let_def\<close>)
qed

lemma wake_one:
  assumes wf: "wf_kernel k" and "irq_ok k" and w: "sleeping_list k = t # ts"
  defines "k1 \<equiv> k\<lparr>sleeping_list := ts\<rparr>"
  shows "thread_unblock k1 t = Some (unblocked k1 t)" and "wf_kernel (unblocked k1 t)"
proof -
  have wq: "wf_queues k" "wf_threads k" and run: "st k (running k) = Some THREAD_RUNNING"
    using wf by (simp_all add: wf_kernel_def)
  have q: "queue k Sleeping = t # ts" "queue k1 = (queue k)(Sleeping := ts)"
    unfolding k1_def by (simp add: w, rule ext, case_tac x, simp_all)
  have p: "wf_queues k1" "st k1 t = Some THREAD_BLOCKED" "\<And>q. t \<notin> set (queue k1 q)" "t \<noteq> idle_thread k1"
    using wf_queues_pop [OF wq(1) q(1) _ q(2)] by (simp_all add: k1_def)
  have "wf_threads k1" "irq_ok k1"
    using wq(2) assms(2) by (simp_all add: wf_threads_def irq_ok_def k1_def)
  then have u: "thread_unblock k1 t = Some (unblocked k1 t)" "wf_threads (unblocked k1 t)" "wf_queues (unblocked k1 t)"
    using thread_unblock_ok [of k1 t] p by simp_all
  have "running k \<noteq> t"
    using p(2) run st_cong [of k1 k] by (auto simp: k1_def)
  then have "st (unblocked k1 t) (running (unblocked k1 t)) = Some THREAD_RUNNING"
    using run by (simp add: st_def unblocked_def k1_def)
  then show "thread_unblock k1 t = Some (unblocked k1 t)" and "wf_kernel (unblocked k1 t)"
    using u by (simp_all add: wf_kernel_def)
qed

text \<open>Whether a sleeping thread is due, and the statuses after the due ones have been woken.\<close>

definition due :: "'w kernel \<Rightarrow> i64 \<Rightarrow> tptr \<Rightarrow> bool" where
  "due k now t \<longleftrightarrow> (case threads k t of Some th \<Rightarrow> sint (wake_up_tick th) \<le> sint now | None \<Rightarrow> False)"

definition set_ready :: "tptr set \<Rightarrow> (tptr \<Rightarrow> 'w thread option) \<Rightarrow> tptr \<Rightarrow> 'w thread option" where
  "set_ready A m t = (if t \<in> A then map_option (\<lambda>th. th\<lparr>status := THREAD_READY\<rparr>) (m t) else m t)"

lemma due_unblocked: "due (unblocked (k\<lparr>sleeping_list := ts\<rparr>) t) now = due k now"
  by (auto simp: due_def unblocked_def fun_eq_iff split: option.splits)

lemma cmp_priority_unblocked: "cmp_priority_thread (unblocked (k\<lparr>sleeping_list := ts\<rparr>) t) = cmp_priority_thread k"
  by (auto simp: cmp_priority_thread_def unblocked_def fun_eq_iff split: option.splits)

lemma wake_none:
  assumes "takeWhile (due k now) (sleeping_list k) = []"
  shows "k\<lparr>sleeping_list := dropWhile (due k now) (sleeping_list k), ready_list := ready_list k,
    threads := set_ready (set (takeWhile (due k now) (sleeping_list k))) (threads k)\<rparr> = k"
proof -
  have "dropWhile (due k now) (sleeping_list k) = sleeping_list k"
    using takeWhile_dropWhile_id [of "due k now" "sleeping_list k"] assms by simp
  moreover have "set_ready {} (threads k) = threads k"
    by (simp add: set_ready_def fun_eq_iff)
  ultimately show ?thesis
    using assms by simp
qed

lemma thread_wake_up_loop_ok:
  assumes "wf_kernel k" and "irq_ok k" and "length (sleeping_list k) \<le> n"
  shows "\<exists>q. thread_wake_up_loop n k now = Some (k\<lparr>sleeping_list := dropWhile (due k now) (sleeping_list k), ready_list := q,
      threads := set_ready (set (takeWhile (due k now) (sleeping_list k))) (threads k)\<rparr>)
    \<and> wf_kernel (k\<lparr>sleeping_list := dropWhile (due k now) (sleeping_list k), ready_list := q,
      threads := set_ready (set (takeWhile (due k now) (sleeping_list k))) (threads k)\<rparr>)
    \<and> mset q = mset (ready_list k) + mset (takeWhile (due k now) (sleeping_list k))
    \<and> q = foldl (\<lambda>q t. seq_insert (cmp_priority_thread k) t q) (ready_list k) (takeWhile (due k now) (sleeping_list k))"
  using assms
proof (induction n arbitrary: k)
  case 0
  then have none: "takeWhile (due k now) (sleeping_list k) = []" "sleeping_list k = []"
    by simp_all
  show ?case
    by (rule exI [of _ "ready_list k"]) (unfold wake_none [OF none(1)], simp add: 0 none thread_wake_up_loop.simps [of 0])
next
  case (Suc n)
  show ?case
  proof (cases "sleeping_list k")
    case Nil
    then have none: "takeWhile (due k now) (sleeping_list k) = []"
      by simp
    show ?thesis
      by (rule exI [of _ "ready_list k"]) (unfold wake_none [OF none], simp add: Suc.prems Nil thread_wake_up_loop.simps [of "Suc n"])
  next
    case (Cons t ts)
    obtain th where th: "threads k t = Some th"
      using Suc.prems(1) Cons qinv_status [of "st k" "queue k" "running k" "idle_thread k" t Sleeping]
      by (auto simp: wf_kernel_def wf_queues_def st_Some)
    show ?thesis
    proof (cases "due k now t")
      case False
      then have none: "takeWhile (due k now) (sleeping_list k) = []"
        using Cons by simp
      have "thread_wake_up_loop (Suc n) k now = Some k"
        using False Cons th by (simp add: thread_wake_up_loop.simps [of "Suc n"] due_def)
      then show ?thesis
        by (intro exI [of _ "ready_list k"]) (unfold wake_none [OF none], simp add: Suc.prems none)
    next
      case True
      let ?k = "unblocked (k\<lparr>sleeping_list := ts\<rparr>) t"
      note u = wake_one [OF Suc.prems(1,2) Cons]
      have s: "thread_wake_up_loop (Suc n) k now = thread_wake_up_loop n ?k now"
        using Cons th True u(1) by (simp add: thread_wake_up_loop.simps [of "Suc n"] due_def)
      have ok: "irq_ok ?k" "length (sleeping_list ?k) \<le> n"
        using Suc.prems(2,3) Cons by (simp_all add: irq_ok_def)
      have r: "set_ready A (threads ?k) = set_ready (insert t A) (threads k)" for A
        by (auto simp: set_ready_def unblocked_def fun_eq_iff option.map_comp o_def)
      have f: "?k\<lparr>sleeping_list := xs, ready_list := q, threads := T\<rparr> = k\<lparr>sleeping_list := xs, ready_list := q, threads := T\<rparr>" for xs q T
        by (simp add: unblocked_def)
      obtain q where q: "thread_wake_up_loop n ?k now = Some (k\<lparr>sleeping_list := dropWhile (due k now) ts, ready_list := q,
            threads := set_ready (insert t (set (takeWhile (due k now) ts))) (threads k)\<rparr>)"
          "wf_kernel (k\<lparr>sleeping_list := dropWhile (due k now) ts, ready_list := q,
            threads := set_ready (insert t (set (takeWhile (due k now) ts))) (threads k)\<rparr>)"
          "mset q = mset (ready_list ?k) + mset (takeWhile (due k now) ts)"
          "q = foldl (\<lambda>q t. seq_insert (cmp_priority_thread k) t q) (ready_list ?k) (takeWhile (due k now) ts)"
        using Suc.IH [OF u(2) ok] unfolding due_unblocked cmp_priority_unblocked r f by auto
      moreover have "cmp_priority_thread (k\<lparr>sleeping_list := ts\<rparr>) = cmp_priority_thread k"
        by (simp add: cmp_priority_thread_def fun_eq_iff)
      ultimately show ?thesis
        using s Cons True by (intro exI [of _ q]) (simp add: unblocked_def)
    qed
  qed
qed

end
