(* ===== verification/Sched_Order.thy ===== *)
theory Sched_Order
  imports Sched_Ops
begin

text \<open>
  Priorities: the ready list is kept in order of priority, first come first served among
  equals, so that the processor always goes to a thread of the highest priority; the
  sleeping list is kept in order of waking time, so that each tick wakes exactly the
  threads that are due.  Aging keeps the order of the ready list.
\<close>

section \<open>Priorities as keys\<close>

definition prio :: "'w kernel \<Rightarrow> tptr \<Rightarrow> int" where
  "prio k t = (case threads k t of Some th \<Rightarrow> sint (priority th) | None \<Rightarrow> 0)"

definition wake :: "'w kernel \<Rightarrow> tptr \<Rightarrow> int" where
  "wake k t = (case threads k t of Some th \<Rightarrow> sint (wake_up_tick th) | None \<Rightarrow> 0)"

definition prio_sorted :: "'w kernel \<Rightarrow> bool" where
  "prio_sorted k \<longleftrightarrow> ordered (\<lambda>a b. prio k a > prio k b) (ready_list k)"

definition wake_sorted :: "'w kernel \<Rightarrow> bool" where
  "wake_sorted k \<longleftrightarrow> ordered (\<lambda>a b. wake k a < wake k b) (sleeping_list k)"

lemma seq_insert_cong: "(\<And>u. u \<in> set xs \<Longrightarrow> lt t u = lt' t u) \<Longrightarrow> seq_insert lt t xs = seq_insert lt' t xs"
  by (induction xs) auto

lemma ordered_cong: "(\<And>a b. a \<in> set xs \<Longrightarrow> b \<in> set xs \<Longrightarrow> lt a b = lt' a b) \<Longrightarrow> ordered lt xs = ordered lt' xs"
  by (induction xs) auto

lemma queue_insert_prio:
  assumes "threads k t \<noteq> None" and "\<And>u. u \<in> set q \<Longrightarrow> threads k u \<noteq> None"
  shows "seq_insert (cmp_priority_thread k) t q = seq_insert (\<lambda>a b. prio k a > prio k b) t q"
    and "seq_insert (cmp_sleeping_thread k) t q = seq_insert (\<lambda>a b. wake k a < wake k b) t q"
proof -
  show "seq_insert (cmp_priority_thread k) t q = seq_insert (\<lambda>a b. prio k a > prio k b) t q"
    by (rule seq_insert_cong) (use assms in \<open>force simp: cmp_priority_thread_def prio_def\<close>)
  show "seq_insert (cmp_sleeping_thread k) t q = seq_insert (\<lambda>a b. wake k a < wake k b) t q"
    by (rule seq_insert_cong) (use assms in \<open>force simp: cmp_sleeping_thread_def wake_def\<close>)
qed

lemma prio_eq: "map_option priority (threads k' t) = map_option priority (threads k t) \<Longrightarrow> prio k' t = prio k t"
  by (cases "threads k' t"; cases "threads k t") (auto simp: prio_def)

lemma wake_eq: "map_option wake_up_tick (threads k' t) = map_option wake_up_tick (threads k t) \<Longrightarrow> wake k' t = wake k t"
  by (cases "threads k' t"; cases "threads k t") (auto simp: wake_def)

lemma ready_threads_exist: "wf_queues k \<Longrightarrow> u \<in> set (ready_list k) \<Longrightarrow> threads k u \<noteq> None"
  using qinv_status [of "st k" "queue k" "running k" "idle_thread k" u Ready] by (auto simp: wf_queues_def st_Some)

lemma sleeping_threads_exist: "wf_queues k \<Longrightarrow> u \<in> set (sleeping_list k) \<Longrightarrow> threads k u \<noteq> None"
  using qinv_status [of "st k" "queue k" "running k" "idle_thread k" u Sleeping] by (auto simp: wf_queues_def st_Some)

lemma prio_sorted_insert:
  assumes "wf_queues k" and "prio_sorted k" and "threads k t \<noteq> None"
  shows "ordered (\<lambda>a b. prio k a > prio k b) (seq_insert (cmp_priority_thread k) t (ready_list k))"
proof -
  have "seq_insert (cmp_priority_thread k) t (ready_list k) = seq_insert (\<lambda>a b. prio k a > prio k b) t (ready_list k)"
    using assms(3) ready_threads_exist [OF assms(1)] by (rule queue_insert_prio(1))
  then show ?thesis
    using ordered_seq_insert [OF weak_order_key_rev, of "prio k" "ready_list k" t] assms(2) by (simp only: prio_sorted_def)
qed

lemma unblocked_sorted:
  assumes "wf_queues k" and "prio_sorted k" and "threads k t \<noteq> None"
  shows "prio_sorted (unblocked k t)"
proof -
  have "prio (unblocked k t) = prio k"
    by (rule ext) (rule prio_eq, simp add: unblocked_def option.map_comp o_def)
  moreover have "ready_list (unblocked k t) = seq_insert (cmp_priority_thread k) t (ready_list k)"
    by (simp add: unblocked_def)
  ultimately show ?thesis
    using prio_sorted_insert [OF assms] by (simp only: prio_sorted_def)
qed

section \<open>The switch respects priorities\<close>

lemma prio_switched:
  assumes "\<not> destroyed k (running k) \<or> t \<noteq> running k"
  shows "prio (switched k v e) t = prio k t"
proof -
  have "map_option priority (switched_threads k t) = map_option priority (threads k t)"
    using assms by (auto simp: switched_threads_def Let_def option.map_comp o_def)
  then show ?thesis
    by (intro prio_eq) (simp add: switched_def)
qed

lemma switched_sorted:
  assumes "sched_pre k" and "prio_sorted k"
  shows "prio_sorted (switched k v e)"
    and "t \<in> set (ready_list (switched k v e)) \<Longrightarrow> prio (switched k v e) t \<le> prio (switched k v e) (running (switched k v e))"
proof -
  note q = schedule_qinv [OF assms(1)]
  have p: "prio (switched k v e) u = prio k u" if u: "u \<in> set (ready_list k) \<or> u = next_thread k" for u
  proof (rule prio_switched)
    have "u \<noteq> running k" if d: "destroyed k (running k)"
    proof -
      have "running k \<notin> set (queue k Ready)"
        using d assms(1) by (intro qinv_running_unqueued [of "st k" "queue k" "running k" "idle_thread k"])
          (simp_all add: destroyed_def sched_pre_def wf_queues_def)
      then show ?thesis
        using q(3) [OF d] u by auto
    qed
    then show "\<not> destroyed k (running k) \<or> u \<noteq> running k"
      by blast
  qed
  have tl: "set (tl (ready_list k)) \<subseteq> set (ready_list k)"
    by (cases "ready_list k") auto
  have "ordered (\<lambda>a b. prio k a > prio k b) (tl (ready_list k))"
    using assms(2) by (cases "ready_list k") (simp_all add: prio_sorted_def)
  moreover have "ordered (\<lambda>a b. prio (switched k v e) a > prio (switched k v e) b) (tl (ready_list k))
      = ordered (\<lambda>a b. prio k a > prio k b) (tl (ready_list k))"
  proof (rule ordered_cong)
    fix a b assume "a \<in> set (tl (ready_list k))" "b \<in> set (tl (ready_list k))"
    then have "prio (switched k v e) a = prio k a" "prio (switched k v e) b = prio k b"
      using p tl by blast+
    then show "prio (switched k v e) a > prio (switched k v e) b \<longleftrightarrow> prio k a > prio k b"
      by simp
  qed
  ultimately show "prio_sorted (switched k v e)"
    unfolding prio_sorted_def by (simp add: switched_def)
  assume t: "t \<in> set (ready_list (switched k v e))"
  then obtain n ns where r: "ready_list k = n # ns" and tn: "t \<in> set ns"
    by (cases "ready_list k") (auto simp: switched_def)
  then have "prio k t \<le> prio k n" and n: "next_thread k = n"
    using assms(2) by (auto simp: prio_sorted_def next_thread_def not_less)
  moreover have "running (switched k v e) = n"
    using n by (simp add: switched_def)
  ultimately show "prio (switched k v e) t \<le> prio (switched k v e) (running (switched k v e))"
    using p [of t] p [of n] r tn by simp
qed

lemma prio_yielded: "prio (yielded k) = prio k"
  by (rule ext) (rule prio_eq, simp add: yielded_def set_running_def option.map_comp o_def)

lemma yielded_sorted:
  assumes "wf_kernel k" and "prio_sorted k"
  shows "prio_sorted (yielded k)"
proof -
  obtain th where "threads k (running k) = Some th"
    using assms(1) by (rule wf_kernel_current)
  then have "ordered (\<lambda>a b. prio k a > prio k b) (seq_insert (cmp_priority_thread k) (running k) (ready_list k))"
    using assms by (intro prio_sorted_insert) (simp_all add: wf_kernel_def)
  then show ?thesis
    using assms(2) unfolding prio_sorted_def prio_yielded by (simp add: yielded_def)
qed

lemma sorted_takeWhile_filter:
  assumes "sorted_wrt (\<lambda>a b. \<not> (f b < f a)) xs" and "\<And>x. x \<in> set xs \<Longrightarrow> P x \<longleftrightarrow> (f x :: int) \<le> c"
  shows "takeWhile P xs = filter P xs" and "dropWhile P xs = filter (\<lambda>x. \<not> P x) xs"
proof -
  have "takeWhile P xs = filter P xs \<and> dropWhile P xs = filter (\<lambda>x. \<not> P x) xs"
    using assms
  proof (induction xs)
    case (Cons x xs)
    show ?case
    proof (cases "P x")
      case False
      then have "\<not> P y" if "y \<in> set xs" for y
        using that Cons.prems by (auto simp: not_less)
      then show ?thesis
        using False by (auto simp: filter_id_conv filter_empty_conv intro!: filter_True [symmetric])
    qed (use Cons in auto)
  qed simp
  then show "takeWhile P xs = filter P xs" and "dropWhile P xs = filter (\<lambda>x. \<not> P x) xs"
    by blast+
qed

text \<open>In an ordered list the insertion puts an element behind all that are not below it.\<close>

lemma seq_insert_prio_filter:
  assumes "ordered (\<lambda>a b. f a > (f b :: int)) xs"
  shows "seq_insert (\<lambda>a b. f a > f b) x xs = filter (\<lambda>y. f x \<le> f y) xs @ x # filter (\<lambda>y. f y < f x) xs"
  using sorted_takeWhile_filter [of "\<lambda>y. - f y" xs "\<lambda>y. f x \<le> f y" "- f x"] assms
  by (simp add: seq_insert_def ordered_def not_less not_le)

lemma yielded_ready:
  assumes "wf_kernel k" and "prio_sorted k"
  shows "ready_list (yielded k) = (if running k = idle_thread k then ready_list k
    else filter (\<lambda>t. prio k (running k) \<le> prio k t) (ready_list k) @ running k # filter (\<lambda>t. prio k t < prio k (running k)) (ready_list k))"
proof -
  obtain th where "threads k (running k) = Some th"
    using assms(1) by (rule wf_kernel_current)
  moreover have "wf_queues k"
    using assms(1) by (simp add: wf_kernel_def)
  ultimately have "seq_insert (cmp_priority_thread k) (running k) (ready_list k) = seq_insert (\<lambda>a b. prio k a > prio k b) (running k) (ready_list k)"
    using ready_threads_exist by (intro queue_insert_prio(1)) auto
  then show ?thesis
    using seq_insert_prio_filter [of "prio k" "ready_list k" "running k"] assms(2) by (simp add: yielded_def prio_sorted_def)
qed

lemma yielded_head:
  assumes "wf_kernel k" and "prio_sorted k" and t: "t \<in> set (ready_list k)" "prio k (running k) \<le> prio k t"
  shows "ready_list (yielded k) \<noteq> [] \<and> hd (ready_list (yielded k)) \<noteq> running k"
proof -
  obtain th where th: "threads k (running k) = Some th" "status th = THREAD_RUNNING"
    using assms(1) by (rule wf_kernel_current)
  have "wf_queues k"
    using assms(1) by (simp add: wf_kernel_def)
  then have "running k \<notin> set (queue k Ready)"
    using th by (intro qinv_running_unqueued [of "st k" "queue k" "running k" "idle_thread k"])
      (simp_all add: wf_queues_def st_Some)
  then have r: "running k \<notin> set (ready_list k)"
    by simp
  let ?f = "filter (\<lambda>t. prio k (running k) \<le> prio k t) (ready_list k)"
  have "?f \<noteq> []" "ready_list k \<noteq> []"
    using t by (auto simp: filter_empty_conv)
  moreover from this have "hd ?f \<noteq> running k" "hd (ready_list k) \<noteq> running k"
    using r hd_in_set [of ?f] by (auto, metis hd_in_set)
  ultimately show ?thesis
    unfolding yielded_ready [OF assms(1,2)] by (cases "running k = idle_thread k") simp_all
qed

text \<open>
  C20: \<open>thread_yield\<close> never panics in a well-formed kernel and keeps it well formed and in order.  The
  running thread, unless it is the idle thread, goes behind all ready threads of its own or a higher
  priority and in front of those of a lower one, which keep their places; then the first of
  the list runs.  So the processor goes to a thread of the highest priority, round robin among equals.
\<close>

theorem thread_yield_correct:
  assumes "wf_kernel k" and "prio_sorted k" and "\<not> in_external_intr (irq k)"
  shows "\<exists>k' q. thread_yield k = Some k' \<and> wf_kernel k' \<and> prio_sorted k'
    \<and> q = (if running k = idle_thread k then ready_list k
           else filter (\<lambda>t. prio k (running k) \<le> prio k t) (ready_list k) @ running k # filter (\<lambda>t. prio k t < prio k (running k)) (ready_list k))
    \<and> running k' = (if q = [] then idle_thread k else hd q) \<and> ready_list k' = tl q
    \<and> (\<forall>t \<in> set (ready_list k'). prio k' t \<le> prio k' (running k'))
    \<and> ((\<exists>t \<in> set (ready_list k). prio k (running k) \<le> prio k t) \<longrightarrow> running k' \<noteq> running k)"
proof -
  obtain v e where y: "thread_yield k = Some (switched (yielded k) v e)" "wf_kernel (switched (yielded k) v e)"
    using thread_yield_ok [OF assms(1,3)] by blast
  note sorted = switched_sorted [OF yielded_pre [OF assms(1)] yielded_sorted [OF assms(1,2)], where v = v and e = e]
  have n: "running (switched (yielded k) v e) = (if ready_list (yielded k) = [] then idle_thread k else hd (ready_list (yielded k)))"
      "ready_list (switched (yielded k) v e) = tl (ready_list (yielded k))"
    by (simp_all add: switched_def next_thread_def yielded_def)
  have "running (switched (yielded k) v e) \<noteq> running k"
    if t: "t \<in> set (ready_list k)" "prio k (running k) \<le> prio k t" for t
    using yielded_head [OF assms(1,2) t] n(1) t(1) by auto
  then show ?thesis
    using y sorted n unfolding yielded_ready [OF assms(1,2)] by (intro exI [of _ "switched (yielded k) v e"]) auto
qed

section \<open>Waking\<close>

lemma due_wake: "threads k t \<noteq> None \<Longrightarrow> due k now t \<longleftrightarrow> wake k t \<le> sint now"
  by (auto simp: due_def wake_def)

lemma foldl_seq_insert_cong:
  assumes "\<And>a b. a \<in> set xs \<Longrightarrow> b \<in> set q \<union> set xs \<Longrightarrow> lt a b = lt' a b"
  shows "foldl (\<lambda>q t. seq_insert lt t q) q xs = foldl (\<lambda>q t. seq_insert lt' t q) q xs"
  using assms
proof (induction xs arbitrary: q)
  case (Cons x xs)
  have "seq_insert lt x q = seq_insert lt' x q"
    by (rule seq_insert_cong) (simp add: Cons.prems)
  moreover have "foldl (\<lambda>q t. seq_insert lt t q) (seq_insert lt' x q) xs = foldl (\<lambda>q t. seq_insert lt' t q) (seq_insert lt' x q) xs"
    by (rule Cons.IH) (use Cons.prems in auto)
  ultimately show ?case
    by simp
qed simp

lemma ordered_foldl_seq_insert:
  "ordered (\<lambda>a b. f a > (f b :: int)) q \<Longrightarrow> ordered (\<lambda>a b. f a > f b) (foldl (\<lambda>q t. seq_insert (\<lambda>a b. f a > f b) t q) q xs)"
  by (induction xs arbitrary: q) (simp_all add: ordered_seq_insert weak_order_key_rev)

text \<open>
  C21: each tick makes ready exactly the sleeping threads that are due, and nothing but their
  statuses and the two lists changes.  The threads that are woken enter the ready list in the order of their waking
  times, each behind the ready threads of its own or a higher priority.
\<close>

theorem thread_wake_up_correct:
  assumes "wf_kernel k" and "irq_ok k" and "wake_sorted k"
  shows "\<exists>k' D q. D = {t \<in> set (sleeping_list k). wake k t \<le> sint now}
    \<and> q = foldl (\<lambda>q t. seq_insert (\<lambda>a b. prio k a > prio k b) t q) (ready_list k) (filter (\<lambda>t. t \<in> D) (sleeping_list k))
    \<and> k' = k\<lparr>sleeping_list := filter (\<lambda>t. t \<notin> D) (sleeping_list k), ready_list := q, threads := set_ready D (threads k)\<rparr>
    \<and> thread_wake_up k now = Some k' \<and> wf_kernel k' \<and> wake_sorted k' \<and> (prio_sorted k \<longrightarrow> prio_sorted k')"
proof -
  let ?s = "sleeping_list k"
  define D where "D = {t \<in> set ?s. wake k t \<le> sint now}"
  have wq: "wf_queues k"
    using assms(1) by (simp add: wf_kernel_def)
  have d: "due k now t \<longleftrightarrow> wake k t \<le> sint now" if "t \<in> set ?s" for t
    using sleeping_threads_exist [OF wq that] by (rule due_wake)
  have f: "takeWhile (due k now) ?s = filter (due k now) ?s" "dropWhile (due k now) ?s = filter (\<lambda>t. \<not> due k now t) ?s"
    using sorted_takeWhile_filter [of "wake k" ?s "due k now" "sint now"] d assms(3)
    by (simp_all add: wake_sorted_def ordered_def)
  have D: "takeWhile (due k now) ?s = filter (\<lambda>t. t \<in> D) ?s" "dropWhile (due k now) ?s = filter (\<lambda>t. t \<notin> D) ?s" "set (filter (\<lambda>t. t \<in> D) ?s) = D"
    unfolding f D_def using d by (auto intro: filter_cong)
  define q where "q = foldl (\<lambda>q t. seq_insert (cmp_priority_thread k) t q) (ready_list k) (filter (\<lambda>t. t \<in> D) ?s)"
  let ?k = "k\<lparr>sleeping_list := filter (\<lambda>t. t \<notin> D) ?s, ready_list := q, threads := set_ready D (threads k)\<rparr>"
  have run: "thread_wake_up k now = Some ?k" "wf_kernel ?k"
    using thread_wake_up_loop_ok [OF assms(1,2) order_refl, of now] unfolding D thread_wake_up_def q_def by blast+
  have same: "wake ?k = wake k" "prio ?k = prio k"
    by (rule ext, rule wake_eq, simp add: set_ready_def option.map_comp o_def,
        rule ext, rule prio_eq, simp add: set_ready_def option.map_comp o_def)
  then have "wake_sorted ?k"
    using assms(3) unfolding wake_sorted_def by (simp add: ordered_def sorted_wrt_filter)
  moreover have "cmp_priority_thread k a b = (prio k a > prio k b)" if "a \<in> D" "b \<in> set (ready_list k) \<union> D" for a b
    using that sleeping_threads_exist [OF wq, of a] sleeping_threads_exist [OF wq, of b] ready_threads_exist [OF wq, of b]
    by (auto simp: D_def cmp_priority_thread_def prio_def)
  then have q: "q = foldl (\<lambda>q t. seq_insert (\<lambda>a b. prio k a > prio k b) t q) (ready_list k) (filter (\<lambda>t. t \<in> D) ?s)"
    unfolding q_def by (intro foldl_seq_insert_cong) (use D(3) in auto)
  moreover have "prio_sorted k \<longrightarrow> prio_sorted ?k"
    using ordered_foldl_seq_insert [of "prio k" "ready_list k"] unfolding prio_sorted_def same(2) by (simp add: q)
  ultimately show ?thesis
    using run D_def by (intro exI [of _ ?k] exI [of _ D] exI [of _ q]) simp
qed

section \<open>A sample kernel\<close>

text \<open>The initial thread runs, one thread is ready, one sleeps until tick 7, and there is an idle thread.\<close>

definition sample_thread :: "thread_status \<Rightarrow> i32 \<Rightarrow> i64 \<Rightarrow> unit work list \<Rightarrow> unit thread" where
  "sample_thread s p w ws = \<lparr>tid = 1, status = s, name = [], stack = 0, priority = p, pagedir = 0, child_tlist = [],
     is_loaded = 0, exit_status = 0, fd_num = 2, fd_tab = replicate 128 0, exec_file = 0, magic = THREAD_MAGIC,
     wake_up_tick = w, nice = 0, recent_cpu = 0, sup_page_tab = \<lparr>elem_cnt = 0, bucket_cnt = 4, buckets = replicate 4 []\<rparr>,
     work = ws, ret = 0\<rparr>"

definition sample_irq :: intr_state where
  "sample_irq = \<lparr>if_flag = True, idt = replicate 256 0, intr_handlers = (replicate 256 0)[0x20 := 0xc0022000],
     intr_names = replicate 256 [], unexpected_cnt = replicate 256 0, in_external_intr = False, yield_on_return = False,
     pic_out = [], idtr = 0\<rparr>"

definition sample_mem :: palloc_state where
  "sample_mem = \<lparr>kernel_pool = \<lparr>used_map = \<lparr>bit_cnt = 4, bm_bits = [7]\<rparr>, pool_base = 0xC0100000\<rparr>,
     user_pool = \<lparr>used_map = \<lparr>bit_cnt = 4, bm_bits = [0]\<rparr>, pool_base = 0xC0200000\<rparr>, frames = (\<lambda>_. [])\<rparr>"

definition sample_kernel :: "unit kernel" where
  "sample_kernel = \<lparr>userprog = True, idle_fn = 0xc0020000,
     threads = [0xC000E000 \<mapsto> sample_thread THREAD_RUNNING 31 0 [Body 0 0],
                0xC0100000 \<mapsto> sample_thread THREAD_BLOCKED 0 0 [IdleHalt, Exit],
                0xC0101000 \<mapsto> sample_thread THREAD_READY 31 0 [Start 1 0],
                0xC0102000 \<mapsto> sample_thread THREAD_BLOCKED 40 7 [IntrSet INTR_ON, Body 1 0, Exit]],
     running = 0xC000E000, ready_list = [0xC0101000], sleeping_list = [0xC0102000],
     all_list = [0xC000E000, 0xC0100000, 0xC0101000, 0xC0102000],
     idle_thread = 0xC0100000, initial_thread = 0xC000E000, next_tid = 5, idle_ticks = 0, kernel_ticks = 0, user_ticks = 0,
     thread_ticks = 0, thread_prior_aging = False, aging_ticks = 0, load_avg = 0, thread_mlfqs = False, ticks = 6,
     semas = (\<lambda>_. \<lparr>sema_value = 1, waiters = []\<rparr>), lock_holder = (\<lambda>_. 0), cond_waiters = (\<lambda>_. []), irq = sample_irq,
     vmem = \<lparr>mem = sample_mem, init_page_dir = 0xC0103000, init_ram_pages = 1024, pdbr = 0, tlb = {}\<rparr>, tss_esp0 = 0\<rparr>"

lemma sample_live: "{0xC0100000, 0xC0101000, 0xC0102000} \<subseteq> live_pages sample_mem" "0xC000E000 \<notin> pool_pages sample_mem"
proof -
  have s: "live_slots sample_mem = {(False, 0), (False, 1), (False, 2)}"
  proof -
    have four: "i < 4 \<longleftrightarrow> i = 0 \<or> i = 1 \<or> i = 2 \<or> i = 3" for i :: nat
      by auto
    have "(u, i) \<in> live_slots sample_mem \<longleftrightarrow> (u, i) \<in> {(False, 0), (False, 1), (False, 2)}" for u i
    proof (cases "i < 4")
      case True
      then show ?thesis
        unfolding four by (cases u) (auto simp: live_slots_def sample_mem_def get_pool_def used_def bits_of_def)
    qed (auto simp: live_slots_def sample_mem_def get_pool_def)
    then show ?thesis
      by (metis set_eqI surj_pair)
  qed
  then show "{0xC0100000, 0xC0101000, 0xC0102000} \<subseteq> live_pages sample_mem"
    by (simp add: live_pages_def slot_page_def) (simp add: sample_mem_def get_pool_def page_at_def)
  have "{(u, i). i < bit_cnt (used_map (get_pool sample_mem u))} = {False, True} \<times> {0, 1, 2, 3}"
    by (auto simp: sample_mem_def get_pool_def split: if_splits)
  then show "0xC000E000 \<notin> pool_pages sample_mem"
    by (simp add: pool_pages_def slot_page_def) (simp add: sample_mem_def get_pool_def page_at_def)
qed

lemma sample_wf_kernel: "wf_kernel sample_kernel" and sample_sorted: "prio_sorted sample_kernel" "wake_sorted sample_kernel"
  and sample_irq_ok: "irq_ok sample_kernel" "\<not> in_external_intr (irq sample_kernel)"
proof -
  have "wf_palloc sample_mem"
    by (simp add: sample_mem_def wf_palloc_def wf_pool_def wf_bitmap_def aligned_iff is_kernel_vaddr_def PHYS_BASE_def)
  then have t: "wf_threads sample_kernel"
    using sample_live unfolding wf_threads_def
    by (auto simp: sample_kernel_def sample_thread_def is_kernel_vaddr_def PHYS_BASE_def split: if_splits)
  have q: "queue sample_kernel = (\<lambda>_. [])(Ready := [0xC0101000], Sleeping := [0xC0102000])"
    by (rule ext) (case_tac x; simp add: sample_kernel_def)
  have "wf_queues sample_kernel"
    unfolding wf_queues_def q
    by (rule qinvI) (auto simp: sample_kernel_def sample_thread_def st_def split: if_splits)
  then show "wf_kernel sample_kernel"
    using t by (simp add: wf_kernel_def) (simp add: sample_kernel_def sample_thread_def st_def)
  show "prio_sorted sample_kernel" "wake_sorted sample_kernel" "irq_ok sample_kernel" "\<not> in_external_intr (irq sample_kernel)"
    by (simp_all add: prio_sorted_def wake_sorted_def irq_ok_def sample_kernel_def sample_irq_def)
qed

theorem thread_yield_correct_witness:
  "\<exists>k'. thread_yield sample_kernel = Some k' \<and> running k' = 0xC0101000 \<and> ready_list k' = [0xC000E000]"
proof -
  have "prio sample_kernel 0xC000E000 = 31" "prio sample_kernel 0xC0101000 = 31" "ready_list sample_kernel = [0xC0101000]"
      "running sample_kernel = 0xC000E000" "idle_thread sample_kernel = 0xC0100000"
    by (simp_all add: prio_def sample_kernel_def sample_thread_def)
  then show ?thesis
    using thread_yield_correct [OF sample_wf_kernel sample_sorted(1) sample_irq_ok(2)] by auto
qed

theorem thread_wake_up_correct_witness:
  "\<exists>k'. thread_wake_up sample_kernel 7 = Some k' \<and> sleeping_list k' = [] \<and> ready_list k' = [0xC0102000, 0xC0101000]
    \<and> st k' 0xC0102000 = Some THREAD_READY \<and> irq k' = irq sample_kernel"
proof -
  have "wake sample_kernel 0xC0102000 = 7" "prio sample_kernel 0xC0101000 = 31" "prio sample_kernel 0xC0102000 = 40"
      "ready_list sample_kernel = [0xC0101000]" "sleeping_list sample_kernel = [0xC0102000]" "st sample_kernel 0xC0102000 = Some THREAD_BLOCKED"
    by (simp_all add: wake_def prio_def st_def sample_kernel_def sample_thread_def)
  then show ?thesis
    using thread_wake_up_correct [OF sample_wf_kernel sample_irq_ok(1) sample_sorted(2), of 7]
    by (auto simp: set_ready_def st_def)
qed

end
