(* ===== verification/Kernel_Step.thy ===== *)
theory Kernel_Step
  imports Sched_Order
begin

text \<open>
  The kernel as a transition system: the running thread executes its pending work, one
  item at a time; the code of a thread issues calls; and the timer interrupts whenever
  interrupts are enabled.  The theory gives, for every kind of step, its effect on the
  threads' work, on the semaphores and on the locks, in the form that the invariants over
  reachable states need.
\<close>

section \<open>Steps\<close>

text \<open>
  \<open>pe\<close> is the work of \<open>process_exit\<close>; \<open>ext\<close> runs the items of other components.
\<close>

fun run_work :: "'w work list \<Rightarrow> ('w \<Rightarrow> 'w kernel \<Rightarrow> 'w kernel option) \<Rightarrow> 'w work \<Rightarrow> 'w kernel \<Rightarrow> 'w kernel option" where
  "run_work pe ext (IntrSet l) k = k_set_level k l"
| "run_work pe ext Iret k = Some (k\<lparr>irq := (irq k)\<lparr>if_flag := True\<rparr>\<rparr>)"
| "run_work pe ext Yield k = thread_yield k"
| "run_work pe ext (Down s) k = sema_down k s"
| "run_work pe ext (DownLoop s l) k = sema_down_loop k s l"
| "run_work pe ext (Up s) k = sema_up k s"
| "run_work pe ext (Acquire l) k = lock_acquire k l"
| "run_work pe ext (SetHolder l) k = lock_set_holder k l"
| "run_work pe ext (Release l) k = lock_release k l"
| "run_work pe ext (Wait c l) k = cond_wait k c l"
| "run_work pe ext (Signal c l) k = cond_signal k c l"
| "run_work pe ext (Broadcast c l) k = cond_broadcast k c l"
| "run_work pe ext (Create nm p f a ok) k = thread_create k nm p f a ok"
| "run_work pe ext (Start f a) k = kernel_thread k f a"
| "run_work pe ext (Body f a) k = Some k"
| "run_work pe ext (Idle a) k = idle k a"
| "run_work pe ext IdleLoop k = idle_loop k"
| "run_work pe ext IdleHalt k = idle_halt k"
| "run_work pe ext Exit k = thread_exit pe k"
| "run_work pe ext ExitChildren k = thread_exit_children k"
| "run_work pe ext ExitTail k = thread_exit_tail k"
| "run_work pe ext (Sleep n) k = timer_sleep k n"
| "run_work pe ext (SetPriority p) k = thread_set_priority k p"
| "run_work pe ext (SetNice n) k = thread_set_nice k n"
| "run_work pe ext (Ext w) k = ext w k"

text \<open>
  The calls that the code of a thread may make.  The semaphore inside a lock is reached
  through the lock only, that of a condition through the condition only, and \<open>idle\<close> is
  local to \<open>thread.c\<close>.
\<close>

fun api :: "'w kernel \<Rightarrow> 'w work \<Rightarrow> bool" where
  "api k Yield = True"
| "api k (Down s) = (\<nexists>x. s = LockSema x \<or> s = CondSema x)"
| "api k (Up s) = (\<nexists>x. s = LockSema x \<or> s = CondSema x)"
| "api k (Acquire l) = True"
| "api k (Release l) = True"
| "api k (Wait c l) = True"
| "api k (Signal c l) = True"
| "api k (Broadcast c l) = True"
| "api k (Create nm p f a ok) = (f \<noteq> idle_fn k)"
| "api k Exit = True"
| "api k (Sleep n) = True"
| "api k (SetPriority p) = True"
| "api k (SetNice n) = True"
| "api k (Ext w) = True"
| "api k _ = False"

definition pop :: "'w kernel \<Rightarrow> 'w kernel" where
  "pop = set_running (\<lambda>th. th\<lparr>work := tl (work th)\<rparr>)"

text \<open>The only external interrupt with an effect on the scheduler is the timer, vector \<open>0x20\<close>.\<close>

definition timer_handler :: "u32 \<Rightarrow> nat \<Rightarrow> 'w kernel \<Rightarrow> 'w kernel option" where
  "timer_handler h vec k = timer_interrupt k"

inductive kstep :: "'w work list \<Rightarrow> ('w \<Rightarrow> 'w kernel \<Rightarrow> 'w kernel option) \<Rightarrow> 'w kernel \<Rightarrow> 'w kernel \<Rightarrow> bool"
  for pe ext where
    work: "threads k (running k) = Some th \<Longrightarrow> work th = w # ws \<Longrightarrow> run_work pe ext w (pop k) = Some k' \<Longrightarrow> kstep pe ext k k'"
  | call: "threads k (running k) = Some th \<Longrightarrow> work th = Body f a # ws \<Longrightarrow> api k c \<Longrightarrow>
      run_work pe ext c k = Some k' \<Longrightarrow> kstep pe ext k k'"
  | tick: "if_flag (irq k) \<Longrightarrow> external_interrupt timer_handler k 0x20 = Some k' \<Longrightarrow> kstep pe ext k k'"

section \<open>The effect of a step\<close>

text \<open>
  The threads afterwards: the work of the running thread may have grown by \<open>ws\<close> in front,
  that of all others is unchanged, and a new thread starts with a function other than \<open>idle\<close>.
\<close>

definition keeps_work :: "'w kernel \<Rightarrow> 'w work list \<Rightarrow> 'w kernel \<Rightarrow> bool" where
  "keeps_work k ws k' \<longleftrightarrow> (\<forall>t th'. threads k' t = Some th' \<longrightarrow>
     (case threads k t of
        Some th \<Rightarrow> work th' = (if t = running k then ws @ work th else work th)
      | None \<Rightarrow> (\<exists>f a. work th' = [Start f a] \<and> f \<noteq> idle_fn k)))"

definition effect :: "'w kernel \<Rightarrow> 'w work list \<Rightarrow> (sema_ref \<Rightarrow> u32) \<Rightarrow> (u32 \<Rightarrow> tptr) \<Rightarrow> 'w kernel \<Rightarrow> bool" where
  "effect k ws val lh k' \<longleftrightarrow> wf_kernel k' \<and> \<not> in_external_intr (irq k') \<and> idle_thread k' = idle_thread k
     \<and> idle_fn k' = idle_fn k \<and> keeps_work k ws k' \<and> (\<forall>s. sema_value (semas k' s) = val s) \<and> lock_holder k' = lh"

definition svals :: "'w kernel \<Rightarrow> sema_ref \<Rightarrow> u32" where
  "svals k s = sema_value (semas k s)"

lemma effectI:
  assumes "wf_kernel k'" and "\<not> in_external_intr (irq k')" and "idle_thread k' = idle_thread k" and "idle_fn k' = idle_fn k"
    and "keeps_work k ws k'" and "\<And>s. sema_value (semas k' s) = val s" and "lock_holder k' = lh"
  shows "effect k ws val lh k'"
  using assms by (simp add: effect_def)

lemma keeps_work_threads:
  assumes "\<And>t. map_option work (threads k' t) = (if t = running k then map_option (\<lambda>th. ws @ work th) (threads k t) else map_option work (threads k t))"
  shows "keeps_work k ws k'"
  unfolding keeps_work_def
proof (intro allI impI)
  fix t th'
  assume "threads k' t = Some th'"
  then have "Some (work th') = (if t = running k then map_option (\<lambda>th. ws @ work th) (threads k t) else map_option work (threads k t))"
    using assms [of t] by simp
  then show "case threads k t of Some th \<Rightarrow> work th' = (if t = running k then ws @ work th else work th)
      | None \<Rightarrow> \<exists>f a. work th' = [Start f a] \<and> f \<noteq> idle_fn k"
    by (cases "threads k t") (auto split: if_splits)
qed

lemma keeps_work_mono:
  assumes "keeps_work k ws k1" and "\<And>t th'. threads k' t = Some th' \<Longrightarrow> \<exists>th. threads k1 t = Some th \<and> work th' = work th"
  shows "keeps_work k ws k'"
  unfolding keeps_work_def
proof (intro allI impI)
  fix t th'
  assume "threads k' t = Some th'"
  then obtain th where th: "threads k1 t = Some th" "work th' = work th"
    using assms(2) by blast
  show "case threads k t of Some th \<Rightarrow> work th' = (if t = running k then ws @ work th else work th)
      | None \<Rightarrow> \<exists>f a. work th' = [Start f a] \<and> f \<noteq> idle_fn k"
    unfolding th(2) using assms(1) th(1) unfolding keeps_work_def by blast
qed

text \<open>The switch keeps all work.\<close>

lemma keeps_work_switched:
  assumes "keeps_work k ws k'"
  shows "keeps_work k ws (switched k' v e)"
proof -
  have "\<exists>th. threads k' t = Some th \<and> work th' = work th" if "threads (switched k' v e) t = Some th'" for t th'
    using that by (auto simp: switched_def switched_threads_def Let_def split: if_splits)
  then show ?thesis
    by (rule keeps_work_mono [OF assms])
qed

lemma switched_fields [simp]:
  "semas (switched k v e) = semas k" "lock_holder (switched k v e) = lock_holder k" "irq (switched k v e) = irq k"
  "idle_thread (switched k v e) = idle_thread k" "idle_fn (switched k v e) = idle_fn k" "cond_waiters (switched k v e) = cond_waiters k"
  "userprog (switched k v e) = userprog k"
  by (simp_all add: switched_def)

lemma more_fields [simp]:
  "idle_fn (set_running f k) = idle_fn k" "idle_fn (set_sema k s v) = idle_fn k" "idle_fn (unblocked k t) = idle_fn k"
  by (simp_all add: set_running_def set_sema_def unblocked_def)

lemma effect_yield:
  assumes "wf_kernel k" and "thread_yield k = Some k'"
  shows "effect k [IntrSet (intr_get_level (irq k))] (svals k) (lock_holder k) k'"
proof -
  have ext: "\<not> in_external_intr (irq k)"
    using assms(2) by (auto simp: thread_yield_def intr_context_def)
  obtain v e where y: "k' = switched (yielded k) v e" "wf_kernel k'"
    using thread_yield_ok [OF assms(1) ext] assms(2) by auto
  have "keeps_work k [IntrSet (intr_get_level (irq k))] (yielded k)"
    by (rule keeps_work_threads) (auto simp: yielded_def set_running_def option.map_comp o_def)
  from keeps_work_switched [OF this] show ?thesis
    using y ext by (intro effectI) (auto simp: yielded_def svals_def)
qed

lemma effect_block:
  assumes "wf_kernel k'" and "k' = switched (block_running k1) v e" and "keeps_work k ws k1"
    and "\<not> in_external_intr (irq k1)" and "idle_thread k1 = idle_thread k" and "idle_fn k1 = idle_fn k"
    and "\<And>s. sema_value (semas k1 s) = val s" and "lock_holder k1 = lh"
  shows "effect k ws val lh k'"
proof -
  have "keeps_work k ws (block_running k1)"
    by (rule keeps_work_mono [OF assms(3)]) (auto simp: block_running_def set_running_def split: if_splits)
  from keeps_work_switched [OF this] show ?thesis
    using assms by (intro effectI) (auto simp: block_running_def)
qed

lemma keeps_work_same: "threads k' = threads k \<Longrightarrow> keeps_work k [] k'"
  by (rule keeps_work_threads) simp

lemma effect_same:
  assumes "wf_kernel k" and "same_sched k' k" and "\<not> in_external_intr (irq k')" and "idle_fn k' = idle_fn k"
    and "\<And>s. sema_value (semas k' s) = val s" and "lock_holder k' = lh"
  shows "effect k [] val lh k'"
proof (rule effectI)
  show "keeps_work k [] k'"
    using assms(2) by (intro keeps_work_same) (simp add: same_sched_def)
  show "wf_kernel k'" and "idle_thread k' = idle_thread k"
    using assms(1,2) same_schedD(5) [OF assms(2)] by (simp_all add: same_sched_def)
qed (use assms in auto)

lemma effect_push:
  assumes "wf_kernel k" and "same_sched k1 k" and "\<not> in_external_intr (irq k1)" and "idle_fn k1 = idle_fn k"
    and "\<And>s. sema_value (semas k1 s) = val s" and "lock_holder k1 = lh" and "push ws k1 = Some k'"
  shows "effect k ws val lh k'"
proof -
  have wf: "wf_kernel k1" and r: "running k1 = running k" "threads k1 = threads k" "idle_thread k1 = idle_thread k"
    using assms(1,2) same_schedD(5) [OF assms(2)] by (simp_all add: same_sched_def)
  obtain th where "threads k1 (running k1) = Some th"
    using wf by (rule wf_kernel_current)
  then have k': "k' = push_work ws k1"
    using assms(7) push_eq [of k1 ws] by simp
  show ?thesis
  proof (rule effectI)
    show "wf_kernel k'"
      unfolding k' using wf by (rule push_wf)
    show "keeps_work k ws k'"
      unfolding k' push_work_def by (rule keeps_work_threads) (simp add: set_running_def r option.map_comp o_def)
  qed (use assms r in \<open>auto simp: k' push_work_def\<close>)
qed

lemma effect_upd:
  assumes "wf_kernel k" and "upd_thread k t f = Some k'" and "\<not> in_external_intr (irq k)"
    and "\<And>th. status (f th) = status th \<and> magic (f th) = magic th \<and> pagedir (f th) = pagedir th \<and> work (f th) = work th"
  shows "effect k [] (svals k) (lock_holder k) k'"
proof -
  obtain th where th: "threads k t = Some th" "k' = k\<lparr>threads := (threads k)(t \<mapsto> f th)\<rparr>"
    using assms(2) by (auto simp: upd_thread_def split: option.splits)
  show ?thesis
  proof (rule effectI)
    show "wf_kernel k'"
      using wf_kernel_upd [OF assms(2,1)] assms(4) by blast
    show "keeps_work k [] k'"
      using th assms(4) by (intro keeps_work_threads) auto
  qed (use assms(3) th in \<open>auto simp: svals_def\<close>)
qed

section \<open>The effect of each item\<close>

lemma same_sched_irq [simp]: "same_sched (k\<lparr>irq := i\<rparr>) k"
  by (simp add: same_sched_def)

lemma effect_set_level:
  assumes "wf_kernel k" and "\<not> in_external_intr (irq k)" and "k_set_level k l = Some k'"
  shows "effect k [] (svals k) (lock_holder k) k'"
proof -
  obtain b where "k' = k\<lparr>irq := (irq k)\<lparr>if_flag := b\<rparr>\<rparr>"
    using k_set_level_Some [OF assms(3)] by blast
  then show ?thesis
    using assms(1,2) by (intro effect_same) (auto simp: svals_def)
qed

lemma effect_sema_down_loop:
  assumes "wf_kernel k" and "\<not> in_external_intr (irq k)" and "running k \<noteq> idle_thread k" and "sema_down_loop k s l = Some k'"
  shows "if svals k s = 0 then effect k [DownLoop s l] (svals k) (lock_holder k) k'
    else effect k [] ((svals k)(s := svals k s - 1)) (lock_holder k) k'"
  using assms(1,3,4)
proof (cases rule: sema_down_loop_cases)
  case (taken b)
  have "effect k [] ((svals k)(s := svals k s - 1)) (lock_holder k) k'"
  proof (rule effectI)
    show "keeps_work k [] k'"
      unfolding taken by (rule keeps_work_same) simp
  qed (use taken assms(2) in \<open>auto simp: svals_def set_sema_def\<close>)
  then show ?thesis
    using taken(1) by (simp add: svals_def)
next
  case (wait v e)
  have "keeps_work k [DownLoop s l] (at_sema k s l)"
    by (rule keeps_work_threads) (simp add: at_sema_def push_work_def set_running_def set_sema_def option.map_comp o_def)
  then have "effect k [DownLoop s l] (svals k) (lock_holder k) k'"
    using wait(2,3) assms(2) by (intro effect_block [of k' "at_sema k s l" v e]) (auto simp: at_sema_def push_work_def svals_def)
  then show ?thesis
    using wait(1) by (simp add: svals_def)
qed

lemma effect_trans_irq:
  assumes "effect (k\<lparr>irq := i\<rparr>) ws val lh k'"
  shows "effect k ws val lh k'"
proof -
  have r: "running (k\<lparr>irq := i\<rparr>) = running k" "threads (k\<lparr>irq := i\<rparr>) = threads k" "idle_fn (k\<lparr>irq := i\<rparr>) = idle_fn k"
    by simp_all
  have "keeps_work (k\<lparr>irq := i\<rparr>) ws k' = keeps_work k ws k'"
    unfolding keeps_work_def r ..
  then show ?thesis
    using assms by (simp add: effect_def)
qed

text \<open>Two effects one after the other, without a switch in between.\<close>

lemma keeps_work_trans:
  assumes a: "keeps_work k ws1 k1" and b: "keeps_work k1 ws2 k2" and r: "running k1 = running k" "idle_fn k1 = idle_fn k"
    and e: "threads k (running k) \<noteq> None" "\<And>t. threads k1 t = None \<Longrightarrow> threads k t = None"
  shows "keeps_work k (ws2 @ ws1) k2"
  unfolding keeps_work_def
proof (intro allI impI)
  fix t th2
  assume t: "threads k2 t = Some th2"
  note b' = b [unfolded keeps_work_def r, rule_format, OF t]
  show "case threads k t of Some th \<Rightarrow> work th2 = (if t = running k then (ws2 @ ws1) @ work th else work th)
      | None \<Rightarrow> \<exists>f a. work th2 = [Start f a] \<and> f \<noteq> idle_fn k"
  proof (cases "threads k1 t")
    case None
    then show ?thesis
      using b' e(2) [OF None] by simp
  next
    case (Some th1)
    note a' = a [unfolded keeps_work_def, rule_format, OF Some]
    show ?thesis
    proof (cases "threads k t")
      case None
      then have "t \<noteq> running k"
        using e(1) by auto
      then show ?thesis
        using a' b' Some None by simp
    next
      case (Some th)
      then show ?thesis
        using a' b' \<open>threads k1 t = Some th1\<close> by (simp split: if_splits)
    qed
  qed
qed

lemma effect_trans:
  assumes "effect k ws1 v1 l1 k1" and "effect k1 ws2 v2 l2 k2" and "running k1 = running k"
    and "threads k (running k) \<noteq> None" "\<And>t. threads k1 t = None \<Longrightarrow> threads k t = None"
  shows "effect k (ws2 @ ws1) v2 l2 k2"
proof -
  have "keeps_work k (ws2 @ ws1) k2"
    using assms by (intro keeps_work_trans [of k ws1 k1]) (simp_all add: effect_def)
  then show ?thesis
    using assms(1,2) by (simp add: effect_def)
qed

lemma effect_sema_down:
  assumes "wf_kernel k" and "\<not> in_external_intr (irq k)" and "running k \<noteq> idle_thread k" and "sema_down k s = Some k'"
  shows "if svals k s = 0 then effect k [DownLoop s (intr_get_level (irq k))] (svals k) (lock_holder k) k'
    else effect k [] ((svals k)(s := svals k s - 1)) (lock_holder k) k'"
proof -
  let ?k = "k\<lparr>irq := (irq k)\<lparr>if_flag := False\<rparr>\<rparr>"
  have l: "sema_down_loop ?k s (intr_get_level (irq k)) = Some k'"
    using assms(4) by (auto simp: sema_down_def k_disable_eq)
  have "svals ?k = svals k" "lock_holder ?k = lock_holder k"
    by (simp_all add: svals_def fun_eq_iff)
  then show ?thesis
    using effect_sema_down_loop [of ?k s] l assms(1-3) same_schedD(5) [of ?k k]
      effect_trans_irq [of "(irq k)\<lparr>if_flag := False\<rparr>" k] by (auto split: if_splits)
qed

definition is_intr :: "'w work \<Rightarrow> bool" where
  "is_intr w \<longleftrightarrow> (\<exists>l. w = IntrSet l) \<or> w = Iret"

lemma svals_upped: "svals (upped k s) = (svals k)(s := svals k s + 1)"
  by (auto simp: svals_def upped_def woken_first_def Let_def fun_eq_iff split: list.splits)

lemma effect_upped:
  assumes "wf_kernel k" and "\<not> in_external_intr (irq k)"
  shows "effect k [] ((svals k)(s := svals k s + 1)) (lock_holder k) (upped k s)"
proof (rule effectI)
  have "irq_ok k"
    using assms(2) by (simp add: irq_ok_def)
  then show "wf_kernel (upped k s)"
    using assms(1) by (simp add: sema_up_ok)
  show "keeps_work k [] (upped k s)"
    by (rule keeps_work_threads)
      (auto simp: upped_def woken_first_def unblocked_def set_sema_def Let_def option.map_comp o_def split: list.splits)
  show "sema_value (semas (upped k s) u) = ((svals k)(s := svals k s + 1)) u" for u
    using svals_upped [of k s] by (simp add: svals_def fun_eq_iff)
qed (use assms in \<open>auto simp: upped_def woken_first_def Let_def split: list.splits\<close>)

lemma effect_sema_up:
  assumes "wf_kernel k" and "\<not> in_external_intr (irq k)" and "sema_up k s = Some k'"
  obtains ws where "effect k ws ((svals k)(s := svals k s + 1)) (lock_holder k) k'" and "list_all is_intr ws"
proof -
  have ok: "irq_ok k"
    using assms(2) by (simp add: irq_ok_def)
  note up = sema_up_ok [OF assms(1) ok, of s]
  note eu = effect_upped [OF assms(1,2), of s]
  show thesis
  proof (cases "userprog k")
    case True
    then show thesis
      using that [of "[]"] eu up(1) assms(3) by simp
  next
    case False
    let ?u = "upped k s"
    have y: "thread_yield ?u = Some k'"
      using False up(1) assms(3) by simp
    have f: "running ?u = running k" "lock_holder ?u = lock_holder k" "idle_thread ?u = idle_thread k" "idle_fn ?u = idle_fn k"
      by (auto simp: upped_def woken_first_def Let_def split: list.splits)
    obtain th where th: "threads k (running k) = Some th"
      using assms(1) by (rule wf_kernel_current)
    have "threads ?u t = None \<Longrightarrow> threads k t = None" for t
      by (auto simp: upped_def woken_first_def unblocked_def set_sema_def Let_def split: list.splits if_splits)
    then have "effect k ([IntrSet (intr_get_level (irq ?u))] @ []) (svals ?u) (lock_holder ?u) k'"
      using effect_trans [OF eu effect_yield [OF up(2) y] f(1)] th by simp
    then have "effect k [IntrSet (intr_get_level (irq ?u))] ((svals k)(s := svals k s + 1)) (lock_holder k) k'"
      using svals_upped [of k s] f(2) by simp
    then show thesis
      using that by (simp add: is_intr_def)
  qed
qed

lemma qinv_clear:
  assumes inv: "qinv S Q r i" and "q \<noteq> Ready"
  shows "qinv S (Q(q := [])) r i"
proof (rule qinvI)
  have m: "u \<in> set ((Q(q := [])) p) \<longleftrightarrow> u \<in> set (Q p) \<and> p \<noteq> q" for u p
    by auto
  show "distinct ((Q(q := [])) p)" for p
    using qinv_distinct [OF inv] by simp
  show "p = p'" if "u \<in> set ((Q(q := [])) p)" "u \<in> set ((Q(q := [])) p')" for p p' u
    using that qinv_unique [OF inv] unfolding m by blast
  show "u \<noteq> i \<and> S u = Some (queue_status p)" if "u \<in> set ((Q(q := [])) p)" for p u
    using that qinv_status [OF inv] qinv_not_idle [OF inv] unfolding m by blast
  show "u \<in> set ((Q(q := [])) Ready) \<or> u = i" if "S u = Some THREAD_READY" for u
    using qinv_ready [OF inv that] assms(2) unfolding m by blast
qed (use qinv_running [OF inv] qinv_idle [OF inv] in blast)+

lemma wf_sema_init: "wf_kernel k \<Longrightarrow> wf_kernel (sema_init k s v)"
proof -
  assume wf: "wf_kernel k"
  have q: "queue (sema_init k s v) = (queue k)(Waiters s := [])"
    by (simp add: sema_init_def queue_set_sema)
  have st: "st (sema_init k s v) = st k"
    by (rule st_cong) (simp add: sema_init_def)
  have "qinv (st k) ((queue k)(Waiters s := [])) (running k) (idle_thread k)"
    using wf by (intro qinv_clear) (simp_all add: wf_kernel_def wf_queues_def)
  then show ?thesis
    using wf unfolding wf_kernel_def wf_queues_def q st by (simp add: sema_init_def wf_threads_def)
qed

lemma lock_held_eq: "wf_kernel k \<Longrightarrow> lock_held_by_current_thread k l = Some (lock_holder k l = running k)"
  by (erule wf_kernel_current) (simp add: lock_held_by_current_thread_def)

lemma effect_lock_acquire:
  assumes "wf_kernel k" and "lock_acquire k l = Some k'"
  shows "effect k [Down (LockSema l), SetHolder l] (svals k) (lock_holder k) k'"
proof -
  have "\<not> in_external_intr (irq k)" "push [Down (LockSema l), SetHolder l] k = Some k'"
    using assms(2) lock_held_eq [OF assms(1), of l] by (auto simp: lock_acquire_def intr_context_def)
  then show ?thesis
    using assms(1) by (intro effect_push [of k k]) (auto simp: same_sched_def svals_def)
qed

lemma effect_lock_release:
  assumes "wf_kernel k" and "\<not> in_external_intr (irq k)" and "lock_release k l = Some k'"
  shows "effect k [Up (LockSema l)] (svals k) ((lock_holder k)(l := 0)) k'" and "lock_holder k l = running k"
proof -
  have p: "push [Up (LockSema l)] (k\<lparr>lock_holder := (lock_holder k)(l := 0)\<rparr>) = Some k'" and h: "lock_holder k l = running k"
    using assms(3) lock_held_eq [OF assms(1), of l] by (auto simp: lock_release_def)
  show "lock_holder k l = running k"
    by (rule h)
  show "effect k [Up (LockSema l)] (svals k) ((lock_holder k)(l := 0)) k'"
    by (rule effect_push [OF assms(1) _ _ _ _ _ p]) (use assms(2) in \<open>auto simp: same_sched_def svals_def\<close>)
qed

lemma effect_lock_set_holder:
  assumes "wf_kernel k" and "\<not> in_external_intr (irq k)" and "lock_set_holder k l = Some k'"
  shows "effect k [] (svals k) ((lock_holder k)(l := running k)) k'"
proof -
  obtain th where "thread_current k = Some (running k)"
    using assms(1) by (rule wf_kernel_current)
  then have "k' = k\<lparr>lock_holder := (lock_holder k)(l := running k)\<rparr>"
    using assms(3) by (simp add: lock_set_holder_def)
  then show ?thesis
    using assms(1,2) by (intro effect_same) (auto simp: same_sched_def svals_def)
qed

lemma effect_cond_wait:
  assumes wf: "wf_kernel k" and "cond_wait k c l = Some k'"
  shows "effect k [Release l, Down (CondSema (running k)), Acquire l] ((svals k)(CondSema (running k) := 0)) (lock_holder k) k'"
proof -
  obtain th where th: "threads k (running k) = Some th" "thread_current k = Some (running k)"
    using wf by (rule wf_kernel_current)
  let ?s = "CondSema (running k)"
  let ?k = "(sema_init k ?s 0)\<lparr>cond_waiters := (cond_waiters k)(c := cond_waiters k c @ [running k])\<rparr>"
  have ext: "\<not> in_external_intr (irq k)" and p: "push [Release l, Down ?s, Acquire l] ?k = Some k'"
    using assms(2) lock_held_eq [OF wf, of l] th(2) by (auto simp: cond_wait_def intr_context_def sema_init_def Let_def)
  have wf1: "wf_kernel ?k"
    using wf_sema_init [OF wf, of ?s 0] same_schedD(5) [of ?k "sema_init k ?s 0"] by (simp add: same_sched_def)
  have e: "effect ?k [Release l, Down ?s, Acquire l] (svals ?k) (lock_holder ?k) k'"
    by (rule effect_push [OF wf1 _ _ _ _ _ p]) (use ext in \<open>auto simp: same_sched_def svals_def sema_init_def\<close>)
  have "effect k [] (svals ?k) (lock_holder k) ?k"
    by (rule effectI) (use wf1 ext in \<open>auto simp: sema_init_def svals_def intro: keeps_work_same\<close>)
  from effect_trans [OF this e] have "effect k [Release l, Down ?s, Acquire l] (svals ?k) (lock_holder ?k) k'"
    using th(1) by (simp add: sema_init_def)
  moreover have "svals ?k = (svals k)(?s := 0)" "lock_holder ?k = lock_holder k"
    by (auto simp: svals_def sema_init_def fun_eq_iff)
  ultimately show ?thesis
    by simp
qed

lemma effect_cond_signal:
  assumes "wf_kernel k" and "cond_signal k c l = Some k'"
  obtains ws where "effect k ws (svals k) (lock_holder k) k'" and "ws = [] \<or> (\<exists>t. ws = [Up (CondSema t)])"
proof -
  have ext: "\<not> in_external_intr (irq k)"
    using assms(2) by (auto simp: cond_signal_def intr_context_def)
  show thesis
  proof (cases "cond_waiters k c")
    case Nil
    then have "k' = k"
      using assms(2) lock_held_eq [OF assms(1), of l] by (auto simp: cond_signal_def)
    then have "effect k [] (svals k) (lock_holder k) k'"
      using assms(1) ext by (intro effect_same) (auto simp: same_sched_def svals_def)
    then show thesis
      using that by blast
  next
    case (Cons t ts)
    let ?k = "k\<lparr>cond_waiters := (cond_waiters k)(c := ts)\<rparr>"
    have p: "push [Up (CondSema t)] ?k = Some k'"
      using assms(2) lock_held_eq [OF assms(1), of l] Cons by (auto simp: cond_signal_def)
    have "effect k [Up (CondSema t)] (svals k) (lock_holder k) k'"
      by (rule effect_push [OF assms(1) _ _ _ _ _ p]) (use ext in \<open>auto simp: same_sched_def svals_def\<close>)
    then show thesis
      using that by blast
  qed
qed

lemma effect_cond_broadcast:
  assumes "wf_kernel k" and "\<not> in_external_intr (irq k)" and "cond_broadcast k c l = Some k'"
  obtains ws where "effect k ws (svals k) (lock_holder k) k'" and "ws = [] \<or> ws = [Signal c l, Broadcast c l]"
proof (cases "cond_waiters k c = []")
  case True
  then have "effect k [] (svals k) (lock_holder k) k'"
    using assms by (intro effect_same) (auto simp: cond_broadcast_def same_sched_def svals_def)
  then show thesis
    using that by blast
next
  case False
  then have p: "push [Signal c l, Broadcast c l] k = Some k'"
    using assms(3) by (simp add: cond_broadcast_def)
  have "effect k [Signal c l, Broadcast c l] (svals k) (lock_holder k) k'"
    by (rule effect_push [OF assms(1) _ _ _ _ _ p]) (use assms(2) in \<open>auto simp: same_sched_def svals_def\<close>)
  then show thesis
    using that by blast
qed

lemma set_running_None [simp]: "threads (set_running f k) t = None \<longleftrightarrow> threads k t = None"
  by (simp add: set_running_def)

lemma effect_kernel_thread:
  assumes "wf_kernel k" and "f \<noteq> idle_fn k" and "kernel_thread k f a = Some k'"
  shows "effect k [Body f a, Exit] (svals k) (lock_holder k) k'"
proof -
  have ext: "\<not> in_external_intr (irq k)" and p: "push [Body f a, Exit] (k\<lparr>irq := (irq k)\<lparr>if_flag := True\<rparr>\<rparr>) = Some k'"
    using assms(2,3) by (auto simp: kernel_thread_def intr_enable_def intr_context_def)
  show ?thesis
    by (rule effect_push [OF assms(1) _ _ _ _ _ p]) (use ext in \<open>auto simp: same_sched_def svals_def\<close>)
qed

lemma effect_idle_halt:
  assumes "wf_kernel k" and "\<not> in_external_intr (irq k)" and "idle_halt k = Some k'"
  shows "effect k [IdleLoop] (svals k) (lock_holder k) k'"
  by (rule effect_push [OF assms(1) _ _ _ _ _ assms(3) [unfolded idle_halt_def]]) (use assms(2) in \<open>auto simp: same_sched_def svals_def\<close>)

lemma effect_idle_loop:
  assumes wf: "wf_kernel k" and "idle_loop k = Some k'"
  shows "effect k [IdleHalt] (svals k) (lock_holder k) k'"
proof -
  let ?k = "k\<lparr>irq := (irq k)\<lparr>if_flag := False\<rparr>\<rparr>"
  obtain th where th: "threads k (running k) = Some th"
    using wf by (rule wf_kernel_current)
  have wf1: "wf_kernel (push_work [IdleHalt] ?k)"
    using wf same_schedD(5) [of ?k k] by (intro push_wf) simp
  have b: "thread_block (push_work [IdleHalt] ?k) = Some k'"
    using assms(2) th by (simp add: idle_loop_def k_disable_eq push_eq)
  then have ext: "\<not> in_external_intr (irq k)"
    by (auto simp: thread_block_def intr_context_def push_work_def)
  obtain v e where k': "k' = switched (block_running (push_work [IdleHalt] ?k)) v e" "wf_kernel k'"
    by (rule thread_block_Some [OF wf1 b])
  have "keeps_work k [IdleHalt] (push_work [IdleHalt] ?k)"
    by (rule keeps_work_threads) (simp add: push_work_def set_running_def option.map_comp o_def)
  then show ?thesis
    using k' ext by (intro effect_block [of k' "push_work [IdleHalt] ?k" v e]) (auto simp: push_work_def svals_def)
qed

lemma effect_thread_exit:
  assumes "wf_kernel k" and "thread_exit pe k = Some k'"
  shows "effect k ((if userprog k then pe else []) @ [ExitChildren, Up (SemaWait (running k)), Down (SemaElim (running k)), ExitTail])
    (svals k) (lock_holder k) k'"
proof -
  obtain th where "thread_current k = Some (running k)"
    using assms(1) by (rule wf_kernel_current)
  then have ext: "\<not> in_external_intr (irq k)" and
    p: "push ((if userprog k then pe else []) @ [ExitChildren, Up (SemaWait (running k)), Down (SemaElim (running k)), ExitTail]) k = Some k'"
    using assms(2) by (auto simp: thread_exit_def intr_context_def)
  show ?thesis
    by (rule effect_push [OF assms(1) _ _ _ _ _ p]) (use ext in \<open>auto simp: same_sched_def svals_def\<close>)
qed

lemma effect_exit_children:
  assumes "wf_kernel k" and "\<not> in_external_intr (irq k)" and "thread_exit_children k = Some k'"
  obtains ws where "effect k ws (svals k) (lock_holder k) k'" and "ws = [] \<or> (\<exists>c. ws = [Up (SemaElim c), ExitChildren])"
proof -
  obtain th where th: "threads k (running k) = Some th"
    using assms(1) by (rule wf_kernel_current)
  show thesis
  proof (cases "child_tlist th")
    case Nil
    then have "effect k [] (svals k) (lock_holder k) k'"
      using assms th by (intro effect_same) (auto simp: thread_exit_children_def same_sched_def svals_def)
    then show thesis
      using that by blast
  next
    case (Cons c cs)
    let ?k = "set_running (\<lambda>th. th\<lparr>child_tlist := cs\<rparr>) k"
    have u: "upd_thread k (running k) (\<lambda>th. th\<lparr>child_tlist := cs\<rparr>) = Some ?k"
      using th by (intro upd_running) simp
    have p: "push [Up (SemaElim c), ExitChildren] ?k = Some k'"
      using assms(3) th Cons u by (simp add: thread_exit_children_def)
    have e: "effect k [] (svals k) (lock_holder k) ?k"
      using effect_upd [OF assms(1) u assms(2)] by simp
    then have "wf_kernel ?k"
      by (simp add: effect_def)
    then have "effect ?k [Up (SemaElim c), ExitChildren] (svals ?k) (lock_holder ?k) k'"
      by (intro effect_push [of ?k ?k, OF _ _ _ _ _ _ p]) (use assms(2) in \<open>auto simp: same_sched_def svals_def\<close>)
    from effect_trans [OF e this] have "effect k [Up (SemaElim c), ExitChildren] (svals ?k) (lock_holder ?k) k'"
      using th by simp
    then have "effect k [Up (SemaElim c), ExitChildren] (svals k) (lock_holder k) k'"
      by (simp add: svals_def fun_eq_iff effect_def)
    then show thesis
      using that by blast
  qed
qed

lemma effect_exit_tail:
  assumes wf: "wf_kernel k" and "\<not> in_external_intr (irq k)" and "running k \<noteq> idle_thread k" and "thread_exit_tail k = Some k'"
  shows "effect k [] (svals k) (lock_holder k) k'"
proof -
  obtain th where th: "threads k (running k) = Some th" "status th = THREAD_RUNNING" "thread_current k = Some (running k)"
    using wf by (rule wf_kernel_current)
  let ?k = "k\<lparr>irq := (irq k)\<lparr>if_flag := False\<rparr>, all_list := remove1 (running k) (all_list k)\<rparr>"
  let ?d = "set_running (\<lambda>th. th\<lparr>status := THREAD_DYING\<rparr>) ?k"
  have same: "same_sched ?k k" "same_sched (k\<lparr>irq := (irq k)\<lparr>if_flag := False\<rparr>\<rparr>) k"
    by (simp_all add: same_sched_def)
  have inv: "qinv (st k) (queue k) (running k) (idle_thread k)" and wft: "wf_threads ?k"
    using wf same_schedD(3) [OF same(1)] by (simp_all add: wf_kernel_def wf_queues_def)
  have r: "running k \<notin> set (queue k q)" for q
    by (rule qinv_running_unqueued [OF inv]) (simp add: st_Some th)
  have st: "st ?d = (st k)(running k \<mapsto> THREAD_DYING)"
    using st_set_running [of ?k th] th(1) same_schedD(1) [OF same(1)] by simp
  have a: "wf_threads ?d"
    using wft by (rule wf_threads_set_running) simp
  have b: "wf_queues ?d"
    using qinv_set_status [OF inv r, of THREAD_DYING] assms(3) same_schedD(2) [OF same(1)] unfolding wf_queues_def st by simp
  have c: "\<not> if_flag (irq ?d)" "st ?d (running ?d) \<noteq> None" "st ?d (running ?d) \<noteq> Some THREAD_RUNNING"
    using st by simp_all
  have "upd_thread ?k (running k) (\<lambda>th. th\<lparr>status := THREAD_DYING\<rparr>) = Some ?d"
    using th(1) upd_running [of ?k "\<lambda>th. th\<lparr>status := THREAD_DYING\<rparr>"] by simp
  then have s: "schedule ?d = Some k'"
    using assms(4) th(3) same_schedD(6) [OF same(1)] same_schedD(6) [OF same(2)]
    by (simp add: thread_exit_tail_def k_disable_eq Let_def)
  obtain v e where k': "k' = switched ?d v e" "wf_kernel k'"
    by (rule schedule_Some [OF a b c s])
  have "keeps_work k [] ?d"
    by (rule keeps_work_threads) (simp add: set_running_def option.map_comp o_def)
  from keeps_work_switched [OF this, of v e] show ?thesis
    using k' assms(2) by (intro effectI) (auto simp: svals_def)
qed

lemma effect_timer_sleep:
  assumes wf: "wf_kernel k" and "\<not> in_external_intr (irq k)" and "running k \<noteq> idle_thread k" and "timer_sleep k n = Some k'"
  shows "effect k [IntrSet INTR_ON] (svals k) (lock_holder k) k'"
proof -
  let ?k = "k\<lparr>irq := (irq k)\<lparr>if_flag := False\<rparr>\<rparr>"
  obtain th where th: "threads k (running k) = Some th"
    using wf by (rule wf_kernel_current)
  have ok: "irq_ok k"
    using assms(2) by (simp add: irq_ok_def)
  have tt: "timer_ticks k = Some (ticks k, k)"
    by (simp add: timer_ticks_def k_disable_eq k_set_level_restore [OF ok])
  let ?p = "push_work [IntrSet INTR_ON] ?k"
  have s: "thread_sleep ?p (ticks k + n) = Some k'"
    using assms(4) th by (auto simp: timer_sleep_def tt k_disable_eq push_eq split: if_splits)
  have wf1: "wf_kernel ?p"
    using wf same_schedD(5) [of ?k k] by (intro push_wf) simp
  have ni: "running ?p \<noteq> idle_thread ?p"
    using assms(3) by (simp add: push_work_def)
  obtain v e where k': "k' = switched (block_running (asleep ?p (ticks k + n))) v e" "wf_kernel k'"
    by (rule thread_sleep_Some [OF wf1 ni s])
  have "keeps_work k [IntrSet INTR_ON] (asleep ?p (ticks k + n))"
    by (rule keeps_work_threads) (simp add: asleep_def Let_def push_work_def set_running_def option.map_comp o_def)
  then show ?thesis
    using k' assms(2) by (intro effect_block [of k' "asleep ?p (ticks k + n)" v e]) (auto simp: asleep_def Let_def push_work_def svals_def)
qed

lemma effect_set_priority:
  assumes "wf_kernel k" and "thread_set_priority k p = Some k'"
  shows "effect k [IntrSet (intr_get_level (irq k))] (svals k) (lock_holder k) k'"
proof -
  obtain th where th: "threads k (running k) = Some th" "thread_current k = Some (running k)"
    using assms(1) by (rule wf_kernel_current)
  let ?k = "set_running (\<lambda>th. th\<lparr>priority := p\<rparr>) k"
  have u: "upd_thread k (running k) (\<lambda>th. th\<lparr>priority := p\<rparr>) = Some ?k"
    using th by (intro upd_running) simp
  then have y: "thread_yield ?k = Some k'"
    using assms(2) th by (simp add: thread_set_priority_def)
  then have ext: "\<not> in_external_intr (irq k)"
    by (auto simp: thread_yield_def intr_context_def)
  have e: "effect k [] (svals k) (lock_holder k) ?k"
    using effect_upd [OF assms(1) u ext] by simp
  then have "effect ?k [IntrSet (intr_get_level (irq ?k))] (svals ?k) (lock_holder ?k) k'"
    using y by (intro effect_yield) (simp_all add: effect_def)
  from effect_trans [OF e this] have "effect k [IntrSet (intr_get_level (irq k))] (svals ?k) (lock_holder ?k) k'"
    using th by simp
  then show ?thesis
    by (simp add: svals_def effect_def)
qed

lemma effect_set_nice:
  assumes "wf_kernel k" and "\<not> in_external_intr (irq k)" and "thread_set_nice k n = Some k'"
  shows "effect k [] (svals k) (lock_holder k) k'"
proof -
  obtain th where "thread_current k = Some (running k)"
    using assms(1) by (rule wf_kernel_current)
  then have "upd_thread k (running k) (\<lambda>th. th\<lparr>nice := n\<rparr>) = Some k'"
    using assms(3) by (simp add: thread_set_nice_def)
  then show ?thesis
    by (rule effect_upd [OF assms(1) _ assms(2)]) simp
qed

end
