(* ===== verification/Kernel_Create.thy ===== *)
theory Kernel_Create
  imports Kernel_Step
begin

text \<open>
  Creating a thread and the timer tick as steps of the kernel: the new thread gets a page
  that was not live before, so no existing thread is touched; the tick changes priorities
  and statistics, wakes the threads that are due and may preempt the running thread.
\<close>

section \<open>Creating a thread\<close>

text \<open>What the scheduler and the other threads depend on.\<close>

definition core :: "'w thread \<Rightarrow> thread_status \<times> u32 \<times> u32 \<times> 'w work list" where
  "core th = (status th, magic th, pagedir th, work th)"

definition creating :: "'w kernel \<Rightarrow> tptr \<Rightarrow> palloc_state \<Rightarrow> intr_state \<Rightarrow> 'w kernel \<Rightarrow> bool" where
  "creating k t m i kx \<longleftrightarrow> running kx = running k \<and> idle_thread kx = idle_thread k \<and> initial_thread kx = initial_thread k
     \<and> idle_fn kx = idle_fn k \<and> lock_holder kx = lock_holder k \<and> irq kx = i \<and> vmem kx = (vmem k)\<lparr>mem := m\<rparr>
     \<and> ready_list kx = ready_list k \<and> sleeping_list kx = sleeping_list k
     \<and> semas kx = (semas k)(SemaWait t := \<lparr>sema_value = 0, waiters = []\<rparr>, SemaLoad t := \<lparr>sema_value = 0, waiters = []\<rparr>,
         SemaElim t := \<lparr>sema_value = 0, waiters = []\<rparr>)
     \<and> (\<forall>u. u \<noteq> t \<longrightarrow> map_option core (threads kx u) = map_option core (threads k u))
     \<and> (\<exists>th. threads kx t = Some th \<and> status th = THREAD_BLOCKED \<and> magic th = THREAD_MAGIC \<and> pagedir th = 0)"

lemma creating_upd:
  assumes "creating k t m i kx" and "upd_thread kx u f = Some ky"
    and "\<And>th. status (f th) = status th \<and> magic (f th) = magic th \<and> pagedir (f th) = pagedir th"
    and "u \<noteq> t \<Longrightarrow> (\<And>th. work (f th) = work th)"
  shows "creating k t m i ky"
proof -
  obtain th where th: "threads kx u = Some th" "ky = kx\<lparr>threads := (threads kx)(u \<mapsto> f th)\<rparr>"
    using assms(2) by (auto simp: upd_thread_def split: option.splits)
  have "core (f th) = core th" if "u \<noteq> t"
    using assms(3) [of th] assms(4) [OF that, of th] by (simp add: core_def)
  moreover have "map_option core (threads kx u) = Some (core th)"
    using th(1) by simp
  ultimately have "\<forall>w. w \<noteq> t \<longrightarrow> map_option core (threads ky w) = map_option core (threads k w)"
    using assms(1) th(2) unfolding creating_def by auto
  moreover have "\<exists>th. threads ky t = Some th \<and> status th = THREAD_BLOCKED \<and> magic th = THREAD_MAGIC \<and> pagedir th = 0"
    using assms(1,3) th unfolding creating_def by auto
  ultimately show ?thesis
    using assms(1) th(2) unfolding creating_def by simp
qed

lemma blank_thread_core [simp]:
  "status (blank_thread t nm p) = THREAD_BLOCKED" "magic (blank_thread t nm p) = THREAD_MAGIC" "pagedir (blank_thread t nm p) = 0"
  "work (blank_thread t nm p) = []"
  by (simp_all add: blank_thread_def)

lemma creating_init:
  fixes k :: "'w kernel"
  assumes "init_thread (k\<lparr>vmem := (vmem k)\<lparr>mem := m\<rparr>\<rparr>) t nm p = Some k1" and "t \<noteq> initial_thread k"
  shows "creating k t m (irq k) k1"
proof -
  let ?kx = "sema_init (sema_init (sema_init (k\<lparr>vmem := (vmem k)\<lparr>mem := m\<rparr>, threads := (threads k)(t \<mapsto> blank_thread t nm p),
      all_list := all_list k @ [t]\<rparr>) (SemaWait t) 0) (SemaLoad t) 0) (SemaElim t) 0"
  have kx: "creating k t m (irq k) ?kx"
    by (simp add: creating_def sema_init_def set_sema_def)
  have i: "initial_thread ?kx = initial_thread k"
    by (simp add: sema_init_def)
  obtain c :: "'w thread" where u: "upd_thread ?kx t (\<lambda>th. th\<lparr>nice := nice c, recent_cpu := recent_cpu c\<rparr>) = Some k1"
    using assms i unfolding init_thread_def Let_def by (auto simp: ASSERT_bind split: if_splits)
  show ?thesis
    by (rule creating_upd [OF kx u]) simp_all
qed

lemma creating_irq: "creating k t m i kx \<Longrightarrow> creating k t m j (kx\<lparr>irq := j\<rparr>)"
  by (simp add: creating_def)

lemma creating_frame:
  assumes "creating k t m i kx" and "alloc_frame kx t n = Some ky"
  shows "creating k t m i ky"
proof -
  have "upd_thread kx t (\<lambda>th. th\<lparr>stack := stack th - word_of_nat n\<rparr>) = Some ky"
    using assms(2) by (auto simp: alloc_frame_def)
  then show ?thesis
    by (rule creating_upd [OF assms(1)]) simp_all
qed

lemma creating_level:
  assumes "creating k t m ((irq k)\<lparr>if_flag := False\<rparr>) kx" and "irq_ok k" and "k_set_level kx (intr_get_level (irq k)) = Some ky"
  shows "creating k t m (irq k) ky"
proof -
  have "irq kx = (irq k)\<lparr>if_flag := False\<rparr>"
    using assms(1) by (simp add: creating_def)
  then have "ky = kx\<lparr>irq := irq k\<rparr>"
    using k_set_level_restore [OF assms(2), of kx] assms(3) by simp
  then show ?thesis
    using creating_irq [OF assms(1)] by simp
qed

lemma upd_thread_same:
  assumes "upd_thread k t f = Some k'"
  shows "\<exists>th. threads k t = Some th \<and> threads k' = (threads k)(t \<mapsto> f th) \<and> running k' = running k"
  using assms by (auto simp: upd_thread_def split: option.splits)

lemma thread_create_creating:
  assumes "thread_create k nm p f a ok = Some k'" and "irq_ok k" and g: "palloc_get_page (mem (vmem k)) PAL_ZERO = Some (t, m)"
    and "t \<noteq> 0" and "t \<noteq> initial_thread k" and "t \<noteq> running k"
  obtains kx ky kz n where "creating k t m (irq k) kx" and "\<exists>th. threads kx t = Some th \<and> work th = [Start f a]"
    and "thread_unblock kx t = Some ky" and "upd_thread ky (running ky) (\<lambda>th. th\<lparr>ret := n\<rparr>) = Some kz" and "thread_yield kz = Some k'"
proof -
  let ?off = "(irq k)\<lparr>if_flag := False\<rparr>"
  let ?n = "\<lambda>k1. next_tid k1"
  obtain k1 k2 k4 k5 k6 k7 k8 k9 c k10 k11 ky kz where e:
    "init_thread (k\<lparr>vmem := (vmem k)\<lparr>mem := m\<rparr>\<rparr>) t nm p = Some k1"
    "upd_thread (k1\<lparr>next_tid := next_tid k1 + 1\<rparr>) t (\<lambda>th. th\<lparr>tid := next_tid k1\<rparr>) = Some k2"
    "alloc_frame (k2\<lparr>irq := (irq k2)\<lparr>if_flag := False\<rparr>\<rparr>) t 12 = Some k4" "alloc_frame k4 t 4 = Some k5" "alloc_frame k5 t 28 = Some k6"
    "upd_thread k6 t (\<lambda>th. th\<lparr>work := [Start f a]\<rparr>) = Some k7" "k_set_level k7 (intr_get_level (irq k2)) = Some k8"
    "upd_thread k8 t (\<lambda>th. th\<lparr>fd_num := 2\<rparr>) = Some k9" "thread_current k9 = Some c"
    "upd_thread k9 c (\<lambda>th. th\<lparr>child_tlist := child_tlist th @ [t]\<rparr>) = Some k10"
    "upd_thread k10 t (\<lambda>th. th\<lparr>sup_page_tab := spt_init ok\<rparr>) = Some k11"
    "thread_unblock k11 t = Some ky" "upd_thread ky (running ky) (\<lambda>th. th\<lparr>ret := next_tid k1\<rparr>) = Some kz" "thread_yield kz = Some k'"
    using assms(1,4) g by (auto simp: thread_create_def allocate_tid_def k_disable_eq Let_def)
  have c1: "creating k t m (irq k) (k1\<lparr>next_tid := next_tid k1 + 1\<rparr>)"
    using creating_init [OF e(1) assms(5)] by (simp add: creating_def)
  have c2: "creating k t m (irq k) k2"
    by (rule creating_upd [OF c1 e(2)]) simp_all
  then have irq2: "irq k2 = irq k"
    by (simp add: creating_def)
  have "creating k t m ?off (k2\<lparr>irq := (irq k2)\<lparr>if_flag := False\<rparr>\<rparr>)"
    using creating_irq [OF c2] irq2 by simp
  note c6 = creating_frame [OF creating_frame [OF creating_frame [OF this e(3)] e(4)] e(5)]
  have c7: "creating k t m ?off k7"
    by (rule creating_upd [OF c6 e(6)]) simp_all
  have c8: "creating k t m (irq k) k8"
    using creating_level [OF c7 assms(2)] e(7) irq2 by simp
  have c9: "creating k t m (irq k) k9"
    by (rule creating_upd [OF c8 e(8)]) simp_all
  have c10: "creating k t m (irq k) k10"
    by (rule creating_upd [OF c9 e(10)]) simp_all
  have c11: "creating k t m (irq k) k11"
    by (rule creating_upd [OF c10 e(11)]) simp_all
  have "\<exists>th. threads k7 t = Some th \<and> work th = [Start f a]"
    using upd_thread_same [OF e(6)] by auto
  moreover have "threads k8 = threads k7"
    using k_set_level_Some [OF e(7)] by auto
  ultimately have "\<exists>th. threads k11 t = Some th \<and> work th = [Start f a]"
    using upd_thread_same [OF e(8)] upd_thread_same [OF e(10)] upd_thread_same [OF e(11)] by (auto split: if_splits)
  then show thesis
    using that [OF c11 _ e(12) e(13) e(14)] by blast
qed

lemma st_core: "map_option core (threads kx u) = map_option core (threads k u) \<Longrightarrow> st kx u = st k u"
  by (cases "threads kx u"; cases "threads k u") (auto simp: st_def core_def)

lemma creating_wf:
  assumes wf: "wf_kernel k" and c: "creating k t m i kx" and new: "threads k t = None"
    and m: "wf_palloc m" "pool_pages m = pool_pages (mem (vmem k))" "live_pages m = insert t (live_pages (mem (vmem k)))"
  shows "wf_kernel kx" and "st kx t = Some THREAD_BLOCKED" and "\<And>q. t \<notin> set (queue kx q)" and "t \<noteq> idle_thread kx"
proof -
  note cr = c [unfolded creating_def]
  have inv: "qinv (st k) (queue k) (running k) (idle_thread k)" and wft: "wf_threads k" and run: "st k (running k) = Some THREAD_RUNNING"
    using wf by (simp_all add: wf_kernel_def wf_queues_def)
  have r: "running k \<noteq> t"
    using run new by (auto simp: st_def)
  have notq: "t \<notin> set (queue k q)" for q
    by (rule qinv_running_unqueued [OF inv]) (simp add: st_def new)
  have b: "st kx t = Some THREAD_BLOCKED"
    using cr by (auto simp: st_def)
  have st: "st kx = (st k)(t \<mapsto> THREAD_BLOCKED)"
  proof
    fix u
    show "st kx u = ((st k)(t \<mapsto> THREAD_BLOCKED)) u"
      using b st_core [of kx u k] cr by (cases "u = t") auto
  qed
  have q: "queue kx = (queue k)(Waiters (SemaWait t) := [], Waiters (SemaLoad t) := [], Waiters (SemaElim t) := [])"
  proof
    fix p
    show "queue kx p = ((queue k)(Waiters (SemaWait t) := [], Waiters (SemaLoad t) := [], Waiters (SemaElim t) := [])) p"
      using cr by (cases p) auto
  qed
  show "st kx t = Some THREAD_BLOCKED"
    by (rule b)
  show "t \<notin> set (queue kx p)" for p
    using notq [of p] unfolding q by simp
  show "t \<noteq> idle_thread kx"
    using qinv_idle [OF inv] new cr m(3) wft pages.region_page [of "mem (vmem k)" t] pages.live_region [of m] m(1,2)
      pages.region_page [of m t] by (auto simp: st_def)
  have "qinv ((st k)(t \<mapsto> THREAD_BLOCKED)) (queue k) (running k) (idle_thread k)"
    by (rule qinv_set_status [OF inv notq]) simp_all
  then have "qinv (st kx) (queue kx) (running k) (idle_thread k)"
    unfolding st q by (intro qinv_clear) simp_all
  then have "wf_queues kx"
    using cr by (simp add: wf_queues_def)
  moreover have "wf_threads kx"
  proof -
    have "magic th = THREAD_MAGIC \<and> (pagedir th = 0 \<or> is_kernel_vaddr (pagedir th)) \<and> (u = initial_thread k \<or> u \<in> live_pages m)"
      if u: "threads kx u = Some th" for u th
    proof (cases "u = t")
      case True
      then show ?thesis
        using cr u m(3) by auto
    next
      case False
      then have "map_option core (threads k u) = Some (core th)"
        using cr u by (metis option.simps(9))
      then obtain th0 where th0: "threads k u = Some th0" "core th0 = core th"
        by auto
      then show ?thesis
        using wf_threadsD [OF wft th0(1)] m(3) by (auto simp: core_def)
    qed
    then show ?thesis
      using wft cr m(1,2) unfolding wf_threads_def by simp
  qed
  moreover have "st kx (running kx) = Some THREAD_RUNNING"
    using cr st run r by simp
  ultimately show "wf_kernel kx"
    by (simp add: wf_kernel_def)
qed

lemma effect_unblock:
  assumes "wf_kernel k" and "\<not> in_external_intr (irq k)" and "st k t = Some THREAD_BLOCKED" and "\<And>q. t \<notin> set (queue k q)"
    and "t \<noteq> idle_thread k" and "thread_unblock k t = Some k'"
  shows "effect k [] (svals k) (lock_holder k) k'" and "running k' = running k" and "threads k' u = None \<Longrightarrow> threads k u = None"
proof -
  have ok: "irq_ok k" and wf: "wf_threads k" "wf_queues k" and run: "st k (running k) = Some THREAD_RUNNING"
    using assms(1,2) by (simp_all add: irq_ok_def wf_kernel_def)
  note u = thread_unblock_ok [OF wf ok assms(3-5)]
  have k': "k' = unblocked k t"
    using u(1) assms(6) by simp
  show "running k' = running k" and "threads k' u = None \<Longrightarrow> threads k u = None"
    by (auto simp: k' unblocked_def split: if_splits)
  show "effect k [] (svals k) (lock_holder k) k'"
  proof (rule effectI)
    have "running k \<noteq> t"
      using run assms(3) by auto
    then show "wf_kernel k'"
      using u(2,3) run by (simp add: wf_kernel_def k') (simp add: st_def unblocked_def)
    show "keeps_work k [] k'"
      by (rule keeps_work_threads) (simp add: k' unblocked_def option.map_comp o_def)
  qed (use assms(2) in \<open>auto simp: k' svals_def\<close>)
qed

lemma creating_keeps:
  assumes "creating k t m i kx" and "threads k t = None" and "\<exists>th. threads kx t = Some th \<and> work th = [Start f a]" and "f \<noteq> idle_fn k"
  shows "keeps_work k [] kx"
  unfolding keeps_work_def
proof (intro allI impI)
  fix u th'
  assume u: "threads kx u = Some th'"
  show "case threads k u of Some th \<Rightarrow> work th' = (if u = running k then [] @ work th else work th)
      | None \<Rightarrow> \<exists>f a. work th' = [Start f a] \<and> f \<noteq> idle_fn k"
  proof (cases "u = t")
    case True
    then show ?thesis
      using u assms(2,3,4) by auto
  next
    case False
    then have "map_option core (threads k u) = Some (core th')"
      using assms(1) u unfolding creating_def by (metis option.simps(9))
    then show ?thesis
      by (auto simp: core_def)
  qed
qed

lemma effect_created:
  assumes wf: "wf_kernel k" and ext: "\<not> in_external_intr (irq k)" and c: "creating k t m (irq k) kx"
    and w: "\<exists>th. threads kx t = Some th \<and> work th = [Start f a]" and f: "f \<noteq> idle_fn k" and new: "threads k t = None"
    and m: "wf_palloc m" "pool_pages m = pool_pages (mem (vmem k))" "live_pages m = insert t (live_pages (mem (vmem k)))"
  shows "effect k [] (svals kx) (lock_holder k) kx" and "threads kx u = None \<Longrightarrow> threads k u = None"
proof -
  note cr = c [unfolded creating_def]
  show "effect k [] (svals kx) (lock_holder k) kx"
    by (rule effectI) (use creating_wf(1) [OF wf c new m] creating_keeps [OF c new w f] cr ext in \<open>simp_all add: svals_def\<close>)
  show "threads kx u = None \<Longrightarrow> threads k u = None"
    using cr new by (cases "u = t") auto
qed

lemma svals_lock: "creating k t m i kx \<Longrightarrow> svals kx (LockSema l) = svals k (LockSema l)"
  by (simp add: creating_def svals_def)

lemma svals_threads [simp]: "svals (k\<lparr>threads := ts\<rparr>) = svals k"
  by (simp add: svals_def fun_eq_iff)

lemma effect_thread_create:
  assumes wf: "wf_kernel k" and ext: "\<not> in_external_intr (irq k)" and f: "f \<noteq> idle_fn k" and c: "thread_create k nm p f a ok = Some k'"
  obtains ws val where "effect k ws val (lock_holder k) k'" and "list_all is_intr ws" and "\<And>l. val (LockSema l) = svals k (LockSema l)"
proof -
  have ok: "irq_ok k"
    using ext by (simp add: irq_ok_def)
  have wft: "wf_threads k"
    using wf by (simp add: wf_kernel_def)
  then have m: "wf_palloc (mem (vmem k))"
    by (simp add: wf_threads_def)
  obtain th where th: "threads k (running k) = Some th"
    using wf by (rule wf_kernel_current)
  have fl: "PAL_ZERO AND PAL_ASSERT = 0"
    by (simp add: PAL_ZERO_def PAL_ASSERT_def)
  from m fl show thesis
  proof (cases rule: pages.get_cases)
    case 1
    then have "upd_thread k (running k) (\<lambda>th. th\<lparr>ret := TID_ERROR\<rparr>) = Some k'"
      using c by (auto simp: thread_create_def)
    from effect_upd [OF wf this ext] show thesis
      using that [of "[]" "svals k"] by simp
  next
    case (2 t m')
    have new: "threads k t = None"
      using wft 2 by (cases "threads k t") (auto simp: wf_threads_def)
    have i: "t \<noteq> initial_thread k" "t \<noteq> running k"
      using wft 2 new th by (auto simp: wf_threads_def)
    obtain kx ky kz n where e: "creating k t m' (irq k) kx" "\<exists>th. threads kx t = Some th \<and> work th = [Start f a]"
        "thread_unblock kx t = Some ky" "upd_thread ky (running ky) (\<lambda>th. th\<lparr>ret := n\<rparr>) = Some kz" "thread_yield kz = Some k'"
      by (rule thread_create_creating [OF c ok 2(1,2) i])
    note ex = effect_created [OF wf ext e(1,2) f new 2(3,4,7)]
    note cw = creating_wf [OF wf e(1) new 2(3,4,7)]
    have rx: "running kx = running k" "lock_holder kx = lock_holder k" "\<not> in_external_intr (irq kx)"
      using e(1) ext by (simp_all add: creating_def)
    note ub = effect_unblock [OF cw(1) rx(3) cw(2-4) e(3)]
    have vy: "svals ky = svals kx" "lock_holder ky = lock_holder kx" "wf_kernel ky" "\<not> in_external_intr (irq ky)"
      using ub(1) by (auto simp: effect_def svals_def fun_eq_iff)
    have ez: "effect ky [] (svals ky) (lock_holder ky) kz"
      by (rule effect_upd [OF vy(3) e(4) vy(4)]) simp
    have z: "running kz = running ky" "svals kz = svals ky" "lock_holder kz = lock_holder ky" "wf_kernel kz"
        "threads kz u = None \<Longrightarrow> threads ky u = None" for u
      using ez e(4) by (auto simp: effect_def svals_def upd_thread_def split: option.splits if_splits)
    have txy: "threads kx (running kx) \<noteq> None"
      using ex(2) [of "running kx"] rx(1) th by auto
    have e1: "effect kx [] (svals ky) (lock_holder ky) kz"
      using effect_trans [OF ub(1) ez ub(2) txy ub(3)] by simp
    have e2: "effect kx [IntrSet (intr_get_level (irq kz))] (svals kz) (lock_holder kz) k'"
      using effect_trans [OF e1 effect_yield [OF z(4) e(5)] _ txy] z(1,5) ub(2,3) by simp
    have "effect k [IntrSet (intr_get_level (irq kz))] (svals kx) (lock_holder k) k'"
      using effect_trans [OF ex(1) e2 rx(1) _ ex(2)] th z vy rx by simp
    then show thesis
      using that svals_lock [OF e(1)] by (simp add: is_intr_def)
  qed
qed

section \<open>The timer tick\<close>

text \<open>A change that the scheduler, the locks and the pending work do not notice.\<close>

definition neutral :: "'w kernel \<Rightarrow> 'w kernel \<Rightarrow> bool" where
  "neutral k k' \<longleftrightarrow> wf_kernel k' \<and> running k' = running k \<and> idle_thread k' = idle_thread k \<and> idle_fn k' = idle_fn k
     \<and> lock_holder k' = lock_holder k \<and> svals k' = svals k \<and> in_external_intr (irq k') = in_external_intr (irq k)
     \<and> (\<forall>t. map_option work (threads k' t) = map_option work (threads k t))"

lemma neutral_refl: "wf_kernel k \<Longrightarrow> neutral k k"
  by (simp add: neutral_def)

lemma neutral_trans: "neutral k k1 \<Longrightarrow> neutral k1 k2 \<Longrightarrow> neutral k k2"
  by (simp add: neutral_def)

lemma neutral_wf: "neutral k k' \<Longrightarrow> wf_kernel k'"
  by (simp add: neutral_def)

lemma neutral_same:
  assumes "wf_kernel k" and "same_sched k' k" and "idle_fn k' = idle_fn k" and "lock_holder k' = lock_holder k"
    and "svals k' = svals k" and "in_external_intr (irq k') = in_external_intr (irq k)"
  shows "neutral k k'"
  using assms same_schedD(5) [OF assms(2)] by (simp add: neutral_def same_sched_def)

lemma neutral_upd:
  assumes "wf_kernel k" and "upd_thread k t f = Some k'"
    and "\<And>th. status (f th) = status th \<and> magic (f th) = magic th \<and> pagedir (f th) = pagedir th \<and> work (f th) = work th"
  shows "neutral k k'"
proof -
  have "wf_kernel k'"
    using wf_kernel_upd [OF assms(2,1)] assms(3) by blast
  then show ?thesis
    using assms(2,3) by (auto simp: neutral_def upd_thread_def split: option.splits)
qed

lemma neutral_level:
  assumes "wf_kernel k" and "k_set_level k l = Some k'"
  shows "neutral k k'"
proof -
  obtain b where "k' = k\<lparr>irq := (irq k)\<lparr>if_flag := b\<rparr>\<rparr>"
    using k_set_level_Some [OF assms(2)] by blast
  then show ?thesis
    using assms(1) by (intro neutral_same) (auto simp: svals_def)
qed

lemma neutral_recent_cpus: "wf_kernel k \<Longrightarrow> update_recent_cpus d ts k = Some k' \<Longrightarrow> neutral k k'"
proof (induction ts arbitrary: k)
  case Nil
  then show ?case
    by (simp add: neutral_refl)
next
  case (Cons t ts)
  then obtain r k1 where u: "upd_thread k t (\<lambda>th. th\<lparr>recent_cpu := r\<rparr>) = Some k1" "update_recent_cpus d ts k1 = Some k'"
    by auto
  have "neutral k k1"
    by (rule neutral_upd [OF Cons.prems(1) u(1)]) simp
  then show ?case
    using Cons.IH [OF _ u(2)] neutral_wf neutral_trans by blast
qed

lemma neutral_priorities: "wf_kernel k \<Longrightarrow> update_priorities ts k = Some k' \<Longrightarrow> neutral k k'"
proof (induction ts arbitrary: k)
  case Nil
  then show ?case
    by (simp add: neutral_refl)
next
  case (Cons t ts)
  then obtain r k1 where u: "upd_thread k t (\<lambda>th. th\<lparr>priority := r\<rparr>) = Some k1" "update_priorities ts k1 = Some k'"
    by auto
  have "neutral k k1"
    by (rule neutral_upd [OF Cons.prems(1) u(1)]) simp
  then show ?case
    using Cons.IH [OF _ u(2)] neutral_wf neutral_trans by blast
qed

lemma neutral_age: "wf_kernel k \<Longrightarrow> age_threads ts k = Some k' \<Longrightarrow> neutral k k'"
proof (induction ts arbitrary: k)
  case Nil
  then show ?case
    by (simp add: neutral_refl)
next
  case (Cons t ts)
  then obtain r k1 where u: "upd_thread k t (\<lambda>th. th\<lparr>priority := r\<rparr>) = Some k1" "age_threads ts k1 = Some k'"
    by (auto simp: Let_def)
  have "neutral k k1"
    by (rule neutral_upd [OF Cons.prems(1) u(1)]) simp
  then show ?case
    using Cons.IH [OF _ u(2)] neutral_wf neutral_trans by blast
qed

lemma neutral_aging:
  assumes wf: "wf_kernel k" and a: "thread_aging k = Some k'"
  shows "neutral k k'"
proof -
  let ?k = "k\<lparr>aging_ticks := aging_ticks k + 1\<rparr>"
  have n: "neutral k ?k"
    using wf by (intro neutral_same) (auto simp: same_sched_def svals_def)
  show ?thesis
  proof (cases "k' = ?k")
    case False
    then obtain k1 where k1: "age_threads (ready_list k) ?k = Some k1" "k' = k1\<lparr>aging_ticks := 0\<rparr>"
      using a by (auto simp: thread_aging_def Let_def split: if_splits)
    have n1: "neutral ?k k1"
      using neutral_age [OF neutral_wf [OF n] k1(1)] .
    have "neutral k1 k'"
      using neutral_wf [OF n1] unfolding k1(2) by (intro neutral_same) (auto simp: same_sched_def svals_def)
    then show ?thesis
      using n n1 neutral_trans by blast
  qed (use n in simp)
qed

lemma mlfqs_tick_parts:
  assumes "mlfqs_tick k t = Some k'"
  obtains k1 k2 k3 where "(if t \<noteq> idle_thread k
           then upd_thread (k\<lparr>irq := (irq k)\<lparr>if_flag := False\<rparr>\<rparr>) t (\<lambda>th. th\<lparr>recent_cpu := add_FP_to_FP (recent_cpu th) (int_to_FP 1)\<rparr>)
           else Some (k\<lparr>irq := (irq k)\<lparr>if_flag := False\<rparr>\<rparr>)) = Some k1"
    and "k2 = k1 \<or> (\<exists>avg d. update_recent_cpus d (all_list k1) (k1\<lparr>load_avg := avg\<rparr>) = Some k2)"
    and "k3 = k2 \<or> update_priorities (all_list k2) k2 = Some k3" and "k_set_level k3 (intr_get_level (irq k)) = Some k'"
proof -
  let ?k = "k\<lparr>irq := (irq k)\<lparr>if_flag := False\<rparr>\<rparr>"
  obtain k1 k2 k3 where s: "(if t \<noteq> idle_thread ?k
           then upd_thread ?k t (\<lambda>th. th\<lparr>recent_cpu := add_FP_to_FP (recent_cpu th) (int_to_FP 1)\<rparr>) else Some ?k) = Some k1"
      "(if sint (ticks k) mod TIMER_FREQ = 0
           then do {
             n \<leftarrow> ready_threads k1 (all_list k1);
             avg \<leftarrow> new_load_avg (load_avg k1) n;
             update_recent_cpus (mul_FP_to_FP avg (int_to_FP 2)) (all_list (k1\<lparr>load_avg := avg\<rparr>)) (k1\<lparr>load_avg := avg\<rparr>)
           }
           else Some k1) = Some k2"
      "(if sint (ticks k) mod int TIME_SLICE = 0 then update_priorities (all_list k2) k2 else Some k2) = Some k3"
      "k_set_level k3 (intr_get_level (irq k)) = Some k'"
    using assms unfolding mlfqs_tick_def k_disable_eq Let_def prod.case Option.bind_eq_Some_conv by blast
  then have "k2 = k1 \<or> (\<exists>avg d. update_recent_cpus d (all_list k1) (k1\<lparr>load_avg := avg\<rparr>) = Some k2)"
      "k3 = k2 \<or> update_priorities (all_list k2) k2 = Some k3"
    by (auto split: if_splits)
  with s show thesis
    by (intro that [of k1 k2 k3]) simp_all
qed

lemma neutral_mlfqs:
  assumes wf: "wf_kernel k" and a: "mlfqs_tick k t = Some k'"
  shows "neutral k k'"
proof -
  let ?k = "k\<lparr>irq := (irq k)\<lparr>if_flag := False\<rparr>\<rparr>"
  obtain k1 k2 k3 where s1: "(if t \<noteq> idle_thread k
           then upd_thread ?k t (\<lambda>th. th\<lparr>recent_cpu := add_FP_to_FP (recent_cpu th) (int_to_FP 1)\<rparr>) else Some ?k) = Some k1"
      and e: "k2 = k1 \<or> (\<exists>avg d. update_recent_cpus d (all_list k1) (k1\<lparr>load_avg := avg\<rparr>) = Some k2)"
        "k3 = k2 \<or> update_priorities (all_list k2) k2 = Some k3"
      and s4: "k_set_level k3 (intr_get_level (irq k)) = Some k'"
    by (rule mlfqs_tick_parts [OF a])
  have n0: "neutral k ?k"
    using wf by (intro neutral_same) (auto simp: svals_def)
  have n1: "neutral ?k k1"
    using s1 neutral_upd [OF neutral_wf [OF n0], of t] neutral_refl [OF neutral_wf [OF n0]] by (auto split: if_splits)
  have nl: "neutral k1 (k1\<lparr>load_avg := avg\<rparr>)" for avg
    using neutral_wf [OF n1] by (intro neutral_same) (auto simp: same_sched_def svals_def)
  have n2: "neutral k1 k2"
    using e(1) neutral_refl [OF neutral_wf [OF n1]] neutral_recent_cpus [OF neutral_wf [OF nl]] neutral_trans [OF nl] by blast
  have n3: "neutral k2 k3"
    using e(2) neutral_refl [OF neutral_wf [OF n2]] neutral_priorities [OF neutral_wf [OF n2]] by blast
  show ?thesis
    using n0 n1 n2 n3 neutral_level [OF neutral_wf [OF n3] s4] neutral_trans by blast
qed

lemma thread_tick_parts:
  assumes "thread_tick k = Some k'"
  obtains k1 k2 k3 where "threads k1 = threads k" and "same_sched k1 k" and "sleeping_list k1 = sleeping_list k" and "ticks k1 = ticks k"
    and "irq k1 = irq k" and "idle_fn k1 = idle_fn k" and "semas k1 = semas k" and "lock_holder k1 = lock_holder k"
    and "k2 = k1 \<or> mlfqs_tick k1 (running k) = Some k2"
    and "k3 = k2\<lparr>thread_ticks := thread_ticks k2 + 1\<rparr> \<or>
      k3 = k2\<lparr>thread_ticks := thread_ticks k2 + 1, irq := (irq k2)\<lparr>yield_on_return := True\<rparr>\<rparr>"
    and "k' = k3 \<or> thread_aging k3 = Some k'"
proof -
  obtain t th where tc: "thread_current k = Some t" "threads k t = Some th"
    using assms unfolding thread_tick_def Option.bind_eq_Some_conv by blast
  moreover have "t = running k"
    using tc(1) by (auto simp: thread_current_def running_thread_def Let_def)
  ultimately have th: "thread_current k = Some (running k)" "threads k (running k) = Some th"
    by simp_all
  define k1 where "k1 = (if running k = idle_thread k then k\<lparr>idle_ticks := idle_ticks k + 1\<rparr>
              else if userprog k \<and> pagedir th \<noteq> 0 then k\<lparr>user_ticks := user_ticks k + 1\<rparr>
              else k\<lparr>kernel_ticks := kernel_ticks k + 1\<rparr>)"
  obtain k2 k3 where e:
      "(if thread_mlfqs k1 then mlfqs_tick k1 (running k) else Some k1) = Some k2"
      "(if thread_ticks (k2\<lparr>thread_ticks := thread_ticks k2 + 1\<rparr>) \<ge> word_of_nat TIME_SLICE
           then do { s \<leftarrow> intr_yield_on_return (irq (k2\<lparr>thread_ticks := thread_ticks k2 + 1\<rparr>)); Some (k2\<lparr>thread_ticks := thread_ticks k2 + 1, irq := s\<rparr>) }
           else Some (k2\<lparr>thread_ticks := thread_ticks k2 + 1\<rparr>)) = Some k3"
      "(if \<not> userprog k3 \<and> thread_prior_aging k3 then thread_aging k3 else Some k3) = Some k'"
    using assms unfolding thread_tick_def Let_def th bind.bind_lunit k1_def [symmetric] unfolding Option.bind_eq_Some_conv by blast
  have "k2 = k1 \<or> mlfqs_tick k1 (running k) = Some k2" "k' = k3 \<or> thread_aging k3 = Some k'"
      "k3 = k2\<lparr>thread_ticks := thread_ticks k2 + 1\<rparr> \<or>
       k3 = k2\<lparr>thread_ticks := thread_ticks k2 + 1, irq := (irq k2)\<lparr>yield_on_return := True\<rparr>\<rparr>"
    using e by (auto simp: intr_yield_on_return_def split: if_splits)
  then show thesis
    by (intro that [of k1 k2 k3]) (simp_all add: k1_def same_sched_def)
qed

lemma neutral_thread_tick:
  assumes wf: "wf_kernel k" and a: "thread_tick k = Some k'"
  shows "neutral k k'"
proof -
  obtain k1 k2 k3 where s: "same_sched k1 k" "irq k1 = irq k" "idle_fn k1 = idle_fn k" "semas k1 = semas k" "lock_holder k1 = lock_holder k"
      and e: "k2 = k1 \<or> mlfqs_tick k1 (running k) = Some k2"
        "k3 = k2\<lparr>thread_ticks := thread_ticks k2 + 1\<rparr> \<or>
         k3 = k2\<lparr>thread_ticks := thread_ticks k2 + 1, irq := (irq k2)\<lparr>yield_on_return := True\<rparr>\<rparr>"
        "k' = k3 \<or> thread_aging k3 = Some k'"
    by (rule thread_tick_parts [OF a])
  have n1: "neutral k k1"
    using wf s by (intro neutral_same) (auto simp: svals_def)
  have n2: "neutral k1 k2"
    using e(1) neutral_mlfqs [OF neutral_wf [OF n1]] neutral_refl [OF neutral_wf [OF n1]] by auto
  have n3: "neutral k2 k3"
    using e(2) neutral_wf [OF n2] by (intro neutral_same) (auto simp: same_sched_def svals_def)
  show ?thesis
    using n1 n2 n3 e(3) neutral_aging [OF neutral_wf [OF n3]] neutral_trans by (metis option.inject)
qed

lemma neutral_wake_up:
  assumes wf: "wf_kernel k" and "\<not> if_flag (irq k)" and a: "thread_wake_up k n = Some k'"
  shows "neutral k k'"
proof -
  let ?w = "\<lambda>q. k\<lparr>sleeping_list := dropWhile (due k n) (sleeping_list k), ready_list := q,
      threads := set_ready (set (takeWhile (due k n) (sleeping_list k))) (threads k)\<rparr>"
  have "irq_ok k"
    using assms(2) by (simp add: irq_ok_def)
  then obtain q where q: "k' = ?w q" "wf_kernel (?w q)"
    using thread_wake_up_loop_ok [OF wf _ order.refl, of n] a unfolding thread_wake_up_def by auto
  then show ?thesis
    by (auto simp: neutral_def svals_def set_ready_def option.map_comp o_def)
qed

lemma neutral_timer_interrupt:
  assumes wf: "wf_kernel k" and a: "timer_interrupt k = Some k'"
  shows "neutral k k'"
proof -
  let ?k = "k\<lparr>ticks := ticks k + 1\<rparr>"
  obtain k1 k2 where e: "thread_tick ?k = Some k1" "thread_wake_up (k1\<lparr>irq := (irq k1)\<lparr>if_flag := False\<rparr>\<rparr>) (ticks k1) = Some k2"
      "k_set_level k2 (intr_get_level (irq k1)) = Some k'"
    using a by (auto simp: timer_interrupt_def k_disable_eq Let_def)
  have n0: "neutral k ?k"
    using wf by (intro neutral_same) (auto simp: same_sched_def svals_def)
  have n1: "neutral ?k k1"
    by (rule neutral_thread_tick [OF neutral_wf [OF n0] e(1)])
  have n2: "neutral k1 (k1\<lparr>irq := (irq k1)\<lparr>if_flag := False\<rparr>\<rparr>)"
    using neutral_wf [OF n1] by (intro neutral_same) (auto simp: svals_def)
  have n3: "neutral (k1\<lparr>irq := (irq k1)\<lparr>if_flag := False\<rparr>\<rparr>) k2"
    by (rule neutral_wake_up [OF neutral_wf [OF n2] _ e(2)]) simp
  show ?thesis
    using n0 n1 n2 n3 neutral_level [OF neutral_wf [OF n3] e(3)] neutral_trans by blast
qed

lemma neutral_effect:
  assumes "neutral k k'" and "\<not> in_external_intr (irq k)"
  shows "effect k [] (svals k) (lock_holder k) k'"
proof (rule effectI)
  show "keeps_work k [] k'"
    using assms(1) by (intro keeps_work_threads) (simp add: neutral_def option.map_comp o_def)
qed (use assms in \<open>auto simp: neutral_def svals_def fun_eq_iff\<close>)

lemma neutral_None: "neutral k k' \<Longrightarrow> threads k' t = None \<longleftrightarrow> threads k t = None"
  by (metis map_option_is_None neutral_def)

text \<open>The tick, up to the point where the interrupted thread may be preempted.\<close>

lemma tick_handler:
  assumes wf: "wf_kernel k" and ext: "\<not> in_external_intr (irq k)" and a: "intr_handler timer_handler k 0x20 = Some k'"
  obtains k1 where "neutral k k1" and "\<not> in_external_intr (irq k1)" and "k' = k1 \<or> thread_yield k1 = Some k'"
proof -
  let ?k = "k\<lparr>irq := (irq k)\<lparr>in_external_intr := True, yield_on_return := False\<rparr>\<rparr>"
  let ?h = "intr_handlers (irq ?k) ! 0x20"
  obtain k1 s where e: "(if ?h = 0 then \<exists>s'. k1 = ?k\<lparr>irq := s'\<rparr> \<and> in_external_intr s' else timer_interrupt ?k = Some k1)"
      "pic_end_of_interrupt ((irq k1)\<lparr>in_external_intr := False\<rparr>) 0x20 = Some s"
      "k' = k1\<lparr>irq := s\<rparr> \<or> thread_yield (k1\<lparr>irq := s\<rparr>) = Some k'"
  proof (cases "?h = 0")
    case True
    then obtain b s' s where u: "unexpected_interrupt (irq ?k) 0x20 = Some (b, s')" "pic_end_of_interrupt (s'\<lparr>in_external_intr := False\<rparr>) 0x20 = Some s"
        "k' = k\<lparr>irq := s\<rparr> \<or> thread_yield (k\<lparr>irq := s\<rparr>) = Some k'"
      using a by (auto simp: intr_handler_def Let_def split: if_splits)
    have "in_external_intr s'"
      using u(1) by (auto simp: unexpected_interrupt_def Let_def)
    then show thesis
      using that [of "?k\<lparr>irq := s'\<rparr>" s] u(2,3) True by auto
  next
    case False
    then show thesis
      using a that
      by (auto simp: intr_handler_def timer_handler_def Let_def split: if_splits)
  qed
  have n0: "same_sched ?k k"
    by simp
  have wf0: "wf_kernel ?k"
    using wf same_schedD(5) [OF n0] by simp
  have n1: "neutral ?k k1"
  proof (cases "?h = 0")
    case True
    then obtain s' where s': "k1 = ?k\<lparr>irq := s'\<rparr>" "in_external_intr s'"
      using e(1) by auto
    have "same_sched k1 ?k"
      unfolding s'(1) by (rule same_sched_irq)
    then show ?thesis
      using wf0 s' by (intro neutral_same) (auto simp: svals_def)
  next
    case False
    then show ?thesis
      using e(1) neutral_timer_interrupt [OF wf0] by simp
  qed
  have s: "\<not> in_external_intr s"
    using e(2) by (auto simp: pic_end_of_interrupt_def pic_outb_def Let_def)
  have "neutral k (k1\<lparr>irq := s\<rparr>)"
    using n1 s ext same_schedD(5) [of "k1\<lparr>irq := s\<rparr>" k1] by (auto simp: neutral_def svals_def fun_eq_iff)
  then show thesis
    using that e(3) s by auto
qed

lemma effect_tick:
  assumes wf: "wf_kernel k" and ext: "\<not> in_external_intr (irq k)" and a: "external_interrupt timer_handler k 0x20 = Some k'"
  obtains ws where "effect k ws (svals k) (lock_holder k) k'" and "list_all is_intr ws"
proof -
  obtain th where th: "threads k (running k) = Some th"
    using wf by (rule wf_kernel_current)
  obtain k1 where p: "push [Iret] (k\<lparr>irq := (irq k)\<lparr>if_flag := False\<rparr>\<rparr>) = Some k1" and h: "intr_handler timer_handler k1 0x20 = Some k'"
    using a by (auto simp: external_interrupt_def)
  have e1: "effect k [Iret] (svals k) (lock_holder k) k1"
    by (rule effect_push [OF wf _ _ _ _ _ p]) (use ext in \<open>auto simp: svals_def\<close>)
  have k1: "wf_kernel k1" "\<not> in_external_intr (irq k1)" "running k1 = running k" "svals k1 = svals k" "lock_holder k1 = lock_holder k"
      "threads k1 t = None \<Longrightarrow> threads k t = None" for t
    using e1 p by (auto simp: effect_def svals_def fun_eq_iff push_def upd_thread_def split: option.splits if_splits)
  obtain k2 where k2: "neutral k1 k2" "\<not> in_external_intr (irq k2)" "k' = k2 \<or> thread_yield k2 = Some k'"
    by (rule tick_handler [OF k1(1,2) h])
  have e2: "effect k [Iret] (svals k) (lock_holder k) k2"
    using effect_trans [OF e1 neutral_effect [OF k2(1) k1(2)] k1(3) _ k1(6)] th k1 by simp
  show thesis
  proof (cases "k' = k2")
    case True
    then show thesis
      using that e2 by (simp add: is_intr_def)
  next
    case False
    have "effect k [IntrSet (intr_get_level (irq k2)), Iret] (svals k2) (lock_holder k2) k'"
      using effect_trans [OF e2 effect_yield [OF neutral_wf [OF k2(1)]]] k2 False th k1(3,6) neutral_None [OF k2(1)]
      by (simp add: neutral_def)
    then show thesis
      using that k1 k2(1) by (simp add: neutral_def is_intr_def)
  qed
qed

end
