(* ===== verification/Kernel_Inv.thy ===== *)
theory Kernel_Inv
  imports Kernel_Create
begin

text \<open>
  Invariants over all reachable states of the kernel: the scheduler's data structures stay
  consistent, only the idle thread runs the idle loop and it never waits for anything, and
  a lock is held by at most one thread.
\<close>

section \<open>The shape of pending work\<close>

text \<open>
  A \<open>Down\<close> on the semaphore of a lock is followed by recording the holder; the recording
  and the \<open>Up\<close> of a release occur only there or in front.
\<close>

fun lock_down :: "'w work \<Rightarrow> u32 option" where
  "lock_down (Down (LockSema l)) = Some l"
| "lock_down (DownLoop (LockSema l) i) = Some l"
| "lock_down _ = None"

lemma lock_down_other: "\<nexists>l. s = LockSema l \<Longrightarrow> lock_down (Down s) = None \<and> lock_down (DownLoop s i) = None"
  by (cases s) auto

fun tail_ok :: "'w work list \<Rightarrow> bool" where
  "tail_ok [] = True"
| "tail_ok (w # ws) = (case lock_down w of
     Some l \<Rightarrow> (case ws of v # ws' \<Rightarrow> v = SetHolder l \<and> tail_ok ws' | [] \<Rightarrow> False)
   | None \<Rightarrow> (\<nexists>l. w = SetHolder l \<or> w = Up (LockSema l)) \<and> tail_ok ws)"

text \<open>The thread has taken the semaphore of the lock and is not recorded as its holder, or no longer.\<close>

definition owns :: "'w work list \<Rightarrow> u32 \<Rightarrow> bool" where
  "owns ws l \<longleftrightarrow> (case dropWhile is_intr ws of [] \<Rightarrow> False | w # _ \<Rightarrow> w = SetHolder l \<or> w = Up (LockSema l))"

definition front_ok :: "'w work list \<Rightarrow> bool" where
  "front_ok ws \<longleftrightarrow> tail_ok (dropWhile is_intr ws) \<or> (\<exists>l. owns ws l) \<and> tail_ok (tl (dropWhile is_intr ws))"

fun item_ok :: "u32 \<Rightarrow> 'w work \<Rightarrow> bool" where
  "item_ok fn (Idle a) = False"
| "item_ok fn IdleLoop = False"
| "item_ok fn IdleHalt = False"
| "item_ok fn (Start f a) = (f \<noteq> fn)"
| "item_ok fn (Create nm p f a ok) = (f \<noteq> fn)"
| "item_ok fn _ = True"

definition idle_work :: "'w work list \<Rightarrow> bool" where
  "idle_work ws \<longleftrightarrow> (\<exists>w. dropWhile is_intr ws = [w, Exit] \<and> (w = IdleLoop \<or> w = IdleHalt))"

lemma is_intr_simps [simp]:
  "is_intr (IntrSet l)" "is_intr Iret" "\<not> is_intr Yield" "\<not> is_intr (Down s)" "\<not> is_intr (DownLoop s l)" "\<not> is_intr (Up s)"
  "\<not> is_intr (Acquire x)" "\<not> is_intr (SetHolder x)" "\<not> is_intr (Release x)" "\<not> is_intr (Wait c x)" "\<not> is_intr (Signal c x)"
  "\<not> is_intr (Broadcast c x)" "\<not> is_intr (Create nm p f a ok)" "\<not> is_intr (Start f a)" "\<not> is_intr (Body f a)" "\<not> is_intr (Idle a)"
  "\<not> is_intr IdleLoop" "\<not> is_intr IdleHalt" "\<not> is_intr Exit" "\<not> is_intr ExitChildren" "\<not> is_intr ExitTail" "\<not> is_intr (Sleep n)"
  "\<not> is_intr (SetPriority q)" "\<not> is_intr (SetNice q)" "\<not> is_intr (Ext w)"
  by (simp_all add: is_intr_def)

lemma tail_ok_append: "tail_ok ws \<Longrightarrow> tail_ok vs \<Longrightarrow> tail_ok (ws @ vs)"
  by (induction ws rule: tail_ok.induct) (auto split: option.splits list.splits)

lemma tail_ok_intr [simp]: "list_all is_intr ws \<Longrightarrow> tail_ok ws"
  by (induction ws) (auto simp: is_intr_def)

lemma tail_ok_drop: "tail_ok (dropWhile is_intr ws) = tail_ok ws"
  by (induction ws) (auto simp: is_intr_def)

lemma tail_not_owns:
  assumes "tail_ok ws"
  shows "\<not> owns ws l"
proof -
  have "tail_ok (dropWhile is_intr ws)"
    using assms by (simp add: tail_ok_drop)
  then show ?thesis
    by (auto simp: owns_def split: list.splits)
qed

lemma tail_front: "tail_ok ws \<Longrightarrow> front_ok ws"
  by (simp add: front_ok_def tail_ok_drop)

lemma owns_Cons:
  "owns (w # ws) l = (if is_intr w then owns ws l else w = SetHolder l \<or> w = Up (LockSema l))"
  by (simp add: owns_def)

lemma front_Cons:
  "front_ok (w # ws) = (if is_intr w then front_ok ws else if \<exists>l. w = SetHolder l \<or> w = Up (LockSema l) then tail_ok ws else tail_ok (w # ws))"
  by (auto simp: front_ok_def owns_Cons owns_def)

lemma intr_append [simp]:
  "list_all is_intr ws \<Longrightarrow> owns (ws @ vs) = owns vs" "list_all is_intr ws \<Longrightarrow> front_ok (ws @ vs) = front_ok vs"
  by (induction ws) (auto simp: owns_Cons front_Cons fun_eq_iff)

lemma idle_work_ok: "idle_work ws \<Longrightarrow> tail_ok ws"
  by (subst tail_ok_drop [symmetric]) (auto simp: idle_work_def)

lemma idle_work_append [simp]: "list_all is_intr ws \<Longrightarrow> idle_work (ws @ vs) = idle_work vs"
  by (induction ws) (auto simp: idle_work_def)

section \<open>The state of a lock\<close>

text \<open>A lock is free, held by a recorded holder, or on its way from the one to the other.\<close>

definition lock_state :: "u32 \<Rightarrow> tptr \<Rightarrow> tptr set \<Rightarrow> bool" where
  "lock_state v h A \<longleftrightarrow> v = 1 \<and> h = 0 \<and> A = {} \<or> v = 0 \<and> h \<noteq> 0 \<and> A = {} \<or> v = 0 \<and> h = 0 \<and> (\<exists>t. A \<subseteq> {t})"

text \<open>What a step of thread \<open>r\<close> may do to a lock; \<open>o1\<close> and \<open>o2\<close> say whether \<open>r\<close> is on its way before and after.\<close>

definition lock_move :: "tptr \<Rightarrow> bool \<Rightarrow> u32 \<Rightarrow> tptr \<Rightarrow> bool \<Rightarrow> u32 \<Rightarrow> tptr \<Rightarrow> bool" where
  "lock_move r o1 v h o2 v' h' \<longleftrightarrow>
     v' = v \<and> h' = h \<and> (o2 \<longrightarrow> o1)
   \<or> v \<noteq> 0 \<and> v' = v - 1 \<and> h' = h
   \<or> o1 \<and> v' = v \<and> h' = r \<and> \<not> o2
   \<or> o1 \<and> v' = v + 1 \<and> h' = h \<and> \<not> o2
   \<or> h = r \<and> v' = v \<and> h' = 0"

lemma lock_move_state:
  assumes s: "lock_state v h A" and m: "lock_move r (r \<in> A) v h o2 v' h'" and "r \<noteq> 0" and A': "A' \<subseteq> (A - {r}) \<union> (if o2 then {r} else {})"
  shows "lock_state v' h' A'"
proof -
  consider (free) "v = 1" "h = 0" "A = {}" | (held) "v = 0" "h \<noteq> 0" "A = {}" | (way) t where "v = 0" "h = 0" "A \<subseteq> {t}"
    using s by (auto simp: lock_state_def)
  then show ?thesis
  proof cases
    case free
    then have "A' \<subseteq> (if o2 then {r} else {})"
      using A' by simp
    then show ?thesis
      using m \<open>r \<noteq> 0\<close> free unfolding lock_move_def lock_state_def by (cases o2) auto
  next
    case held
    then have "A' \<subseteq> (if o2 then {r} else {})"
      using A' by simp
    then show ?thesis
      using m \<open>r \<noteq> 0\<close> held unfolding lock_move_def lock_state_def by (cases o2) auto
  next
    case way
    then have "A' \<subseteq> {t}" if "r \<notin> A" "\<not> o2"
      using A' that by auto
    moreover have "A' \<subseteq> (if o2 then {r} else {})" if "r \<in> A"
    proof -
      have "A - {r} = {}"
        using that way(3) by blast
      from A' [unfolded this] show ?thesis
        by simp
    qed
    ultimately show ?thesis
      using m \<open>r \<noteq> 0\<close> way unfolding lock_move_def lock_state_def by (cases "r \<in> A"; cases o2) auto
  qed
qed

definition owners :: "'w kernel \<Rightarrow> u32 \<Rightarrow> tptr set" where
  "owners k l = {t. \<exists>th. threads k t = Some th \<and> owns (work th) l}"

definition kinv :: "'w kernel \<Rightarrow> bool" where
  "kinv k \<longleftrightarrow> wf_kernel k \<and> \<not> in_external_intr (irq k) \<and> idle_thread k \<noteq> 0
     \<and> (\<forall>t th. threads k t = Some th \<longrightarrow>
          (if t = idle_thread k then idle_work (work th) else front_ok (work th) \<and> list_all (item_ok (idle_fn k)) (work th)))
     \<and> (\<forall>l. lock_state (svals k (LockSema l)) (lock_holder k l) (owners k l))"

section \<open>Items of a thread other than the idle thread\<close>

text \<open>
  A step that appends items to the running thread's work and moves each lock as it may.
\<close>

definition good_step :: "'w kernel \<Rightarrow> 'w work \<Rightarrow> 'w work list \<Rightarrow> 'w kernel \<Rightarrow> bool" where
  "good_step k w rest k' \<longleftrightarrow> (\<exists>ws val lh. effect k ws val lh k' \<and> front_ok (ws @ rest) \<and> list_all (item_ok (idle_fn k)) ws
     \<and> (\<forall>l. lock_move (running k) (owns (w # rest) l) (svals k (LockSema l)) (lock_holder k l)
          (owns (ws @ rest) l) (val (LockSema l)) (lh l)))"

text \<open>What is demanded of the items of another component: they leave the locks alone.\<close>

definition quiet :: "'w kernel \<Rightarrow> 'w kernel \<Rightarrow> bool" where
  "quiet k k' \<longleftrightarrow> (\<exists>ws val. effect k ws val (lock_holder k) k' \<and> tail_ok ws \<and> list_all (item_ok (idle_fn k)) ws
     \<and> (\<forall>l. val (LockSema l) = svals k (LockSema l)))"

lemma quietI:
  assumes "effect k ws val (lock_holder k) k'" and "tail_ok ws" and "list_all (item_ok (idle_fn k)) ws"
    and "\<And>l. val (LockSema l) = svals k (LockSema l)"
  shows "quiet k k'"
  using assms unfolding quiet_def by blast

lemma quiet_good:
  assumes "quiet k k'" and "tail_ok rest"
  shows "good_step k w rest k'"
proof -
  obtain ws val where e: "effect k ws val (lock_holder k) k'" "tail_ok ws" "list_all (item_ok (idle_fn k)) ws"
      "\<And>l. val (LockSema l) = svals k (LockSema l)"
    using assms(1) unfolding quiet_def by blast
  have "front_ok (ws @ rest)" "\<And>l. \<not> owns (ws @ rest) l"
    using tail_ok_append [OF e(2) assms(2)] tail_front tail_not_owns by blast+
  then show ?thesis
    unfolding good_step_def lock_move_def using e(1,3,4) by (intro exI [of _ ws] exI [of _ val] exI [of _ "lock_holder k"]) simp
qed

lemma list_all_item_intr: "list_all is_intr ws \<Longrightarrow> list_all (item_ok fn) ws"
  by (induction ws) (auto simp: is_intr_def)

lemma quiet_intr:
  assumes "effect k ws val (lock_holder k) k'" and "list_all is_intr ws" and "\<And>l. val (LockSema l) = svals k (LockSema l)"
  shows "quiet k k'"
  by (rule quietI [OF assms(1) tail_ok_intr [OF assms(2)] list_all_item_intr [OF assms(2)] assms(3)])

text \<open>The items of the kernel that never touch the semaphore of a lock.\<close>

fun quiet_item :: "'w work \<Rightarrow> bool" where
  "quiet_item (IntrSet l) = False"
| "quiet_item Iret = False"
| "quiet_item (SetHolder l) = False"
| "quiet_item (Release l) = False"
| "quiet_item (Down s) = (\<nexists>l. s = LockSema l)"
| "quiet_item (DownLoop s i) = (\<nexists>l. s = LockSema l)"
| "quiet_item (Up s) = (\<nexists>l. s = LockSema l)"
| "quiet_item _ = True"

locale work_ext =
  fixes pe :: "'w work list" and ext :: "'w \<Rightarrow> 'w kernel \<Rightarrow> 'w kernel option"
  assumes pe_ok: "tail_ok pe" "list_all (item_ok fn) pe"
    and ext_quiet: "wf_kernel k \<Longrightarrow> \<not> in_external_intr (irq k) \<Longrightarrow> running k \<noteq> idle_thread k \<Longrightarrow> ext x k = Some k' \<Longrightarrow> quiet k k'"
begin

lemma run_quiet:
  assumes wf: "wf_kernel k" and e: "\<not> in_external_intr (irq k)" and i: "running k \<noteq> idle_thread k"
    and w: "quiet_item w" "item_ok (idle_fn k) w" and r: "run_work pe ext w k = Some k'"
  shows "quiet k k'"
proof (cases w)
  case Yield
  then show ?thesis
    using r by (intro quiet_intr [OF effect_yield [OF wf]]) simp_all
next
  case (Down s)
  then show ?thesis
    using effect_sema_down [OF wf e i, of s k'] r w by (auto simp: lock_down_other intro!: quietI split: if_splits)
next
  case (DownLoop s l)
  then show ?thesis
    using effect_sema_down_loop [OF wf e i, of s l k'] r w by (auto simp: lock_down_other intro!: quietI split: if_splits)
next
  case (Up s)
  then obtain ws where u: "effect k ws ((svals k)(s := svals k s + 1)) (lock_holder k) k'" "list_all is_intr ws"
    using effect_sema_up [OF wf e, of s k'] r by auto
  then show ?thesis
    using Up w by (intro quiet_intr [OF u(1)]) auto
next
  case (Acquire l)
  then show ?thesis
    using r by (intro quietI [OF effect_lock_acquire [OF wf]]) simp_all
next
  case (Wait c l)
  then show ?thesis
    using r by (intro quietI [OF effect_cond_wait [OF wf]]) simp_all
next
  case (Signal c l)
  then obtain ws where "effect k ws (svals k) (lock_holder k) k'" "ws = [] \<or> (\<exists>t. ws = [Up (CondSema t)])"
    using effect_cond_signal [OF wf, of c l k'] r by auto
  then show ?thesis
    by (auto intro!: quietI)
next
  case (Broadcast c l)
  then obtain ws where "effect k ws (svals k) (lock_holder k) k'" "ws = [] \<or> ws = [Signal c l, Broadcast c l]"
    using effect_cond_broadcast [OF wf e, of c l k'] r by auto
  then show ?thesis
    by (auto intro!: quietI)
next
  case (Create nm p f a ok)
  then obtain ws val where "effect k ws val (lock_holder k) k'" "list_all is_intr ws" "\<And>l. val (LockSema l) = svals k (LockSema l)"
    using effect_thread_create [OF wf e, of f nm p a ok k'] r w by auto
  then show ?thesis
    by (rule quiet_intr)
next
  case (Start f a)
  then show ?thesis
    using r w by (intro quietI [OF effect_kernel_thread [OF wf]]) simp_all
next
  case (Body f a)
  then have "effect k [] (svals k) (lock_holder k) k'"
    using wf e r by (intro effect_same) (auto simp: same_sched_def svals_def)
  then show ?thesis
    by (rule quiet_intr) simp_all
next
  case Exit
  then show ?thesis
    using r pe_ok by (intro quietI [OF effect_thread_exit [OF wf]]) (auto intro: tail_ok_append)
next
  case ExitChildren
  then obtain ws where "effect k ws (svals k) (lock_holder k) k'" "ws = [] \<or> (\<exists>c. ws = [Up (SemaElim c), ExitChildren])"
    using effect_exit_children [OF wf e, of k'] r by auto
  then show ?thesis
    by (auto intro!: quietI)
next
  case ExitTail
  then show ?thesis
    using r by (intro quiet_intr [OF effect_exit_tail [OF wf e i]]) simp_all
next
  case (Sleep n)
  then show ?thesis
    using r by (intro quiet_intr [OF effect_timer_sleep [OF wf e i]]) simp_all
next
  case (SetPriority p)
  then show ?thesis
    using r by (intro quiet_intr [OF effect_set_priority [OF wf]]) simp_all
next
  case (SetNice n)
  then show ?thesis
    using r by (intro quiet_intr [OF effect_set_nice [OF wf e]]) simp_all
next
  case (Ext x)
  then show ?thesis
    using r ext_quiet [OF wf e i] by simp
qed (use w in simp_all)

text \<open>The items that do touch a lock.\<close>

lemma good_stepI:
  assumes "effect k ws val lh k'" and "front_ok (ws @ rest)" and "list_all (item_ok (idle_fn k)) ws"
    and "\<And>l. lock_move (running k) (owns (w # rest) l) (svals k (LockSema l)) (lock_holder k l)
          (owns (ws @ rest) l) (val (LockSema l)) (lh l)"
  shows "good_step k w rest k'"
  using assms unfolding good_step_def by blast

lemma run_down:
  assumes "if svals k s = 0 then effect k [DownLoop s i] (svals k) (lock_holder k) k'
    else effect k [] ((svals k)(s := svals k s - 1)) (lock_holder k) k'"
    and "s = LockSema l" and "rest = SetHolder l # rest'" and "tail_ok rest'" and "w = Down s \<or> w = DownLoop s j"
  shows "good_step k w rest k'"
proof (cases "svals k s = 0")
  case True
  show ?thesis
    by (rule good_stepI [of k "[DownLoop s i]" "svals k" "lock_holder k"])
      (use True assms in \<open>auto simp: lock_move_def front_Cons owns_Cons\<close>)
next
  case False
  show ?thesis
    by (rule good_stepI [of k "[]" "(svals k)(s := svals k s - 1)" "lock_holder k"])
      (use False assms in \<open>auto simp: lock_move_def front_Cons owns_Cons\<close>)
qed

lemma run_work_good:
  assumes wf: "wf_kernel k" and e: "\<not> in_external_intr (irq k)" and i: "running k \<noteq> idle_thread k"
    and w: "front_ok (w # rest)" "item_ok (idle_fn k) w" and r: "run_work pe ext w k = Some k'"
  shows "good_step k w rest k'"
proof (cases "quiet_item w")
  case True
  then have "tail_ok (w # rest)" "lock_down w = None"
    using w by (cases w; auto simp: front_Cons lock_down_other split: if_splits)+
  then show ?thesis
    using run_quiet [OF wf e i True w(2) r] by (intro quiet_good) simp_all
next
  case False
  then consider "is_intr w" | l where "w = SetHolder l" | l where "w = Release l" | l where "w = Down (LockSema l)"
    | l j where "w = DownLoop (LockSema l) j" | l where "w = Up (LockSema l)"
    by (cases w) auto
  then show ?thesis
  proof cases
    case 1
    then have "effect k [] (svals k) (lock_holder k) k'"
      using r effect_set_level [OF wf e] effect_same [OF wf same_sched_irq, of _ "svals k" "lock_holder k"] e
      by (auto simp: is_intr_def svals_def)
    then show ?thesis
      by (rule good_stepI) (use w 1 in \<open>auto simp: lock_move_def front_Cons owns_Cons\<close>)
  next
    case 2
    then have "effect k [] (svals k) ((lock_holder k)(l := running k)) k'"
      using r effect_lock_set_holder [OF wf e] by simp
    then show ?thesis
      by (rule good_stepI) (use w 2 in \<open>auto simp: lock_move_def front_Cons owns_Cons tail_front tail_not_owns\<close>)
  next
    case 3
    then have u: "effect k [Up (LockSema l)] (svals k) ((lock_holder k)(l := 0)) k'" "lock_holder k l = running k"
      using r effect_lock_release [OF wf e] by simp_all
    from u(1) show ?thesis
      by (rule good_stepI) (use w 3 u(2) in \<open>auto simp: lock_move_def front_Cons owns_Cons\<close>)
  next
    case 4
    then obtain rest' where "rest = SetHolder l # rest'" "tail_ok rest'"
      using w(1) by (auto simp: front_Cons split: list.splits)
    then show ?thesis
      using 4 r by (intro run_down [OF effect_sema_down [OF wf e i]]) auto
  next
    case 5
    then obtain rest' where "rest = SetHolder l # rest'" "tail_ok rest'"
      using w(1) by (auto simp: front_Cons split: list.splits)
    then show ?thesis
      using 5 r by (intro run_down [OF effect_sema_down_loop [OF wf e i]]) auto
  next
    case 6
    then obtain ws where u: "effect k ws ((svals k)(LockSema l := svals k (LockSema l) + 1)) (lock_holder k) k'" "list_all is_intr ws"
      using effect_sema_up [OF wf e, of "LockSema l" k'] r by auto
    from u(1) show ?thesis
      by (rule good_stepI) (use w 6 u(2) in \<open>auto simp: lock_move_def front_Cons owns_Cons tail_front tail_not_owns list_all_item_intr\<close>)
  qed
qed

end

section \<open>Preservation\<close>

definition work_ok :: "'w kernel \<Rightarrow> tptr \<Rightarrow> 'w work list \<Rightarrow> bool" where
  "work_ok k t ws \<longleftrightarrow> (if t = idle_thread k then idle_work ws else front_ok ws \<and> list_all (item_ok (idle_fn k)) ws)"

lemma kinv_work: "kinv k \<Longrightarrow> threads k t = Some th \<Longrightarrow> work_ok k t (work th)"
  by (simp add: kinv_def work_ok_def)

text \<open>
  A step from \<open>k0\<close>, which is \<open>k\<close> except that the running thread has the work \<open>rest\<close>.
\<close>

lemma kinv_step:
  assumes inv: "kinv k" and k0: "threads k0 = (threads k)(running k \<mapsto> th0)" "work th0 = rest" "running k0 = running k"
      "idle_thread k0 = idle_thread k" "idle_fn k0 = idle_fn k"
    and e: "effect k0 ws val lh k'" and w: "work_ok k (running k) (ws @ rest)"
    and m: "\<And>l. lock_move (running k) (running k \<in> owners k l) (svals k (LockSema l)) (lock_holder k l)
      (owns (ws @ rest) l) (val (LockSema l)) (lh l)"
  shows "kinv k'"
proof -
  let ?r = "running k"
  have kw: "keeps_work k0 ws k'" and f: "idle_thread k' = idle_thread k" "idle_fn k' = idle_fn k" "lock_holder k' = lh"
      "\<And>s. svals k' s = val s" "wf_kernel k'" "\<not> in_external_intr (irq k')"
    using e k0 by (simp_all add: effect_def svals_def)
  have idle: "idle_thread k \<noteq> 0" and wf: "wf_kernel k"
    using inv by (simp_all add: kinv_def)
  have wft: "wf_threads k" and inv0: "qinv (st k) (queue k) ?r (idle_thread k)"
    using wf by (simp_all add: wf_kernel_def wf_queues_def)
  obtain th where "threads k ?r = Some th"
    using wf by (rule wf_kernel_current)
  then have th: "threads k ?r = Some th" "?r \<noteq> 0"
    using wf_threadsD [OF wft] by simp_all
  have new: "work th' = (if t = ?r then ws @ rest else work u)"
    if "threads k' t = Some th'" "threads k t = Some u" for t th' u
    using kw [unfolded keeps_work_def, rule_format, OF that(1)] that(2) k0 by (auto split: if_splits)
  have fresh: "\<exists>f a. work th' = [Start f a] \<and> f \<noteq> idle_fn k" "t \<noteq> idle_thread k" if "threads k' t = Some th'" "threads k t = None" for t th'
  proof -
    show "\<exists>f a. work th' = [Start f a] \<and> f \<noteq> idle_fn k"
      using kw [unfolded keeps_work_def, rule_format, OF that(1)] that(2) k0 th(1) by (auto split: if_splits)
    have "threads k (idle_thread k) \<noteq> None"
      using qinv_idle [OF inv0 idle] by (simp add: st_None)
    then show "t \<noteq> idle_thread k"
      using that(2) by auto
  qed
  have ok: "work_ok k t (work th')" if t: "threads k' t = Some th'" for t th'
  proof (cases "threads k t")
    case None
    then show ?thesis
      using fresh [OF t None] by (auto simp: work_ok_def front_Cons)
  next
    case (Some u)
    then show ?thesis
      using new [OF t Some] w kinv_work [OF inv Some] by (cases "t = ?r") simp_all
  qed
  have own: "owners k' l \<subseteq> (owners k l - {?r}) \<union> (if owns (ws @ rest) l then {?r} else {})" for l
  proof
    fix t
    assume "t \<in> owners k' l"
    then obtain th' where t: "threads k' t = Some th'" "owns (work th') l"
      by (auto simp: owners_def)
    show "t \<in> (owners k l - {?r}) \<union> (if owns (ws @ rest) l then {?r} else {})"
    proof (cases "threads k t")
      case None
      then show ?thesis
        using fresh(1) [OF t(1) None] t(2) by (auto simp: owns_Cons)
    next
      case (Some u)
      then show ?thesis
        using new [OF t(1) Some] t(2) by (cases "t = ?r") (auto simp: owners_def)
    qed
  qed
  have "lock_state (val (LockSema l)) (lh l) (owners k' l)" for l
    using inv by (intro lock_move_state [OF _ m th(2) own]) (simp add: kinv_def)
  then show ?thesis
    using ok f idle by (simp add: kinv_def work_ok_def)
qed

lemma pop_facts:
  assumes "wf_kernel k" and "threads k (running k) = Some th"
  shows "wf_kernel (pop k)" and "threads (pop k) = (threads k)(running k \<mapsto> th\<lparr>work := tl (work th)\<rparr>)"
    and "running (pop k) = running k" and "idle_thread (pop k) = idle_thread k" and "idle_fn (pop k) = idle_fn k"
    and "irq (pop k) = irq k" and "svals (pop k) = svals k" and "lock_holder (pop k) = lock_holder k"
  using assms wf_set_running_work [OF assms(1)] by (simp_all add: pop_def svals_def fun_eq_iff) (simp_all add: set_running_def)

lemma owners_running: "threads k (running k) = Some th \<Longrightarrow> running k \<in> owners k l \<longleftrightarrow> owns (work th) l"
  by (simp add: owners_def)

text \<open>The idle thread.\<close>

lemma idle_step:
  assumes inv: "kinv k" and th: "threads k (running k) = Some th" "work th = w # ws" and i: "running k = idle_thread k"
    and r: "run_work pe ext w (pop k) = Some k'"
  shows "kinv k'"
proof -
  have wf: "wf_kernel k" and x: "\<not> in_external_intr (irq k)"
    using inv by (simp_all add: kinv_def)
  note p = pop_facts [OF wf th(1)]
  have iw: "idle_work (w # ws)"
    using kinv_work [OF inv th(1)] i th(2) by (simp add: work_ok_def)
  obtain vs where e: "effect (pop k) vs (svals k) (lock_holder k) k'" "idle_work (vs @ ws)"
  proof (cases "is_intr w")
    case True
    then have "effect (pop k) [] (svals k) (lock_holder k) k'"
      using r effect_set_level [OF p(1), of _ k'] effect_same [OF p(1) same_sched_irq, of _ "svals k" "lock_holder k"] x p(5-8)
      by (auto simp: is_intr_def svals_def [symmetric])
    then show thesis
      using that [of "[]"] iw True by (simp add: idle_work_def)
  next
    case False
    then have "w = IdleLoop \<and> ws = [Exit] \<or> w = IdleHalt \<and> ws = [Exit]"
      using iw by (auto simp: idle_work_def)
    then show thesis
      using that r effect_idle_loop [OF p(1), of k'] effect_idle_halt [OF p(1), of k'] x p(6-8) by (auto simp: idle_work_def)
  qed
  show ?thesis
    by (rule kinv_step [OF inv p(2) _ p(3-5) e(1)])
      (use th e(2) i tail_not_owns [OF idle_work_ok [OF e(2)]] in \<open>auto simp: work_ok_def lock_move_def\<close>)
qed

lemma tick_step:
  assumes inv: "kinv k" and t: "external_interrupt timer_handler k 0x20 = Some k'"
  shows "kinv k'"
proof -
  have wf: "wf_kernel k" and x: "\<not> in_external_intr (irq k)"
    using inv by (simp_all add: kinv_def)
  obtain th where th: "threads k (running k) = Some th"
    using wf by (rule wf_kernel_current)
  obtain ws where e: "effect k ws (svals k) (lock_holder k) k'" "list_all is_intr ws"
    by (rule effect_tick [OF wf x t])
  have same: "threads k = (threads k)(running k \<mapsto> th)"
    using th by auto
  show ?thesis
    by (rule kinv_step [OF inv same _ _ _ _ e(1)])
      (use kinv_work [OF inv th] e(2) owners_running [OF th] list_all_item_intr in \<open>auto simp: work_ok_def lock_move_def\<close>)
qed

lemma api_facts:
  assumes "api k c" and "tail_ok rest"
  shows "front_ok (c # rest)" and "item_ok (idle_fn k) c" and "\<not> owns (c # rest) l"
  using assms by (cases c; auto simp: front_Cons owns_Cons lock_down_other)+

context work_ext
begin

lemma good_kinv:
  assumes inv: "kinv k" and th: "threads k (running k) = Some th" and i: "running k \<noteq> idle_thread k"
    and k0: "threads k0 = (threads k)(running k \<mapsto> th0)" "work th0 = rest" "running k0 = running k"
      "idle_thread k0 = idle_thread k" "idle_fn k0 = idle_fn k" "svals k0 = svals k" "lock_holder k0 = lock_holder k"
    and o: "\<And>l. owns (w # rest) l = owns (work th) l" and rest: "list_all (item_ok (idle_fn k)) rest"
    and g: "good_step k0 w rest k'"
  shows "kinv k'"
proof -
  obtain ws val lh where e: "effect k0 ws val lh k'" "front_ok (ws @ rest)" "list_all (item_ok (idle_fn k)) ws"
      "\<And>l. lock_move (running k) (owns (w # rest) l) (svals k (LockSema l)) (lock_holder k l) (owns (ws @ rest) l) (val (LockSema l)) (lh l)"
    using g k0 unfolding good_step_def by auto
  show ?thesis
    by (rule kinv_step [OF inv k0(1-5) e(1)]) (use e i rest o owners_running [OF th] in \<open>auto simp: work_ok_def\<close>)
qed

lemma kstep_kinv:
  assumes s: "kstep pe ext k k'" and inv: "kinv k"
  shows "kinv k'"
proof -
  have wf: "wf_kernel k" and x: "\<not> in_external_intr (irq k)"
    using inv by (simp_all add: kinv_def)
  from s show ?thesis
  proof cases
    case (work th w ws)
    note p = pop_facts [OF wf work(1)]
    show ?thesis
    proof (cases "running k = idle_thread k")
      case True
      then show ?thesis
        using idle_step [OF inv work(1,2) _ work(3)] by simp
    next
      case False
      then have ok: "front_ok (w # ws)" "item_ok (idle_fn k) w" "list_all (item_ok (idle_fn k)) ws"
        using kinv_work [OF inv work(1)] work(2) by (simp_all add: work_ok_def)
      have "good_step (pop k) w ws k'"
        by (rule run_work_good [OF p(1) _ _ ok(1) _ work(3)]) (use x False ok p in simp_all)
      then show ?thesis
        by (intro good_kinv [OF inv work(1) False p(2)]) (use work(2) ok p in simp_all)
    qed
  next
    case (call th f a ws c)
    have i: "running k \<noteq> idle_thread k"
      using kinv_work [OF inv call(1)] call(2) by (auto simp: work_ok_def idle_work_def)
    then have ok: "tail_ok (work th)" "list_all (item_ok (idle_fn k)) (work th)"
      using kinv_work [OF inv call(1)] call(2) by (simp_all add: work_ok_def front_Cons)
    note a = api_facts [OF call(3) ok(1)]
    have "good_step k c (work th) k'"
      by (rule run_work_good [OF wf x i a(1,2) call(4)])
    moreover have "threads k = (threads k)(running k \<mapsto> th)"
      using call(1) by auto
    ultimately show ?thesis
      by (intro good_kinv [OF inv call(1) i]) (use a(3) ok tail_not_owns [OF ok(1)] in simp_all)
  next
    case tick
    then show ?thesis
      using tick_step [OF inv] by simp
  qed
qed

lemma reachable_kinv: "(kstep pe ext)\<^sup>*\<^sup>* k k' \<Longrightarrow> kinv k \<Longrightarrow> kinv k'"
  by (induction rule: rtranclp_induct) (auto intro: kstep_kinv)

end

section \<open>The kernel without user programs\<close>

text \<open>
  In the kernel that is built without \<open>USERPROG\<close> a thread that exits does not call
  \<open>process_exit\<close>, and there are no items of other components.
\<close>

definition no_ext :: "unit \<Rightarrow> unit kernel \<Rightarrow> unit kernel option" where
  "no_ext x k = None"

abbreviation tstep :: "unit kernel \<Rightarrow> unit kernel \<Rightarrow> bool" where
  "tstep \<equiv> kstep [] no_ext"

interpretation tk: work_ext "[]" no_ext
  by unfold_locales (simp_all add: no_ext_def)

text \<open>The threads inside the critical section of a lock: the holder, and one about to become it or just not it any more.\<close>

definition in_section :: "'w kernel \<Rightarrow> u32 \<Rightarrow> tptr \<Rightarrow> bool" where
  "in_section k l t \<longleftrightarrow> t \<noteq> 0 \<and> lock_holder k l = t \<or> t \<in> owners k l"

text \<open>
  C1: mutual exclusion.  In every state that the kernel reaches from a consistent state,
  whatever the threads call and whenever the timer interrupts, at most one thread is in the
  critical section of a lock, and while one is there the semaphore of the lock is down.
\<close>

theorem mutual_exclusion:
  assumes "kinv k" and "tstep\<^sup>*\<^sup>* k k'" and "in_section k' l t"
  shows "svals k' (LockSema l) = 0 \<and> (in_section k' l u \<longrightarrow> u = t)"
proof -
  have s: "lock_state (svals k' (LockSema l)) (lock_holder k' l) (owners k' l)"
    using tk.reachable_kinv [OF assms(2,1)] by (simp add: kinv_def)
  then show ?thesis
    using assms(3) by (auto simp: lock_state_def in_section_def)
qed

text \<open>
  C2: the scheduler in every reachable state.  Exactly one thread is running, the ready list
  holds each thread that is ready once and nothing else, the idle thread is in no queue, and
  a thread in a queue of sleeping or waiting threads is blocked and in that queue only.
\<close>

theorem scheduler_reachable:
  assumes "kinv k" and "tstep\<^sup>*\<^sup>* k k'"
  shows "(st k' t = Some THREAD_RUNNING \<longleftrightarrow> t = running k') \<and> distinct (ready_list k')
    \<and> set (ready_list k') = {t. st k' t = Some THREAD_READY \<and> t \<noteq> idle_thread k'}
    \<and> (t \<in> set (sleeping_list k') \<longrightarrow> st k' t = Some THREAD_BLOCKED \<and> t \<noteq> idle_thread k' \<and> (\<forall>s. t \<notin> set (waiters (semas k' s))))
    \<and> (t \<in> set (waiters (semas k' s)) \<longrightarrow> st k' t = Some THREAD_BLOCKED \<and> t \<noteq> idle_thread k' \<and> (\<forall>s'. t \<in> set (waiters (semas k' s')) \<longrightarrow> s' = s))"
proof -
  have inv: "qinv (st k') (queue k') (running k') (idle_thread k')" and r: "st k' (running k') = Some THREAD_RUNNING"
    using tk.reachable_kinv [OF assms(2,1)] by (simp_all add: kinv_def wf_kernel_def wf_queues_def)
  have a: "st k' t = Some THREAD_RUNNING \<longleftrightarrow> t = running k'"
    using qinv_running [OF inv] r by blast
  have b: "distinct (ready_list k')" "set (ready_list k') = {t. st k' t = Some THREAD_READY \<and> t \<noteq> idle_thread k'}"
    using qinv_distinct [OF inv, of Ready] qinv_ready [OF inv] qinv_status [OF inv, of _ Ready] qinv_not_idle [OF inv, of _ Ready] by auto
  have c: "st k' t = Some THREAD_BLOCKED \<and> t \<noteq> idle_thread k'" if "t \<in> set (queue k' q)" "q \<noteq> Ready" for q
    using qinv_status [OF inv that(1)] qinv_not_idle [OF inv that(1)] that(2) by (cases q) auto
  have d: "t \<in> set (sleeping_list k') \<Longrightarrow> t \<notin> set (waiters (semas k' s))" for s
    using qinv_unique [OF inv, of t Sleeping "Waiters s"] by auto
  have e: "t \<in> set (waiters (semas k' s)) \<Longrightarrow> t \<in> set (waiters (semas k' s')) \<Longrightarrow> s' = s" for s s'
    using qinv_unique [OF inv, of t "Waiters s" "Waiters s'"] by auto
  show ?thesis
    using a b c [of Sleeping] c [of "Waiters s"] d e [of s] by auto
qed

section \<open>A sample run\<close>

definition sample_threads :: "unit kernel" where
  "sample_threads = sample_kernel\<lparr>userprog := False\<rparr>"

lemma sample_kinv: "kinv sample_threads"
proof -
  have wf: "wf_kernel sample_threads"
    using sample_wf_kernel same_schedD(5) [of sample_threads sample_kernel] by (simp add: same_sched_def sample_threads_def)
  have w: "idle_work (work th)" if "threads sample_threads 0xC0100000 = Some th" for th
    using that by (auto simp: sample_threads_def sample_kernel_def sample_thread_def idle_work_def)
  have n: "tail_ok (work th) \<and> list_all (item_ok 0xc0020000) (work th)" if "threads sample_threads t = Some th" "t \<noteq> 0xC0100000" for t th
    using that by (auto simp: sample_threads_def sample_kernel_def sample_thread_def split: if_splits)
  have o: "owners sample_threads l = {}" for l
    using n w tail_not_owns idle_work_ok unfolding owners_def by blast
  have f: "idle_thread sample_threads = 0xC0100000" "idle_fn sample_threads = 0xc0020000" "\<not> in_external_intr (irq sample_threads)"
      "svals sample_threads s = 1" "lock_holder sample_threads l = 0" for s l
    by (simp_all add: svals_def sample_threads_def sample_kernel_def sample_irq_def)
  have "front_ok (work th) \<and> list_all (item_ok 0xc0020000) (work th)" if "threads sample_threads t = Some th" "t \<noteq> 0xC0100000" for t th
    using n [OF that] tail_front by blast
  then show ?thesis
    unfolding kinv_def o f using wf w f(3) by (simp add: lock_state_def)
qed

text \<open>The running thread acquires a lock.\<close>

lemma sample_acquires: "\<exists>k'. tstep\<^sup>*\<^sup>* sample_threads k' \<and> in_section k' 5 0xC000E000"
proof -
  let ?k = sample_threads
  let ?th = "sample_thread THREAD_RUNNING 31 0"
  let ?k1 = "?k\<lparr>threads := (threads ?k)(0xC000E000 \<mapsto> ?th [Down (LockSema 5), SetHolder 5, Body 0 0])\<rparr>"
  let ?k2 = "?k\<lparr>threads := (threads ?k)(0xC000E000 \<mapsto> ?th [SetHolder 5, Body 0 0]),
      semas := (semas ?k)(LockSema 5 := \<lparr>sema_value = 0, waiters = []\<rparr>)\<rparr>"
  note defs = sample_threads_def sample_kernel_def sample_thread_def sample_irq_def
  have "tstep ?k ?k1"
    by (rule kstep.call [of _ "?th [Body 0 0]" 0 0 "[]" "Acquire 5"])
      (simp_all add: lock_acquire_def lock_held_by_current_thread_def thread_current_def running_thread_def is_thread_def
        intr_context_def push_def upd_thread_def defs THREAD_MAGIC_def)
  moreover have "tstep ?k1 ?k2"
    by (rule kstep.work [of _ "?th [Down (LockSema 5), SetHolder 5, Body 0 0]" "Down (LockSema 5)" "[SetHolder 5, Body 0 0]"])
      (simp_all add: sema_down_def sema_down_loop_def set_sema_def pop_def set_running_def k_disable_eq k_set_level_def intr_set_level_def
        intr_enable_def intr_context_def intr_get_level_def defs fun_upd_twist)
  moreover have "in_section ?k2 5 0xC000E000"
    by (simp add: in_section_def owners_def owns_Cons defs)
  ultimately show ?thesis
    by (meson converse_rtranclp_into_rtranclp rtranclp.rtrancl_refl)
qed

theorem mutual_exclusion_witness: "\<exists>k'. tstep\<^sup>*\<^sup>* sample_threads k' \<and> in_section k' 5 0xC000E000 \<and> svals k' (LockSema 5) = 0
  \<and> \<not> in_section k' 5 0xC0102000"
  using mutual_exclusion [OF sample_kinv, of _ 5 "0xC000E000" "0xC0102000"] sample_acquires by fastforce

theorem scheduler_reachable_witness: "\<exists>k'. tstep\<^sup>*\<^sup>* sample_threads k' \<and> in_section k' 5 0xC000E000 \<and> distinct (ready_list k')
  \<and> (st k' 0xC0102000 = Some THREAD_RUNNING \<longleftrightarrow> 0xC0102000 = running k')"
  using scheduler_reachable [OF sample_kinv, of _ "0xC0102000"] sample_acquires by blast

end
