(* ===== verification/Block.thy ===== *)
theory Block
  imports Kstring_Correct
begin

text \<open>
  Block devices, \<open>devices/block.c\<close>: the table of devices with their roles, and reading and
  writing sectors.  A device is what its driver makes of it: the sectors last written.  The
  pointer that \<open>malloc\<close> returns is an argument of the operation that allocates.
\<close>

section \<open>Devices\<close>

definition BLOCK_SECTOR_SIZE :: nat where "BLOCK_SECTOR_SIZE = 512"

datatype block_type =
    BLOCK_KERNEL | BLOCK_FILESYS | BLOCK_SCRATCH | BLOCK_SWAP | BLOCK_RAW | BLOCK_FOREIGN

text \<open>The values of the enumeration; the first four are the roles.\<close>

fun block_type_no :: "block_type \<Rightarrow> nat" where
  "block_type_no BLOCK_KERNEL = 0"
| "block_type_no BLOCK_FILESYS = 1"
| "block_type_no BLOCK_SCRATCH = 2"
| "block_type_no BLOCK_SWAP = 3"
| "block_type_no BLOCK_RAW = 4"
| "block_type_no BLOCK_FOREIGN = 5"

definition BLOCK_ROLE_CNT :: nat where "BLOCK_ROLE_CNT = 4"

record block_dev =
  bname :: "u8 list"
  btype :: block_type
  bsize :: u32
  read_cnt :: u64
  write_cnt :: u64
  sectors :: "u32 \<Rightarrow> u8 list"

record block_table =
  blocks :: "u32 \<Rightarrow> block_dev option"
  all_blocks :: "u32 list"
  block_by_role :: "u32 list"

definition block_type_name :: "block_type \<Rightarrow> string" where
  "block_type_name type = [''kernel'', ''filesys'', ''scratch'', ''swap'', ''raw'', ''foreign''] ! block_type_no type"

definition block_get_role :: "block_table \<Rightarrow> block_type \<Rightarrow> u32 option" where
  "block_get_role b role = do {
     ASSERT (block_type_no role < BLOCK_ROLE_CNT);
     Some (block_by_role b ! block_type_no role)
   }"

definition block_set_role :: "block_table \<Rightarrow> block_type \<Rightarrow> u32 \<Rightarrow> block_table option" where
  "block_set_role b role blk = do {
     ASSERT (block_type_no role < BLOCK_ROLE_CNT);
     Some (b\<lparr>block_by_role := (block_by_role b)[block_type_no role := blk]\<rparr>)
   }"

text \<open>The null pointer stands for the end of the list.\<close>

definition block_first :: "block_table \<Rightarrow> u32" where
  "block_first b = (case all_blocks b of [] \<Rightarrow> 0 | p # _ \<Rightarrow> p)"

fun block_next_in :: "u32 list \<Rightarrow> u32 \<Rightarrow> u32 option" where
  "block_next_in [] p = None"
| "block_next_in (q # qs) p = (if q = p then Some (case qs of [] \<Rightarrow> 0 | r # _ \<Rightarrow> r) else block_next_in qs p)"

definition block_next :: "block_table \<Rightarrow> u32 \<Rightarrow> u32 option" where
  "block_next b p = block_next_in (all_blocks b) p"

fun find_by_name :: "block_table \<Rightarrow> u8 list \<Rightarrow> u32 list \<Rightarrow> u32 option" where
  "find_by_name b nm [] = Some 0"
| "find_by_name b nm (p # ps) = do { d \<leftarrow> blocks b p; if bname d = nm then Some p else find_by_name b nm ps }"

definition block_get_by_name :: "block_table \<Rightarrow> u8 list \<Rightarrow> u32 option" where
  "block_get_by_name b nm = find_by_name b nm (all_blocks b)"

definition check_sector :: "block_dev \<Rightarrow> u32 \<Rightarrow> unit option" where
  "check_sector d sector = (if sector \<ge> bsize d then None else Some ())"

definition block_read :: "block_dev \<Rightarrow> u32 \<Rightarrow> (u8 list \<times> block_dev) option" where
  "block_read d sector = do {
     check_sector d sector;
     Some (sectors d sector, d\<lparr>read_cnt := read_cnt d + 1\<rparr>)
   }"

definition block_write :: "block_dev \<Rightarrow> u32 \<Rightarrow> u8 list \<Rightarrow> block_dev option" where
  "block_write d sector buffer = do {
     check_sector d sector;
     ASSERT (btype d \<noteq> BLOCK_FOREIGN);
     Some (d\<lparr>sectors := (sectors d)(sector := buffer), write_cnt := write_cnt d + 1\<rparr>)
   }"

definition block_size :: "block_dev \<Rightarrow> u32" where
  "block_size d = bsize d"

definition block_name :: "block_dev \<Rightarrow> u8 list" where
  "block_name d = bname d"

definition block_type_of :: "block_dev \<Rightarrow> block_type" where
  "block_type_of d = btype d"

text \<open>The name is cut to fit its 16 bytes; \<open>disk\<close> is what the driver finds on the device.\<close>

definition block_register ::
    "block_table \<Rightarrow> u32 \<Rightarrow> u8 list \<Rightarrow> block_type \<Rightarrow> u32 \<Rightarrow> (u32 \<Rightarrow> u8 list) \<Rightarrow> (u32 \<times> block_table) option" where
  "block_register b p nm type sz disk = do {
     ASSERT (p \<noteq> 0);
     Some (p, b\<lparr>all_blocks := all_blocks b @ [p],
       blocks := (blocks b)(p \<mapsto> \<lparr>bname = take 15 nm, btype = type, bsize = sz, read_cnt = 0, write_cnt = 0, sectors = disk\<rparr>)\<rparr>)
   }"

section \<open>Sectors\<close>

text \<open>Every sector holds 512 bytes.\<close>

definition wf_block :: "block_dev \<Rightarrow> bool" where
  "wf_block d \<longleftrightarrow> (\<forall>s. length (sectors d s) = BLOCK_SECTOR_SIZE) \<and> btype d \<noteq> BLOCK_FOREIGN"

lemma block_read_ok: "s < bsize d \<Longrightarrow> block_read d s = Some (sectors d s, d\<lparr>read_cnt := read_cnt d + 1\<rparr>)"
  by (simp add: block_read_def check_sector_def)

lemma block_write_ok:
  "wf_block d \<Longrightarrow> s < bsize d \<Longrightarrow>
    block_write d s bs = Some (d\<lparr>sectors := (sectors d)(s := bs), write_cnt := write_cnt d + 1\<rparr>)"
  by (simp add: block_write_def check_sector_def wf_block_def)

lemma wf_block_write: "wf_block d \<Longrightarrow> length bs = BLOCK_SECTOR_SIZE \<Longrightarrow> wf_block (d\<lparr>sectors := (sectors d)(s := bs), write_cnt := c\<rparr>)"
  by (simp add: wf_block_def)

lemma wf_block_read [simp]: "wf_block (d\<lparr>read_cnt := c\<rparr>) = wf_block d"
  by (simp add: wf_block_def)

text \<open>A device that was registered is found by its name, unless an earlier one has the same name.\<close>

lemma find_by_name_append:
  "\<forall>p \<in> set ps. \<exists>d. blocks b p = Some d \<and> bname d \<noteq> nm \<Longrightarrow> find_by_name b nm (ps @ qs) = find_by_name b nm qs"
  by (induction ps) auto

end
