(* ===== verification/Inode.thy ===== *)
theory Inode
  imports Block Range_Alloc
begin

text \<open>
  Inodes and open files: \<open>filesys/inode.c\<close>, \<open>filesys/file.c\<close>, \<open>filesys/free-map.c\<close> and the
  file input and output of \<open>lib/kernel/bitmap.c\<close>.  A buffer is the sequence of its bytes.  An
  offset is the integer that an \<open>off_t\<close> holds, \<open>s32\<close> writes out the 32-bit result where it
  could leave the range.  Pointers to inodes and files are addresses; what \<open>malloc\<close> returns is
  an argument: the address for a new object, and whether the bounce buffer can be had.
\<close>

section \<open>Data\<close>

definition s32 :: "int \<Rightarrow> int" where
  "s32 x = sint (word_of_int x :: u32)"

lemma s32_id [simp]: "- (2 ^ 31) \<le> x \<Longrightarrow> x < 2 ^ 31 \<Longrightarrow> s32 x = x"
  by (simp add: s32_def signed_of_int signed_take_bit_int_eq_self)

definition INODE_MAGIC :: u32 where "INODE_MAGIC = 0x494e4f44"
definition FREE_MAP_SECTOR :: u32 where "FREE_MAP_SECTOR = 0"
definition ROOT_DIR_SECTOR :: u32 where "ROOT_DIR_SECTOR = 1"

record inode_disk =
  start :: u32
  dlength :: u32
  dmagic :: u32

record inode =
  sector :: u32
  open_cnt :: int
  removed :: bool
  deny_write_cnt :: int
  idata :: inode_disk

record open_file =
  file_inode :: u32
  file_pos :: int
  file_deny :: bool

record filesys =
  fs_device :: block_dev
  inodes :: "u32 \<Rightarrow> inode option"
  open_inodes :: "u32 list"
  files :: "u32 \<Rightarrow> open_file option"
  free_map :: bitmap
  free_map_file :: u32

text \<open>Words in memory, lowest byte first, and the sector of an inode.\<close>

definition le32 :: "u32 \<Rightarrow> u8 list" where
  "le32 w = [ucast w, ucast (drop_bit 8 w), ucast (drop_bit 16 w), ucast (drop_bit 24 w)]"

definition get32 :: "u8 list \<Rightarrow> u32" where
  "get32 bs = ucast (bs ! 0) OR push_bit 8 (ucast (bs ! 1)) OR push_bit 16 (ucast (bs ! 2)) OR push_bit 24 (ucast (bs ! 3))"

definition put_inode :: "inode_disk \<Rightarrow> u8 list" where
  "put_inode d = le32 (start d) @ le32 (dlength d) @ le32 (dmagic d) @ replicate 500 0"

definition get_inode :: "u8 list \<Rightarrow> inode_disk" where
  "get_inode bs = \<lparr>start = get32 bs, dlength = get32 (drop 4 bs), dmagic = get32 (drop 8 bs)\<rparr>"

definition zeros :: "u8 list" where
  "zeros = replicate BLOCK_SECTOR_SIZE 0"

section \<open>Reading and writing\<close>

definition bytes_to_sectors :: "int \<Rightarrow> nat" where
  "bytes_to_sectors sz = nat (s32 (sz + 511) sdiv 512 mod 2 ^ 32)"

definition inode_length :: "inode \<Rightarrow> int" where
  "inode_length ino = sint (dlength (idata ino))"

definition byte_to_sector :: "inode \<Rightarrow> int \<Rightarrow> u32" where
  "byte_to_sector ino pos = (if pos < inode_length ino then start (idata ino) + word_of_int (pos sdiv 512) else - 1)"

text \<open>The bytes of a buffer in a range; outside of the buffer there is nothing to be read.\<close>

definition slice :: "u8 list \<Rightarrow> int \<Rightarrow> int \<Rightarrow> u8 list option" where
  "slice bs i n = (if 0 \<le> i \<and> 0 \<le> n \<and> i + n \<le> int (length bs) then Some (take (nat n) (drop (nat i) bs)) else None)"

definition overwrite :: "u8 list \<Rightarrow> int \<Rightarrow> u8 list \<Rightarrow> u8 list option" where
  "overwrite bs i new = (if 0 \<le> i \<and> i + int (length new) \<le> int (length bs)
     then Some (take (nat i) bs @ new @ drop (nat i + length new) bs) else None)"

text \<open>The number of bytes for the next sector.\<close>

definition chunk :: "inode \<Rightarrow> int \<Rightarrow> int \<Rightarrow> int" where
  "chunk ino sz offset = (let
     sector_ofs = offset smod 512;
     inode_left = s32 (inode_length ino - offset);
     sector_left = 512 - sector_ofs;
     min_left = (if inode_left < sector_left then inode_left else sector_left)
   in if sz < min_left then sz else min_left)"

function inode_read_loop :: "block_dev \<Rightarrow> inode \<Rightarrow> bool \<Rightarrow> int \<Rightarrow> int \<Rightarrow> u8 list \<Rightarrow> (u8 list \<times> block_dev) option" where
  "inode_read_loop dev ino mok sz offset acc =
     (let chunk_size = chunk ino sz offset; sector_idx = byte_to_sector ino offset; sector_ofs = offset smod 512 in
      if sz \<le> 0 \<or> chunk_size \<le> 0 then Some (acc, dev)
      else if sector_ofs = 0 \<and> chunk_size = 512 then
        (case block_read dev sector_idx of None \<Rightarrow> None
         | Some (bs, dev) \<Rightarrow> inode_read_loop dev ino mok (sz - chunk_size) (offset + chunk_size) (acc @ bs))
      else if \<not> mok then Some (acc, dev)
      else
        (case block_read dev sector_idx of None \<Rightarrow> None
         | Some (bounce, dev) \<Rightarrow>
            (case slice bounce sector_ofs chunk_size of None \<Rightarrow> None
             | Some part \<Rightarrow> inode_read_loop dev ino mok (sz - chunk_size) (offset + chunk_size) (acc @ part))))"
  by pat_completeness auto
termination
  by (relation "measure (\<lambda>(dev, ino, mok, sz, offset, acc). nat sz)") auto

declare inode_read_loop.simps [simp del]

text \<open>The bytes read; their number is the value returned.\<close>

definition inode_read_at :: "filesys \<Rightarrow> u32 \<Rightarrow> bool \<Rightarrow> int \<Rightarrow> int \<Rightarrow> (u8 list \<times> filesys) option" where
  "inode_read_at fs p mok sz offset = do {
     ino \<leftarrow> inodes fs p;
     (bs, dev) \<leftarrow> inode_read_loop (fs_device fs) ino mok sz offset [];
     Some (bs, fs\<lparr>fs_device := dev\<rparr>)
   }"

function inode_write_loop :: "block_dev \<Rightarrow> inode \<Rightarrow> bool \<Rightarrow> u8 list \<Rightarrow> int \<Rightarrow> int \<Rightarrow> int \<Rightarrow> (int \<times> block_dev) option" where
  "inode_write_loop dev ino mok buffer sz offset bytes_written =
     (let chunk_size = chunk ino sz offset; sector_idx = byte_to_sector ino offset; sector_ofs = offset smod 512 in
      if sz \<le> 0 \<or> chunk_size \<le> 0 then Some (bytes_written, dev)
      else (case slice buffer bytes_written chunk_size of None \<Rightarrow> None
        | Some part \<Rightarrow>
          if sector_ofs = 0 \<and> chunk_size = 512 then
            (case block_write dev sector_idx part of None \<Rightarrow> None
             | Some dev \<Rightarrow> inode_write_loop dev ino mok buffer (sz - chunk_size) (offset + chunk_size) (bytes_written + chunk_size))
          else if \<not> mok then Some (bytes_written, dev)
          else
            (case (if sector_ofs > 0 \<or> chunk_size < 512 - sector_ofs then block_read dev sector_idx else Some (zeros, dev)) of
               None \<Rightarrow> None
             | Some (bounce, dev) \<Rightarrow>
                (case overwrite bounce sector_ofs part of None \<Rightarrow> None
                 | Some bounce \<Rightarrow>
                    (case block_write dev sector_idx bounce of None \<Rightarrow> None
                     | Some dev \<Rightarrow>
                        inode_write_loop dev ino mok buffer (sz - chunk_size) (offset + chunk_size) (bytes_written + chunk_size))))))"
  by pat_completeness auto
termination
  by (relation "measure (\<lambda>(dev, ino, mok, buffer, sz, offset, n). nat sz)") auto

declare inode_write_loop.simps [simp del]

definition inode_write_at :: "filesys \<Rightarrow> u32 \<Rightarrow> bool \<Rightarrow> u8 list \<Rightarrow> int \<Rightarrow> int \<Rightarrow> (int \<times> filesys) option" where
  "inode_write_at fs p mok buffer sz offset = do {
     ino \<leftarrow> inodes fs p;
     if deny_write_cnt ino \<noteq> 0 then Some (0, fs)
     else do {
       (n, dev) \<leftarrow> inode_write_loop (fs_device fs) ino mok buffer sz offset 0;
       Some (n, fs\<lparr>fs_device := dev\<rparr>)
     }
   }"

definition upd_inode :: "filesys \<Rightarrow> u32 \<Rightarrow> (inode \<Rightarrow> inode) \<Rightarrow> filesys option" where
  "upd_inode fs p f = (case inodes fs p of None \<Rightarrow> None | Some ino \<Rightarrow> Some (fs\<lparr>inodes := (inodes fs)(p \<mapsto> f ino)\<rparr>))"

definition inode_deny_write :: "filesys \<Rightarrow> u32 \<Rightarrow> filesys option" where
  "inode_deny_write fs p = do {
     fs \<leftarrow> upd_inode fs p (\<lambda>ino. ino\<lparr>deny_write_cnt := deny_write_cnt ino + 1\<rparr>);
     ino \<leftarrow> inodes fs p;
     ASSERT (deny_write_cnt ino \<le> open_cnt ino);
     Some fs
   }"

definition inode_allow_write :: "filesys \<Rightarrow> u32 \<Rightarrow> filesys option" where
  "inode_allow_write fs p = do {
     ino \<leftarrow> inodes fs p;
     ASSERT (deny_write_cnt ino > 0);
     ASSERT (deny_write_cnt ino \<le> open_cnt ino);
     upd_inode fs p (\<lambda>ino. ino\<lparr>deny_write_cnt := deny_write_cnt ino - 1\<rparr>)
   }"

section \<open>Open files\<close>

definition upd_file :: "filesys \<Rightarrow> u32 \<Rightarrow> (open_file \<Rightarrow> open_file) \<Rightarrow> filesys option" where
  "upd_file fs f g = (case files fs f of None \<Rightarrow> None | Some fl \<Rightarrow> Some (fs\<lparr>files := (files fs)(f \<mapsto> g fl)\<rparr>))"

definition file_get_inode :: "filesys \<Rightarrow> u32 \<Rightarrow> u32 option" where
  "file_get_inode fs f = do { fl \<leftarrow> files fs f; Some (file_inode fl) }"

definition file_read :: "filesys \<Rightarrow> u32 \<Rightarrow> bool \<Rightarrow> int \<Rightarrow> (u8 list \<times> filesys) option" where
  "file_read fs f mok sz = do {
     fl \<leftarrow> files fs f;
     (bs, fs) \<leftarrow> inode_read_at fs (file_inode fl) mok sz (file_pos fl);
     fs \<leftarrow> upd_file fs f (\<lambda>fl. fl\<lparr>file_pos := file_pos fl + int (length bs)\<rparr>);
     Some (bs, fs)
   }"

definition file_read_at :: "filesys \<Rightarrow> u32 \<Rightarrow> bool \<Rightarrow> int \<Rightarrow> int \<Rightarrow> (u8 list \<times> filesys) option" where
  "file_read_at fs f mok sz ofs = do { fl \<leftarrow> files fs f; inode_read_at fs (file_inode fl) mok sz ofs }"

definition file_write :: "filesys \<Rightarrow> u32 \<Rightarrow> bool \<Rightarrow> u8 list \<Rightarrow> int \<Rightarrow> (int \<times> filesys) option" where
  "file_write fs f mok buffer sz = do {
     fl \<leftarrow> files fs f;
     (n, fs) \<leftarrow> inode_write_at fs (file_inode fl) mok buffer sz (file_pos fl);
     fs \<leftarrow> upd_file fs f (\<lambda>fl. fl\<lparr>file_pos := file_pos fl + n\<rparr>);
     Some (n, fs)
   }"

definition file_write_at :: "filesys \<Rightarrow> u32 \<Rightarrow> bool \<Rightarrow> u8 list \<Rightarrow> int \<Rightarrow> int \<Rightarrow> (int \<times> filesys) option" where
  "file_write_at fs f mok buffer sz ofs = do { fl \<leftarrow> files fs f; inode_write_at fs (file_inode fl) mok buffer sz ofs }"

definition file_deny_write :: "filesys \<Rightarrow> u32 \<Rightarrow> filesys option" where
  "file_deny_write fs f = do {
     ASSERT (f \<noteq> 0);
     fl \<leftarrow> files fs f;
     if \<not> file_deny fl
     then do { fs \<leftarrow> upd_file fs f (\<lambda>fl. fl\<lparr>file_deny := True\<rparr>); inode_deny_write fs (file_inode fl) }
     else Some fs
   }"

definition file_allow_write :: "filesys \<Rightarrow> u32 \<Rightarrow> filesys option" where
  "file_allow_write fs f = do {
     ASSERT (f \<noteq> 0);
     fl \<leftarrow> files fs f;
     if file_deny fl
     then do { fs \<leftarrow> upd_file fs f (\<lambda>fl. fl\<lparr>file_deny := False\<rparr>); inode_allow_write fs (file_inode fl) }
     else Some fs
   }"

definition file_length :: "filesys \<Rightarrow> u32 \<Rightarrow> int option" where
  "file_length fs f = do {
     ASSERT (f \<noteq> 0);
     fl \<leftarrow> files fs f;
     ino \<leftarrow> inodes fs (file_inode fl);
     Some (inode_length ino)
   }"

definition file_seek :: "filesys \<Rightarrow> u32 \<Rightarrow> int \<Rightarrow> filesys option" where
  "file_seek fs f new_pos = do {
     ASSERT (f \<noteq> 0);
     ASSERT (new_pos \<ge> 0);
     upd_file fs f (\<lambda>fl. fl\<lparr>file_pos := new_pos\<rparr>)
   }"

definition file_tell :: "filesys \<Rightarrow> u32 \<Rightarrow> int option" where
  "file_tell fs f = do { ASSERT (f \<noteq> 0); fl \<leftarrow> files fs f; Some (file_pos fl) }"

section \<open>The free map\<close>

definition bitmap_write :: "filesys \<Rightarrow> bool \<Rightarrow> bitmap \<Rightarrow> u32 \<Rightarrow> (bool \<times> filesys) option" where
  "bitmap_write fs mok b f = do {
     let sz = int (byte_cnt (bit_cnt b));
     (n, fs) \<leftarrow> file_write_at fs f mok (concat (map le32 (bm_bits b))) sz 0;
     Some (n = sz, fs)
   }"

text \<open>The elements read from a buffer of bytes, over the old ones where the buffer is too short.\<close>

fun read_elems :: "u8 list \<Rightarrow> u32 list \<Rightarrow> u32 list" where
  "read_elems bs [] = []"
| "read_elems bs (w # ws) = get32 (take 4 bs @ drop (length (take 4 bs)) (le32 w)) # read_elems (drop 4 bs) ws"

definition bitmap_read :: "filesys \<Rightarrow> bool \<Rightarrow> bitmap \<Rightarrow> u32 \<Rightarrow> (bool \<times> bitmap \<times> filesys) option" where
  "bitmap_read fs mok b f =
     (if bit_cnt b > 0
      then do {
        let sz = int (byte_cnt (bit_cnt b));
        (bs, fs) \<leftarrow> file_read_at fs f mok sz 0;
        let ws = read_elems bs (bm_bits b);
        let i = elem_cnt (bit_cnt b) - 1;
        ASSERT (i < length ws);
        Some (int (length bs) = sz, b\<lparr>bm_bits := ws[i := ws ! i AND last_mask b]\<rparr>, fs)
      }
      else Some (True, b, fs))"

text \<open>\<open>bm\<close> is the bitmap that \<open>bitmap_create\<close> makes, or nothing.\<close>

definition free_map_init :: "filesys \<Rightarrow> bitmap option \<Rightarrow> filesys option" where
  "free_map_init fs bm = do {
     b \<leftarrow> bm;
     b \<leftarrow> bitmap_mark b (unat FREE_MAP_SECTOR);
     b \<leftarrow> bitmap_mark b (unat ROOT_DIR_SECTOR);
     Some (fs\<lparr>free_map := b\<rparr>)
   }"

definition free_map_allocate :: "filesys \<Rightarrow> bool \<Rightarrow> nat \<Rightarrow> (u32 option \<times> filesys) option" where
  "free_map_allocate fs mok cnt = do {
     (sec, b) \<leftarrow> bitmap_scan_and_flip (free_map fs) 0 cnt False;
     let fs = fs\<lparr>free_map := b\<rparr>;
     if sec = BITMAP_ERROR then Some (None, fs)
     else if free_map_file fs = 0 then Some (Some (word_of_nat sec), fs)
     else do {
       (ok, fs) \<leftarrow> bitmap_write fs mok b (free_map_file fs);
       if ok then Some (Some (word_of_nat sec), fs)
       else do { b \<leftarrow> bitmap_set_multiple b sec cnt False; Some (None, fs\<lparr>free_map := b\<rparr>) }
     }
   }"

definition free_map_release :: "filesys \<Rightarrow> bool \<Rightarrow> u32 \<Rightarrow> nat \<Rightarrow> filesys option" where
  "free_map_release fs mok sec cnt = do {
     a \<leftarrow> bitmap_all (free_map fs) (unat sec) cnt;
     ASSERT a;
     b \<leftarrow> bitmap_set_multiple (free_map fs) (unat sec) cnt False;
     (_, fs) \<leftarrow> bitmap_write (fs\<lparr>free_map := b\<rparr>) mok b (free_map_file fs);
     Some fs
   }"

section \<open>Creating, opening and closing\<close>

fun write_zeros :: "block_dev \<Rightarrow> u32 \<Rightarrow> nat \<Rightarrow> block_dev option" where
  "write_zeros dev s 0 = Some dev"
| "write_zeros dev s (Suc n) = do { dev \<leftarrow> block_write dev s zeros; write_zeros dev (s + 1) n }"

definition inode_init :: "filesys \<Rightarrow> filesys" where
  "inode_init fs = fs\<lparr>open_inodes := []\<rparr>"

text \<open>\<open>cok\<close> says whether \<open>calloc\<close> finds memory for the on-disk inode.\<close>

definition inode_create :: "filesys \<Rightarrow> bool \<Rightarrow> bool \<Rightarrow> u32 \<Rightarrow> int \<Rightarrow> (bool \<times> filesys) option" where
  "inode_create fs cok mok sec len = do {
     ASSERT (len \<ge> 0);
     if \<not> cok then Some (False, fs)
     else do {
       let n = bytes_to_sectors len;
       (r, fs) \<leftarrow> free_map_allocate fs mok n;
       (case r of
          None \<Rightarrow> Some (False, fs)
        | Some st \<Rightarrow> do {
            dev \<leftarrow> block_write (fs_device fs) sec (put_inode \<lparr>start = st, dlength = word_of_int len, dmagic = INODE_MAGIC\<rparr>);
            dev \<leftarrow> write_zeros dev st n;
            Some (True, fs\<lparr>fs_device := dev\<rparr>)
          })
     }
   }"

fun find_open :: "filesys \<Rightarrow> u32 \<Rightarrow> u32 list \<Rightarrow> u32 option" where
  "find_open fs sec [] = Some 0"
| "find_open fs sec (p # ps) = do { ino \<leftarrow> inodes fs p; if sector ino = sec then Some p else find_open fs sec ps }"

definition inode_reopen :: "filesys \<Rightarrow> u32 \<Rightarrow> (u32 \<times> filesys) option" where
  "inode_reopen fs p =
     (if p \<noteq> 0 then do { fs \<leftarrow> upd_inode fs p (\<lambda>ino. ino\<lparr>open_cnt := open_cnt ino + 1\<rparr>); Some (p, fs) } else Some (p, fs))"

definition inode_open :: "filesys \<Rightarrow> u32 \<Rightarrow> u32 \<Rightarrow> (u32 \<times> filesys) option" where
  "inode_open fs p sec = do {
     q \<leftarrow> find_open fs sec (open_inodes fs);
     if q \<noteq> 0 then inode_reopen fs q
     else if p = 0 then Some (0, fs)
     else do {
       (bs, dev) \<leftarrow> block_read (fs_device fs) sec;
       Some (p, fs\<lparr>fs_device := dev, open_inodes := p # open_inodes fs,
         inodes := (inodes fs)(p \<mapsto> \<lparr>sector = sec, open_cnt = 1, removed = False, deny_write_cnt = 0, idata = get_inode bs\<rparr>)\<rparr>)
     }
   }"

definition inode_get_inumber :: "filesys \<Rightarrow> u32 \<Rightarrow> u32 option" where
  "inode_get_inumber fs p = do { ino \<leftarrow> inodes fs p; Some (sector ino) }"

definition inode_close :: "filesys \<Rightarrow> bool \<Rightarrow> u32 \<Rightarrow> filesys option" where
  "inode_close fs mok p =
     (if p = 0 then Some fs
      else do {
        fs \<leftarrow> upd_inode fs p (\<lambda>ino. ino\<lparr>open_cnt := open_cnt ino - 1\<rparr>);
        ino \<leftarrow> inodes fs p;
        if open_cnt ino = 0
        then do {
          let fs = fs\<lparr>open_inodes := remove1 p (open_inodes fs)\<rparr>;
          fs \<leftarrow> (if removed ino
                 then do {
                   fs \<leftarrow> free_map_release fs mok (sector ino) 1;
                   free_map_release fs mok (start (idata ino)) (bytes_to_sectors (inode_length ino))
                 }
                 else Some fs);
          Some (fs\<lparr>inodes := (inodes fs)(p := None)\<rparr>)
        }
        else Some fs
      })"

definition inode_remove :: "filesys \<Rightarrow> u32 \<Rightarrow> filesys option" where
  "inode_remove fs p = do { ASSERT (p \<noteq> 0); upd_inode fs p (\<lambda>ino. ino\<lparr>removed := True\<rparr>) }"

text \<open>\<open>f\<close> is what \<open>calloc\<close> returns.\<close>

definition file_open :: "filesys \<Rightarrow> bool \<Rightarrow> u32 \<Rightarrow> u32 \<Rightarrow> (u32 \<times> filesys) option" where
  "file_open fs mok f p =
     (if p \<noteq> 0 \<and> f \<noteq> 0
      then Some (f, fs\<lparr>files := (files fs)(f \<mapsto> \<lparr>file_inode = p, file_pos = 0, file_deny = False\<rparr>)\<rparr>)
      else do { fs \<leftarrow> inode_close fs mok p; Some (0, fs) })"

definition file_reopen :: "filesys \<Rightarrow> bool \<Rightarrow> u32 \<Rightarrow> u32 \<Rightarrow> (u32 \<times> filesys) option" where
  "file_reopen fs mok f old = do {
     fl \<leftarrow> files fs old;
     (p, fs) \<leftarrow> inode_reopen fs (file_inode fl);
     file_open fs mok f p
   }"

definition file_close :: "filesys \<Rightarrow> bool \<Rightarrow> u32 \<Rightarrow> filesys option" where
  "file_close fs mok f =
     (if f \<noteq> 0
      then do {
        fs \<leftarrow> file_allow_write fs f;
        fl \<leftarrow> files fs f;
        fs \<leftarrow> inode_close fs mok (file_inode fl);
        Some (fs\<lparr>files := (files fs)(f := None)\<rparr>)
      }
      else Some fs)"

definition free_map_open :: "filesys \<Rightarrow> bool \<Rightarrow> u32 \<Rightarrow> u32 \<Rightarrow> filesys option" where
  "free_map_open fs mok p f = do {
     (q, fs) \<leftarrow> inode_open fs p FREE_MAP_SECTOR;
     (g, fs) \<leftarrow> file_open fs mok f q;
     let fs = fs\<lparr>free_map_file := g\<rparr>;
     ASSERT (g \<noteq> 0);
     (ok, b, fs) \<leftarrow> bitmap_read fs mok (free_map fs) g;
     ASSERT ok;
     Some (fs\<lparr>free_map := b\<rparr>)
   }"

definition free_map_close :: "filesys \<Rightarrow> bool \<Rightarrow> filesys option" where
  "free_map_close fs mok = file_close fs mok (free_map_file fs)"

definition free_map_create :: "filesys \<Rightarrow> bool \<Rightarrow> bool \<Rightarrow> u32 \<Rightarrow> u32 \<Rightarrow> filesys option" where
  "free_map_create fs cok mok p f = do {
     (ok, fs) \<leftarrow> inode_create fs cok mok FREE_MAP_SECTOR (int (bitmap_file_size (free_map fs)));
     ASSERT ok;
     (q, fs) \<leftarrow> inode_open fs p FREE_MAP_SECTOR;
     (g, fs) \<leftarrow> file_open fs mok f q;
     let fs = fs\<lparr>free_map_file := g\<rparr>;
     ASSERT (g \<noteq> 0);
     (ok, fs) \<leftarrow> bitmap_write fs mok (free_map fs) g;
     ASSERT ok;
     Some fs
   }"

end
