(* ===== verification/Inode_Correct.thy ===== *)
theory Inode_Correct
  imports Inode
begin

text \<open>
  The data of an inode as a sequence of bytes.  Reading returns a part of it, writing
  replaces a part of it, and no sector outside of the inode is touched.
\<close>

section \<open>The bytes of an inode\<close>

definition inode_sectors :: "inode \<Rightarrow> nat" where
  "inode_sectors ino = (nat (inode_length ino) + 511) div 512"

definition byte :: "block_dev \<Rightarrow> inode \<Rightarrow> nat \<Rightarrow> u8" where
  "byte dev ino i = sectors dev (start (idata ino) + word_of_nat (i div 512)) ! (i mod 512)"

definition content :: "block_dev \<Rightarrow> inode \<Rightarrow> u8 list" where
  "content dev ino = map (byte dev ino) [0..<nat (inode_length ino)]"

text \<open>The sectors of the inode lie on the device.\<close>

definition wf_inode :: "block_dev \<Rightarrow> inode \<Rightarrow> bool" where
  "wf_inode dev ino \<longleftrightarrow> wf_block dev \<and> 0 \<le> inode_length ino
     \<and> unat (start (idata ino)) + inode_sectors ino \<le> unat (bsize dev)"

text \<open>The number of bytes that a transfer moves.\<close>

definition transfer :: "inode \<Rightarrow> int \<Rightarrow> int \<Rightarrow> nat" where
  "transfer ino sz offset = nat (min sz (inode_length ino - offset))"

lemma inode_length_bound: "inode_length ino < 2 ^ 31"
  using sint_less [of "dlength (idata ino)"] by (simp add: inode_length_def)

lemma sdiv512_nonneg: "0 \<le> x \<Longrightarrow> x sdiv 512 = x div (512 :: int)"
  by (simp add: signed_divide_int_def sgn_if)

lemma smod512_nonneg: "0 \<le> x \<Longrightarrow> x smod 512 = x mod (512 :: int)"
  by (cases "x = 0") (simp_all add: signed_modulo_int_def sgn_if)

lemma chunk_eq:
  assumes "0 \<le> offset" and "offset < 2 ^ 31" and "0 \<le> inode_length ino"
  shows "chunk ino sz offset = min sz (min (inode_length ino - offset) (512 - offset mod 512))"
  using assms inode_length_bound [of ino] by (simp add: chunk_def Let_def smod512_nonneg min_def)

lemma chunk_bounds:
  assumes "0 \<le> offset" and "offset < 2 ^ 31" and "0 \<le> inode_length ino" and "0 < chunk ino sz offset"
  defines "c \<equiv> chunk ino sz offset"
  shows "0 < sz" "offset < inode_length ino" "c \<le> sz" "offset + c \<le> inode_length ino" "offset mod 512 + c \<le> 512" "c \<le> 512"
proof -
  show "0 < sz" "offset < inode_length ino" "c \<le> sz" "offset + c \<le> inode_length ino" "offset mod 512 + c \<le> 512"
    using assms(4) unfolding c_def chunk_eq [OF assms(1-3)] by auto
  moreover have "0 \<le> offset mod 512"
    by simp
  ultimately show "c \<le> 512"
    by linarith
qed

lemma transfer_step:
  assumes "0 \<le> offset" and "offset < 2 ^ 31" and "0 \<le> inode_length ino" and "0 < chunk ino sz offset"
  defines "c \<equiv> chunk ino sz offset"
  shows "transfer ino sz offset = nat c + transfer ino (sz - c) (offset + c)"
  using chunk_bounds [OF assms(1-4)] assms(4) unfolding transfer_def c_def [symmetric] by (simp add: min_def) arith

lemma transfer_stop:
  assumes "0 \<le> offset" and "offset < 2 ^ 31" and "0 \<le> inode_length ino" and "sz \<le> 0 \<or> chunk ino sz offset \<le> 0"
  shows "transfer ino sz offset = 0"
proof -
  have "512 - offset mod 512 > 0"
    by simp
  then show ?thesis
    using assms(4) unfolding chunk_eq [OF assms(1-3)] transfer_def by (auto simp: min_def split: if_splits)
qed

text \<open>The sector of a byte.\<close>

lemma byte_sector:
  assumes wf: "wf_inode dev ino" and "0 \<le> offset" and "offset < inode_length ino"
  shows "byte_to_sector ino offset = start (idata ino) + word_of_nat (nat offset div 512)"
    and "nat offset div 512 < inode_sectors ino" and "byte_to_sector ino offset < bsize dev"
proof -
  have e: "nat (offset div 512) = nat offset div 512"
    using assms(2) by (simp add: nat_div_distrib)
  have "(word_of_int (offset div 512) :: u32) = word_of_nat (nat offset div 512)"
    using assms(2) unfolding e [symmetric] by (simp add: word_of_nat_eq_iff word_of_int_eq_iff)
  then show b: "byte_to_sector ino offset = start (idata ino) + word_of_nat (nat offset div 512)"
    using assms by (simp add: byte_to_sector_def sdiv512_nonneg)
  have "nat offset < nat (inode_length ino)"
    using assms by simp
  then show i: "nat offset div 512 < inode_sectors ino"
    unfolding inode_sectors_def by linarith
  have "unat (start (idata ino)) + nat offset div 512 < unat (bsize dev)"
    using i wf by (simp add: wf_inode_def)
  then have "unat (start (idata ino) + word_of_nat (nat offset div 512)) < unat (bsize dev)"
    using unat_less_u32 [of "bsize dev"] by (simp add: unat_word_ariths unat_of_nat)
  then show "byte_to_sector ino offset < bsize dev"
    unfolding b by (simp add: word_less_nat_alt)
qed

lemma div_mod_within:
  assumes "a mod 512 + i < 512"
  shows "(a + i) div 512 = a div (512 :: nat)" and "(a + i) mod 512 = a mod 512 + i"
proof -
  have e: "a + i = (a mod 512 + i) + a div 512 * 512"
    using div_mult_mod_eq [of a 512] by linarith
  have "(a + i) div 512 = a div 512 + (a mod 512 + i) div 512"
    unfolding e by (rule div_mult_self1) simp
  then show "(a + i) div 512 = a div (512 :: nat)"
    using assms by simp
  have "(a + i) mod 512 = (a mod 512 + i) mod 512"
    unfolding e by (rule mod_mult_self1)
  then show "(a + i) mod 512 = a mod 512 + i"
    using assms by simp
qed

lemma slice_bytes:
  assumes wf: "wf_block dev" and "0 \<le> offset" and "0 \<le> c" and "offset mod 512 + c \<le> 512"
  shows "slice (sectors dev (start (idata ino) + word_of_nat (nat offset div 512))) (offset mod 512) c
    = Some (map (byte dev ino) [nat offset..<nat offset + nat c])"
proof -
  let ?s = "sectors dev (start (idata ino) + word_of_nat (nat offset div 512))"
  have len: "length ?s = 512"
    using wf by (simp add: wf_block_def BLOCK_SECTOR_SIZE_def)
  have m: "nat (offset mod 512) = nat offset mod 512" and c: "nat offset mod 512 + nat c \<le> 512"
  proof -
    show m: "nat (offset mod 512) = nat offset mod 512"
      using assms(2) by (simp add: nat_mod_distrib)
    show "nat offset mod 512 + nat c \<le> 512"
      unfolding m [symmetric] using assms(3,4) by (simp add: nat_add_distrib [symmetric])
  qed
  have "take (nat c) (drop (nat offset mod 512) ?s) = map (byte dev ino) [nat offset..<nat offset + nat c]"
  proof (rule nth_equalityI)
    show "length (take (nat c) (drop (nat offset mod 512) ?s)) = length (map (byte dev ino) [nat offset..<nat offset + nat c])"
      using len c by simp
    fix i
    assume "i < length (take (nat c) (drop (nat offset mod 512) ?s))"
    then have i: "i < nat c"
      by simp
    have "(nat offset + i) div 512 = nat offset div 512" "(nat offset + i) mod 512 = nat offset mod 512 + i"
      using div_mod_within [of "nat offset" i] i c by simp_all
    then show "take (nat c) (drop (nat offset mod 512) ?s) ! i = map (byte dev ino) [nat offset..<nat offset + nat c] ! i"
      using i len c by (simp add: byte_def)
  qed
  then show ?thesis
    using assms(2-4) len m by (simp add: slice_def)
qed

section \<open>Reading\<close>

lemma byte_read_cnt [simp]: "byte (dev\<lparr>read_cnt := c\<rparr>) ino = byte dev ino"
  by (simp add: byte_def fun_eq_iff)

lemma wf_inode_read_cnt [simp]: "wf_inode (dev\<lparr>read_cnt := c\<rparr>) ino = wf_inode dev ino"
  by (simp add: wf_inode_def)

lemma full_sector:
  assumes "wf_block dev" and "0 \<le> offset" and "offset mod 512 = 0"
  shows "sectors dev (start (idata ino) + word_of_nat (nat offset div 512)) = map (byte dev ino) [nat offset..<nat offset + 512]"
  using slice_bytes [OF assms(1,2), of 512 ino] assms(1,3) by (simp add: slice_def wf_block_def BLOCK_SECTOR_SIZE_def)

lemma inode_read_loop_ok:
  assumes "wf_inode dev ino" and "0 \<le> offset" and "offset < 2 ^ 31"
  shows "\<exists>c. inode_read_loop dev ino True sz offset acc
    = Some (acc @ map (byte dev ino) [nat offset..<nat offset + transfer ino sz offset], dev\<lparr>read_cnt := c\<rparr>)"
  using assms
proof (induction "nat sz" arbitrary: dev sz offset acc rule: less_induct)
  case less
  let ?c = "chunk ino sz offset"
  have len: "0 \<le> inode_length ino" and wb: "wf_block dev"
    using less.prems(1) by (simp_all add: wf_inode_def)
  show ?case
  proof (cases "sz \<le> 0 \<or> ?c \<le> 0")
    case True
    then have "transfer ino sz offset = 0"
      by (rule transfer_stop [OF less.prems(2,3) len])
    then show ?thesis
      using True by (intro exI [of _ "read_cnt dev"]) (simp add: inode_read_loop.simps Let_def)
  next
    case False
    then have c: "0 < ?c"
      by simp
    note cb = chunk_bounds [OF less.prems(2,3) len c]
    note bs = byte_sector [OF less.prems(1,2) cb(2)]
    let ?dev = "dev\<lparr>read_cnt := read_cnt dev + 1\<rparr>"
    let ?part = "map (byte dev ino) [nat offset..<nat offset + nat ?c]"
    have e: "inode_read_loop dev ino True sz offset acc = inode_read_loop ?dev ino True (sz - ?c) (offset + ?c) (acc @ ?part)"
    proof (cases "offset mod 512 = 0 \<and> ?c = 512")
      case True
      then show ?thesis
        using False full_sector [OF wb less.prems(2)] bs block_read_ok [OF bs(3)]
        by (subst inode_read_loop.simps) (simp add: Let_def smod512_nonneg [OF less.prems(2)])
    next
      case False
      then show ?thesis
        using c cb(1,5) slice_bytes [OF wb less.prems(2), of ?c ino] bs block_read_ok [OF bs(3)]
        by (subst inode_read_loop.simps) (auto simp: Let_def smod512_nonneg [OF less.prems(2)])
    qed
    have "nat (sz - ?c) < nat sz" "0 \<le> offset + ?c" "offset + ?c < 2 ^ 31" "wf_inode ?dev ino"
      using c cb less.prems inode_length_bound [of ino] by simp_all
    then obtain k where k: "inode_read_loop ?dev ino True (sz - ?c) (offset + ?c) (acc @ ?part)
        = Some ((acc @ ?part) @ map (byte ?dev ino) [nat (offset + ?c)..<nat (offset + ?c) + transfer ino (sz - ?c) (offset + ?c)], ?dev\<lparr>read_cnt := k\<rparr>)"
      using less.hyps [of "sz - ?c" ?dev "offset + ?c" "acc @ ?part"] by blast
    have n: "nat (offset + ?c) = nat offset + nat ?c" "nat offset + transfer ino sz offset = nat offset + nat ?c + transfer ino (sz - ?c) (offset + ?c)"
      using c less.prems(2) transfer_step [OF less.prems(2,3) len c] by simp_all
    have "?part @ map (byte dev ino) [nat offset + nat ?c..<nat offset + nat ?c + transfer ino (sz - ?c) (offset + ?c)]
        = map (byte dev ino) [nat offset..<nat offset + transfer ino sz offset]"
      unfolding n(2) map_append [symmetric] by (rule arg_cong [of _ _ "map (byte dev ino)"]) (rule upt_add_eq_append [symmetric], simp)
    then show ?thesis
      using e k n(1) by (intro exI [of _ k]) simp
  qed
qed

section \<open>Writing\<close>

text \<open>The device after a write of \<open>n\<close> bytes of \<open>bs\<close> at an offset.\<close>

definition written :: "block_dev \<Rightarrow> inode \<Rightarrow> nat \<Rightarrow> nat \<Rightarrow> (nat \<Rightarrow> u8) \<Rightarrow> block_dev \<Rightarrow> bool" where
  "written dev ino off n f dev' \<longleftrightarrow> wf_block dev' \<and> bsize dev' = bsize dev
     \<and> (\<forall>i < 512 * inode_sectors ino. byte dev' ino i = (if off \<le> i \<and> i < off + n then f (i - off) else byte dev ino i))
     \<and> (\<forall>s. (\<forall>j < inode_sectors ino. s \<noteq> start (idata ino) + word_of_nat j) \<longrightarrow> sectors dev' s = sectors dev s)"

lemma written_refl: "wf_block dev \<Longrightarrow> written dev ino off 0 f dev"
  by (auto simp: written_def)

lemma written_trans:
  assumes "written dev ino off n f dev1" and "written dev1 ino (off + n) m g dev2" and "\<And>i. i < n \<Longrightarrow> h i = f i" and "\<And>i. h (n + i) = g i"
  shows "written dev ino off (n + m) h dev2"
proof -
  have "byte dev2 ino i = (if off \<le> i \<and> i < off + (n + m) then h (i - off) else byte dev ino i)" if i: "i < 512 * inode_sectors ino" for i
  proof -
    have "byte dev2 ino i = (if off + n \<le> i \<and> i < off + n + m then g (i - (off + n)) else
        if off \<le> i \<and> i < off + n then f (i - off) else byte dev ino i)"
      using assms(1,2) i by (simp add: written_def)
    also have "\<dots> = (if off \<le> i \<and> i < off + (n + m) then h (i - off) else byte dev ino i)"
    proof (cases "off + n \<le> i")
      case True
      then have "i - off = n + (i - (off + n))"
        by simp
      then have "h (i - off) = g (i - (off + n))"
        using assms(4) by simp
      then show ?thesis
        using True by simp
    qed (use assms(3) in auto)
    finally show ?thesis .
  qed
  then show ?thesis
    using assms(1,2) by (simp add: written_def)
qed

lemma sector_inj:
  assumes "wf_inode dev ino" and "i < inode_sectors ino" and "j < inode_sectors ino"
    and "start (idata ino) + word_of_nat i = start (idata ino) + (word_of_nat j :: u32)"
  shows "i = j"
proof -
  have b: "inode_sectors ino < 2 ^ 32"
    using assms(1) unat_less_u32 [of "bsize dev"] unfolding wf_inode_def by linarith
  have "(word_of_nat i :: u32) = word_of_nat j"
    using assms(4) by simp
  then have "unat (word_of_nat i :: u32) = unat (word_of_nat j :: u32)"
    by (rule arg_cong)
  then show ?thesis
    using assms(2,3) b by (simp add: unat_of_nat)
qed

text \<open>One sector.\<close>

lemma written_sector:
  assumes wf: "wf_inode dev ino" and j: "j < inode_sectors ino" and o: "o' + length bs \<le> 512"
    and new: "new = take o' (sectors dev (start (idata ino) + word_of_nat j)) @ bs @ drop (o' + length bs) (sectors dev (start (idata ino) + word_of_nat j))"
  shows "written dev ino (j * 512 + o') (length bs) (\<lambda>i. bs ! i)
    (dev\<lparr>sectors := (sectors dev)(start (idata ino) + word_of_nat j := new), write_cnt := c\<rparr>)"
proof -
  let ?s = "start (idata ino) + word_of_nat j"
  have len: "length (sectors dev s) = 512" for s
    using wf by (simp add: wf_inode_def wf_block_def BLOCK_SECTOR_SIZE_def)
  have ln: "length new = 512"
    using o by (simp add: new len)
  have nth: "new ! k = (if o' \<le> k \<and> k < o' + length bs then bs ! (k - o') else sectors dev ?s ! k)" if "k < 512" for k
    using that o len [of ?s] by (auto simp: new nth_append min_def)
  have "byte (dev\<lparr>sectors := (sectors dev)(?s := new), write_cnt := c\<rparr>) ino i
      = (if j * 512 + o' \<le> i \<and> i < j * 512 + o' + length bs then bs ! (i - (j * 512 + o')) else byte dev ino i)"
    if i: "i < 512 * inode_sectors ino" for i
  proof (cases "i div 512 = j")
    case True
    then have "i = j * 512 + i mod 512"
      by (metis div_mult_mod_eq)
    then have "j * 512 + o' \<le> i \<longleftrightarrow> o' \<le> i mod 512" "i < j * 512 + o' + length bs \<longleftrightarrow> i mod 512 < o' + length bs"
        "i - (j * 512 + o') = i mod 512 - o'"
      by linarith+
    then show ?thesis
      using True nth [of "i mod 512"] by (simp add: byte_def)
  next
    case False
    have "i div 512 < inode_sectors ino"
      using i by (simp add: less_mult_imp_div_less mult.commute)
    then have "start (idata ino) + word_of_nat (i div 512) \<noteq> ?s"
      using sector_inj [OF wf _ j] False by blast
    moreover have "\<not> (j * 512 + o' \<le> i \<and> i < j * 512 + o' + length bs)"
    proof
      assume "j * 512 + o' \<le> i \<and> i < j * 512 + o' + length bs"
      then have "j * 512 \<le> i" "i < j * 512 + 512"
        using o by linarith+
      then have "i div 512 = j"
        by (simp add: div_nat_eqI)
      then show False
        using False by simp
    qed
    ultimately show ?thesis
      by (auto simp: byte_def)
  qed
  then show ?thesis
    using wf ln j unfolding written_def wf_inode_def by (auto simp: wf_block_def BLOCK_SECTOR_SIZE_def)
qed

lemma wf_inode_written: "wf_inode dev ino \<Longrightarrow> written dev ino off n f dev' \<Longrightarrow> wf_inode dev' ino"
  by (simp add: wf_inode_def written_def)

lemma written_read_cnt: "written (dev\<lparr>read_cnt := c\<rparr>) ino off n f dev' \<longleftrightarrow> written dev ino off n f dev'"
  by (simp add: written_def)

text \<open>One round of the loop.\<close>

lemma inode_write_round:
  assumes wf: "wf_inode dev ino" and o: "0 \<le> offset" "offset < 2 ^ 31" and c: "0 < chunk ino sz offset"
    and b: "0 \<le> dn" "dn + sz \<le> int (length buffer)"
  defines "c \<equiv> chunk ino sz offset"
  shows "\<not> mok \<and> inode_write_loop dev ino mok buffer sz offset dn = Some (dn, dev)
    \<or> (\<exists>dev'. inode_write_loop dev ino mok buffer sz offset dn = inode_write_loop dev' ino mok buffer (sz - c) (offset + c) (dn + c)
        \<and> written dev ino (nat offset) (nat c) (\<lambda>i. buffer ! (nat dn + i)) dev')"
proof -
  have len: "0 \<le> inode_length ino" and wb: "wf_block dev"
    using wf by (simp_all add: wf_inode_def)
  note cb = chunk_bounds [OF o len c, folded c_def]
  note bs = byte_sector [OF wf o(1) cb(2)]
  let ?j = "nat offset div 512" and ?o = "nat (offset mod 512)"
  let ?sec = "start (idata ino) + word_of_nat ?j :: u32"
  let ?part = "take (nat c) (drop (nat dn) buffer)"
  have sl: "slice buffer dn c = Some ?part" and lp: "length ?part = nat c"
    using b cb c c_def by (simp_all add: slice_def)
  have sec: "length (sectors dev ?sec) = 512"
    using wb by (simp add: wf_block_def BLOCK_SECTOR_SIZE_def)
  let ?new = "take ?o (sectors dev ?sec) @ ?part @ drop (?o + length ?part) (sectors dev ?sec)"
  have oc: "?o + length ?part \<le> 512"
    using lp cb(5) c c_def by simp
  have off: "?j * 512 + ?o = nat offset"
    using o(1) by (simp add: nat_mod_distrib)
  have w: "written dev ino (nat offset) (nat c) (\<lambda>i. buffer ! (nat dn + i)) (dev\<lparr>sectors := (sectors dev)(?sec := ?new), write_cnt := k\<rparr>)" for k
  proof -
    have "written dev ino (?j * 512 + ?o) (length ?part) (\<lambda>i. ?part ! i) (dev\<lparr>sectors := (sectors dev)(?sec := ?new), write_cnt := k\<rparr>)"
      by (rule written_sector [OF wf bs(2) oc refl])
    moreover have "?part ! i = buffer ! (nat dn + i)" if "i < nat c" for i
      using that b cb by (simp add: add.commute)
    ultimately show ?thesis
      unfolding off lp written_def by auto
  qed
  show ?thesis
  proof (cases "offset mod 512 = 0 \<and> c = 512")
    case True
    then have new: "?new = ?part"
      using sec lp by simp
    have "inode_write_loop dev ino mok buffer sz offset dn
        = inode_write_loop (dev\<lparr>sectors := (sectors dev)(?sec := ?part), write_cnt := write_cnt dev + 1\<rparr>) ino mok buffer (sz - c) (offset + c) (dn + c)"
      using True cb(1) c sl bs(1) block_write_ok [OF wb bs(3), of ?part]
      by (subst inode_write_loop.simps) (simp add: Let_def smod512_nonneg [OF o(1)] c_def [symmetric])
    then show ?thesis
      using w [of "write_cnt dev + 1"] unfolding new by blast
  next
    case part: False
    show ?thesis
    proof (cases mok)
      case False
      then have "inode_write_loop dev ino mok buffer sz offset dn = Some (dn, dev)"
        using part cb(1) c sl by (subst inode_write_loop.simps) (auto simp: Let_def smod512_nonneg [OF o(1)] c_def [symmetric])
      then show ?thesis
        using False by blast
    next
      case mok: True
      let ?d = "dev\<lparr>read_cnt := read_cnt dev + 1\<rparr>"
      have ov: "overwrite (sectors dev ?sec) (offset mod 512) ?part = Some ?new"
        unfolding overwrite_def sec lp using cb(5) c c_def by simp
      have "0 < offset mod 512 \<or> c < 512 - offset mod 512"
      proof (cases "offset mod 512 = 0")
        case True
        then show ?thesis
          using part cb(6) by auto
      next
        case False
        then show ?thesis
          by (simp add: order_less_le)
      qed
      then have "inode_write_loop dev ino mok buffer sz offset dn
          = inode_write_loop (?d\<lparr>sectors := (sectors dev)(?sec := ?new), write_cnt := write_cnt dev + 1\<rparr>) ino mok buffer (sz - c) (offset + c) (dn + c)"
        using part mok cb(1) c sl bs(1) ov block_read_ok [OF bs(3)] block_write_ok [of ?d "byte_to_sector ino offset" ?new] wb bs(3)
        by (subst inode_write_loop.simps) (auto simp: Let_def smod512_nonneg [OF o(1)] c_def [symmetric])
      moreover have "written dev ino (nat offset) (nat c) (\<lambda>i. buffer ! (nat dn + i))
          (?d\<lparr>sectors := (sectors dev)(?sec := ?new), write_cnt := write_cnt dev + 1\<rparr>)"
        using w [of "write_cnt dev + 1"] by (simp add: written_def wf_block_def byte_def)
      ultimately show ?thesis
        by blast
    qed
  qed
qed

text \<open>Without a bounce buffer the loop stops at the first sector that is not written as a whole.\<close>

lemma inode_write_loop_any:
  assumes "wf_inode dev ino" and "0 \<le> offset" and "offset < 2 ^ 31" and "0 \<le> dn" and "dn + max sz 0 \<le> int (length buffer)"
  shows "\<exists>n dev'. inode_write_loop dev ino mok buffer sz offset dn = Some (dn + int n, dev') \<and> n \<le> transfer ino sz offset
    \<and> (mok \<longrightarrow> n = transfer ino sz offset) \<and> written dev ino (nat offset) n (\<lambda>i. buffer ! (nat dn + i)) dev'"
  using assms
proof (induction "nat sz" arbitrary: dev sz offset dn rule: less_induct)
  case less
  let ?c = "chunk ino sz offset"
  have len: "0 \<le> inode_length ino" and wb: "wf_block dev"
    using less.prems(1) by (simp_all add: wf_inode_def)
  show ?case
  proof (cases "sz \<le> 0 \<or> ?c \<le> 0")
    case True
    then have "transfer ino sz offset = 0"
      by (rule transfer_stop [OF less.prems(2,3) len])
    then show ?thesis
      using True written_refl [OF wb] by (intro exI [of _ 0] exI [of _ dev]) (simp add: inode_write_loop.simps Let_def)
  next
    case False
    then have c: "0 < ?c" and sz: "dn + sz \<le> int (length buffer)"
      using less.prems(5) by simp_all
    note cb = chunk_bounds [OF less.prems(2,3) len c]
    note round = inode_write_round [OF less.prems(1-3) c less.prems(4) sz, of mok]
    show ?thesis
    proof (cases "\<not> mok \<and> inode_write_loop dev ino mok buffer sz offset dn = Some (dn, dev)")
      case True
      then show ?thesis
        using written_refl [OF wb] by (intro exI [of _ 0] exI [of _ dev]) auto
    next
      case False
      then obtain dev1 where d1: "inode_write_loop dev ino mok buffer sz offset dn
            = inode_write_loop dev1 ino mok buffer (sz - ?c) (offset + ?c) (dn + ?c)"
          "written dev ino (nat offset) (nat ?c) (\<lambda>i. buffer ! (nat dn + i)) dev1"
        using round by blast
      have "nat (sz - ?c) < nat sz" "0 \<le> offset + ?c" "offset + ?c < 2 ^ 31" "0 \<le> dn + ?c" "dn + ?c + max (sz - ?c) 0 \<le> int (length buffer)"
        using c cb less.prems sz inode_length_bound [of ino] by simp_all
      then obtain m dev2 where d2: "inode_write_loop dev1 ino mok buffer (sz - ?c) (offset + ?c) (dn + ?c) = Some (dn + ?c + int m, dev2)"
          "m \<le> transfer ino (sz - ?c) (offset + ?c)" "mok \<longrightarrow> m = transfer ino (sz - ?c) (offset + ?c)"
          "written dev1 ino (nat (offset + ?c)) m (\<lambda>i. buffer ! (nat (dn + ?c) + i)) dev2"
        using less.hyps [of "sz - ?c" dev1 "offset + ?c" "dn + ?c"] wf_inode_written [OF less.prems(1) d1(2)] by blast
      have n: "nat (offset + ?c) = nat offset + nat ?c" "nat (dn + ?c) = nat dn + nat ?c"
          "transfer ino sz offset = nat ?c + transfer ino (sz - ?c) (offset + ?c)"
        using c less.prems(2,4) transfer_step [OF less.prems(2,3) len c] by simp_all
      have "written dev ino (nat offset) (nat ?c + m) (\<lambda>i. buffer ! (nat dn + i)) dev2"
        by (rule written_trans [OF d1(2) d2(4) [unfolded n(1,2)]]) (simp_all add: add.assoc)
      then show ?thesis
        using d1(1) d2(1-3) c n(3) by (intro exI [of _ "nat ?c + m"] exI [of _ dev2]) simp
    qed
  qed
qed

section \<open>The operations on the contents\<close>

lemma content_slice:
  assumes "i + n \<le> nat (inode_length ino)"
  shows "map (byte dev ino) [i..<i + n] = take n (drop i (content dev ino))"
  using assms by (simp add: content_def take_map drop_map take_upt)

lemma transfer_le: "0 \<le> offset \<Longrightarrow> 0 < transfer ino sz offset \<Longrightarrow> nat offset + transfer ino sz offset \<le> nat (inode_length ino)"
  by (auto simp: transfer_def min_def split: if_splits)

lemma content_transfer:
  assumes "0 \<le> offset"
  shows "map (byte dev ino) [nat offset..<nat offset + transfer ino sz offset] = take (transfer ino sz offset) (drop (nat offset) (content dev ino))"
  using content_slice [OF transfer_le [OF assms, of ino sz]] by (cases "transfer ino sz offset = 0") simp_all

lemma length_content [simp]: "length (content dev ino) = nat (inode_length ino)"
  by (simp add: content_def)

lemma sectors_cover: "i < nat (inode_length ino) \<Longrightarrow> i < 512 * inode_sectors ino"
  unfolding inode_sectors_def by linarith

lemma content_written:
  assumes "written dev ino off n (\<lambda>i. bs ! i) dev'" and "n \<le> length bs" and "0 < n \<Longrightarrow> off + n \<le> nat (inode_length ino)"
  shows "content dev' ino = take off (content dev ino) @ take n bs @ drop (off + n) (content dev ino)"
proof (cases "n = 0")
  case True
  then have "byte dev' ino i = byte dev ino i" if "i < nat (inode_length ino)" for i
    using assms(1) sectors_cover [OF that] by (auto simp: written_def)
  then show ?thesis
    using True by (auto simp: content_def)
next
  case False
  show ?thesis
  proof (rule nth_equalityI)
    show "length (content dev' ino) = length (take off (content dev ino) @ take n bs @ drop (off + n) (content dev ino))"
      using assms(2,3) False by simp
    fix i
    assume "i < length (content dev' ino)"
    then have i: "i < nat (inode_length ino)"
      by simp
    have "content dev' ino ! i = (if off \<le> i \<and> i < off + n then bs ! (i - off) else content dev ino ! i)"
      using assms(1) i sectors_cover [OF i] by (simp add: content_def written_def)
    then show "content dev' ino ! i = (take off (content dev ino) @ take n bs @ drop (off + n) (content dev ino)) ! i"
      using assms(2,3) False i by (auto simp: nth_append min_def)
  qed
qed

definition sector_set :: "inode \<Rightarrow> u32 set" where
  "sector_set ino = (\<lambda>j. start (idata ino) + word_of_nat j) ` {..<inode_sectors ino}"

lemma byte_frame:
  assumes "\<And>s. s \<in> sector_set ino \<Longrightarrow> sectors dev' s = sectors dev s" and "i < 512 * inode_sectors ino"
  shows "byte dev' ino i = byte dev ino i"
proof -
  have "start (idata ino) + word_of_nat (i div 512) \<in> sector_set ino"
    using assms(2) unfolding sector_set_def by (intro imageI) (simp add: less_mult_imp_div_less mult.commute)
  then show ?thesis
    using assms(1) by (simp add: byte_def)
qed

lemma content_frame:
  assumes "\<And>s. s \<in> sector_set ino \<Longrightarrow> sectors dev' s = sectors dev s"
  shows "content dev' ino = content dev ino"
  unfolding content_def using byte_frame [OF assms] sectors_cover by (intro map_cong refl) auto

lemma content_written_other:
  assumes "written dev ino off n f dev'" and "sector_set ino \<inter> sector_set other = {}"
  shows "content dev' other = content dev other"
proof (rule content_frame)
  fix s
  assume "s \<in> sector_set other"
  then have "\<forall>j < inode_sectors ino. s \<noteq> start (idata ino) + word_of_nat j"
    using assms(2) by (auto simp: sector_set_def)
  then show "sectors dev' s = sectors dev s"
    using assms(1) by (simp add: written_def)
qed

lemma take_transfer: "0 \<le> offset \<Longrightarrow> take (transfer ino sz offset) (drop (nat offset) (content dev ino)) = take (nat sz) (drop (nat offset) (content dev ino))"
  by (auto simp: transfer_def min_def nat_diff_distrib')

lemma inode_read_at_ok:
  assumes "inodes fs p = Some ino" and "wf_inode (fs_device fs) ino" and "0 \<le> offset" and "offset < 2 ^ 31"
  shows "\<exists>c. inode_read_at fs p True sz offset
    = Some (take (nat sz) (drop (nat offset) (content (fs_device fs) ino)), fs\<lparr>fs_device := (fs_device fs)\<lparr>read_cnt := c\<rparr>\<rparr>)"
  using inode_read_loop_ok [OF assms(2-4), of sz "[]"] content_transfer [OF assms(3)] take_transfer [OF assms(3)] assms(1)
  by (auto simp: inode_read_at_def)

lemma inode_write_at_any:
  assumes "inodes fs p = Some ino" and "deny_write_cnt ino = 0" and "wf_inode (fs_device fs) ino" and "0 \<le> offset" and "offset < 2 ^ 31"
    and "sz \<le> int (length buffer)"
  shows "\<exists>n dev'. inode_write_at fs p mok buffer sz offset = Some (int n, fs\<lparr>fs_device := dev'\<rparr>) \<and> n \<le> transfer ino sz offset
    \<and> (mok \<longrightarrow> n = transfer ino sz offset) \<and> written (fs_device fs) ino (nat offset) n (\<lambda>i. buffer ! i) dev'"
  using inode_write_loop_any [OF assms(3-5), of 0 sz buffer mok] assms(1,2,6) by (auto simp: inode_write_at_def)

lemma inode_write_at_ok:
  assumes "inodes fs p = Some ino" and "deny_write_cnt ino = 0" and "wf_inode (fs_device fs) ino" and "0 \<le> offset" and "offset < 2 ^ 31"
    and "sz \<le> int (length buffer)"
  shows "\<exists>dev'. inode_write_at fs p True buffer sz offset = Some (int (transfer ino sz offset), fs\<lparr>fs_device := dev'\<rparr>)
    \<and> written (fs_device fs) ino (nat offset) (transfer ino sz offset) (\<lambda>i. buffer ! i) dev'"
  using inode_write_at_any [OF assms, of True] by auto

text \<open>
  C23: with its bounce buffer allocated, reading from an inode returns exactly the bytes of its contents in the range, as many
  as there are, reads nothing outside the device, and changes nothing.
\<close>

theorem inode_read_at_correct:
  assumes "inodes fs p = Some ino" and "wf_inode (fs_device fs) ino" and "0 \<le> offset" and "offset < 2 ^ 31"
  shows "\<exists>bs fs'. inode_read_at fs p True sz offset = Some (bs, fs') \<and> bs = take (nat sz) (drop (nat offset) (content (fs_device fs) ino))
    \<and> sectors (fs_device fs') = sectors (fs_device fs) \<and> fs'\<lparr>fs_device := fs_device fs\<rparr> = fs"
  using inode_read_at_ok [OF assms, of sz] by auto

text \<open>
  C22: with its bounce buffer allocated, writing to an inode replaces exactly the bytes of the range that lie in the file and
  returns their number; the file does not grow, every inode with other sectors keeps its
  contents, and what was written is what a read returns.  While writing is denied, nothing
  is written.
\<close>

theorem inode_write_at_correct:
  assumes "inodes fs p = Some ino" and "wf_inode (fs_device fs) ino" and "0 \<le> offset" and "offset < 2 ^ 31" and "0 \<le> sz" and "sz \<le> int (length buffer)"
  shows "\<exists>n fs'. inode_write_at fs p True buffer sz offset = Some (int n, fs')
    \<and> n = (if deny_write_cnt ino = 0 then nat (min sz (inode_length ino - offset)) else 0)
    \<and> content (fs_device fs') ino = take (nat offset) (content (fs_device fs) ino) @ take n buffer @ drop (nat offset + n) (content (fs_device fs) ino)
    \<and> wf_inode (fs_device fs') ino
    \<and> (\<forall>other. sector_set ino \<inter> sector_set other = {} \<longrightarrow> content (fs_device fs') other = content (fs_device fs) other)
    \<and> (\<exists>fs''. inode_read_at fs' p True (int n) offset = Some (take n buffer, fs''))"
proof (cases "deny_write_cnt ino = 0")
  case True
  let ?n = "transfer ino sz offset"
  obtain dev' where d: "inode_write_at fs p True buffer sz offset = Some (int ?n, fs\<lparr>fs_device := dev'\<rparr>)"
      "written (fs_device fs) ino (nat offset) ?n (\<lambda>i. buffer ! i) dev'"
    using inode_write_at_ok [OF assms(1) True assms(2-4,6)] by blast
  have n: "?n \<le> length buffer" "0 < ?n \<Longrightarrow> nat offset + ?n \<le> nat (inode_length ino)"
    using assms(6) transfer_le [OF assms(3), of ino sz] by (auto simp: transfer_def)
  have c: "content dev' ino = take (nat offset) (content (fs_device fs) ino) @ take ?n buffer @ drop (nat offset + ?n) (content (fs_device fs) ino)"
    by (rule content_written [OF d(2)]) (use n in auto)
  have wf: "wf_inode dev' ino"
    using wf_inode_written [OF assms(2) d(2)] .
  have "take ?n (drop (nat offset) (content dev' ino)) = take ?n buffer"
    using n unfolding c by (cases "?n = 0") (simp_all add: min_def)
  then have "\<exists>fs''. inode_read_at (fs\<lparr>fs_device := dev'\<rparr>) p True (int ?n) offset = Some (take ?n buffer, fs'')"
    using inode_read_at_ok [of "fs\<lparr>fs_device := dev'\<rparr>" p ino offset "int ?n"] assms(1,3,4) wf by auto
  then show ?thesis
    using d(1) c wf content_written_other [OF d(2)] True
    by (intro exI [of _ ?n] exI [of _ "fs\<lparr>fs_device := dev'\<rparr>"]) (simp add: transfer_def)
next
  case False
  have "\<exists>fs''. inode_read_at fs p True (int 0) offset = Some ([], fs'')"
    using inode_read_at_ok [OF assms(1-4), of "int 0"] by auto
  then show ?thesis
    using False assms(1,2) by (intro exI [of _ 0] exI [of _ fs]) (simp add: inode_write_at_def)
qed

end
