(* ===== verification/Free_Map.thy ===== *)
theory Free_Map
  imports Inode_Correct
begin

text \<open>
  The free map: an allocator of sectors.  Whenever its file could be written, the map on the disk is
  the one in memory, so that opening the file system again finds the same sectors in use.  The
  argument \<open>mok\<close> says whether the bounce buffer for a part of a sector can be allocated.
\<close>

section \<open>Words as bytes\<close>

lemma get32_le32 [simp]: "get32 (le32 w @ bs) = w"
proof (rule bit_word_eqI)
  fix n
  assume "n < LENGTH(32)"
  then have n: "n < 32"
    by simp
  have "bit (get32 (le32 w @ bs)) n \<longleftrightarrow> n < 8 \<and> bit w n \<or> 8 \<le> n \<and> n - 8 < 8 \<and> bit w n
      \<or> 16 \<le> n \<and> n - 16 < 8 \<and> bit w n \<or> 24 \<le> n \<and> n - 24 < 8 \<and> bit w n"
    using n by (simp add: get32_def le32_def bit_or_iff bit_push_bit_iff bit_unsigned_iff bit_ucast_iff bit_drop_bit_eq cong: conj_cong) auto
  also have "\<dots> \<longleftrightarrow> bit w n"
    using n by linarith
  finally show "bit (get32 (le32 w @ bs)) n = bit w n" .
qed

lemma length_le32 [simp]: "length (le32 w) = 4"
  by (simp add: le32_def)

lemma length_words [simp]: "length (concat (map le32 ws)) = 4 * length ws"
  by (induction ws) simp_all

lemma read_elems_words: "length vs = length ws \<Longrightarrow> read_elems (concat (map le32 ws)) vs = ws"
proof (induction vs arbitrary: ws)
  case (Cons v vs)
  then obtain w ws' where "ws = w # ws'" "length vs = length ws'"
    by (cases ws) auto
  then show ?case
    using Cons.IH get32_le32 [of w "[]"] by simp
qed simp

lemma get_put_inode [simp]: "get_inode (put_inode d) = d"
  by (simp add: get_inode_def put_inode_def)

section \<open>The free map on the disk\<close>

text \<open>The inode of the free map file.\<close>

definition map_inode :: "filesys \<Rightarrow> inode option" where
  "map_inode fs = (if free_map_file fs = 0 then None
     else case files fs (free_map_file fs) of None \<Rightarrow> None | Some fl \<Rightarrow> inodes fs (file_inode fl))"

definition map_ready :: "filesys \<Rightarrow> inode \<Rightarrow> bool" where
  "map_ready fs ino \<longleftrightarrow> map_inode fs = Some ino \<and> wf_inode (fs_device fs) ino \<and> deny_write_cnt ino = 0
     \<and> inode_length ino = int (byte_cnt (bit_cnt (free_map fs)))"

definition wf_fs :: "filesys \<Rightarrow> bool" where
  "wf_fs fs \<longleftrightarrow> wf_bitmap (free_map fs) \<and> bit_cnt (free_map fs) = unat (bsize (fs_device fs))
     \<and> (\<exists>ino. map_ready fs ino \<and> content (fs_device fs) ino = concat (map le32 (bm_bits (free_map fs))))"

lemma byte_cnt_bits: "wf_bitmap b \<Longrightarrow> byte_cnt (bit_cnt b) = 4 * length (bm_bits b)"
proof -
  assume wf: "wf_bitmap b"
  then have "4 * ((bit_cnt b + 31) div 32) < 2 ^ 32" "bit_cnt b + 31 < 2 ^ 32"
    by (simp_all add: wf_bitmap_def) arith
  then show ?thesis
    using wf by (simp add: byte_cnt_def elem_cnt_def ELEM_BITS_def wf_bitmap_def add.commute)
qed

lemma map_inode_update [simp]: "map_inode (fs\<lparr>fs_device := d\<rparr>) = map_inode fs" "map_inode (fs\<lparr>free_map := b\<rparr>) = map_inode fs"
  by (simp_all add: map_inode_def cong: option.case_cong)

lemma transfer_all: "inode_length ino = int n \<Longrightarrow> transfer ino (int n) 0 = n"
  by (simp add: transfer_def)

lemma bitmap_write_any:
  assumes r: "map_ready fs ino" and b: "wf_bitmap b" "bit_cnt b = bit_cnt (free_map fs)"
  shows "\<exists>ok dev'. bitmap_write fs mok b (free_map_file fs) = Some (ok, fs\<lparr>fs_device := dev'\<rparr>) \<and> (mok \<longrightarrow> ok)
    \<and> (ok \<longrightarrow> content dev' ino = concat (map le32 (bm_bits b))) \<and> wf_inode dev' ino \<and> bsize dev' = bsize (fs_device fs)
    \<and> (\<forall>s. s \<notin> sector_set ino \<longrightarrow> sectors dev' s = sectors (fs_device fs) s)"
proof -
  let ?n = "byte_cnt (bit_cnt b)" and ?bs = "concat (map le32 (bm_bits b))"
  have n: "?n = length ?bs" and len: "inode_length ino = int ?n"
    using r b byte_cnt_bits [OF b(1)] by (simp_all add: map_ready_def)
  obtain fl where fl: "files fs (free_map_file fs) = Some fl" "inodes fs (file_inode fl) = Some ino"
    using r by (auto simp: map_ready_def map_inode_def split: if_splits option.splits)
  obtain m dev' where d: "inode_write_at fs (file_inode fl) mok ?bs (int ?n) 0 = Some (int m, fs\<lparr>fs_device := dev'\<rparr>)" "mok \<longrightarrow> m = ?n"
      "written (fs_device fs) ino 0 m (\<lambda>i. ?bs ! i) dev'"
    using inode_write_at_any [OF fl(2), of 0 "int ?n" ?bs mok] r n transfer_all [OF len] by (auto simp: map_ready_def)
  have "content dev' ino = ?bs" if "m = ?n"
    using content_written [OF d(3)] that n len by simp
  moreover have "wf_inode dev' ino"
    using wf_inode_written [OF _ d(3)] r by (simp add: map_ready_def)
  moreover have "sectors dev' s = sectors (fs_device fs) s" if "s \<notin> sector_set ino" for s
    using that d(3) by (auto simp: written_def sector_set_def)
  moreover have "bsize dev' = bsize (fs_device fs)"
    using d(3) by (simp add: written_def)
  moreover have "bitmap_write fs mok b (free_map_file fs) = Some (m = ?n, fs\<lparr>fs_device := dev'\<rparr>)"
    using d(1) fl(1) by (simp add: bitmap_write_def file_write_at_def)
  ultimately show ?thesis
    using d(2) by (intro exI [of _ "m = ?n"] exI [of _ dev']) simp
qed

lemma map_ready_update:
  assumes "map_ready fs ino" and "wf_inode dev' ino" and "bit_cnt b = bit_cnt (free_map fs)"
  shows "map_ready (fs\<lparr>fs_device := dev', free_map := b\<rparr>) ino"
  using assms by (simp add: map_ready_def)

lemma map_ready_map [simp]: "bit_cnt b = bit_cnt (free_map fs) \<Longrightarrow> map_ready (fs\<lparr>free_map := b\<rparr>) ino = map_ready fs ino"
  by (simp add: map_ready_def)

text \<open>What an allocation or a release does to everything but the free map.\<close>

definition map_step :: "filesys \<Rightarrow> filesys \<Rightarrow> bool" where
  "map_step fs fs' \<longleftrightarrow> (\<exists>dev b. fs' = fs\<lparr>fs_device := dev, free_map := b\<rparr> \<and> bsize dev = bsize (fs_device fs)
     \<and> (\<forall>ino. map_inode fs = Some ino \<longrightarrow> (\<forall>s. s \<notin> sector_set ino \<longrightarrow> sectors dev s = sectors (fs_device fs) s)))"

lemma write_map:
  assumes wf: "wf_fs fs" and b: "wf_bitmap b" "bit_cnt b = bit_cnt (free_map fs)"
  shows "\<exists>ok dev. bitmap_write (fs\<lparr>free_map := b\<rparr>) mok b (free_map_file fs) = Some (ok, fs\<lparr>free_map := b, fs_device := dev\<rparr>) \<and> (mok \<longrightarrow> ok)
    \<and> (ok \<longrightarrow> wf_fs (fs\<lparr>free_map := b, fs_device := dev\<rparr>)) \<and> (\<forall>b'. map_step fs (fs\<lparr>free_map := b', fs_device := dev\<rparr>))"
proof -
  obtain ino where r: "map_ready fs ino"
    using wf by (auto simp: wf_fs_def)
  have r': "map_ready (fs\<lparr>free_map := b\<rparr>) ino"
    using r b(2) by simp
  obtain ok dev where d: "bitmap_write (fs\<lparr>free_map := b\<rparr>) mok b (free_map_file fs) = Some (ok, fs\<lparr>free_map := b, fs_device := dev\<rparr>)" "mok \<longrightarrow> ok"
      "ok \<longrightarrow> content dev ino = concat (map le32 (bm_bits b))" "wf_inode dev ino" "bsize dev = bsize (fs_device fs)"
      "\<forall>s. s \<notin> sector_set ino \<longrightarrow> sectors dev s = sectors (fs_device fs) s"
    using bitmap_write_any [OF r' b(1), of mok] b(2) by auto
  have "map_ready (fs\<lparr>free_map := b, fs_device := dev\<rparr>) ino"
    using r d(4) b(2) by (simp add: map_ready_def)
  then have "wf_fs (fs\<lparr>free_map := b, fs_device := dev\<rparr>)" if ok
    using that wf b d(3,5) by (auto simp: wf_fs_def)
  moreover have "map_step fs (fs\<lparr>free_map := b', fs_device := dev\<rparr>)" for b'
    unfolding map_step_def using d(5,6) r by (intro exI [of _ dev] exI [of _ b']) (simp add: map_ready_def)
  ultimately show ?thesis
    using d(1,2) by blast
qed

lemma wf_fs_file: "wf_fs fs \<Longrightarrow> free_map_file fs \<noteq> 0"
  by (auto simp: wf_fs_def map_ready_def map_inode_def)

lemma map_step_refl: "map_step fs fs"
  unfolding map_step_def by (intro exI [of _ "fs_device fs"] exI [of _ "free_map fs"]) simp

text \<open>Whether there are \<open>n\<close> consecutive free sectors.\<close>

abbreviation room :: "filesys \<Rightarrow> nat \<Rightarrow> bool" where
  "room fs n \<equiv> \<exists>i. i + n \<le> bit_cnt (free_map fs) \<and> {i..<i + n} \<inter> used (free_map fs) = {}"

lemma free_map_allocate_any:
  assumes wf: "wf_fs fs"
  shows "\<exists>r fs'. free_map_allocate fs mok n = Some (r, fs') \<and> map_step fs fs' \<and> bit_cnt (free_map fs') = bit_cnt (free_map fs) \<and>
    (case r of None \<Rightarrow> used (free_map fs') = used (free_map fs) \<and> (mok \<longrightarrow> fs' = fs \<and> \<not> room fs n)
     | Some s \<Rightarrow> wf_fs fs' \<and> unat s + n \<le> bit_cnt (free_map fs) \<and> {unat s..<unat s + n} \<inter> used (free_map fs) = {}
         \<and> used (free_map fs') = used (free_map fs) \<union> {unat s..<unat s + n})"
proof -
  have wb: "wf_bitmap (free_map fs)"
    using wf by (simp add: wf_fs_def)
  obtain r b where a: "bitmap_alloc (free_map fs) n = Some (r, b)" "wf_bitmap b" "bit_cnt b = bit_cnt (free_map fs)"
      "case r of None \<Rightarrow> used b = used (free_map fs) \<and> \<not> room fs n
       | Some i \<Rightarrow> i + n \<le> bit_cnt (free_map fs) \<and> {i..<i + n} \<inter> used (free_map fs) = {} \<and> used b = used (free_map fs) \<union> {i..<i + n}"
    using bitmap_alloc_used [OF wb, of n] by blast
  obtain i where s: "bitmap_scan_and_flip (free_map fs) 0 n False = Some (i, b)" "r = (if i = BITMAP_ERROR then None else Some i)"
    using a(1) by (auto simp: bitmap_alloc_def)
  show ?thesis
  proof (cases "i = BITMAP_ERROR")
    case True
    have "b = free_map fs"
      using s(1) True by (auto simp: bitmap_scan_and_flip_def split: if_splits)
    then have "free_map_allocate fs mok n = Some (None, fs)"
      using s(1) True by (simp add: free_map_allocate_def)
    then show ?thesis
      using a(4) s(2) True map_step_refl by simp
  next
    case False
    then have i: "i + n \<le> bit_cnt (free_map fs)" "{i..<i + n} \<inter> used (free_map fs) = {}" "used b = used (free_map fs) \<union> {i..<i + n}"
      using a(4) s(2) by simp_all
    obtain ok dev where d: "bitmap_write (fs\<lparr>free_map := b\<rparr>) mok b (free_map_file fs) = Some (ok, fs\<lparr>free_map := b, fs_device := dev\<rparr>)" "mok \<longrightarrow> ok"
        "ok \<longrightarrow> wf_fs (fs\<lparr>free_map := b, fs_device := dev\<rparr>)" "\<And>b'. map_step fs (fs\<lparr>free_map := b', fs_device := dev\<rparr>)"
      using write_map [OF wf a(2,3), of mok] by blast
    show ?thesis
    proof (cases ok)
      case True
      then have "free_map_allocate fs mok n = Some (Some (word_of_nat i), fs\<lparr>free_map := b, fs_device := dev\<rparr>)"
        using s(1) False d(1) wf_fs_file [OF wf] by (simp add: free_map_allocate_def)
      moreover have "unat (word_of_nat i :: u32) = i"
        using i(1) wb by (simp add: unat_of_nat wf_bitmap_def)
      ultimately show ?thesis
        using d(3,4) i a(3) True by simp
    next
      case failed: False
      obtain b' where b': "bitmap_release b i n = Some b'" "bit_cnt b' = bit_cnt b" "used b' = used b - {i..<i + n}"
        using bitmap_release_used [OF a(2), of i n] i a(3) by auto
      then have "free_map_allocate fs mok n = Some (None, fs\<lparr>free_map := b', fs_device := dev\<rparr>)"
        using s(1) False d(1) failed wf_fs_file [OF wf] by (auto simp: free_map_allocate_def bitmap_release_def)
      moreover have "used b' = used (free_map fs)"
        using b'(3) i(2,3) by auto
      ultimately show ?thesis
        using d(2,4) failed b'(2) a(3) by simp
    qed
  qed
qed

lemma free_map_allocate_ok:
  assumes wf: "wf_fs fs"
  shows "\<exists>r fs'. free_map_allocate fs True n = Some (r, fs') \<and> wf_fs fs' \<and> map_step fs fs' \<and> bit_cnt (free_map fs') = bit_cnt (free_map fs) \<and>
    (case r of None \<Rightarrow> fs' = fs \<and> \<not> room fs n
     | Some s \<Rightarrow> unat s + n \<le> bit_cnt (free_map fs) \<and> {unat s..<unat s + n} \<inter> used (free_map fs) = {}
         \<and> used (free_map fs') = used (free_map fs) \<union> {unat s..<unat s + n})"
proof -
  obtain r fs' where a: "free_map_allocate fs True n = Some (r, fs')" "map_step fs fs'" "bit_cnt (free_map fs') = bit_cnt (free_map fs)"
      "case r of None \<Rightarrow> used (free_map fs') = used (free_map fs) \<and> (True \<longrightarrow> fs' = fs \<and> \<not> room fs n)
       | Some s \<Rightarrow> wf_fs fs' \<and> unat s + n \<le> bit_cnt (free_map fs) \<and> {unat s..<unat s + n} \<inter> used (free_map fs) = {}
         \<and> used (free_map fs') = used (free_map fs) \<union> {unat s..<unat s + n}"
    using free_map_allocate_any [OF wf, of True n] by blast
  then show ?thesis
    using wf by (intro exI [of _ r] exI [of _ fs']) (cases r; simp)
qed

lemma free_map_release_any:
  assumes wf: "wf_fs fs" and u: "{unat s..<unat s + n} \<subseteq> used (free_map fs)" and le: "unat s + n \<le> bit_cnt (free_map fs)"
  shows "\<exists>fs'. free_map_release fs mok s n = Some fs' \<and> (mok \<longrightarrow> wf_fs fs') \<and> map_step fs fs' \<and> bit_cnt (free_map fs') = bit_cnt (free_map fs)
    \<and> used (free_map fs') = used (free_map fs) - {unat s..<unat s + n}"
proof -
  have wb: "wf_bitmap (free_map fs)"
    using wf by (simp add: wf_fs_def)
  obtain b where b: "bitmap_release (free_map fs) (unat s) n = Some b" "wf_bitmap b" "bit_cnt b = bit_cnt (free_map fs)"
      "used b = used (free_map fs) - {unat s..<unat s + n}"
    using bitmap_release_used [OF wb u le] by blast
  obtain ok dev where d: "bitmap_write (fs\<lparr>free_map := b\<rparr>) mok b (free_map_file fs) = Some (ok, fs\<lparr>free_map := b, fs_device := dev\<rparr>)" "mok \<longrightarrow> ok"
      "ok \<longrightarrow> wf_fs (fs\<lparr>free_map := b, fs_device := dev\<rparr>)" "\<And>b'. map_step fs (fs\<lparr>free_map := b', fs_device := dev\<rparr>)"
    using write_map [OF wf b(2,3), of mok] by blast
  have "free_map_release fs mok s n = Some (fs\<lparr>free_map := b, fs_device := dev\<rparr>)"
    using b(1) d(1) by (auto simp: free_map_release_def bitmap_release_def)
  then show ?thesis
    using d(2-4) b by auto
qed

section \<open>The free map as an allocator\<close>

definition map_alloc :: "filesys \<Rightarrow> nat \<Rightarrow> (nat option \<times> filesys) option" where
  "map_alloc fs n = do { (r, fs) \<leftarrow> free_map_allocate fs True n; Some (map_option unat r, fs) }"

definition map_release :: "filesys \<Rightarrow> nat \<Rightarrow> nat \<Rightarrow> filesys option" where
  "map_release fs i n = free_map_release fs True (word_of_nat i) n"

interpretation fm: range_allocator wf_fs "\<lambda>fs. used (free_map fs)" "\<lambda>fs. bit_cnt (free_map fs)" map_alloc map_release
proof unfold_locales
  fix fs :: filesys and n :: nat
  assume "wf_fs fs" and "0 < n"
  then show "\<exists>r fs'. map_alloc fs n = Some (r, fs') \<and> wf_fs fs' \<and> bit_cnt (free_map fs') = bit_cnt (free_map fs) \<and>
      (case r of None \<Rightarrow> used (free_map fs') = used (free_map fs) \<and> \<not> (\<exists>i. i + n \<le> bit_cnt (free_map fs) \<and> {i..<i + n} \<inter> used (free_map fs) = {})
       | Some i \<Rightarrow> i + n \<le> bit_cnt (free_map fs) \<and> {i..<i + n} \<inter> used (free_map fs) = {} \<and> used (free_map fs') = used (free_map fs) \<union> {i..<i + n})"
  proof -
    obtain r fs' where "free_map_allocate fs True n = Some (r, fs')" "wf_fs fs'" "bit_cnt (free_map fs') = bit_cnt (free_map fs)"
        "case r of None \<Rightarrow> fs' = fs \<and> \<not> (\<exists>i. i + n \<le> bit_cnt (free_map fs) \<and> {i..<i + n} \<inter> used (free_map fs) = {})
         | Some s \<Rightarrow> unat s + n \<le> bit_cnt (free_map fs) \<and> {unat s..<unat s + n} \<inter> used (free_map fs) = {}
             \<and> used (free_map fs') = used (free_map fs) \<union> {unat s..<unat s + n}"
      using free_map_allocate_ok [OF \<open>wf_fs fs\<close>, of n] by blast
    then show ?thesis
      by (intro exI [of _ "map_option unat r"] exI [of _ fs']) (cases r; simp add: map_alloc_def)
  qed
next
  fix fs :: filesys and i n :: nat
  assume a: "wf_fs fs" "0 < n" "{i..<i + n} \<subseteq> used (free_map fs)" "i + n \<le> bit_cnt (free_map fs)"
  have "unat (word_of_nat i :: u32) = i"
    using a(1,4) by (simp add: unat_of_nat wf_fs_def wf_bitmap_def)
  then show "\<exists>fs'. map_release fs i n = Some fs' \<and> wf_fs fs' \<and> bit_cnt (free_map fs') = bit_cnt (free_map fs)
      \<and> used (free_map fs') = used (free_map fs) - {i..<i + n}"
    using free_map_release_any [OF a(1), of "word_of_nat i" n True] a unfolding map_release_def by auto
qed

section \<open>Reading the map back\<close>

lemma last_mask_bit: "k < 32 \<Longrightarrow> bit (last_mask b) k \<longleftrightarrow> bit_cnt b mod 32 = 0 \<or> k < bit_cnt b mod 32"
proof -
  assume k: "k < 32"
  have "push_bit n 1 - 1 = (mask n :: u32)" for n
    by (simp add: mask_eq_exp_minus_1 push_bit_eq_mult)
  then show ?thesis
    using k by (auto simp: last_mask_def Let_def ELEM_BITS_def bit_simps)
qed

lemma last_elem:
  assumes "j < n" and "j div 32 = (n - 1) div (32 :: nat)"
  shows "n mod 32 = 0 \<or> j mod 32 < n mod 32"
proof (cases "n mod 32 = 0")
  case False
  have n: "n = 32 * (n div 32) + n mod 32" and j: "j = 32 * (j div 32) + j mod 32"
    by simp_all
  have "n - 1 = (n mod 32 - 1) + n div 32 * 32"
    using n False by linarith
  then have "(n - 1) div 32 = ((n mod 32 - 1) + n div 32 * 32) div 32"
    by (rule arg_cong)
  also have "\<dots> = n div 32 + (n mod 32 - 1) div 32"
    by (rule div_mult_self1) simp
  also have "(n mod 32 - 1) div 32 = 0"
    by (rule div_less) (use mod_less_divisor [of 32 n] in linarith)
  finally have "j div 32 = n div 32"
    using assms(2) by simp
  then show ?thesis
    using assms(1) n j by linarith
qed simp

lemma masked_bits:
  assumes "wf_bitmap b" and "bit_cnt old = bit_cnt b" and "bit_cnt b \<noteq> 0"
  defines "k \<equiv> length (bm_bits b) - 1"
  shows "bits_of (old\<lparr>bm_bits := (bm_bits b)[k := bm_bits b ! k AND last_mask old]\<rparr>) = bits_of b"
proof (rule nth_equalityI)
  have k: "k = (bit_cnt b - 1) div 32" "k < length (bm_bits b)"
    using assms(1,3) by (simp_all add: k_def wf_bitmap_def)
  fix j
  assume "j < length (bits_of (old\<lparr>bm_bits := (bm_bits b)[k := bm_bits b ! k AND last_mask old]\<rparr>))"
  then have j: "j < bit_cnt b"
    using assms(2) by simp
  show "bits_of (old\<lparr>bm_bits := (bm_bits b)[k := bm_bits b ! k AND last_mask old]\<rparr>) ! j = bits_of b ! j"
  proof (cases "j div 32 = k")
    case True
    then have "bit_cnt b mod 32 = 0 \<or> j mod 32 < bit_cnt b mod 32"
      using last_elem [OF j] k(1) by simp
    then show ?thesis
      using True k(2) j assms(2) by (simp add: nth_bits_of bit_and_iff last_mask_bit)
  next
    case False
    then show ?thesis
      using j assms(2) by (simp add: nth_bits_of)
  qed
qed (use assms(2) in simp)

lemma bitmap_read_ok:
  assumes wf: "wf_fs fs" and old: "bit_cnt old = bit_cnt (free_map fs)" "wf_bitmap old"
  shows "\<exists>b fs'. bitmap_read fs True old (free_map_file fs) = Some (True, b, fs') \<and> bits_of b = bits_of (free_map fs)"
proof (cases "bit_cnt old = 0")
  case True
  then show ?thesis
    using old(1) by (simp add: bitmap_read_def bits_of_def)
next
  case False
  let ?b = "free_map fs" and ?n = "byte_cnt (bit_cnt old)"
  let ?k = "length (bm_bits ?b) - 1"
  obtain ino where i: "map_ready fs ino" "content (fs_device fs) ino = concat (map le32 (bm_bits ?b))" "wf_bitmap ?b"
    using wf by (auto simp: wf_fs_def)
  obtain fl where fl: "files fs (free_map_file fs) = Some fl" "inodes fs (file_inode fl) = Some ino"
    using i(1) by (auto simp: map_ready_def map_inode_def split: if_splits option.splits)
  have len: "length (bm_bits old) = length (bm_bits ?b)" "?n = 4 * length (bm_bits ?b)"
    using old i(3) byte_cnt_bits [OF old(2)] by (simp_all add: wf_bitmap_def)
  obtain fs' where r: "inode_read_at fs (file_inode fl) True (int ?n) 0 = Some (concat (map le32 (bm_bits ?b)), fs')"
    using inode_read_at_ok [OF fl(2), of 0 "int ?n"] i(1,2) len by (auto simp: map_ready_def)
  have k: "elem_cnt (bit_cnt old) - 1 = ?k" "?k < length (bm_bits ?b)"
    using False old(2) len(1) by (simp_all add: elem_cnt_def ELEM_BITS_def wf_bitmap_def)
  have "bitmap_read fs True old (free_map_file fs) = Some (True, old\<lparr>bm_bits := (bm_bits ?b)[?k := bm_bits ?b ! ?k AND last_mask old]\<rparr>, fs')"
    using False fl(1) r len k read_elems_words [OF len(1)] by (simp add: bitmap_read_def file_read_at_def Let_def)
  then show ?thesis
    using masked_bits [OF i(3) old(1)] False old(1) by simp
qed

text \<open>Reading the free map file gives the map in memory.\<close>

abbreviation on_disk :: "bitmap \<Rightarrow> filesys \<Rightarrow> bool" where
  "on_disk old fs \<equiv> \<exists>b fs'. bitmap_read fs True old (free_map_file fs) = Some (True, b, fs') \<and> bits_of b = bits_of (free_map fs)"

text \<open>
  C26: the free map on the disk.  An allocation takes sectors that were free, and then reading the free
  map file gives exactly the map in memory; one that fails leaves the map in memory as it was, and
  fails for lack of space only, unless the bounce buffer could not be allocated.  A release gives
  back exactly its sectors, and when the bounce buffer was there, reading the file gives the map in memory again.
\<close>

theorem free_map_persistent:
  assumes wf: "wf_fs fs" and old: "bit_cnt old = bit_cnt (free_map fs)" "wf_bitmap old"
  shows "(\<exists>r fs'. free_map_allocate fs mok n = Some (r, fs') \<and> (mok \<longrightarrow> wf_fs fs' \<and> on_disk old fs') \<and>
      (case r of None \<Rightarrow> used (free_map fs') = used (free_map fs) \<and> (mok \<longrightarrow> \<not> room fs n)
       | Some s \<Rightarrow> wf_fs fs' \<and> on_disk old fs' \<and> unat s + n \<le> bit_cnt (free_map fs) \<and> {unat s..<unat s + n} \<inter> used (free_map fs) = {}
           \<and> used (free_map fs') = used (free_map fs) \<union> {unat s..<unat s + n}))
    \<and> ({unat s..<unat s + n} \<subseteq> used (free_map fs) \<and> unat s + n \<le> bit_cnt (free_map fs) \<longrightarrow>
        (\<exists>fs'. free_map_release fs mok s n = Some fs' \<and> used (free_map fs') = used (free_map fs) - {unat s..<unat s + n}
           \<and> (mok \<longrightarrow> wf_fs fs' \<and> on_disk old fs')))"
proof -
  have disk: "on_disk old fs'" if "wf_fs fs'" "bit_cnt (free_map fs') = bit_cnt (free_map fs)" for fs'
    using bitmap_read_ok [OF that(1), of old] that(2) old by simp
  obtain r fs' where a: "free_map_allocate fs mok n = Some (r, fs')" "bit_cnt (free_map fs') = bit_cnt (free_map fs)"
      "case r of None \<Rightarrow> used (free_map fs') = used (free_map fs) \<and> (mok \<longrightarrow> fs' = fs \<and> \<not> room fs n)
       | Some s \<Rightarrow> wf_fs fs' \<and> unat s + n \<le> bit_cnt (free_map fs) \<and> {unat s..<unat s + n} \<inter> used (free_map fs) = {}
         \<and> used (free_map fs') = used (free_map fs) \<union> {unat s..<unat s + n}"
    using free_map_allocate_any [OF wf, of mok n] by blast
  have "wf_fs fs'" if "mok \<or> r \<noteq> None"
    using a(3) that wf by (auto split: option.splits)
  then have 1: "mok \<longrightarrow> wf_fs fs' \<and> on_disk old fs'" "r \<noteq> None \<longrightarrow> on_disk old fs'"
    using disk a(2) by blast+
  show ?thesis
    using a(1,3) 1 free_map_release_any [OF wf, of s n mok] disk by (auto split: option.splits)
qed

end
