(* ===== verification/Directory.thy ===== *)
theory Directory
  imports Free_Map
begin

text \<open>
  Directories and the file system calls: \<open>filesys/directory.c\<close> and \<open>filesys/filesys.c\<close>.  A name
  is a C string, the sequence of its characters without the terminator.  An entry is the
  20 bytes of a \<open>struct dir_entry\<close>; \<open>junk\<close> is what the stack holds where one is declared.
\<close>

section \<open>Directory entries\<close>

definition NAME_MAX :: nat where "NAME_MAX = 14"

record dir =
  dir_inode :: u32
  dir_pos :: int

definition entry_sector :: "u8 list \<Rightarrow> u32" where
  "entry_sector e = get32 e"

definition entry_name :: "u8 list \<Rightarrow> u8 list" where
  "entry_name e = takeWhile (\<lambda>b. b \<noteq> 0) (take (NAME_MAX + 1) (drop 4 e))"

definition entry_used :: "u8 list \<Rightarrow> bool" where
  "entry_used e \<longleftrightarrow> e ! 19 \<noteq> 0"

text \<open>Comparison of a name with the characters in memory; past the end of the entry there is nothing.\<close>

fun same_name :: "u8 list \<Rightarrow> u8 list \<Rightarrow> bool option" where
  "same_name nm [] = None"
| "same_name [] (b # bs) = Some (b = 0)"
| "same_name (c # cs) (b # bs) = (if b = c then same_name cs bs else Some False)"

text \<open>The entry as \<open>dir_add\<close> fills it in; the bytes behind the name keep what was there.\<close>

definition fill_entry :: "u8 list \<Rightarrow> u8 list \<Rightarrow> u32 \<Rightarrow> u8 list" where
  "fill_entry e nm sec = le32 sec @ (nm @ [0]) @ drop (length nm + 1) (take (NAME_MAX + 1) (drop 4 e)) @ [1]"

section \<open>Directories\<close>

definition dir_create :: "filesys \<Rightarrow> bool \<Rightarrow> bool \<Rightarrow> u32 \<Rightarrow> nat \<Rightarrow> (bool \<times> filesys) option" where
  "dir_create fs cok mok sec entry_cnt = inode_create fs cok mok sec (s32 (int (size_wrap (entry_cnt * 20))))"

text \<open>\<open>dok\<close> says whether \<open>calloc\<close> finds memory for the directory.\<close>

definition dir_open :: "filesys \<Rightarrow> bool \<Rightarrow> bool \<Rightarrow> u32 \<Rightarrow> (dir option \<times> filesys) option" where
  "dir_open fs dok mok p =
     (if p \<noteq> 0 \<and> dok then Some (Some \<lparr>dir_inode = p, dir_pos = 0\<rparr>, fs)
      else do { fs \<leftarrow> inode_close fs mok p; Some (None, fs) })"

definition dir_open_root :: "filesys \<Rightarrow> bool \<Rightarrow> bool \<Rightarrow> u32 \<Rightarrow> (dir option \<times> filesys) option" where
  "dir_open_root fs dok mok p = do { (q, fs) \<leftarrow> inode_open fs p ROOT_DIR_SECTOR; dir_open fs dok mok q }"

definition dir_reopen :: "filesys \<Rightarrow> bool \<Rightarrow> bool \<Rightarrow> dir \<Rightarrow> (dir option \<times> filesys) option" where
  "dir_reopen fs dok mok d = do { (q, fs) \<leftarrow> inode_reopen fs (dir_inode d); dir_open fs dok mok q }"

definition dir_close :: "filesys \<Rightarrow> bool \<Rightarrow> dir option \<Rightarrow> filesys option" where
  "dir_close fs mok d = (case d of None \<Rightarrow> Some fs | Some d \<Rightarrow> inode_close fs mok (dir_inode d))"

definition dir_get_inode :: "dir \<Rightarrow> u32" where
  "dir_get_inode d = dir_inode d"

text \<open>The entry found, with its offset, or nothing.\<close>

partial_function (option) lookup_loop ::
    "bool \<Rightarrow> dir \<Rightarrow> u8 list \<Rightarrow> filesys \<Rightarrow> int \<Rightarrow> ((u8 list \<times> int) option \<times> filesys) option" where
  "lookup_loop mok d nm fs ofs = do {
     (e, fs) \<leftarrow> inode_read_at fs (dir_inode d) mok 20 ofs;
     if length e = 20
     then do {
       found \<leftarrow> (if entry_used e then same_name nm (drop 4 e) else Some False);
       if found then Some (Some (e, ofs), fs) else lookup_loop mok d nm fs (ofs + 20)
     }
     else Some (None, fs)
   }"

definition lookup :: "filesys \<Rightarrow> bool \<Rightarrow> dir \<Rightarrow> u8 list \<Rightarrow> ((u8 list \<times> int) option \<times> filesys) option" where
  "lookup fs mok d nm = lookup_loop mok d nm fs 0"

definition dir_lookup :: "filesys \<Rightarrow> bool \<Rightarrow> dir \<Rightarrow> u8 list \<Rightarrow> u32 \<Rightarrow> (u32 \<times> filesys) option" where
  "dir_lookup fs mok d nm p = do {
     (r, fs) \<leftarrow> lookup fs mok d nm;
     (case r of Some (e, _) \<Rightarrow> inode_open fs p (entry_sector e) | None \<Rightarrow> Some (0, fs))
   }"

text \<open>The search for a free slot, with the contents of the buffer.\<close>

partial_function (option) free_slot_loop ::
    "bool \<Rightarrow> dir \<Rightarrow> filesys \<Rightarrow> u8 list \<Rightarrow> int \<Rightarrow> (u8 list \<times> int \<times> filesys) option" where
  "free_slot_loop mok d fs e ofs = do {
     (bs, fs) \<leftarrow> inode_read_at fs (dir_inode d) mok 20 ofs;
     let e = bs @ drop (length bs) e;
     if length bs = 20 \<and> entry_used e then free_slot_loop mok d fs e (ofs + 20) else Some (e, ofs, fs)
   }"

definition dir_add :: "filesys \<Rightarrow> bool \<Rightarrow> u8 list \<Rightarrow> dir \<Rightarrow> u8 list \<Rightarrow> u32 \<Rightarrow> (bool \<times> filesys) option" where
  "dir_add fs mok junk d nm sec =
     (if nm = [] \<or> length nm > NAME_MAX then Some (False, fs)
      else do {
        (r, fs) \<leftarrow> lookup fs mok d nm;
        if r \<noteq> None then Some (False, fs)
        else do {
          (e, ofs, fs) \<leftarrow> free_slot_loop mok d fs junk 0;
          (n, fs) \<leftarrow> inode_write_at fs (dir_inode d) mok (fill_entry e nm sec) 20 ofs;
          Some (n = 20, fs)
        }
      })"

definition dir_remove :: "filesys \<Rightarrow> bool \<Rightarrow> dir \<Rightarrow> u8 list \<Rightarrow> u32 \<Rightarrow> (bool \<times> filesys) option" where
  "dir_remove fs mok d nm p = do {
     (r, fs) \<leftarrow> lookup fs mok d nm;
     (case r of
        None \<Rightarrow> Some (False, fs)
      | Some (e, ofs) \<Rightarrow> do {
          (q, fs) \<leftarrow> inode_open fs p (entry_sector e);
          if q = 0 then Some (False, fs)
          else do {
            (n, fs) \<leftarrow> inode_write_at fs (dir_inode d) mok (e[19 := 0]) 20 ofs;
            if n \<noteq> 20 then do { fs \<leftarrow> inode_close fs mok q; Some (False, fs) }
            else do { fs \<leftarrow> inode_remove fs q; fs \<leftarrow> inode_close fs mok q; Some (True, fs) }
          }
        })
   }"

partial_function (option) dir_readdir :: "bool \<Rightarrow> filesys \<Rightarrow> dir \<Rightarrow> (u8 list option \<times> dir \<times> filesys) option" where
  "dir_readdir mok fs d = do {
     (e, fs) \<leftarrow> inode_read_at fs (dir_inode d) mok 20 (dir_pos d);
     if length e = 20
     then do {
       let d = d\<lparr>dir_pos := dir_pos d + 20\<rparr>;
       if entry_used e
       then do { ASSERT (0 \<in> set (take (NAME_MAX + 1) (drop 4 e))); Some (Some (entry_name e), d, fs) }
       else dir_readdir mok fs d
     }
     else Some (None, d, fs)
   }"

section \<open>The file system\<close>

definition do_format :: "filesys \<Rightarrow> bool \<Rightarrow> bool \<Rightarrow> u32 \<Rightarrow> u32 \<Rightarrow> filesys option" where
  "do_format fs cok mok p f = do {
     fs \<leftarrow> free_map_create fs cok mok p f;
     (ok, fs) \<leftarrow> dir_create fs cok mok ROOT_DIR_SECTOR 16;
     ASSERT ok;
     free_map_close fs mok
   }"

text \<open>\<open>dev\<close> is the device with the role, \<open>bm\<close> the new bitmap; the addresses are those of the two openings.\<close>

definition filesys_init ::
    "filesys \<Rightarrow> block_dev option \<Rightarrow> bitmap option \<Rightarrow> bool \<Rightarrow> bool \<Rightarrow> bool \<Rightarrow> u32 \<times> u32 \<Rightarrow> u32 \<times> u32 \<Rightarrow> filesys option" where
  "filesys_init fs dev bm format cok mok a b = do {
     dev \<leftarrow> dev;
     let fs = inode_init (fs\<lparr>fs_device := dev\<rparr>);
     fs \<leftarrow> free_map_init fs bm;
     fs \<leftarrow> (if format then do_format fs cok mok (fst a) (snd a) else Some fs);
     free_map_open fs mok (fst b) (snd b)
   }"

definition filesys_done :: "filesys \<Rightarrow> bool \<Rightarrow> filesys option" where
  "filesys_done fs mok = free_map_close fs mok"

definition filesys_create ::
    "filesys \<Rightarrow> bool \<Rightarrow> bool \<Rightarrow> bool \<Rightarrow> u32 \<Rightarrow> u8 list \<Rightarrow> u8 list \<Rightarrow> int \<Rightarrow> (bool \<times> filesys) option" where
  "filesys_create fs dok cok mok p junk nm initial_size = do {
     (d, fs) \<leftarrow> dir_open_root fs dok mok p;
     (success, inode_sector, fs) \<leftarrow>
       (case d of None \<Rightarrow> Some (False, 0, fs)
        | Some dr \<Rightarrow> do {
            (r, fs) \<leftarrow> free_map_allocate fs mok 1;
            (case r of None \<Rightarrow> Some (False, 0, fs)
             | Some sec \<Rightarrow> do {
                 (ok, fs) \<leftarrow> inode_create fs cok mok sec initial_size;
                 if \<not> ok then Some (False, sec, fs)
                 else do { (ok, fs) \<leftarrow> dir_add fs mok junk dr nm sec; Some (ok, sec, fs) }
               })
          });
     fs \<leftarrow> (if \<not> success \<and> inode_sector \<noteq> 0 then free_map_release fs mok inode_sector 1 else Some fs);
     fs \<leftarrow> dir_close fs mok d;
     Some (success, fs)
   }"

definition filesys_open :: "filesys \<Rightarrow> bool \<Rightarrow> bool \<Rightarrow> u32 \<Rightarrow> u32 \<Rightarrow> u32 \<Rightarrow> u8 list \<Rightarrow> (u32 \<times> filesys) option" where
  "filesys_open fs dok mok p q f nm = do {
     (d, fs) \<leftarrow> dir_open_root fs dok mok p;
     (i, fs) \<leftarrow> (case d of None \<Rightarrow> Some (0, fs) | Some dr \<Rightarrow> dir_lookup fs mok dr nm q);
     fs \<leftarrow> dir_close fs mok d;
     file_open fs mok f i
   }"

definition filesys_remove :: "filesys \<Rightarrow> bool \<Rightarrow> bool \<Rightarrow> u32 \<Rightarrow> u32 \<Rightarrow> u8 list \<Rightarrow> (bool \<times> filesys) option" where
  "filesys_remove fs dok mok p q nm = do {
     (d, fs) \<leftarrow> dir_open_root fs dok mok p;
     (ok, fs) \<leftarrow> (case d of None \<Rightarrow> Some (False, fs) | Some dr \<Rightarrow> dir_remove fs mok dr nm q);
     fs \<leftarrow> dir_close fs mok d;
     Some (ok, fs)
   }"

end
