(* ===== verification/Directory_Correct.thy ===== *)
theory Directory_Correct
  imports Directory
begin

text \<open>
  A directory as a finite map from names to sectors: looking a name up gives its sector,
  adding a name extends the map by exactly that name, or fails and leaves the map alone.
\<close>

section \<open>The map of a directory\<close>

definition entry :: "u8 list \<Rightarrow> nat \<Rightarrow> u8 list" where
  "entry C k = take 20 (drop (20 * k) C)"

definition slots :: "u8 list \<Rightarrow> nat" where
  "slots C = length C div 20"

definition matches :: "u8 list \<Rightarrow> u8 list \<Rightarrow> bool" where
  "matches nm e \<longleftrightarrow> entry_used e \<and> entry_name e = nm"

text \<open>The first slot with a property, from slot \<open>k\<close> on.\<close>

definition first_slot :: "(u8 list \<Rightarrow> bool) \<Rightarrow> u8 list \<Rightarrow> nat \<Rightarrow> nat option" where
  "first_slot P C k = find (\<lambda>i. P (entry C i)) [k..<slots C]"

definition dir_map :: "u8 list \<Rightarrow> u8 list \<Rightarrow> u32 option" where
  "dir_map C nm = map_option (\<lambda>i. entry_sector (entry C i)) (first_slot (matches nm) C 0)"

text \<open>The names in use are terminated, and no two are equal.\<close>

definition wf_dir :: "u8 list \<Rightarrow> bool" where
  "wf_dir C \<longleftrightarrow> (\<forall>i < slots C. entry_used (entry C i) \<longrightarrow> 0 \<in> set (take 15 (drop 4 (entry C i))))
     \<and> (\<forall>i < slots C. \<forall>j < slots C. entry_used (entry C i) \<longrightarrow> entry_used (entry C j)
          \<longrightarrow> entry_name (entry C i) = entry_name (entry C j) \<longrightarrow> i = j)"

lemma entry_length: "length (entry C k) = 20 \<longleftrightarrow> k < slots C"
proof -
  have "length (entry C k) = 20 \<longleftrightarrow> 20 * k + 20 \<le> length C"
    by (auto simp: entry_def min_def)
  also have "\<dots> \<longleftrightarrow> k < slots C"
    unfolding slots_def Suc_le_eq [symmetric] by (simp add: less_eq_div_iff_mult_less_eq algebra_simps)
  finally show ?thesis .
qed

lemma same_name_iff:
  "0 \<in> set (take n bs) \<Longrightarrow> 0 \<notin> set nm \<Longrightarrow> same_name nm bs = Some (takeWhile (\<lambda>b. b \<noteq> 0) (take n bs) = nm)"
proof (induction nm bs arbitrary: n rule: same_name.induct)
  case (2 b bs)
  then show ?case
    by (cases n) auto
next
  case (3 c cs b bs)
  then obtain m where n: "n = Suc m"
    by (cases n) auto
  show ?case
    using 3 n by (cases "b = 0") auto
qed simp

lemma same_name_matches:
  assumes "wf_dir C" and "k < slots C" and "0 \<notin> set nm"
  shows "(if entry_used (entry C k) then same_name nm (drop 4 (entry C k)) else Some False) = Some (matches nm (entry C k))"
  using assms same_name_iff [of 15 "drop 4 (entry C k)" nm] by (auto simp: wf_dir_def matches_def entry_name_def NAME_MAX_def)

lemma first_slot_step:
  assumes "k < slots C"
  shows "first_slot P C k = (if P (entry C k) then Some k else first_slot P C (Suc k))"
  using assms by (simp add: first_slot_def upt_conv_Cons)

lemma first_slot_end: "slots C \<le> k \<Longrightarrow> first_slot P C k = None"
  by (simp add: first_slot_def)

lemma find_SomeD: "find Q xs = Some x \<Longrightarrow> x \<in> set xs \<and> Q x"
  by (induction xs) (auto split: if_splits)

lemma first_slot_SomeD: "first_slot P C 0 = Some i \<Longrightarrow> i < slots C \<and> P (entry C i)"
  using find_SomeD by (fastforce simp: first_slot_def)

lemma first_slot_None: "first_slot P C 0 = None \<longleftrightarrow> (\<forall>i < slots C. \<not> P (entry C i))"
  by (auto simp: first_slot_def find_None_iff)

section \<open>Looking up\<close>

text \<open>An open directory with contents \<open>C\<close>.\<close>

definition dir_at :: "filesys \<Rightarrow> dir \<Rightarrow> inode \<Rightarrow> u8 list \<Rightarrow> bool" where
  "dir_at fs d ino C \<longleftrightarrow> inodes fs (dir_inode d) = Some ino \<and> wf_inode (fs_device fs) ino \<and> content (fs_device fs) ino = C"

text \<open>Only the statistics of the device differ.\<close>

definition same_fs :: "filesys \<Rightarrow> filesys \<Rightarrow> bool" where
  "same_fs fs fs' \<longleftrightarrow> (\<exists>c. fs' = fs\<lparr>fs_device := (fs_device fs)\<lparr>read_cnt := c\<rparr>\<rparr>)"

lemma same_fs_refl: "same_fs fs fs"
  unfolding same_fs_def by (intro exI [of _ "read_cnt (fs_device fs)"]) simp

lemma same_fs_trans: "same_fs fs fs1 \<Longrightarrow> same_fs fs1 fs2 \<Longrightarrow> same_fs fs fs2"
  by (auto simp: same_fs_def)

lemma content_read_cnt [simp]: "content (dev\<lparr>read_cnt := c\<rparr>) ino = content dev ino"
  by (simp add: content_def)

lemma dir_at_same: "same_fs fs fs' \<Longrightarrow> dir_at fs' d ino C \<longleftrightarrow> dir_at fs d ino C"
  by (auto simp: same_fs_def dir_at_def)

lemma dir_at_length: "dir_at fs d ino C \<Longrightarrow> length C < 2 ^ 31"
  using inode_length_bound [of ino] by (auto simp: dir_at_def)

lemma read_entry:
  assumes "dir_at fs d ino C" and "k \<le> slots C"
  shows "\<exists>fs'. inode_read_at fs (dir_inode d) True 20 (int (20 * k)) = Some (entry C k, fs') \<and> same_fs fs fs'"
proof -
  have "20 * k \<le> length C"
    using assms(2) unfolding slots_def by (metis div_times_less_eq_dividend dual_order.trans mult.commute mult_le_mono1)
  then have "int (20 * k) < 2 ^ 31"
    using dir_at_length [OF assms(1)] by simp
  then show ?thesis
    using inode_read_at_ok [of fs "dir_inode d" ino "int (20 * k)" 20] assms(1)
    unfolding dir_at_def same_fs_def entry_def by (auto simp: nat_mult_distrib)
qed

lemma lookup_loop_ok:
  assumes "dir_at fs d ino C" and "wf_dir C" and "0 \<notin> set nm" and "k \<le> slots C"
  shows "\<exists>fs'. lookup_loop True d nm fs (int (20 * k)) = Some (map_option (\<lambda>i. (entry C i, int (20 * i))) (first_slot (matches nm) C k), fs')
    \<and> same_fs fs fs'"
  using assms
proof (induction "slots C - k" arbitrary: fs k)
  case 0
  obtain fs' where r: "inode_read_at fs (dir_inode d) True 20 (int (20 * k)) = Some (entry C k, fs')" "same_fs fs fs'"
    using read_entry [OF 0(2,5)] by blast
  have "length (entry C k) \<noteq> 20" "first_slot (matches nm) C k = None"
    using 0(1) entry_length [of C k] first_slot_end [of C k] by simp_all
  then show ?case
    using r by (subst lookup_loop.simps) simp
next
  case (Suc n)
  obtain fs1 where r: "inode_read_at fs (dir_inode d) True 20 (int (20 * k)) = Some (entry C k, fs1)" "same_fs fs fs1"
    using read_entry [OF Suc.prems(1,4)] by blast
  have k: "k < slots C"
    using Suc(2) by simp
  have l: "length (entry C k) = 20"
    using k entry_length by blast
  have n: "n = slots C - Suc k"
    using Suc(2) k by arith
  note sn = same_name_matches [OF Suc.prems(2) k Suc.prems(3)]
  show ?case
  proof (cases "matches nm (entry C k)")
    case True
    then show ?thesis
      using r l sn first_slot_step [OF k, of "matches nm"] by (subst lookup_loop.simps) simp
  next
    case False
    have "dir_at fs1 d ino C"
      using dir_at_same [OF r(2)] Suc.prems(1) by simp
    then obtain fs2 where i: "lookup_loop True d nm fs1 (int (20 * Suc k))
          = Some (map_option (\<lambda>i. (entry C i, int (20 * i))) (first_slot (matches nm) C (Suc k)), fs2)" "same_fs fs1 fs2"
      using Suc.hyps(1) [of "Suc k" fs1] n Suc.prems k by auto
    have "int (20 * k) + 20 = int (20 * Suc k)"
      by simp
    then have "lookup_loop True d nm fs (int (20 * k)) = lookup_loop True d nm fs1 (int (20 * Suc k))"
      using r l sn False by (subst lookup_loop.simps) (simp del: of_nat_mult mult_Suc_right)
    then show ?thesis
      using i first_slot_step [OF k, of "matches nm"] False same_fs_trans [OF r(2)] by auto
  qed
qed

lemma lookup_ok:
  assumes "dir_at fs d ino C" and "wf_dir C" and "0 \<notin> set nm"
  shows "\<exists>fs'. lookup fs True d nm = Some (map_option (\<lambda>i. (entry C i, int (20 * i))) (first_slot (matches nm) C 0), fs') \<and> same_fs fs fs'"
  using lookup_loop_ok [OF assms, of 0] by (simp add: lookup_def)

lemma dir_map_iff:
  assumes "wf_dir C"
  shows "dir_map C nm = Some s \<longleftrightarrow> (\<exists>i < slots C. matches nm (entry C i) \<and> s = entry_sector (entry C i))"
proof
  assume "dir_map C nm = Some s"
  then show "\<exists>i < slots C. matches nm (entry C i) \<and> s = entry_sector (entry C i)"
    using first_slot_SomeD by (auto simp: dir_map_def)
next
  assume "\<exists>i < slots C. matches nm (entry C i) \<and> s = entry_sector (entry C i)"
  then obtain i where i: "i < slots C" "matches nm (entry C i)" "s = entry_sector (entry C i)"
    by blast
  then obtain j where j: "first_slot (matches nm) C 0 = Some j"
    using first_slot_None [of "matches nm" C] by (cases "first_slot (matches nm) C 0") auto
  then have "j = i"
    using first_slot_SomeD [OF j] i assms unfolding wf_dir_def matches_def by metis
  then show "dir_map C nm = Some s"
    using j i(3) by (simp add: dir_map_def)
qed

section \<open>Adding\<close>

lemma free_slot_loop_ok:
  assumes "dir_at fs d ino C" and "k \<le> slots C" and "length e = 20"
  shows "\<exists>e' j fs'. free_slot_loop True d fs e (int (20 * k)) = Some (e', int (20 * j), fs') \<and> same_fs fs fs' \<and> length e' = 20
    \<and> (j < slots C \<and> e' = entry C j \<and> \<not> entry_used (entry C j) \<or> j = slots C \<and> (\<forall>i. k \<le> i \<and> i < slots C \<longrightarrow> entry_used (entry C i)))"
  using assms
proof (induction "slots C - k" arbitrary: fs k e)
  case 0
  obtain fs' where r: "inode_read_at fs (dir_inode d) True 20 (int (20 * k)) = Some (entry C k, fs')" "same_fs fs fs'"
    using read_entry [OF 0(2,3)] by blast
  have k: "k = slots C" and l: "length (entry C k) \<noteq> 20" "length (entry C k) \<le> 20"
    using 0 entry_length [of C k] by (simp_all add: entry_def)
  have "free_slot_loop True d fs e (int (20 * k)) = Some (entry C k @ drop (length (entry C k)) e, int (20 * k), fs')"
    using r l by (subst free_slot_loop.simps) (simp add: Let_def)
  moreover have "length (entry C k @ drop (length (entry C k)) e) = 20"
    using l 0(4) by simp
  ultimately show ?case
    using r(2) k by (intro exI [of _ "entry C k @ drop (length (entry C k)) e"] exI [of _ k] exI [of _ fs']) auto
next
  case (Suc n)
  obtain fs1 where r: "inode_read_at fs (dir_inode d) True 20 (int (20 * k)) = Some (entry C k, fs1)" "same_fs fs fs1"
    using read_entry [OF Suc.prems(1,2)] by blast
  have k: "k < slots C"
    using Suc(2) by simp
  have n: "n = slots C - Suc k"
    using Suc(2) k by arith
  have l: "length (entry C k) = 20"
    using k entry_length by blast
  show ?case
  proof (cases "entry_used (entry C k)")
    case False
    then have "free_slot_loop True d fs e (int (20 * k)) = Some (entry C k, int (20 * k), fs1)"
      using r l Suc.prems(3) by (subst free_slot_loop.simps) (simp add: Let_def)
    then show ?thesis
      using r(2) k l False by blast
  next
    case True
    have "dir_at fs1 d ino C"
      using dir_at_same [OF r(2)] Suc.prems(1) by simp
    then obtain e' j fs2 where i: "free_slot_loop True d fs1 (entry C k) (int (20 * Suc k)) = Some (e', int (20 * j), fs2)" "same_fs fs1 fs2"
        "length e' = 20" "j < slots C \<and> e' = entry C j \<and> \<not> entry_used (entry C j) \<or> j = slots C \<and> (\<forall>i. Suc k \<le> i \<and> i < slots C \<longrightarrow> entry_used (entry C i))"
      using Suc.hyps(1) [of "Suc k" fs1 "entry C k"] n k l by auto
    have "int (20 * k) + 20 = int (20 * Suc k)"
      by simp
    then have "free_slot_loop True d fs e (int (20 * k)) = free_slot_loop True d fs1 (entry C k) (int (20 * Suc k))"
      using r l True Suc.prems(3) by (subst free_slot_loop.simps) (simp add: Let_def del: of_nat_mult mult_Suc_right)
    moreover have "j = slots C \<and> (\<forall>i. Suc k \<le> i \<and> i < slots C \<longrightarrow> entry_used (entry C i)) \<Longrightarrow>
        j = slots C \<and> (\<forall>i. k \<le> i \<and> i < slots C \<longrightarrow> entry_used (entry C i))"
      using True by (metis Suc_leI le_neq_implies_less)
    ultimately show ?thesis
      using i same_fs_trans [OF r(2) i(2)] by metis
  qed
qed

lemma entry_update:
  assumes "j < slots C" and "length E = 20"
  defines "C' \<equiv> take (20 * j) C @ E @ drop (20 * j + 20) C"
  shows "slots C' = slots C" and "i < slots C \<Longrightarrow> entry C' i = (if i = j then E else entry C i)"
proof -
  have j: "20 * j + 20 \<le> length C"
    using assms(1) entry_length [of C j] by (auto simp: entry_def min_def split: if_splits)
  have len: "length C' = length C"
    using j assms(2) by (simp add: C'_def)
  then show "slots C' = slots C"
    by (simp add: slots_def)
  show "entry C' i = (if i = j then E else entry C i)" if i: "i < slots C"
  proof (rule nth_equalityI)
    have le: "20 * i + 20 \<le> length C"
      using i entry_length [of C i] by (auto simp: entry_def min_def split: if_splits)
    then show "length (entry C' i) = length (if i = j then E else entry C i)"
      using len assms(2) by (simp add: entry_def)
    fix m
    assume "m < length (entry C' i)"
    then have m: "m < 20" "20 * i + m < length C"
      using le by (simp_all add: entry_def)
    have e: "entry C' i ! m = C' ! (20 * i + m)" "entry C i ! m = C ! (20 * i + m)"
      using m len by (simp_all add: entry_def)
    consider "i = j" | "i < j" | "j < i"
      by linarith
    then show "entry C' i ! m = (if i = j then E else entry C i) ! m"
    proof cases
      case 1
      then show ?thesis
        using e(1) m j assms(2) by (simp add: C'_def nth_append)
    next
      case 2
      then have "20 * i + m < 20 * j"
        using m by simp
      then show ?thesis
        using e 2 j m by (simp add: C'_def nth_append)
    next
      case 3
      then have "20 * j + 20 \<le> 20 * i + m"
        using m by simp
      moreover have "C' = (take (20 * j) C @ E) @ drop (20 * j + 20) C" "length (take (20 * j) C @ E) = 20 * j + 20"
        using j assms(2) by (simp_all add: C'_def)
      ultimately have "C' ! (20 * i + m) = C ! (20 * i + m)"
        using m(2) by (simp add: nth_append_right del: append_assoc)
      then show ?thesis
        using e 3 by simp
    qed
  qed
qed

lemma entry_tail:
  assumes "length E = length C - 20 * slots C"
  defines "C' \<equiv> take (20 * slots C) C @ E"
  shows "slots C' = slots C" and "i < slots C \<Longrightarrow> entry C' i = entry C i"
proof -
  have s: "20 * slots C \<le> length C"
    by (simp add: slots_def)
  then have "length C' = length C"
    using assms(1) by (simp add: C'_def)
  then show "slots C' = slots C"
    by (simp add: slots_def)
  assume "i < slots C"
  then have i: "20 * i + 20 \<le> 20 * slots C"
    by simp
  have "entry C' i = take 20 (drop (20 * i) (take (20 * slots C) C))"
    using s i by (simp add: entry_def C'_def)
  also have "\<dots> = entry C i"
    using i by (simp add: entry_def drop_take)
  finally show "entry C' i = entry C i" .
qed

lemma fill_entry_facts:
  assumes "length e = 20" and "length nm \<le> NAME_MAX" and "0 \<notin> set nm"
  shows "length (fill_entry e nm sec) = 20" and "entry_used (fill_entry e nm sec)" and "entry_name (fill_entry e nm sec) = nm"
    and "entry_sector (fill_entry e nm sec) = sec" and "0 \<in> set (take 15 (drop 4 (fill_entry e nm sec)))"
proof -
  define X where "X = nm @ [0] @ drop (length nm + 1) (take (NAME_MAX + 1) (drop 4 e))"
  have r: "length X = 15"
    using assms(1,2) by (simp add: X_def NAME_MAX_def)
  have f: "fill_entry e nm sec = le32 sec @ X @ [1]"
    by (simp add: fill_entry_def X_def)
  show "length (fill_entry e nm sec) = 20" and "entry_sector (fill_entry e nm sec) = sec"
    using r unfolding f entry_sector_def by simp_all
  have t: "take 15 (drop 4 (fill_entry e nm sec)) = X"
    unfolding f using r by simp
  then show "0 \<in> set (take 15 (drop 4 (fill_entry e nm sec)))"
    by (simp add: X_def)
  have "takeWhile (\<lambda>b. b \<noteq> 0) X = nm"
    using assms(3) unfolding X_def by (subst takeWhile_append2) auto
  then show "entry_name (fill_entry e nm sec) = nm"
    using t by (simp add: entry_name_def NAME_MAX_def)
  have "fill_entry e nm sec ! 19 = 1"
    using r unfolding f by (simp add: nth_append)
  then show "entry_used (fill_entry e nm sec)"
    by (simp add: entry_used_def)
qed

lemma dir_map_add:
  assumes wf: "wf_dir C" and j: "j < slots C" "\<not> entry_used (entry C j)" and new: "dir_map C nm = None"
    and E: "length E = 20" "entry_used E" "entry_name E = nm" "entry_sector E = sec" "0 \<in> set (take 15 (drop 4 E))"
  defines "C' \<equiv> take (20 * j) C @ E @ drop (20 * j + 20) C"
  shows "wf_dir C'" and "dir_map C' = (dir_map C)(nm \<mapsto> sec)"
proof -
  note u = entry_update [OF j(1) E(1), folded C'_def]
  have nm: "\<forall>i < slots C. \<not> matches nm (entry C i)"
    using new dir_map_iff [OF wf, of nm] by (cases "dir_map C nm") auto
  show w: "wf_dir C'"
    using wf nm E j unfolding wf_dir_def u(1) matches_def by (auto simp: u(2))
  show "dir_map C' = (dir_map C)(nm \<mapsto> sec)"
  proof
    fix x
    show "dir_map C' x = ((dir_map C)(nm \<mapsto> sec)) x"
    proof (cases "x = nm")
      case True
      have "dir_map C' nm = Some sec"
        using dir_map_iff [OF w, of nm sec] E j u by (auto simp: matches_def)
      then show ?thesis
        using True by simp
    next
      case False
      have m: "matches x (entry C' i) \<longleftrightarrow> matches x (entry C i)" "matches x (entry C i) \<Longrightarrow> entry C' i = entry C i" if "i < slots C" for i
        using that E(3) j(2) False by (auto simp: u(2) matches_def)
      have "dir_map C' x = Some s \<longleftrightarrow> dir_map C x = Some s" for s
        unfolding dir_map_iff [OF w] dir_map_iff [OF wf] u(1) using m by metis
      then show ?thesis
        using False by (cases "dir_map C x"; cases "dir_map C' x") auto
    qed
  qed
qed

lemma dir_map_cong:
  assumes "slots C' = slots C" and "\<And>i. i < slots C \<Longrightarrow> entry C' i = entry C i"
  shows "dir_map C' = dir_map C" and "wf_dir C' = wf_dir C"
proof -
  have "find (\<lambda>i. P (entry C' i)) [0..<slots C] = find (\<lambda>i. P (entry C i)) [0..<slots C]" for P
    using assms(2) by (intro find_cong refl) auto
  then have f: "first_slot P C' 0 = first_slot P C 0" for P
    using assms(1) by (simp add: first_slot_def)
  show "dir_map C' = dir_map C"
  proof
    fix nm
    show "dir_map C' nm = dir_map C nm"
      using f [of "matches nm"] first_slot_SomeD [of "matches nm" C] assms(2)
      by (cases "first_slot (matches nm) C 0") (auto simp: dir_map_def)
  qed
  show "wf_dir C' = wf_dir C"
    using assms by (auto simp: wf_dir_def)
qed

text \<open>Writing an entry into slot \<open>j\<close>, or behind the last slot, where less than an entry fits.\<close>

lemma dir_write_slot:
  assumes dir: "dir_at fs d ino C" and "deny_write_cnt ino = 0" and j: "j \<le> slots C" and E: "length E = 20"
  defines "n \<equiv> min 20 (length C - 20 * j)"
  shows "\<exists>dev. inode_write_at fs (dir_inode d) True E 20 (int (20 * j)) = Some (int n, fs\<lparr>fs_device := dev\<rparr>)
    \<and> dir_at (fs\<lparr>fs_device := dev\<rparr>) d ino (take (20 * j) C @ take n E @ drop (20 * j + n) C)"
proof -
  have CC: "length C = nat (inode_length ino)" "20 * slots C \<le> length C" "0 \<le> inode_length ino"
    using dir by (auto simp: dir_at_def slots_def wf_inode_def)
  have o: "20 * j \<le> length C" "int (20 * j) < 2 ^ 31" "0 \<le> int (20 * j)"
    using j CC dir_at_length [OF dir] by auto
  have n: "transfer ino 20 (int (20 * j)) = n"
    using CC o by (simp add: transfer_def n_def min_def nat_diff_distrib') linarith
  have ino: "inodes fs (dir_inode d) = Some ino" "wf_inode (fs_device fs) ino" "content (fs_device fs) ino = C"
    using dir by (simp_all add: dir_at_def)
  have "20 \<le> int (length E)"
    using E by simp
  from inode_write_at_ok [OF ino(1) assms(2) ino(2) o(3,2) this]
  obtain dev where w: "inode_write_at fs (dir_inode d) True E 20 (int (20 * j)) = Some (int n, fs\<lparr>fs_device := dev\<rparr>)"
      "written (fs_device fs) ino (20 * j) n (\<lambda>i. E ! i) dev"
    unfolding n nat_int by blast
  have "content dev ino = take (20 * j) C @ take n E @ drop (20 * j + n) C"
    unfolding ino(3) [symmetric] by (rule content_written [OF w(2)]) (use E o CC in \<open>auto simp: n_def\<close>)
  then have "dir_at (fs\<lparr>fs_device := dev\<rparr>) d ino (take (20 * j) C @ take n E @ drop (20 * j + n) C)"
    using ino wf_inode_written [OF ino(2) w(2)] by (simp add: dir_at_def)
  then show ?thesis
    using w(1) by blast
qed

text \<open>The effect of adding a name that is valid and new.\<close>

lemma dir_add_new:
  assumes dir: "dir_at fs d ino C" and "deny_write_cnt ino = 0" and wf: "wf_dir C" and nm: "0 \<notin> set nm" and junk: "length junk = 20"
    and valid: "nm \<noteq> []" "length nm \<le> NAME_MAX" and new: "dir_map C nm = None"
  shows "\<exists>ok fs' C'. dir_add fs True junk d nm sec = Some (ok, fs') \<and> dir_at fs' d ino C' \<and> wf_dir C'
    \<and> (ok \<longleftrightarrow> (\<exists>i < slots C. \<not> entry_used (entry C i))) \<and> dir_map C' = (if ok then (dir_map C)(nm \<mapsto> sec) else dir_map C)"
proof -
  obtain fs1 where l: "lookup fs True d nm = Some (map_option (\<lambda>i. (entry C i, int (20 * i))) (first_slot (matches nm) C 0), fs1)" "same_fs fs fs1"
    using lookup_ok [OF dir wf nm] by blast
  have d1: "dir_at fs1 d ino C"
    using dir_at_same [OF l(2)] dir by simp
  obtain e j fs2 where s: "free_slot_loop True d fs1 junk (int (20 * 0)) = Some (e, int (20 * j), fs2)" "same_fs fs1 fs2" "length e = 20"
      "j < slots C \<and> e = entry C j \<and> \<not> entry_used (entry C j) \<or> j = slots C \<and> (\<forall>i. 0 \<le> i \<and> i < slots C \<longrightarrow> entry_used (entry C i))"
    using free_slot_loop_ok [OF d1 _ junk, of 0] by blast
  have d2: "dir_at fs2 d ino C"
    using dir_at_same [OF s(2)] d1 by simp
  let ?E = "fill_entry e nm sec" and ?n = "min 20 (length C - 20 * j)"
  note E = fill_entry_facts [OF s(3) valid(2) nm, of sec]
  have j: "j \<le> slots C"
    using s(4) by auto
  obtain dev where w: "inode_write_at fs2 (dir_inode d) True ?E 20 (int (20 * j)) = Some (int ?n, fs2\<lparr>fs_device := dev\<rparr>)"
      "dir_at (fs2\<lparr>fs_device := dev\<rparr>) d ino (take (20 * j) C @ take ?n ?E @ drop (20 * j + ?n) C)"
    using dir_write_slot [OF d2 assms(2) j E(1)] by blast
  have r: "dir_add fs True junk d nm sec = Some (?n = 20, fs2\<lparr>fs_device := dev\<rparr>)"
    using valid l(1) new s(1) w(1) by (simp add: dir_add_def dir_map_def)
  have CC: "20 * slots C \<le> length C" "length C < 20 * slots C + 20"
    by (auto simp: slots_def)
  show ?thesis
  proof (cases "j < slots C")
    case True
    then have jn: "?n = 20" "\<not> entry_used (entry C j)"
      using CC s(4) by auto
    then show ?thesis
      using dir_map_add [OF wf True jn(2) new E(1-5)] r w(2) E(1) True by auto
  next
    case False
    then have js: "j = slots C" "\<not> (\<exists>i < slots C. \<not> entry_used (entry C i))"
      using s(4) by auto
    then have n: "?n = length C - 20 * slots C" "?n \<noteq> 20"
      using CC by auto
    have d: "dir_at (fs2\<lparr>fs_device := dev\<rparr>) d ino (take (20 * slots C) C @ take ?n ?E)"
      using w(2) n CC js by simp
    have "length (take ?n ?E) = length C - 20 * slots C"
      using E(1) n by simp
    note t = entry_tail [OF this]
    show ?thesis
      using r d n(2) js(2) dir_map_cong [OF t] wf by auto
  qed
qed

text \<open>
  C24: with its bounce buffers allocated, a directory is a map from names to sectors.  Adding a name with a sector succeeds
  exactly when the name is valid and not in use and there is a free slot; then it extends
  the map by that name and changes nothing else, and otherwise the map stays as it was.
  In either case a later lookup finds what the map says.
\<close>

theorem dir_add_correct:
  assumes dir: "dir_at fs d ino C" and "deny_write_cnt ino = 0" and wf: "wf_dir C" and nm: "0 \<notin> set nm" and junk: "length junk = 20"
  shows "\<exists>ok fs' C'. dir_add fs True junk d nm sec = Some (ok, fs') \<and> dir_at fs' d ino C' \<and> wf_dir C'
    \<and> (ok \<longleftrightarrow> nm \<noteq> [] \<and> length nm \<le> NAME_MAX \<and> dir_map C nm = None \<and> (\<exists>i < slots C. \<not> entry_used (entry C i)))
    \<and> dir_map C' = (if ok then (dir_map C)(nm \<mapsto> sec) else dir_map C)
    \<and> (\<forall>x. 0 \<notin> set x \<longrightarrow> (\<exists>r fs''. lookup fs' True d x = Some (r, fs'') \<and> map_option (entry_sector \<circ> fst) r = dir_map C' x))"
proof -
  have look: "\<forall>x. 0 \<notin> set x \<longrightarrow> (\<exists>r fs''. lookup g True d x = Some (r, fs'') \<and> map_option (entry_sector \<circ> fst) r = dir_map K x)"
    if k: "dir_at g d ino K" "wf_dir K" for g K
  proof (intro allI impI)
    fix x :: "u8 list"
    assume "0 \<notin> set x"
    then obtain fs'' where "lookup g True d x = Some (map_option (\<lambda>i. (entry K i, int (20 * i))) (first_slot (matches x) K 0), fs'')"
      using lookup_ok [OF k] by blast
    then show "\<exists>r fs''. lookup g True d x = Some (r, fs'') \<and> map_option (entry_sector \<circ> fst) r = dir_map K x"
      by (intro exI conjI) (assumption, simp add: dir_map_def option.map_comp o_def)
  qed
  consider "nm = [] \<or> length nm > NAME_MAX" | "nm \<noteq> []" "length nm \<le> NAME_MAX" "dir_map C nm \<noteq> None"
    | "nm \<noteq> []" "length nm \<le> NAME_MAX" "dir_map C nm = None"
    by force
  then show ?thesis
  proof cases
    case 1
    then have "dir_add fs True junk d nm sec = Some (False, fs)"
      by (auto simp: dir_add_def)
    then show ?thesis
      using 1 dir wf look [OF dir wf] by (intro exI [of _ False] exI [of _ fs] exI [of _ C]) auto
  next
    case 2
    obtain fs1 where l: "lookup fs True d nm = Some (map_option (\<lambda>i. (entry C i, int (20 * i))) (first_slot (matches nm) C 0), fs1)" "same_fs fs fs1"
      using lookup_ok [OF dir wf nm] by blast
    have d1: "dir_at fs1 d ino C"
      using dir_at_same [OF l(2)] dir by simp
    have "dir_add fs True junk d nm sec = Some (False, fs1)"
      using 2 l(1) by (auto simp: dir_add_def dir_map_def)
    then show ?thesis
      using 2 d1 wf look [OF d1 wf] by (intro exI [of _ False] exI [of _ fs1] exI [of _ C]) auto
  next
    case 3
    obtain ok fs' C' where a: "dir_add fs True junk d nm sec = Some (ok, fs')" "dir_at fs' d ino C'" "wf_dir C'"
        "ok \<longleftrightarrow> (\<exists>i < slots C. \<not> entry_used (entry C i))" "dir_map C' = (if ok then (dir_map C)(nm \<mapsto> sec) else dir_map C)"
      using dir_add_new [OF assms 3] by blast
    then show ?thesis
      using 3 look [OF a(2,3)] by (intro exI [of _ ok] exI [of _ fs'] exI [of _ C']) simp
  qed
qed

end
