(* ===== verification/Filesys_Correct.thy ===== *)
theory Filesys_Correct
  imports Directory_Correct
begin

text \<open>
  Creating inodes: a new inode gets sectors that nobody else has, filled with zeros, and no
  sector that was in use before changes, except the one of the inode and the free map.
\<close>

section \<open>Sectors of zeros\<close>

lemma content_zeros:
  assumes "\<And>j. j < inode_sectors ino \<Longrightarrow> sectors dev (start (idata ino) + word_of_nat j) = zeros"
  shows "content dev ino = replicate (nat (inode_length ino)) 0"
proof (rule nth_equalityI)
  fix i
  assume "i < length (content dev ino)"
  then have i: "i < nat (inode_length ino)"
    by simp
  have "i div 512 < inode_sectors ino"
    using sectors_cover [OF i] by (simp add: less_mult_imp_div_less mult.commute)
  then show "content dev ino ! i = replicate (nat (inode_length ino)) 0 ! i"
    using i assms [of "i div 512"] by (simp add: content_def byte_def zeros_def BLOCK_SECTOR_SIZE_def)
qed simp

lemma write_zeros_ok:
  assumes "wf_block dev" and "unat s + n \<le> unat (bsize dev)"
  shows "\<exists>c. write_zeros dev s n = Some (dev\<lparr>sectors := (\<lambda>x. if unat s \<le> unat x \<and> unat x < unat s + n then zeros else sectors dev x), write_cnt := c\<rparr>)"
  using assms
proof (induction n arbitrary: dev s)
  case 0
  have "dev\<lparr>sectors := sectors dev, write_cnt := write_cnt dev\<rparr> = dev"
    by simp
  moreover have "(\<lambda>x. if unat s \<le> unat x \<and> unat x < unat s then zeros else sectors dev x) = sectors dev"
    by (rule ext) auto
  ultimately show ?case
    by (intro exI [of _ "write_cnt dev"]) simp
next
  case (Suc n)
  let ?d = "dev\<lparr>sectors := (sectors dev)(s := zeros), write_cnt := write_cnt dev + 1\<rparr>"
  have s: "s < bsize dev" "unat (s + 1) = unat s + 1"
    using Suc.prems(2) unat_less_u32 [of "bsize dev"] by (simp_all add: word_less_nat_alt unat_word_ariths)
  have "wf_block ?d" "unat (s + 1) + n \<le> unat (bsize ?d)"
    using Suc.prems s(2) by (simp_all add: wf_block_def zeros_def)
  then obtain c where c: "write_zeros ?d (s + 1) n
      = Some (?d\<lparr>sectors := (\<lambda>x. if unat (s + 1) \<le> unat x \<and> unat x < unat (s + 1) + n then zeros else sectors ?d x), write_cnt := c\<rparr>)"
    using Suc.IH [of ?d "s + 1"] by blast
  have "(\<lambda>x. if unat (s + 1) \<le> unat x \<and> unat x < unat (s + 1) + n then zeros else sectors ?d x)
      = (\<lambda>x. if unat s \<le> unat x \<and> unat x < unat s + Suc n then zeros else sectors dev x)"
  proof
    fix x
    have "x = s \<longleftrightarrow> unat x = unat s"
      by (simp add: word_unat_eq_iff)
    then show "(if unat (s + 1) \<le> unat x \<and> unat x < unat (s + 1) + n then zeros else sectors ?d x)
        = (if unat s \<le> unat x \<and> unat x < unat s + Suc n then zeros else sectors dev x)"
      using s(2) by auto
  qed
  then show ?case
    using c block_write_ok [OF Suc.prems(1) s(1), of zeros] by (intro exI [of _ c]) simp
qed

section \<open>Creating an inode\<close>

text \<open>The sectors of the free map file are marked in the free map.\<close>

definition map_safe :: "filesys \<Rightarrow> bool" where
  "map_safe fs \<longleftrightarrow> (\<forall>ino. map_inode fs = Some ino \<longrightarrow> (\<forall>s \<in> sector_set ino. unat s \<in> used (free_map fs)))"

lemma sectors_of_length:
  assumes "0 \<le> len" and "len < 2 ^ 31 - 511"
  shows "bytes_to_sectors len = (nat len + 511) div 512"
proof -
  have "s32 (len + 511) = len + 511"
    using assms by simp
  moreover have "(len + 511) div 512 < 2 ^ 32" "0 \<le> (len + 511) div 512"
    using assms by simp_all
  ultimately have "bytes_to_sectors len = nat ((len + 511) div 512)"
    using assms by (simp add: bytes_to_sectors_def sdiv512_nonneg)
  also have "\<dots> = (nat len + 511) div 512"
    using assms by (simp add: nat_div_distrib nat_add_distrib)
  finally show ?thesis .
qed

lemma wf_fs_device:
  assumes "wf_fs fs"
  shows "wf_block (fs_device fs)" and "i \<in> used (free_map fs) \<Longrightarrow> i < unat (bsize (fs_device fs))"
  using assms by (auto simp: wf_fs_def map_ready_def wf_inode_def used_def)

text \<open>A write that leaves the free map file alone.\<close>

lemma wf_fs_write:
  assumes wf: "wf_fs fs" and "wf_block dev" and "bsize dev = bsize (fs_device fs)"
    and "\<And>ino s. map_inode fs = Some ino \<Longrightarrow> s \<in> sector_set ino \<Longrightarrow> sectors dev s = sectors (fs_device fs) s"
  shows "wf_fs (fs\<lparr>fs_device := dev\<rparr>)"
proof -
  obtain ino where i: "map_ready fs ino" "content (fs_device fs) ino = concat (map le32 (bm_bits (free_map fs)))"
    using wf by (auto simp: wf_fs_def)
  have "content dev ino = content (fs_device fs) ino"
    using i(1) assms(4) by (intro content_frame) (simp add: map_ready_def)
  moreover have "map_ready (fs\<lparr>fs_device := dev\<rparr>) ino"
    using i(1) assms(2,3) by (simp add: map_ready_def wf_inode_def)
  ultimately show ?thesis
    using wf assms(3) i(2) by (auto simp: wf_fs_def)
qed

lemma map_step_facts:
  assumes "map_step fs fs'"
  shows "map_inode fs' = map_inode fs" and "bsize (fs_device fs') = bsize (fs_device fs)" and "inodes fs' = inodes fs"
    and "map_inode fs = Some ino \<Longrightarrow> s \<notin> sector_set ino \<Longrightarrow> sectors (fs_device fs') s = sectors (fs_device fs) s"
  using assms by (auto simp: map_step_def)

text \<open>The device once the sectors are allocated: the inode, and zeros for the data.\<close>

lemma inode_create_write:
  assumes wf: "wf_fs fs" and sec: "unat sec \<in> used (free_map fs)" and n: "unat st + n \<le> bit_cnt (free_map fs)"
    and new: "\<not> (unat st \<le> unat sec \<and> unat sec < unat st + n)" and bs: "length bs = BLOCK_SECTOR_SIZE"
  shows "\<exists>dev1 dev. block_write (fs_device fs) sec bs = Some dev1 \<and> write_zeros dev1 st n = Some dev \<and> wf_block dev \<and> bsize dev = bsize (fs_device fs)
    \<and> sectors dev = (\<lambda>x. if x = sec then bs else if unat st \<le> unat x \<and> unat x < unat st + n then zeros else sectors (fs_device fs) x)"
proof -
  let ?d = "(fs_device fs)\<lparr>sectors := (sectors (fs_device fs))(sec := bs), write_cnt := write_cnt (fs_device fs) + 1\<rparr>"
  have wb: "wf_block (fs_device fs)" "sec < bsize (fs_device fs)"
    using wf_fs_device [OF wf] sec by (auto simp: word_less_nat_alt)
  have d: "wf_block ?d" "unat st + n \<le> unat (bsize ?d)"
    using wb bs n wf by (simp_all add: wf_block_def wf_fs_def)
  obtain c where c: "write_zeros ?d st n = Some (?d\<lparr>sectors := (\<lambda>x. if unat st \<le> unat x \<and> unat x < unat st + n then zeros else sectors ?d x), write_cnt := c\<rparr>)"
    using write_zeros_ok [OF d] by blast
  have "sectors (?d\<lparr>sectors := (\<lambda>x. if unat st \<le> unat x \<and> unat x < unat st + n then zeros else sectors ?d x), write_cnt := c\<rparr>)
      = (\<lambda>x. if x = sec then bs else if unat st \<le> unat x \<and> unat x < unat st + n then zeros else sectors (fs_device fs) x)"
    using new by (auto simp: fun_eq_iff)
  moreover have "wf_block (?d\<lparr>sectors := (\<lambda>x. if unat st \<le> unat x \<and> unat x < unat st + n then zeros else sectors ?d x), write_cnt := c\<rparr>)"
    using d(1) by (simp add: wf_block_def zeros_def)
  ultimately show ?thesis
    using block_write_ok [OF wb, of bs] c by (intro exI conjI) (assumption | simp)+
qed

lemma new_inode:
  assumes "inode_length ino = len" and "0 \<le> len" and "wf_block dev"
    and n: "unat (start (idata ino)) + (nat len + 511) div 512 \<le> unat (bsize dev)"
    and z: "\<And>x. unat (start (idata ino)) \<le> unat x \<Longrightarrow> unat x < unat (start (idata ino)) + (nat len + 511) div 512 \<Longrightarrow> sectors dev x = zeros"
  shows "wf_inode dev ino \<and> content dev ino = replicate (nat len) 0"
proof
  have s: "inode_sectors ino = (nat len + 511) div 512"
    using assms(1) by (simp add: inode_sectors_def)
  then show "wf_inode dev ino"
    using assms by (simp add: wf_inode_def)
  have "sectors dev (start (idata ino) + word_of_nat j) = zeros" if "j < inode_sectors ino" for j
  proof (rule z)
    have "unat (start (idata ino)) + j < 2 ^ 32"
      using that s n unat_less_u32 [of "bsize dev"] by linarith
    then have "unat (start (idata ino) + word_of_nat j) = unat (start (idata ino)) + j"
      by (simp add: unat_word_ariths unat_of_nat)
    then show "unat (start (idata ino)) \<le> unat (start (idata ino) + word_of_nat j)"
      "unat (start (idata ino) + word_of_nat j) < unat (start (idata ino)) + (nat len + 511) div 512"
      using that s by simp_all
  qed
  then show "content dev ino = replicate (nat len) 0"
    using content_zeros [of ino dev] assms(1) by simp
qed

text \<open>The state once the sectors are allocated and the inode and the zeros are written.\<close>

lemma inode_create_new:
  assumes wf: "wf_fs fs" "map_safe fs" and len: "0 \<le> len" "len < 2 ^ 31 - 511" and sec: "unat sec \<in> used (free_map fs)"
    and m: "map_inode fs = Some fm" "sec \<notin> sector_set fm"
    and a: "free_map_allocate fs mok (bytes_to_sectors len) = Some (Some st, fs1)" "wf_fs fs1" "map_step fs fs1"
      "unat st + bytes_to_sectors len \<le> bit_cnt (free_map fs1)" "{unat st..<unat st + bytes_to_sectors len} \<inter> used (free_map fs) = {}"
      "used (free_map fs1) = used (free_map fs) \<union> {unat st..<unat st + bytes_to_sectors len}"
  shows "\<exists>dev. inode_create fs True mok sec len = Some (True, fs1\<lparr>fs_device := dev\<rparr>) \<and> wf_fs (fs1\<lparr>fs_device := dev\<rparr>) \<and> map_safe (fs1\<lparr>fs_device := dev\<rparr>)
    \<and> get_inode (sectors dev sec) = \<lparr>start = st, dlength = word_of_int len, dmagic = INODE_MAGIC\<rparr> \<and> sint (word_of_int len :: u32) = len
    \<and> (\<forall>ino. idata ino = \<lparr>start = st, dlength = word_of_int len, dmagic = INODE_MAGIC\<rparr> \<longrightarrow> wf_inode dev ino \<and> content dev ino = replicate (nat len) 0)
    \<and> (\<forall>s. unat s \<in> used (free_map fs) \<and> s \<noteq> sec \<and> s \<notin> sector_set fm \<longrightarrow> sectors dev s = sectors (fs_device fs) s)"
proof -
  let ?n = "bytes_to_sectors len" and ?d = "\<lparr>start = st, dlength = word_of_int len, dmagic = INODE_MAGIC\<rparr>"
  note ms = map_step_facts [OF a(3)]
  have nsec: "unat sec \<in> used (free_map fs1)" "\<not> (unat st \<le> unat sec \<and> unat sec < unat st + ?n)"
    using sec a(5,6) by auto
  obtain dev1 dev where d: "block_write (fs_device fs1) sec (put_inode ?d) = Some dev1" "write_zeros dev1 st ?n = Some dev" "wf_block dev"
      "bsize dev = bsize (fs_device fs1)"
      "sectors dev = (\<lambda>x. if x = sec then put_inode ?d else if unat st \<le> unat x \<and> unat x < unat st + ?n then zeros else sectors (fs_device fs1) x)"
    using inode_create_write [OF a(2) nsec(1) a(4) nsec(2), of "put_inode ?d"] by (auto simp: put_inode_def BLOCK_SECTOR_SIZE_def)
  have r: "inode_create fs True mok sec len = Some (True, fs1\<lparr>fs_device := dev\<rparr>)"
    using a(1) len d(1,2) by (simp add: inode_create_def)
  have old: "s \<noteq> sec \<Longrightarrow> unat s \<in> used (free_map fs) \<Longrightarrow> sectors dev s = sectors (fs_device fs1) s" for s
    using a(5) by (auto simp: d(5))
  have fm: "s \<in> sector_set fm \<Longrightarrow> sectors dev s = sectors (fs_device fs1) s" for s
    using old m wf(2) by (metis map_safe_def)
  have w: "wf_fs (fs1\<lparr>fs_device := dev\<rparr>)" "map_safe (fs1\<lparr>fs_device := dev\<rparr>)"
    using wf_fs_write [OF a(2) d(3,4)] fm ms(1) m(1) wf(2) a(6) by (auto simp: map_safe_def)
  have l: "sint (word_of_int len :: u32) = len"
    using s32_id [of len] len unfolding s32_def by simp
  have z: "wf_inode dev ino \<and> content dev ino = replicate (nat len) 0" if i: "idata ino = ?d" for ino
  proof (rule new_inode [OF _ len(1) d(3)])
    show "inode_length ino = len"
      using i l by (simp add: inode_length_def)
    show "unat (start (idata ino)) + (nat len + 511) div 512 \<le> unat (bsize dev)"
      using i a(2,4) d(4) sectors_of_length [OF len] by (simp add: wf_fs_def)
    show "sectors dev x = zeros" if "unat (start (idata ino)) \<le> unat x" "unat x < unat (start (idata ino)) + (nat len + 511) div 512" for x
      using that nsec(2) i sectors_of_length [OF len] by (auto simp: d(5))
  qed
  show ?thesis
    using r w l z old ms(4) [OF m(1)] by (intro exI [of _ dev]) (auto simp: d(5))
qed

text \<open>
  C25: creating an inode, whether or not memory is found for the on-disk inode (\<open>cok\<close>) and for the
  bounce buffer (\<open>mok\<close>).  With memory it succeeds exactly when there are enough consecutive free
  sectors, and it never succeeds without the on-disk inode or without the sectors.  A failure leaves the map in memory and every sector outside of the
  free map file as they were, and with the bounce buffer everything.  On success the sector of the inode describes a file of the given
  length that consists of zeros, in sectors that were free and are now in use; every other sector in use keeps its
  contents, except those of the free map, which is updated on the disk.
\<close>

theorem inode_create_correct:
  assumes wf: "wf_fs fs" "map_safe fs" and len: "0 \<le> len" "len < 2 ^ 31 - 511" and sec: "unat sec \<in> used (free_map fs)"
    and m: "map_inode fs = Some fm" "sec \<notin> sector_set fm"
  defines "n \<equiv> bytes_to_sectors len"
  shows "\<exists>ok fs'. inode_create fs cok mok sec len = Some (ok, fs')
    \<and> (cok \<and> mok \<longrightarrow> (ok \<longleftrightarrow> room fs n)) \<and> (ok \<longrightarrow> cok \<and> room fs n)
    \<and> (\<not> ok \<longrightarrow> used (free_map fs') = used (free_map fs) \<and> (\<forall>s. s \<notin> sector_set fm \<longrightarrow> sectors (fs_device fs') s = sectors (fs_device fs) s)
         \<and> (mok \<or> \<not> cok \<longrightarrow> fs' = fs))
    \<and> (ok \<longrightarrow> wf_fs fs' \<and> map_safe fs' \<and> (let d = get_inode (sectors (fs_device fs') sec); new = {unat (start d)..<unat (start d) + n} in
         sint (dlength d) = len \<and> dmagic d = INODE_MAGIC \<and> new \<inter> used (free_map fs) = {} \<and> used (free_map fs') = used (free_map fs) \<union> new
         \<and> (\<forall>ino. idata ino = d \<longrightarrow> wf_inode (fs_device fs') ino \<and> content (fs_device fs') ino = replicate (nat len) 0)
         \<and> (\<forall>s. unat s \<in> used (free_map fs) \<and> s \<noteq> sec \<and> s \<notin> sector_set fm \<longrightarrow> sectors (fs_device fs') s = sectors (fs_device fs) s)))"
proof (cases cok)
  case False
  then show ?thesis
    using len by (intro exI [of _ False] exI [of _ fs]) (simp add: inode_create_def)
next
  case cok: True
  obtain r fs1 where a: "free_map_allocate fs mok n = Some (r, fs1)" "map_step fs fs1" "bit_cnt (free_map fs1) = bit_cnt (free_map fs)"
      "case r of None \<Rightarrow> used (free_map fs1) = used (free_map fs) \<and> (mok \<longrightarrow> fs1 = fs \<and> \<not> room fs n)
       | Some s \<Rightarrow> wf_fs fs1 \<and> unat s + n \<le> bit_cnt (free_map fs) \<and> {unat s..<unat s + n} \<inter> used (free_map fs) = {}
         \<and> used (free_map fs1) = used (free_map fs) \<union> {unat s..<unat s + n}"
    using free_map_allocate_any [OF wf(1), of mok n] by blast
  show ?thesis
  proof (cases r)
    case None
    then have "inode_create fs cok mok sec len = Some (False, fs1)"
      using a(1) len cok by (simp add: inode_create_def n_def)
    then show ?thesis
      using a(4) None map_step_facts(4) [OF a(2) m(1)] cok by (intro exI [of _ False] exI [of _ fs1]) simp
  next
    case (Some st)
    then have st: "wf_fs fs1" "unat st + n \<le> bit_cnt (free_map fs1)" "{unat st..<unat st + n} \<inter> used (free_map fs) = {}"
        "used (free_map fs1) = used (free_map fs) \<union> {unat st..<unat st + n}"
      using a(3,4) by simp_all
    then have room: "room fs n"
      using a(3) by auto
    obtain dev where "inode_create fs True mok sec len = Some (True, fs1\<lparr>fs_device := dev\<rparr>)" "wf_fs (fs1\<lparr>fs_device := dev\<rparr>)" "map_safe (fs1\<lparr>fs_device := dev\<rparr>)"
        "get_inode (sectors dev sec) = \<lparr>start = st, dlength = word_of_int len, dmagic = INODE_MAGIC\<rparr>" "sint (word_of_int len :: u32) = len"
        "\<forall>ino. idata ino = \<lparr>start = st, dlength = word_of_int len, dmagic = INODE_MAGIC\<rparr> \<longrightarrow> wf_inode dev ino \<and> content dev ino = replicate (nat len) 0"
        "\<forall>s. unat s \<in> used (free_map fs) \<and> s \<noteq> sec \<and> s \<notin> sector_set fm \<longrightarrow> sectors dev s = sectors (fs_device fs) s"
      using inode_create_new [OF wf len sec m] a(1,2) st Some unfolding n_def by blast
    then show ?thesis
      using st room cok by (intro exI [of _ True] exI [of _ "fs1\<lparr>fs_device := dev\<rparr>"]) (simp add: Let_def)
  qed
qed

section \<open>A sample file system\<close>

text \<open>
  Eight sectors: the free map in sector 2, a root directory with two slots in sector 3 and
  a file of 600 bytes in sectors 4 and 5.
\<close>

definition sample_dev :: block_dev where
  "sample_dev = \<lparr>bname = [], btype = BLOCK_FILESYS, bsize = 8, read_cnt = 0, write_cnt = 0,
     sectors = (\<lambda>_. zeros)(2 := [63] @ replicate 511 0)\<rparr>"

definition sample_inode :: "u32 \<Rightarrow> u32 \<Rightarrow> u32 \<Rightarrow> inode" where
  "sample_inode sec st len = \<lparr>sector = sec, open_cnt = 1, removed = False, deny_write_cnt = 0,
     idata = \<lparr>start = st, dlength = len, dmagic = INODE_MAGIC\<rparr>\<rparr>"

definition sample_fs :: filesys where
  "sample_fs = \<lparr>fs_device = sample_dev,
     inodes = [0x1000 \<mapsto> sample_inode 0 2 4, 0x2000 \<mapsto> sample_inode 1 3 40, 0x3000 \<mapsto> sample_inode 6 4 600],
     open_inodes = [0x3000, 0x2000, 0x1000],
     files = [0x4000 \<mapsto> \<lparr>file_inode = 0x1000, file_pos = 0, file_deny = False\<rparr>],
     free_map = \<lparr>bit_cnt = 8, bm_bits = [63]\<rparr>, free_map_file = 0x4000\<rparr>"

lemma sample_length [simp]:
  "inode_length (sample_inode sec st 4) = 4" "inode_length (sample_inode sec st 40) = 40" "inode_length (sample_inode sec st 600) = 600"
  by (simp_all add: inode_length_def sample_inode_def)

lemma sample_inodes:
  "wf_inode sample_dev (sample_inode 0 2 4)" "wf_inode sample_dev (sample_inode 1 3 40)" "wf_inode sample_dev (sample_inode 6 4 600)"
  by (simp_all add: wf_inode_def inode_sectors_def wf_block_def sample_dev_def BLOCK_SECTOR_SIZE_def zeros_def)
    (simp_all add: sample_inode_def)

lemma sample_dir: "content sample_dev (sample_inode 1 3 40) = replicate 40 0"
  using content_zeros [of "sample_inode 1 3 40" sample_dev] by (simp add: inode_sectors_def) (simp add: sample_inode_def sample_dev_def)

lemma sample_wf_fs: "wf_fs sample_fs" "map_safe sample_fs" "map_inode sample_fs = Some (sample_inode 0 2 4)" "sector_set (sample_inode 0 2 4) = {2}"
proof -
  show m: "map_inode sample_fs = Some (sample_inode 0 2 4)"
    by (simp add: map_inode_def sample_fs_def)
  show s: "sector_set (sample_inode 0 2 4) = {2}"
    by (simp add: sector_set_def inode_sectors_def) (auto simp: sample_inode_def)
  have "[0..<4] = [0, 1, 2, 3::nat]"
    by (simp add: upt_rec)
  then have c: "content sample_dev (sample_inode 0 2 4) = [63, 0, 0, 0]"
    by (simp add: content_def byte_def) (simp add: sample_inode_def sample_dev_def)
  have "map_ready sample_fs (sample_inode 0 2 4)"
    using m sample_inodes(1) unfolding map_ready_def
    by (simp add: byte_cnt_def elem_cnt_def ELEM_BITS_def sample_fs_def) (simp add: sample_inode_def)
  moreover have "content (fs_device sample_fs) (sample_inode 0 2 4) = concat (map le32 (bm_bits (free_map sample_fs)))"
    using c by (simp add: sample_fs_def le32_def)
  moreover have "wf_bitmap (free_map sample_fs)" "bit_cnt (free_map sample_fs) = unat (bsize (fs_device sample_fs))"
    by (simp_all add: sample_fs_def wf_bitmap_def sample_dev_def)
  ultimately show "wf_fs sample_fs"
    unfolding wf_fs_def by blast
  show "map_safe sample_fs"
    using m s unfolding map_safe_def by (simp add: used_def bits_of_def sample_fs_def)
qed

lemma sample_fs_fields:
  "inodes sample_fs 0x3000 = Some (sample_inode 6 4 600)" "inodes sample_fs 0x2000 = Some (sample_inode 1 3 40)"
  "fs_device sample_fs = sample_dev"
  by (simp_all add: sample_fs_def)

theorem inode_read_at_correct_witness:
  "\<exists>bs fs'. inode_read_at sample_fs 0x3000 True 100 550 = Some (bs, fs') \<and> length bs = 50"
proof -
  obtain bs fs' where "inode_read_at sample_fs 0x3000 True 100 550 = Some (bs, fs')"
      "bs = take (nat 100) (drop (nat 550) (content sample_dev (sample_inode 6 4 600)))"
    using inode_read_at_correct [OF sample_fs_fields(1), of 550 100] sample_inodes(3) unfolding sample_fs_fields(3) by auto
  then show ?thesis
    by simp
qed

theorem inode_write_at_correct_witness:
  "\<exists>fs' fs''. inode_write_at sample_fs 0x3000 True (replicate 100 7) 100 550 = Some (50, fs')
    \<and> inode_read_at fs' 0x3000 True 50 550 = Some (replicate 50 7, fs'')"
proof -
  obtain n fs' fs'' where w: "inode_write_at sample_fs 0x3000 True (replicate 100 7) 100 550 = Some (int n, fs')"
      "n = (if deny_write_cnt (sample_inode 6 4 600) = 0 then nat (min 100 (inode_length (sample_inode 6 4 600) - 550)) else 0)"
      "inode_read_at fs' 0x3000 True (int n) 550 = Some (take n (replicate 100 7), fs'')"
    using inode_write_at_correct [OF sample_fs_fields(1), of 550 100 "replicate 100 7"] sample_inodes(3) unfolding sample_fs_fields(3) by auto
  have "n = 50"
    using w(2) by simp (simp add: sample_inode_def)
  then show ?thesis
    using w(1,3) by auto
qed

lemma sample_used: "used (free_map sample_fs) = {0..<6}" "bit_cnt (free_map sample_fs) = 8" "wf_bitmap (free_map sample_fs)"
proof -
  have m: "(63 :: u32) = mask 6"
    by (simp add: mask_eq_exp_minus_1)
  have "bit (63 :: u32) i \<longleftrightarrow> i < 6" if "i < 8" for i
    unfolding m bit_mask_iff using that by simp
  then show "used (free_map sample_fs) = {0..<6}"
    by (auto simp: used_def bits_of_def sample_fs_def)
qed (simp_all add: sample_fs_def wf_bitmap_def)

lemma sample_room: "room sample_fs 1" "room sample_fs 2"
  by (rule exI [of _ 6], simp add: sample_used)+

theorem free_map_persistent_witness:
  "\<exists>s fs'. free_map_allocate sample_fs True 2 = Some (Some s, fs') \<and> unat s = 6 \<and> used (free_map fs') = {0..<8} \<and> on_disk (free_map sample_fs) fs'
    \<and> (\<exists>fs''. free_map_release sample_fs True 4 2 = Some fs'' \<and> used (free_map fs'') = {0..<4} \<and> on_disk (free_map sample_fs) fs'')"
proof -
  note p = free_map_persistent [OF sample_wf_fs(1) refl sample_used(3), of True 2 4]
  obtain r fs' where a: "free_map_allocate sample_fs True 2 = Some (r, fs')"
      "case r of None \<Rightarrow> used (free_map fs') = used (free_map sample_fs) \<and> (True \<longrightarrow> \<not> room sample_fs 2)
       | Some s \<Rightarrow> wf_fs fs' \<and> on_disk (free_map sample_fs) fs' \<and> unat s + 2 \<le> bit_cnt (free_map sample_fs)
           \<and> {unat s..<unat s + 2} \<inter> used (free_map sample_fs) = {} \<and> used (free_map fs') = used (free_map sample_fs) \<union> {unat s..<unat s + 2}"
    using p by blast
  then obtain s where r: "r = Some s"
    using sample_room(2) by (cases r) auto
  then have s: "unat s = 6"
    using a(2) sample_used by auto
  then have "used (free_map fs') = {0..<8}"
    using a(2) r sample_used by auto
  moreover have "\<exists>fs''. free_map_release sample_fs True 4 2 = Some fs'' \<and> used (free_map fs'') = {0..<4} \<and> on_disk (free_map sample_fs) fs''"
  proof -
    have "{0..<6} - {4..<6} = {0..<4 :: nat}"
      by auto
    then show ?thesis
      using p sample_used by fastforce
  qed
  ultimately show ?thesis
    using a r s by auto
qed

theorem inode_create_correct_witness:
  "\<exists>fs'. inode_create sample_fs True True 1 100 = Some (True, fs') \<and> wf_fs fs'
    \<and> sint (dlength (get_inode (sectors (fs_device fs') 1))) = 100 \<and> inode_create sample_fs False True 1 100 = Some (False, sample_fs)"
proof -
  have h: "unat (1 :: u32) \<in> used (free_map sample_fs)" "(1 :: u32) \<notin> sector_set (sample_inode 0 2 4)" "bytes_to_sectors 100 = 1"
    using sample_wf_fs(4) by (simp_all add: sample_used sectors_of_length)
  note c = inode_create_correct [OF sample_wf_fs(1,2) _ _ h(1) sample_wf_fs(3) h(2), of 100, unfolded h(3)]
  obtain ok fs' where "inode_create sample_fs True True 1 100 = Some (ok, fs')" "ok \<longleftrightarrow> room sample_fs 1"
      "ok \<longrightarrow> wf_fs fs' \<and> sint (dlength (get_inode (sectors (fs_device fs') 1))) = 100"
    using c [of True True] unfolding Let_def by auto
  moreover have "inode_create sample_fs False True 1 100 = Some (False, sample_fs)"
    using c [of False True] by auto
  ultimately show ?thesis
    using sample_room(1) by auto
qed

theorem dir_add_correct_witness:
  "\<exists>ok fs'. dir_add sample_fs True (replicate 20 9) \<lparr>dir_inode = 0x2000, dir_pos = 0\<rparr> [97, 98] 6 = Some (ok, fs') \<and> ok
    \<and> (\<exists>r fs''. lookup fs' True \<lparr>dir_inode = 0x2000, dir_pos = 0\<rparr> [97, 98] = Some (r, fs'') \<and> map_option (entry_sector \<circ> fst) r = Some 6)"
proof -
  let ?d = "\<lparr>dir_inode = 0x2000, dir_pos = 0\<rparr>" and ?C = "replicate 40 (0 :: u8)"
  have d: "dir_at sample_fs ?d (sample_inode 1 3 40) ?C"
    using sample_inodes(2) sample_dir by (simp add: dir_at_def sample_fs_fields)
  have u: "\<not> entry_used (entry ?C i)" if "i < slots ?C" for i
    using that entry_length [of ?C i] by (auto simp: entry_used_def entry_def slots_def)
  then have w: "wf_dir ?C" "dir_map ?C [97, 98] = None"
    using first_slot_None [of "matches [97, 98]" ?C] by (auto simp: wf_dir_def dir_map_def matches_def)
  have f: "\<exists>i < slots ?C. \<not> entry_used (entry ?C i)"
    using u [of 0] by (intro exI [of _ 0]) (simp add: slots_def)
  have h: "deny_write_cnt (sample_inode 1 3 40) = 0" "(0 :: u8) \<notin> set [97, 98]" "length (replicate 20 (9 :: u8)) = 20"
    by (simp_all add: sample_inode_def)
  obtain ok fs' C' where r: "dir_add sample_fs True (replicate 20 9) ?d [97, 98] 6 = Some (ok, fs')"
      "ok \<longleftrightarrow> [97, 98] \<noteq> ([] :: u8 list) \<and> length [97, 98 :: u8] \<le> NAME_MAX \<and> dir_map ?C [97, 98] = None \<and> (\<exists>i < slots ?C. \<not> entry_used (entry ?C i))"
      "dir_map C' = (if ok then (dir_map ?C)([97, 98] \<mapsto> 6) else dir_map ?C)"
      "\<exists>r fs''. lookup fs' True ?d [97, 98] = Some (r, fs'') \<and> map_option (entry_sector \<circ> fst) r = dir_map C' [97, 98]"
    using dir_add_correct [OF d h(1) w(1) h(2,3), of 6] h(2) by blast
  have ok
    using r(2) w(2) f by (simp add: NAME_MAX_def)
  then show ?thesis
    using r(1,3,4) by (intro exI [of _ ok] exI [of _ fs']) simp
qed

end
