(* ===== verification/Address_Spaces.thy ===== *)
theory Address_Spaces
  imports Pagedir_Correct
begin

text \<open>
  Several page directories at once: the directories of different processes share no page
  tables, so that changing an entry of one of them leaves the others alone.  The accessors
  of the accessed and the dirty bit are treated here, as the page replacement uses them on
  the directories of all processes.
\<close>

definition tables :: "paging \<Rightarrow> u32 \<Rightarrow> u32 set" where
  "tables s pd = {pt. \<exists>i < 768. pt_at s pd i = Some pt}"

definition wf_pds :: "paging \<Rightarrow> u32 set \<Rightarrow> bool" where
  "wf_pds s P \<longleftrightarrow> (\<forall>pd \<in> P. wf_pd s pd) \<and> pdbr s < PHYS_BASE
     \<and> (\<forall>pd \<in> P. \<forall>pd' \<in> P. pd' \<notin> tables s pd \<and> (pd \<noteq> pd' \<longrightarrow> tables s pd \<inter> tables s pd' = {}))"

text \<open>The flag of the entry of a user page; a page without an entry has no flag.\<close>

definition flag_at :: "u32 \<Rightarrow> paging \<Rightarrow> u32 \<Rightarrow> u32 \<Rightarrow> bool" where
  "flag_at flag s pd va = (case user_pte s pd va of None \<Rightarrow> False | Some e \<Rightarrow> e AND flag \<noteq> 0)"

lemma pte_flag_at:
  assumes wf: "wf_pd s pd" and va: "is_user_vaddr va"
  shows "pte_flag flag s pd va = Some (flag_at flag s pd va)"
proof (cases "pt_at s pd (unat (pd_no va))")
  case None
  then show ?thesis
    by (simp add: pte_flag_def lookup_page_False [OF assms] flag_at_def user_pte_def)
next
  case (Some pt)
  then have "get_entry s pt (unat (pt_no va)) = Some (frames (mem s) pt ! unat (pt_no va))"
    using get_entry_ok [OF wf] wf_pdD(5) [OF wf user_slot [OF va]] by (simp add: unat_pt_no)
  then show ?thesis
    using Some by (simp add: pte_flag_def lookup_page_False [OF assms] flag_at_def user_pte_def)
qed

text \<open>A change of one frame that is not the directory leaves a directory well-formed.\<close>

lemma frame_update_pd:
  assumes wf: "wf_pd s pd" and s': "mem s' = (mem s)\<lparr>frames := (frames (mem s))(pt := f)\<rparr>"
    and "pt \<noteq> pd" and "length f = 1024"
  shows "wf_pd s' pd" and "pt_at s' pd = pt_at s pd" and "tables s' pd = tables s pd"
proof -
  have dir: "frames (mem s') pd = frames (mem s) pd" and kp: "kpages s' = kpages s"
    using assms(3) by (simp_all add: s' kpages_def)
  show pts: "pt_at s' pd = pt_at s pd"
    unfolding pt_at_def dir ..
  then show "tables s' pd = tables s pd"
    by (simp add: tables_def)
  have "\<forall>p. length (frames (mem s') p) = 1024" "wf_palloc (mem s')"
    using wf_pdD(1,2) [OF wf] assms(4) by (simp_all add: s' wf_palloc_def)
  then show "wf_pd s' pd"
    using wf unfolding wf_pd_def dir pts kp by blast
qed

lemma wf_pd_mem:
  assumes "mem s' = mem s"
  shows "wf_pd s' pd = wf_pd s pd" and "pt_at s' = pt_at s" and "user_pte s' = user_pte s"
proof -
  show pts: "pt_at s' = pt_at s"
    by (intro ext) (simp add: pt_at_def assms)
  show "wf_pd s' pd = wf_pd s pd"
    unfolding wf_pd_def kpages_def assms pts ..
  show "user_pte s' = user_pte s"
    by (intro ext) (simp add: user_pte_def pts assms)
qed

lemma invalidate_pagedir_ok:
  assumes "wf_pd s pd" and act: "pdbr s < PHYS_BASE"
  shows "\<exists>s'. invalidate_pagedir s pd = Some s' \<and> mem s' = mem s \<and> pdbr s' < PHYS_BASE"
proof -
  have "pd \<noteq> 0" "is_kernel_vaddr pd"
    using wf_pdD(1,3) [OF assms(1)] kpages_facts by auto
  moreover from this(2) have "pd - PHYS_BASE < PHYS_BASE"
  proof -
    have "unat pd < 2 ^ 32"
      using unsigned_less [of pd] by simp
    then show ?thesis
      using \<open>is_kernel_vaddr pd\<close>
      by (simp add: is_kernel_vaddr_def PHYS_BASE_def word_less_nat_alt word_le_nat_alt unat_sub)
  qed
  ultimately show ?thesis
    using act by (simp add: invalidate_pagedir_def active_pd_def ptov_def pagedir_activate_def vtop_def)
qed

text \<open>
  Clearing a flag of a page clears it in the entry of that page only, in all of the
  directories.
\<close>

lemma pte_clear_flag:
  assumes wf: "wf_pds s P" and pd: "pd \<in> P" and va: "is_user_vaddr va" and al: "pg_ofs va = 0"
  shows "\<exists>s'. pte_set_flag flag s pd va False = Some s' \<and> wf_pds s' P
    \<and> (\<forall>pd' \<in> P. \<forall>a. is_user_vaddr a \<longrightarrow> user_pte s' pd' a =
        (if pd' = pd \<and> pg_round_down a = va then map_option (\<lambda>e. e AND NOT flag) (user_pte s pd' a) else user_pte s pd' a))"
proof -
  have wfp: "\<And>p. p \<in> P \<Longrightarrow> wf_pd s p"
    using wf by (simp add: wf_pds_def)
  let ?i = "unat (pd_no va)" and ?j = "unat (pt_no va)"
  have same: "unat (pd_no a) = ?i \<and> unat (pt_no a) = ?j \<longleftrightarrow> pg_round_down a = va" for a
    by (rule same_slot_iff [OF al])
  show ?thesis
  proof (cases "pt_at s pd ?i")
    case None
    have "user_pte s pd a = None" if "pg_round_down a = va" for a
      using None same [of a] that by (simp add: user_pte_def)
    then show ?thesis
      using None wf by (auto simp: pte_set_flag_def lookup_page_False [OF wfp [OF pd] va])
  next
    case (Some pt)
    let ?e = "frames (mem s) pt ! ?j"
    have i: "?i < 768" and j: "?j < 1024"
      using user_slot [OF va] by (simp_all add: unat_pt_no)
    have ptt: "pt \<in> tables s pd"
      using Some i by (auto simp: tables_def)
    have pt0: "pt \<noteq> 0"
      using wf_pdD(5) [OF wfp [OF pd] i Some] by simp
    obtain s1 where s1: "set_entry s pt ?j (?e AND NOT flag) = Some s1" "wf_pd s1 pd"
        "\<forall>a. is_user_vaddr a \<longrightarrow> user_pte s1 pd a =
          (if unat (pd_no a) = ?i \<and> unat (pt_no a) = ?j then Some (?e AND NOT flag) else user_pte s pd a)"
        "pdbr s1 = pdbr s"
      using set_entry_pt [OF wfp [OF pd] i Some j] by blast
    have ms1: "mem s1 = (mem s)\<lparr>frames := (frames (mem s))(pt := (frames (mem s) pt)[?j := ?e AND NOT flag])\<rparr>"
      using s1(1) by (auto simp: set_entry_def Let_def split: if_splits)
    have other: "wf_pd s1 p" "pt_at s1 p = pt_at s p" "tables s1 p = tables s p" if "p \<in> P" for p
      using frame_update_pd [OF wfp [OF that] ms1] ptt wf pd that wf_pdD(2) [OF wfp [OF pd], of pt]
      by (auto simp: wf_pds_def)
    obtain s' where s': "invalidate_pagedir s1 pd = Some s'" "mem s' = mem s1" "pdbr s' < PHYS_BASE"
      using invalidate_pagedir_ok [OF s1(2)] s1(4) wf by (auto simp: wf_pds_def)
    note keep = wf_pd_mem [OF s'(2)]
    have "tables s' p = tables s p" if "p \<in> P" for p
      using other(3) [OF that] by (simp add: tables_def keep(2))
    then have w': "wf_pds s' P"
      using wf other(1) s'(3) by (simp add: wf_pds_def keep(1))
    have "user_pte s1 p a = user_pte s p a" if "p \<in> P" "p \<noteq> pd" "is_user_vaddr a" for p a
    proof -
      have "pt \<notin> tables s p"
        using wf that pd ptt unfolding wf_pds_def by blast
      then have "pt_at s p (unat (pd_no a)) \<noteq> Some pt"
        using user_slot [OF that(3)] by (auto simp: tables_def)
      then show ?thesis
        using ms1 by (cases "pt_at s p (unat (pd_no a))") (simp_all add: user_pte_def other(2) [OF that(1)])
    qed
    moreover have "user_pte s pd a = Some ?e" if "pg_round_down a = va" for a
      using Some same [of a] that by (simp add: user_pte_def)
    ultimately have "user_pte s' p a =
        (if p = pd \<and> pg_round_down a = va then map_option (\<lambda>e. e AND NOT flag) (user_pte s p a) else user_pte s p a)"
      if "p \<in> P" "is_user_vaddr a" for p a
      using that s1(3) by (cases "p = pd") (auto simp: keep(3) same)
    moreover have "pte_set_flag flag s pd va False = Some s'"
      using Some get_entry_ok [OF wfp [OF pd] pt0 j] s1(1) s'(1)
      by (simp add: pte_set_flag_def lookup_page_False [OF wfp [OF pd] va])
    ultimately show ?thesis
      using w' by blast
  qed
qed

end
