(* ===== verification/Swap.thy ===== *)
theory Swap
  imports Free_Map Vaddr
begin

text \<open>
  Swap slots, \<open>vm/swap.c\<close>.  A slot is eight sectors of the block device with the role
  \<open>BLOCK_SWAP\<close>, the bitmap says which slots are taken, and slot numbers are handed out plus
  one, so that 0 means no slot.  Every operation runs under \<open>swap_lock\<close> and is one step.  A
  page is its frame of 1024 words; the device holds their bytes.
\<close>

section \<open>The operations\<close>

record swap =
  swap_bitmap :: bitmap
  swap_block :: block_dev

text \<open>The bytes of the \<open>i\<close>-th part of a page, and a page with that part replaced.\<close>

definition page_part :: "u32 list \<Rightarrow> nat \<Rightarrow> u8 list" where
  "page_part ws i = concat (map le32 (take 128 (drop (128 * i) ws)))"

definition set_page_part :: "u32 list \<Rightarrow> nat \<Rightarrow> u8 list \<Rightarrow> u32 list" where
  "set_page_part ws i bs = take (128 * i) ws @ map (\<lambda>j. get32 (drop (4 * j) bs)) [0..<128] @ drop (128 * (i + 1)) ws"

text \<open>\<open>hdr\<close> and \<open>buf\<close> are what the two allocations of \<open>bitmap_create\<close> give.\<close>

definition swap_init :: "nat \<Rightarrow> bool \<Rightarrow> u32 list option \<Rightarrow> block_dev \<Rightarrow> swap option option" where
  "swap_init n hdr buf d = do {
     b \<leftarrow> bitmap_create n hdr buf;
     Some (map_option (\<lambda>b. \<lparr>swap_bitmap = b, swap_block = d\<rparr>) b)
   }"

fun swap_in_loop :: "block_dev \<Rightarrow> nat \<Rightarrow> u32 list \<Rightarrow> nat \<Rightarrow> nat \<Rightarrow> (u32 list \<times> block_dev) option" where
  "swap_in_loop d idx ws i 0 = Some (ws, d)"
| "swap_in_loop d idx ws i (Suc n) = do {
     (bs, d) \<leftarrow> block_read d (word_of_nat (idx + i));
     swap_in_loop d idx (set_page_part ws i bs) (i + 1) n
   }"

definition swap_in :: "swap \<Rightarrow> nat \<Rightarrow> u32 \<Rightarrow> u32 list \<Rightarrow> (u32 list \<times> swap) option" where
  "swap_in s used_index kaddr ws = do {
     ASSERT (used_index \<noteq> 0);
     let used_index = used_index - 1;
     ASSERT (pg_ofs kaddr = 0);
     let used_index = size_wrap (used_index * 8);
     (ws, d) \<leftarrow> swap_in_loop (swap_block s) used_index ws 0 8;
     let used_index = used_index div 8;
     b \<leftarrow> bitmap_set_multiple (swap_bitmap s) used_index 1 False;
     ASSERT (pg_ofs kaddr = 0);
     Some (ws, \<lparr>swap_bitmap = b, swap_block = d\<rparr>)
   }"

definition swap_clear :: "swap \<Rightarrow> nat \<Rightarrow> swap option" where
  "swap_clear s used_index =
     (if used_index = 0 then Some s
      else do {
        b \<leftarrow> bitmap_set_multiple (swap_bitmap s) (used_index - 1) 1 False;
        Some (s\<lparr>swap_bitmap := b\<rparr>)
      })"

fun swap_out_loop :: "block_dev \<Rightarrow> nat \<Rightarrow> u32 list \<Rightarrow> nat \<Rightarrow> nat \<Rightarrow> block_dev option" where
  "swap_out_loop d idx ws i 0 = Some d"
| "swap_out_loop d idx ws i (Suc n) = do {
     d \<leftarrow> block_write d (word_of_nat (idx + i)) (page_part ws i);
     swap_out_loop d idx ws (i + 1) n
   }"

definition swap_out :: "swap \<Rightarrow> u32 \<Rightarrow> u32 list \<Rightarrow> (nat \<times> swap) option" where
  "swap_out s kaddr ws = do {
     ASSERT (pg_ofs kaddr = 0);
     (swap_index, b) \<leftarrow> bitmap_scan_and_flip (swap_bitmap s) 0 1 False;
     ASSERT (swap_index \<noteq> BITMAP_ERROR);
     let swap_index = size_wrap (swap_index * 8);
     d \<leftarrow> swap_out_loop (swap_block s) swap_index ws 0 8;
     let swap_index = swap_index div 8;
     ASSERT (pg_ofs kaddr = 0);
     Some (swap_index + 1, \<lparr>swap_bitmap = b, swap_block = d\<rparr>)
   }"

section \<open>Pages and their bytes\<close>

lemma length_page_part: "length ws = 1024 \<Longrightarrow> i < 8 \<Longrightarrow> length (page_part ws i) = 512"
  by (simp add: page_part_def)

lemma get32_concat: "j < length ws \<Longrightarrow> get32 (drop (4 * j) (concat (map le32 ws))) = ws ! j"
proof (induction ws arbitrary: j)
  case (Cons w ws)
  then show ?case
    by (cases j) (simp_all add: drop_append [of 4 "le32 w", simplified])
qed simp

lemma get32_page_part:
  assumes "length ws = 1024" and "i < 8" and "j < 128"
  shows "get32 (drop (4 * j) (page_part ws i)) = ws ! (128 * i + j)"
  using assms get32_concat [of j "take 128 (drop (128 * i) ws)"] by (simp add: page_part_def)

lemma set_page_part_nth:
  assumes "length ws = 1024" and "i < 8"
  shows "length (set_page_part ws i bs) = 1024"
    and "k < 1024 \<Longrightarrow> set_page_part ws i bs ! k =
      (if 128 * i \<le> k \<and> k < 128 * i + 128 then get32 (drop (4 * (k - 128 * i)) bs) else ws ! k)"
  using assms by (auto simp: set_page_part_def nth_append min_def)

section \<open>Slots\<close>

definition slot_sector :: "nat \<Rightarrow> nat \<Rightarrow> u32" where
  "slot_sector i j = word_of_nat (8 * i + j)"

text \<open>The page \<open>ws\<close> lies in slot \<open>i\<close>.\<close>

definition stored :: "swap \<Rightarrow> nat \<Rightarrow> u32 list \<Rightarrow> bool" where
  "stored s i ws \<longleftrightarrow> (\<forall>j < 8. sectors (swap_block s) (slot_sector i j) = page_part ws j)"

definition wf_swap :: "swap \<Rightarrow> bool" where
  "wf_swap s \<longleftrightarrow> wf_bitmap (swap_bitmap s) \<and> wf_block (swap_block s)
     \<and> 8 * bit_cnt (swap_bitmap s) \<le> unat (bsize (swap_block s))"

definition slots_used :: "swap \<Rightarrow> nat set" where
  "slots_used s = used (swap_bitmap s)"

lemma slot_bound:
  assumes "wf_swap s" and "i < bit_cnt (swap_bitmap s)"
  shows "size_wrap (i * 8) = 8 * i" and "j < 8 \<Longrightarrow> unat (slot_sector i j) = 8 * i + j"
    and "j < 8 \<Longrightarrow> slot_sector i j < bsize (swap_block s)"
proof -
  have b: "8 * i + 8 \<le> unat (bsize (swap_block s))" "unat (bsize (swap_block s)) < 2 ^ 32"
    using assms unsigned_less [of "bsize (swap_block s)"] by (auto simp: wf_swap_def)
  then show "size_wrap (i * 8) = 8 * i"
    by (simp add: size_wrap_def mult.commute)
  show u: "unat (slot_sector i j) = 8 * i + j" if "j < 8"
    using b that unfolding slot_sector_def unat_of_nat by simp
  show "slot_sector i j < bsize (swap_block s)" if "j < 8"
    using b u that by (simp add: word_less_nat_alt)
qed

lemma slot_sector_eq:
  assumes "wf_swap s" and "i < bit_cnt (swap_bitmap s)" and "k < bit_cnt (swap_bitmap s)" and "j < 8" and "l < 8"
  shows "slot_sector i j = slot_sector k l \<longleftrightarrow> i = k \<and> j = l"
proof
  assume "slot_sector i j = slot_sector k l"
  then have "8 * i + j = 8 * k + l"
    using slot_bound(2) assms by metis
  then show "i = k \<and> j = l"
    using assms(4,5) by presburger
qed simp

lemma swap_out_loop_sectors:
  assumes "length ws = 1024" and "i + n = 8" and "wf_block d"
    and "\<And>j. j < 8 \<Longrightarrow> slot_sector s j < bsize d"
    and "\<And>j k. j < 8 \<Longrightarrow> k < 8 \<Longrightarrow> slot_sector s j = slot_sector s k \<Longrightarrow> j = k"
  shows "\<exists>d'. swap_out_loop d (8 * s) ws i n = Some d' \<and> wf_block d' \<and> bsize d' = bsize d
    \<and> (\<forall>j. i \<le> j \<and> j < 8 \<longrightarrow> sectors d' (slot_sector s j) = page_part ws j)
    \<and> (\<forall>x. x \<notin> slot_sector s ` {i..<8} \<longrightarrow> sectors d' x = sectors d x)"
  using assms
proof (induction n arbitrary: i d)
  case (Suc n)
  let ?d = "d\<lparr>sectors := (sectors d)(slot_sector s i := page_part ws i), write_cnt := write_cnt d + 1\<rparr>"
  have w: "block_write d (slot_sector s i) (page_part ws i) = Some ?d" "wf_block ?d"
    using Suc.prems by (auto intro!: block_write_ok wf_block_write simp: length_page_part BLOCK_SECTOR_SIZE_def)
  obtain d' where d': "swap_out_loop ?d (8 * s) ws (i + 1) n = Some d'" "wf_block d'" "bsize d' = bsize d"
      "\<And>j. i + 1 \<le> j \<and> j < 8 \<Longrightarrow> sectors d' (slot_sector s j) = page_part ws j"
      "\<And>x. x \<notin> slot_sector s ` {i + 1..<8} \<Longrightarrow> sectors d' x = sectors ?d x"
    using Suc.IH [of "i + 1" ?d] Suc.prems w(2) by auto
  have i: "slot_sector s i \<notin> slot_sector s ` {i + 1..<8}"
  proof
    assume "slot_sector s i \<in> slot_sector s ` {i + 1..<8}"
    then obtain k where "i + 1 \<le> k" "k < 8" "slot_sector s i = slot_sector s k"
      by auto
    then show False
      using Suc.prems(5) [of i k] by simp
  qed
  have "sectors d' (slot_sector s j) = page_part ws j" if "i \<le> j" "j < 8" for j
    using that d'(4) [of j] d'(5) [OF i] by (cases "j = i") auto
  moreover have "sectors d' x = sectors d x" if "x \<notin> slot_sector s ` {i..<8}" for x
  proof -
    have "x \<notin> slot_sector s ` {i + 1..<8}" "x \<noteq> slot_sector s i"
      using that Suc.prems(2) by auto
    then show ?thesis
      using d'(5) [of x] by simp
  qed
  ultimately show ?case
    using w(1) d'(1-3) by (simp add: slot_sector_def)
qed auto

lemma swap_in_loop_words:
  assumes "length ws = 1024" and "length old = 1024" and "i + n = 8"
    and "\<And>j. j < 8 \<Longrightarrow> slot_sector s j < bsize d \<and> sectors d (slot_sector s j) = page_part ws j"
    and "\<And>k. k < 128 * i \<Longrightarrow> old ! k = ws ! k"
  shows "\<exists>c. swap_in_loop d (8 * s) old i n = Some (ws, d\<lparr>read_cnt := c\<rparr>)"
  using assms
proof (induction n arbitrary: i d old)
  case 0
  then have "old = ws"
    by (intro nth_equalityI) auto
  then show ?case
    by (auto intro: exI [of _ "read_cnt d"])
next
  case (Suc n)
  let ?d = "d\<lparr>read_cnt := read_cnt d + 1\<rparr>" and ?ws = "set_page_part old i (page_part ws i)"
  have r: "block_read d (word_of_nat (8 * s + i)) = Some (page_part ws i, ?d)"
    using Suc.prems(3) Suc.prems(4) [of i] block_read_ok [of "slot_sector s i" d] by (simp add: slot_sector_def)
  have i: "i < 8"
    using Suc.prems(3) by simp
  have "?ws ! k = ws ! k" if "k < 128 * (i + 1)" for k
    using that i Suc.prems(1,5) set_page_part_nth(2) [OF Suc.prems(2) i, of k]
    by (auto simp: get32_page_part)
  then have "\<exists>c. swap_in_loop ?d (8 * s) ?ws (i + 1) n = Some (ws, ?d\<lparr>read_cnt := c\<rparr>)"
    using Suc.prems set_page_part_nth(1) [OF Suc.prems(2) i] by (intro Suc.IH) auto
  then show ?case
    using r by simp
qed

text \<open>As long as a slot is free a page can be swapped out, and no other slot is written.\<close>

lemma swap_out_ok:
  assumes wf: "wf_swap s" and "pg_ofs kaddr = 0" and ws: "length ws = 1024"
    and free: "\<exists>i < bit_cnt (swap_bitmap s). i \<notin> slots_used s"
  shows "\<exists>i s'. swap_out s kaddr ws = Some (i + 1, s') \<and> wf_swap s' \<and> i \<notin> slots_used s
    \<and> i < bit_cnt (swap_bitmap s) \<and> slots_used s' = insert i (slots_used s) \<and> bit_cnt (swap_bitmap s') = bit_cnt (swap_bitmap s)
    \<and> stored s' i ws \<and> (\<forall>k < bit_cnt (swap_bitmap s). k \<noteq> i \<longrightarrow> (\<forall>v. stored s' k v = stored s k v))"
proof -
  let ?b = "swap_bitmap s" and ?d = "swap_block s"
  have wb: "wf_bitmap ?b"
    using wf by (simp add: wf_swap_def)
  obtain r b' where r: "bitmap_alloc ?b 1 = Some (r, b')" "wf_bitmap b'" "bit_cnt b' = bit_cnt ?b"
    "case r of None \<Rightarrow> used b' = used ?b \<and> \<not> (\<exists>i. i + 1 \<le> bit_cnt ?b \<and> {i..<i + 1} \<inter> used ?b = {})
     | Some i \<Rightarrow> i + 1 \<le> bit_cnt ?b \<and> {i..<i + 1} \<inter> used ?b = {} \<and> used b' = used ?b \<union> {i..<i + 1}"
    using bitmap_alloc_used [OF wb, of 1] by blast
  have "r \<noteq> None"
  proof
    assume "r = None"
    moreover obtain i where "i + 1 \<le> bit_cnt ?b" "{i..<i + 1} \<inter> used ?b = {}"
      using free by (auto simp: slots_used_def Suc_le_eq)
    ultimately show False
      using r(4) by auto
  qed
  then obtain i where i: "r = Some i" "i < bit_cnt ?b" "i \<notin> used ?b" "used b' = insert i (used ?b)"
    using r(4) by (cases r) auto
  have scan: "bitmap_scan_and_flip ?b 0 1 False = Some (i, b')" "i \<noteq> BITMAP_ERROR"
    using r(1) i(1) by (auto simp: bitmap_alloc_def Option.bind_eq_Some_conv split: if_splits)
  obtain d' where d': "swap_out_loop ?d (8 * i) ws 0 8 = Some d'" "wf_block d'" "bsize d' = bsize ?d"
      "\<And>j. j < 8 \<Longrightarrow> sectors d' (slot_sector i j) = page_part ws j"
      "\<And>x. x \<notin> slot_sector i ` {0..<8} \<Longrightarrow> sectors d' x = sectors ?d x"
    using swap_out_loop_sectors [OF ws, of 0 8 ?d i] wf slot_bound(3) [OF wf i(2)] slot_sector_eq [OF wf i(2) i(2)]
    by (auto simp: wf_swap_def)
  have other: "sectors d' (slot_sector k j) = sectors ?d (slot_sector k j)" if "k < bit_cnt ?b" "k \<noteq> i" "j < 8" for k j
  proof (rule d'(5))
    show "slot_sector k j \<notin> slot_sector i ` {0..<8}"
      using slot_sector_eq [OF wf that(1) i(2) that(3)] that(2) by (metis atLeastLessThan_iff imageE)
  qed
  show ?thesis
    using assms(2) scan slot_bound(1) [OF wf i(2)] d' i r(2,3) wf other
    by (intro exI [of _ i] exI [of _ "\<lparr>swap_bitmap = b', swap_block = d'\<rparr>"])
      (auto simp: swap_out_def wf_swap_def slots_used_def stored_def)
qed

lemma swap_clear_ok:
  assumes wf: "wf_swap s" and "i < bit_cnt (swap_bitmap s)"
  shows "\<exists>b. bitmap_set_multiple (swap_bitmap s) i 1 False = Some b \<and> wf_bitmap b \<and> bit_cnt b = bit_cnt (swap_bitmap s)
    \<and> used b = slots_used s - {i}"
proof -
  have "wf_bitmap (swap_bitmap s)" "i + 1 \<le> bit_cnt (swap_bitmap s)"
    using assms by (auto simp: wf_swap_def)
  then obtain b where b: "bitmap_set_multiple (swap_bitmap s) i 1 False = Some b" "wf_bitmap b"
      "bit_cnt b = bit_cnt (swap_bitmap s)" "bits_of b = fill (bits_of (swap_bitmap s)) i 1 False"
    using bitmap_set_multiple_bits by blast
  then show ?thesis
    using used_fill [OF b(4) _ b(3)] assms(2) by (auto simp: slots_used_def)
qed

text \<open>Reading a slot gives the page stored there and frees the slot.\<close>

lemma swap_in_ok:
  assumes wf: "wf_swap s" and "i < bit_cnt (swap_bitmap s)" and st: "stored s i ws"
    and "length ws = 1024" and "length old = 1024" and "pg_ofs kaddr = 0"
  shows "\<exists>s'. swap_in s (i + 1) kaddr old = Some (ws, s') \<and> slots_used s' = slots_used s - {i}"
proof -
  have "\<exists>c. swap_in_loop (swap_block s) (8 * i) old 0 8 = Some (ws, swap_block s\<lparr>read_cnt := c\<rparr>)"
    using assms slot_bound(3) [OF wf assms(2)] by (intro swap_in_loop_words) (auto simp: stored_def)
  moreover obtain b where "bitmap_set_multiple (swap_bitmap s) i 1 False = Some b" "used b = slots_used s - {i}"
    using swap_clear_ok [OF assms(1,2)] by blast
  ultimately show ?thesis
    using assms(6) slot_bound(1) [OF wf assms(2)] by (auto simp: swap_in_def slots_used_def)
qed

section \<open>Sequences of operations\<close>

datatype swap_op =
    SwapOut u32 "u32 list"
  | SwapIn nat u32 "u32 list"
  | SwapClear nat

fun swap_step :: "swap_op \<Rightarrow> swap \<Rightarrow> swap option" where
  "swap_step (SwapOut kaddr ws) s = map_option snd (swap_out s kaddr ws)"
| "swap_step (SwapIn n kaddr ws) s = map_option snd (swap_in s n kaddr ws)"
| "swap_step (SwapClear n) s = swap_clear s n"

fun swap_steps :: "swap_op list \<Rightarrow> swap \<Rightarrow> swap option" where
  "swap_steps [] s = Some s"
| "swap_steps (a # as) s = do { s \<leftarrow> swap_step a s; swap_steps as s }"

text \<open>
  The operation passes whole pages and does not give up slot number \<open>n\<close>.  Slot numbers above
  2 to the 29 wrap around when they are turned into sector numbers.
\<close>

fun keeps_slot :: "nat \<Rightarrow> swap_op \<Rightarrow> bool" where
  "keeps_slot n (SwapOut kaddr ws) \<longleftrightarrow> length ws = 1024"
| "keeps_slot n (SwapIn m kaddr ws) \<longleftrightarrow> m \<noteq> n \<and> m \<le> 2 ^ 29"
| "keeps_slot n (SwapClear m) \<longleftrightarrow> m \<noteq> n"

text \<open>Slot \<open>i\<close> is taken and holds the page.\<close>

definition holds_page :: "swap \<Rightarrow> nat \<Rightarrow> u32 list \<Rightarrow> bool" where
  "holds_page s i ws \<longleftrightarrow> wf_swap s \<and> i \<in> slots_used s \<and> stored s i ws"

lemma slots_used_bound: "i \<in> slots_used s \<Longrightarrow> i < bit_cnt (swap_bitmap s)"
  by (simp add: slots_used_def used_def)

text \<open>A successful operation found a free slot, or a slot that exists.\<close>

lemma swap_out_free:
  assumes wf: "wf_swap s" and "swap_out s kaddr ws = Some r"
  shows "pg_ofs kaddr = 0" and "\<exists>i < bit_cnt (swap_bitmap s). i \<notin> slots_used s"
proof -
  obtain i b where i: "bitmap_scan_and_flip (swap_bitmap s) 0 1 False = Some (i, b)" "i \<noteq> BITMAP_ERROR" "pg_ofs kaddr = 0"
    using assms(2) by (auto simp: swap_out_def Option.bind_eq_Some_conv)
  then have "bitmap_alloc (swap_bitmap s) 1 = Some (Some i, b)"
    by (simp add: bitmap_alloc_def)
  then have "i + 1 \<le> bit_cnt (swap_bitmap s)" "{i..<i + 1} \<inter> used (swap_bitmap s) = {}"
    using bitmap_alloc_used [of "swap_bitmap s" 1] wf by (auto simp: wf_swap_def)
  then show "pg_ofs kaddr = 0" "\<exists>i < bit_cnt (swap_bitmap s). i \<notin> slots_used s"
    using i(3) by (auto simp: slots_used_def Suc_le_eq)
qed

lemma set_multiple_one:
  assumes "wf_swap s" and "bitmap_set_multiple (swap_bitmap s) i 1 False = Some b"
  shows "i < bit_cnt (swap_bitmap s)"
proof -
  have "size_wrap (i + 1) \<le> bit_cnt (swap_bitmap s)" "i \<le> bit_cnt (swap_bitmap s)"
    using assms(2) by (auto simp: bitmap_set_multiple_def Option.bind_eq_Some_conv)
  moreover have "bit_cnt (swap_bitmap s) < 2 ^ 32 - 32"
    using assms(1) by (simp add: wf_swap_def wf_bitmap_def)
  ultimately show ?thesis
    by (simp add: size_wrap_def)
qed

lemma swap_in_frame:
  assumes "swap_in_loop d idx ws i n = Some (ws', d')"
  shows "\<exists>c. d' = d\<lparr>read_cnt := c\<rparr>"
  using assms
proof (induction n arbitrary: d ws i)
  case 0
  then show ?case
    by (auto intro: exI [of _ "read_cnt d"])
next
  case (Suc n)
  then obtain bs d1 where "block_read d (word_of_nat (idx + i)) = Some (bs, d1)"
      "swap_in_loop d1 idx (set_page_part ws i bs) (i + 1) n = Some (ws', d')"
    by (auto simp: Option.bind_eq_Some_conv)
  moreover from this(1) have "d1 = d\<lparr>read_cnt := read_cnt d + 1\<rparr>"
    by (auto simp: block_read_def Option.bind_eq_Some_conv)
  ultimately show ?case
    using Suc.IH by fastforce
qed

text \<open>Freeing slot \<open>k\<close> leaves every other page in place.\<close>

lemma holds_page_free:
  assumes h: "holds_page s i ws" and b: "bitmap_set_multiple (swap_bitmap s) k 1 False = Some b" and "k \<noteq> i"
  shows "holds_page \<lparr>swap_bitmap = b, swap_block = (swap_block s)\<lparr>read_cnt := c\<rparr>\<rparr> i ws"
proof -
  have wf: "wf_swap s"
    using h by (simp add: holds_page_def)
  have "wf_bitmap b" "bit_cnt b = bit_cnt (swap_bitmap s)" "used b = slots_used s - {k}"
    using swap_clear_ok [OF wf set_multiple_one [OF wf b]] b by auto
  then show ?thesis
    using h \<open>k \<noteq> i\<close> by (auto simp: holds_page_def wf_swap_def slots_used_def stored_def)
qed

lemma swap_step_keeps:
  assumes h: "holds_page s i ws" and k: "keeps_slot (i + 1) a" and r: "swap_step a s = Some s'"
  shows "holds_page s' i ws"
proof (cases a)
  case (SwapOut kaddr ws')
  then obtain n where n: "swap_out s kaddr ws' = Some (n, s')"
    using r by auto
  have wf: "wf_swap s" and i: "i < bit_cnt (swap_bitmap s)"
    using h slots_used_bound by (auto simp: holds_page_def)
  have "length ws' = 1024"
    using k SwapOut by simp
  then obtain j where "wf_swap s'" "j \<notin> slots_used s" "slots_used s' = insert j (slots_used s)"
      "\<forall>k < bit_cnt (swap_bitmap s). k \<noteq> j \<longrightarrow> (\<forall>v. stored s' k v = stored s k v)"
    using swap_out_ok [OF wf swap_out_free(1) [OF wf n] _ swap_out_free(2) [OF wf n], of ws'] n by auto
  then show ?thesis
    using h i by (auto simp: holds_page_def)
next
  case (SwapIn m kaddr old)
  have wf: "wf_swap s"
    using h by (simp add: holds_page_def)
  obtain b ws' d where b: "m \<noteq> 0" "swap_in_loop (swap_block s) (size_wrap ((m - 1) * 8)) old 0 8 = Some (ws', d)"
      "bitmap_set_multiple (swap_bitmap s) (size_wrap ((m - 1) * 8) div 8) 1 False = Some b"
      "s' = \<lparr>swap_bitmap = b, swap_block = d\<rparr>"
    using r SwapIn by (auto simp: swap_in_def Option.bind_eq_Some_conv Let_def)
  obtain c where d: "d = (swap_block s)\<lparr>read_cnt := c\<rparr>"
    using swap_in_frame [OF b(2)] by blast
  have "size_wrap ((m - 1) * 8) div 8 = m - 1"
  proof -
    have "m \<le> 2 ^ 29"
      using k SwapIn by simp
    then have "(m - 1) * 8 < 2 ^ 32"
      using b(1) by simp
    then show ?thesis
      by (simp add: size_wrap_def)
  qed
  then show ?thesis
    unfolding b(4) d by (intro holds_page_free [OF h b(3)]) (use k SwapIn b(1) in auto)
next
  case (SwapClear m)
  show ?thesis
  proof (cases "m = 0")
    case True
    then show ?thesis
      using r SwapClear h by (simp add: swap_clear_def)
  next
    case False
    then obtain b where b: "bitmap_set_multiple (swap_bitmap s) (m - 1) 1 False = Some b" "s' = s\<lparr>swap_bitmap := b\<rparr>"
      using r SwapClear by (auto simp: swap_clear_def Option.bind_eq_Some_conv)
    have "m - 1 \<noteq> i"
      using k SwapClear False by auto
    then show ?thesis
      using holds_page_free [OF h b(1), of "read_cnt (swap_block s)"] b(2) by (cases s) simp
  qed
qed

lemma swap_steps_keep:
  assumes "holds_page s i ws" and "list_all (keeps_slot (i + 1)) as" and "swap_steps as s = Some s'"
  shows "holds_page s' i ws"
  using assms
proof (induction as arbitrary: s)
  case (Cons a as)
  then show ?case
    using swap_step_keeps [OF Cons.prems(1)] by (auto simp: Option.bind_eq_Some_conv)
qed simp

text \<open>
  C27: a page that was swapped out is read back unchanged, into whatever page it is asked for
  and after any sequence of other swap operations that do not give up its slot, and reading
  it frees the slot.
\<close>

theorem swap_persistent:
  assumes wf: "wf_swap s" and ws: "length ws = 1024" and out: "swap_out s kaddr ws = Some (n, s1)"
    and ops: "swap_steps as s1 = Some s2" "list_all (keeps_slot n) as"
    and to: "pg_ofs kaddr' = 0" "length old = 1024"
  shows "\<exists>s3. swap_in s2 n kaddr' old = Some (ws, s3) \<and> slots_used s3 = slots_used s2 - {n - 1}"
proof -
  obtain i where i: "n = i + 1" "wf_swap s1" "slots_used s1 = insert i (slots_used s)" "stored s1 i ws"
    using swap_out_ok [OF wf swap_out_free(1) [OF wf out] ws swap_out_free(2) [OF wf out]] out by auto
  then have h: "holds_page s2 i ws"
    using ops by (intro swap_steps_keep [of s1 i ws as s2]) (auto simp: holds_page_def)
  then show ?thesis
    using swap_in_ok [of s2 i ws old kaddr'] ws to i(1) slots_used_bound by (auto simp: holds_page_def)
qed

definition sample_swap :: swap where
  "sample_swap = \<lparr>swap_bitmap = \<lparr>bit_cnt = 3, bm_bits = [1]\<rparr>, swap_block =
     \<lparr>bname = [104, 100, 98], btype = BLOCK_SWAP, bsize = 24, read_cnt = 0, write_cnt = 0, sectors = (\<lambda>_. zeros)\<rparr>\<rparr>"

lemma sample_swap_wf: "wf_swap sample_swap"
  by (simp add: wf_swap_def sample_swap_def wf_bitmap_def wf_block_def zeros_def)

lemma sample_swap_used: "bit_cnt (swap_bitmap sample_swap) = 3" "slots_used sample_swap = {0}"
  by (auto simp: slots_used_def used_def bits_of_def sample_swap_def less_Suc_eq numeral_3_eq_3 bit_1_iff)

theorem swap_persistent_witness:
  "\<exists>n s1 s2 s3. swap_out sample_swap 0xC0000000 (replicate 1024 7) = Some (n, s1)
    \<and> swap_steps [SwapOut 0xC0002000 (replicate 1024 8)] s1 = Some s2
    \<and> swap_in s2 n 0xC0001000 (replicate 1024 0) = Some (replicate 1024 7, s3) \<and> slots_used s3 = slots_used s2 - {n - 1}"
proof -
  have al: "pg_ofs (0xC0000000 :: u32) = 0" "pg_ofs (0xC0001000 :: u32) = 0" "pg_ofs (0xC0002000 :: u32) = 0"
    by (simp_all add: pg_ofs_def PGMASK_def BITMASK_def)
  have l: "length (replicate 1024 x) = 1024" for x :: u32
    by simp
  have f: "\<exists>i < bit_cnt (swap_bitmap sample_swap). i \<notin> slots_used sample_swap"
    by (rule exI [of _ 1]) (simp add: sample_swap_used)
  obtain i s1 where 1: "swap_out sample_swap 0xC0000000 (replicate 1024 7) = Some (i + 1, s1)" "wf_swap s1"
      "slots_used s1 = insert i {0}" "bit_cnt (swap_bitmap s1) = 3"
    using swap_out_ok [OF sample_swap_wf al(1) l f] unfolding sample_swap_used by blast
  have "\<exists>i < bit_cnt (swap_bitmap s1). i \<notin> slots_used s1"
    unfolding 1(3,4) by (rule exI [of _ "if i = 1 then 2 else 1"]) simp
  then obtain n s2 where 2: "swap_out s1 0xC0002000 (replicate 1024 8) = Some (n, s2)"
    using swap_out_ok [OF 1(2) al(3) l] by blast
  then have s2: "swap_steps [SwapOut 0xC0002000 (replicate 1024 8)] s1 = Some s2"
    by simp
  have "\<exists>s3. swap_in s2 (i + 1) 0xC0001000 (replicate 1024 0) = Some (replicate 1024 7, s3)
      \<and> slots_used s3 = slots_used s2 - {i + 1 - 1}"
    by (rule swap_persistent [OF sample_swap_wf _ 1(1) s2]) (simp_all add: al)
  then show ?thesis
    using 1(1) s2 by blast
qed

end
