(* ===== verification/Frame.thy ===== *)
theory Frame
  imports Address_Spaces Swap Sched_Order
begin

text \<open>
  The list of user pages in memory and the choice of a page to evict, \<open>vm/frame.c\<close>, with
  the structures of \<open>vm/page.h\<close>.  A page and a page entry are found by their addresses; the
  list holds the addresses of its pages (the list routines themselves are treated in the list
  theories).  The operations run as one step: a lock is taken when no other thread holds it.
\<close>

section \<open>State\<close>

definition VM_ANON :: u8 where "VM_ANON = 0"
definition VM_BIN :: u8 where "VM_BIN = 1"

record page_entry =
  pge_type :: u8
  pge_vaddr :: u32
  pge_writable :: bool
  pge_loaded :: bool
  pge_file :: u32
  pge_offset :: u32
  pge_read_bytes :: u32
  pge_zero_bytes :: u32
  pge_slot :: nat

record page =
  page_kaddr :: u32
  page_pge :: u32
  page_thread :: tptr

text \<open>The hand of the clock: the null pointer, the end of the list, or a page of the list.\<close>

datatype clock = ClockNull | ClockEnd | ClockAt u32

record 'w vm =
  kern :: "'w kernel"
  vm_pages :: "u32 \<Rightarrow> page"
  vm_pges :: "u32 \<Rightarrow> page_entry"
  list_LRU :: "u32 list"
  LRU_clock :: clock
  list_LRU_lock :: u32
  vm_swap :: swap
  vm_fs :: filesys

definition set_vmem :: "'w vm \<Rightarrow> paging \<Rightarrow> 'w vm" where
  "set_vmem v s = v\<lparr>kern := (kern v)\<lparr>vmem := s\<rparr>\<rparr>"

section \<open>Locks that are free\<close>

definition acquire_free :: "'w vm \<Rightarrow> u32 \<Rightarrow> 'w vm option" where
  "acquire_free v l = do {
     ASSERT (\<not> intr_context (irq (kern v)));
     (success, k) \<leftarrow> lock_try_acquire (kern v) l;
     ASSERT success;
     Some (v\<lparr>kern := k\<rparr>)
   }"

definition release_held :: "'w vm \<Rightarrow> u32 \<Rightarrow> 'w vm option" where
  "release_held v l = do {
     h \<leftarrow> lock_held_by_current_thread (kern v) l;
     ASSERT h;
     k \<leftarrow> sema_up ((kern v)\<lparr>lock_holder := (lock_holder (kern v))(l := 0)\<rparr>) (LockSema l);
     Some (v\<lparr>kern := k\<rparr>)
   }"

definition LRU_held :: "'w vm \<Rightarrow> unit option" where
  "LRU_held v = do { h \<leftarrow> lock_held_by_current_thread (kern v) (list_LRU_lock v); ASSERT h }"

section \<open>The operations\<close>

definition list_LRU_init :: "'w vm \<Rightarrow> 'w vm" where
  "list_LRU_init v = v\<lparr>LRU_clock := ClockNull, kern := lock_init (kern v) (list_LRU_lock v), list_LRU := []\<rparr>"

text \<open>The checks on the thread of a page that the code repeats.\<close>

definition check_thread :: "'w vm \<Rightarrow> u32 \<Rightarrow> 'w thread option" where
  "check_thread v p = do {
     let t = page_thread (vm_pages v p);
     ASSERT (t \<noteq> 0);
     th \<leftarrow> threads (kern v) t;
     ASSERT (magic th = 0xcd6abf4b);
     Some th
   }"

definition add_page_to_list_LRU :: "'w vm \<Rightarrow> u32 \<Rightarrow> 'w vm option" where
  "add_page_to_list_LRU v p = do {
     v \<leftarrow> acquire_free v (list_LRU_lock v);
     check_thread v p;
     let v = v\<lparr>list_LRU := list_LRU v @ [p]\<rparr>;
     release_held v (list_LRU_lock v)
   }"

fun find_kaddr :: "(u32 \<Rightarrow> page) \<Rightarrow> u32 list \<Rightarrow> u32 \<Rightarrow> u32" where
  "find_kaddr pg [] kaddr = 0"
| "find_kaddr pg (p # ps) kaddr = (if page_kaddr (pg p) = kaddr then p else find_kaddr pg ps kaddr)"

definition find_page_from_list_LRU :: "'w vm \<Rightarrow> u32 \<Rightarrow> u32 option" where
  "find_page_from_list_LRU v kaddr = do {
     LRU_held v;
     ASSERT (pg_ofs kaddr = 0);
     Some (find_kaddr (vm_pages v) (list_LRU v) kaddr)
   }"

text \<open>What follows an element in the list; an element that is not in the list has no successor.\<close>

fun clock_next :: "u32 list \<Rightarrow> u32 \<Rightarrow> clock option" where
  "clock_next [] p = None"
| "clock_next (q # qs) p = (if q = p then Some (case qs of [] \<Rightarrow> ClockEnd | r # _ \<Rightarrow> ClockAt r) else clock_next qs p)"

definition del_page_from_list_LRU :: "'w vm \<Rightarrow> u32 \<Rightarrow> 'w vm option" where
  "del_page_from_list_LRU v p = do {
     LRU_held v;
     ASSERT (p \<noteq> 0);
     n \<leftarrow> clock_next (list_LRU v) p;
     let v' = v\<lparr>list_LRU := remove1 p (list_LRU v)\<rparr>;
     Some (if LRU_clock v = ClockAt p then v'\<lparr>LRU_clock := n\<rparr> else v')
   }"

text \<open>The first branch of \<open>get_next_LRU_clock\<close>, which its recursive call comes back to.\<close>

definition clock_restart :: "'w vm \<Rightarrow> u32 \<times> 'w vm" where
  "clock_restart v = (case list_LRU v of [] \<Rightarrow> (0, v) | p # _ \<Rightarrow> (p, v\<lparr>LRU_clock := ClockAt p\<rparr>))"

definition get_next_LRU_clock :: "'w vm \<Rightarrow> (u32 \<times> 'w vm) option" where
  "get_next_LRU_clock v = do {
     LRU_held v;
     (case LRU_clock v of
        ClockNull \<Rightarrow> Some (clock_restart v)
      | ClockEnd \<Rightarrow> Some (clock_restart v)
      | ClockAt p \<Rightarrow> do {
          n \<leftarrow> clock_next (list_LRU v) p;
          let v = v\<lparr>LRU_clock := n\<rparr>;
          (case n of ClockAt q \<Rightarrow> Some (q, v) | _ \<Rightarrow> Some (clock_restart v))
        })
   }"

definition check_page :: "'w vm \<Rightarrow> u32 \<Rightarrow> 'w thread option" where
  "check_page v p = do {
     ASSERT (p \<noteq> 0);
     th \<leftarrow> check_thread v p;
     ASSERT (page_pge (vm_pages v p) \<noteq> 0);
     Some th
   }"

definition page_vaddr :: "'w vm \<Rightarrow> u32 \<Rightarrow> u32" where
  "page_vaddr v p = pge_vaddr (vm_pges v (page_pge (vm_pages v p)))"

partial_function (option) victim_loop :: "'w vm \<Rightarrow> u32 \<Rightarrow> (u32 \<times> 'w vm) option" where
  "victim_loop v p = do {
     th \<leftarrow> check_page v p;
     a \<leftarrow> pagedir_is_accessed (vmem (kern v)) (pagedir th) (page_vaddr v p);
     if a
     then do {
       s \<leftarrow> pagedir_set_accessed (vmem (kern v)) (pagedir th) (page_vaddr v p) False;
       (p, v) \<leftarrow> get_next_LRU_clock (set_vmem v s);
       victim_loop v p
     }
     else Some (p, v)
   }"

definition get_victim :: "'w vm \<Rightarrow> (u32 \<times> 'w vm) option" where
  "get_victim v = do {
     LRU_held v;
     (p, v) \<leftarrow> get_next_LRU_clock v;
     victim_loop v p
   }"

section \<open>The order of the clock\<close>

text \<open>The pages in the order in which the hand meets them, from \<open>p\<close> on.\<close>

definition turn :: "u32 list \<Rightarrow> u32 \<Rightarrow> u32 list \<Rightarrow> bool" where
  "turn l p r \<longleftrightarrow> (\<exists>xs ys. l = xs @ p # ys \<and> r = p # ys @ xs \<and> p \<notin> set xs)"

lemma clock_next_append: "p \<notin> set xs \<Longrightarrow> clock_next (xs @ p # ys) p = Some (case ys of [] \<Rightarrow> ClockEnd | q # _ \<Rightarrow> ClockAt q)"
  by (induction xs) auto

lemma turn_set: "turn l p r \<Longrightarrow> set r = set l"
  by (auto simp: turn_def)

lemma turn_hd: "turn l p r \<Longrightarrow> hd r = p"
  by (auto simp: turn_def)

lemma turn_start: "l \<noteq> [] \<Longrightarrow> turn l (hd l) l"
  unfolding turn_def by (intro exI [of _ "[]"] exI [of _ "tl l"]) simp

text \<open>The hand goes to the next page and the page it leaves becomes the last one.\<close>

lemma clock_step:
  assumes t: "turn (list_LRU v) p (p # r)" and d: "distinct (list_LRU v)"
    and c: "LRU_clock v = ClockAt p" and h: "LRU_held v = Some ()"
  shows "\<exists>q. get_next_LRU_clock v = Some (q, v\<lparr>LRU_clock := ClockAt q\<rparr>) \<and> q = hd (r @ [p])
    \<and> turn (list_LRU v) q (r @ [p])"
proof -
  obtain xs ys where l: "list_LRU v = xs @ p # ys" "r = ys @ xs" "p \<notin> set xs"
    using t by (auto simp: turn_def)
  note n = clock_next_append [OF l(3), of ys]
  show ?thesis
  proof (cases ys)
    case Nil
    let ?q = "hd (xs @ [p])"
    obtain zs where z: "xs @ [p] = ?q # zs"
      by (cases xs) auto
    have "clock_restart (v\<lparr>LRU_clock := ClockEnd\<rparr>) = (?q, v\<lparr>LRU_clock := ClockAt ?q\<rparr>)"
      using z l(1) Nil by (cases xs) (auto simp: clock_restart_def)
    moreover have "turn (list_LRU v) ?q (xs @ [p])"
      using turn_start [of "xs @ [p]"] l(1) Nil by simp
    ultimately show ?thesis
      using n l c h Nil by (simp add: get_next_LRU_clock_def)
  next
    case (Cons q zs)
    have "turn (list_LRU v) q (r @ [p])"
      unfolding turn_def using l Cons d by (intro exI [of _ "xs @ [p]"] exI [of _ zs]) auto
    then show ?thesis
      using n l c h Cons by (simp add: get_next_LRU_clock_def)
  qed
qed

section \<open>The choice of a victim\<close>

definition page_pd :: "'w vm \<Rightarrow> u32 \<Rightarrow> u32" where
  "page_pd v p = pagedir (the (threads (kern v) (page_thread (vm_pages v p))))"

definition accessed :: "'w vm \<Rightarrow> u32 \<Rightarrow> bool" where
  "accessed v p = flag_at PTE_A (vmem (kern v)) (page_pd v p) (page_vaddr v p)"

text \<open>
  A page of the list belongs to a thread with a page directory, its address is one of a user
  page, no two pages of the list are the same page of the same process, and the directories
  share no page tables.
\<close>

definition wf_page :: "'w vm \<Rightarrow> u32 \<Rightarrow> bool" where
  "wf_page v p \<longleftrightarrow> check_page v p \<noteq> None \<and> is_user_vaddr (page_vaddr v p) \<and> pg_ofs (page_vaddr v p) = 0"

definition wf_lru :: "'w vm \<Rightarrow> bool" where
  "wf_lru v \<longleftrightarrow> LRU_held v = Some () \<and> distinct (list_LRU v) \<and> (\<forall>p \<in> set (list_LRU v). wf_page v p)
     \<and> inj_on (\<lambda>p. (page_pd v p, page_vaddr v p)) (set (list_LRU v))
     \<and> wf_pds (vmem (kern v)) (page_pd v ` set (list_LRU v))"

lemma LRU_held_simps [simp]:
  "LRU_held (set_vmem v s) = LRU_held v" "LRU_held (v\<lparr>LRU_clock := c\<rparr>) = LRU_held v"
  by (simp_all add: LRU_held_def set_vmem_def lock_held_by_current_thread_def thread_current_def running_thread_def
      is_thread_def)

lemma check_page_simps [simp]:
  "check_page (set_vmem v s) = check_page v" "check_page (v\<lparr>LRU_clock := c\<rparr>) = check_page v"
  by (auto simp: fun_eq_iff check_page_def check_thread_def set_vmem_def)

lemma page_pd_simps [simp]:
  "page_pd (set_vmem v s) = page_pd v" "page_pd (v\<lparr>LRU_clock := c\<rparr>) = page_pd v"
  "page_vaddr (set_vmem v s) = page_vaddr v" "page_vaddr (v\<lparr>LRU_clock := c\<rparr>) = page_vaddr v"
  by (auto simp: fun_eq_iff page_pd_def page_vaddr_def set_vmem_def)

lemma set_vmem_simps [simp]:
  "vmem (kern (set_vmem v s)) = s" "list_LRU (set_vmem v s) = list_LRU v" "LRU_clock (set_vmem v s) = LRU_clock v"
  by (simp_all add: set_vmem_def)

lemma accessed_clock [simp]: "accessed (v\<lparr>LRU_clock := c\<rparr>) = accessed v"
  by (simp add: fun_eq_iff accessed_def)

lemma wf_lru_clock [simp]: "wf_lru (v\<lparr>LRU_clock := c\<rparr>) = wf_lru v"
  by (simp add: wf_lru_def wf_page_def)

lemma wf_page_vmem [simp]: "wf_page (set_vmem v s) = wf_page v"
  by (simp add: fun_eq_iff wf_page_def)

lemma check_page_pd: "check_page v p = Some th \<Longrightarrow> pagedir th = page_pd v p"
  by (auto simp: check_page_def check_thread_def page_pd_def Let_def Option.bind_eq_Some_conv)

lemma is_accessed_ok:
  assumes "wf_lru v" and "p \<in> set (list_LRU v)"
  shows "pagedir_is_accessed (vmem (kern v)) (page_pd v p) (page_vaddr v p) = Some (accessed v p)"
  using assms pte_flag_at [of "vmem (kern v)" "page_pd v p" "page_vaddr v p" PTE_A]
  by (simp add: wf_lru_def wf_page_def wf_pds_def accessed_def pagedir_is_accessed_def)

lemma round_down_aligned: "pg_ofs a = 0 \<Longrightarrow> pg_round_down a = a"
  using same_slot_iff [of a a] by simp

lemma and_not_flag: "(e AND NOT f) AND f = (0 :: u32)"
  by (rule bit_word_eqI) (simp add: bit_and_iff bit_not_iff)

text \<open>Clearing the bit of a page takes it out of the accessed pages and changes no other page.\<close>

lemma clear_accessed_ok:
  assumes wf: "wf_lru v" and p: "p \<in> set (list_LRU v)"
  shows "\<exists>s. pagedir_set_accessed (vmem (kern v)) (page_pd v p) (page_vaddr v p) False = Some s
    \<and> wf_lru (set_vmem v s) \<and> (\<forall>q \<in> set (list_LRU v). accessed (set_vmem v s) q \<longleftrightarrow> q \<noteq> p \<and> accessed v q)"
proof -
  let ?P = "page_pd v ` set (list_LRU v)" and ?s = "vmem (kern v)"
  have w: "wf_pds ?s ?P" "\<And>q. q \<in> set (list_LRU v) \<Longrightarrow> is_user_vaddr (page_vaddr v q) \<and> pg_ofs (page_vaddr v q) = 0"
    using wf by (simp_all add: wf_lru_def wf_page_def)
  have pP: "page_pd v p \<in> ?P"
    using p by simp
  obtain s where s: "pte_set_flag PTE_A ?s (page_pd v p) (page_vaddr v p) False = Some s" "wf_pds s ?P"
      "\<And>pd' a. pd' \<in> ?P \<Longrightarrow> is_user_vaddr a \<Longrightarrow> user_pte s pd' a =
        (if pd' = page_pd v p \<and> pg_round_down a = page_vaddr v p
         then map_option (\<lambda>e. e AND NOT PTE_A) (user_pte ?s pd' a) else user_pte ?s pd' a)"
    using pte_clear_flag [OF w(1) pP, of "page_vaddr v p" PTE_A] w(2) [OF p] by blast
  have "accessed (set_vmem v s) q \<longleftrightarrow> q \<noteq> p \<and> accessed v q" if q: "q \<in> set (list_LRU v)" for q
  proof -
    have same: "page_pd v q = page_pd v p \<and> page_vaddr v q = page_vaddr v p \<longleftrightarrow> q = p"
      using wf p q by (auto simp: wf_lru_def inj_on_def)
    have "user_pte s (page_pd v q) (page_vaddr v q) = (if q = p
        then map_option (\<lambda>e. e AND NOT PTE_A) (user_pte ?s (page_pd v q) (page_vaddr v q))
        else user_pte ?s (page_pd v q) (page_vaddr v q))"
      using s(3) [of "page_pd v q" "page_vaddr v q"] q w(2) [OF q] same by (simp add: round_down_aligned)
    then show ?thesis
      by (auto simp: accessed_def flag_at_def and_not_flag split: option.splits if_splits)
  qed
  then show ?thesis
    using s(1,2) wf by (auto simp: pagedir_set_accessed_def wf_lru_def)
qed

text \<open>The first page that was not accessed, or the first page when all of them were.\<close>

definition second_chance :: "(u32 \<Rightarrow> bool) \<Rightarrow> u32 list \<Rightarrow> u32" where
  "second_chance acc r = (case filter (\<lambda>q. \<not> acc q) r of [] \<Rightarrow> hd r | q # _ \<Rightarrow> q)"

lemma second_chance_hd: "\<not> acc p \<Longrightarrow> second_chance acc (p # r) = p"
  by (simp add: second_chance_def)

lemma second_chance_turn:
  assumes "acc p" and "\<And>q. q \<in> set r \<Longrightarrow> acc' q \<longleftrightarrow> acc q" and "\<not> acc' p"
  shows "second_chance acc' (r @ [p]) = second_chance acc (p # r)"
proof -
  have "filter (\<lambda>q. \<not> acc' q) r = filter (\<lambda>q. \<not> acc q) r"
    using assms(2) by (intro filter_cong) auto
  then show ?thesis
    using assms(1,3) by (simp add: second_chance_def split: list.split)
qed

lemma set_vmem_twice [simp]:
  "set_vmem (set_vmem v s) s' = set_vmem v s'" "set_vmem (set_vmem v s\<lparr>LRU_clock := c\<rparr>) s' = set_vmem (v\<lparr>LRU_clock := c\<rparr>) s'"
  "(set_vmem v s)\<lparr>LRU_clock := c\<rparr> = set_vmem (v\<lparr>LRU_clock := c\<rparr>) s"
  by (simp_all add: set_vmem_def)

lemma victim_loop_ok:
  assumes "wf_lru v" and "turn (list_LRU v) p (p # r)" and "LRU_clock v = ClockAt p"
  shows "\<exists>s. let q = second_chance (accessed v) (p # r); v' = set_vmem (v\<lparr>LRU_clock := ClockAt q\<rparr>) s
    in victim_loop v p = Some (q, v') \<and> wf_lru v' \<and> \<not> accessed v' q"
  using assms
proof (induction "card {q \<in> set (list_LRU v). accessed v q}" arbitrary: v p r rule: less_induct)
  case less
  note wf = less.prems(1) and t = less.prems(2) and c = less.prems(3)
  have p: "p \<in> set (list_LRU v)" and rl: "set (p # r) = set (list_LRU v)"
    using turn_set [OF t] by auto
  have dr: "p \<notin> set r"
    using t wf by (auto simp: turn_def wf_lru_def)
  have "check_page v p \<noteq> None"
    using wf p by (simp add: wf_lru_def wf_page_def)
  then obtain th where th: "check_page v p = Some th" "pagedir th = page_pd v p"
    using check_page_pd by blast
  note run = victim_loop.simps [of v p] th is_accessed_ok [OF wf p]
  show ?case
  proof (cases "accessed v p")
    case False
    have "v = set_vmem (v\<lparr>LRU_clock := ClockAt p\<rparr>) (vmem (kern v))"
      using c by (simp add: set_vmem_def)
    then show ?thesis
      using run False wf second_chance_hd [of "accessed v" p r, OF False]
      by (intro exI [of _ "vmem (kern v)"]) (simp add: Let_def)
  next
    case True
    obtain s where s: "pagedir_set_accessed (vmem (kern v)) (page_pd v p) (page_vaddr v p) False = Some s"
        "wf_lru (set_vmem v s)" "\<And>q. q \<in> set (list_LRU v) \<Longrightarrow> accessed (set_vmem v s) q \<longleftrightarrow> q \<noteq> p \<and> accessed v q"
      using clear_accessed_ok [OF wf p] by blast
    let ?v = "set_vmem v s"
    obtain q where q: "get_next_LRU_clock ?v = Some (q, ?v\<lparr>LRU_clock := ClockAt q\<rparr>)" "q = hd (r @ [p])"
        "turn (list_LRU v) q (r @ [p])"
      using clock_step [of ?v p r] t c wf by (auto simp: wf_lru_def)
    let ?w = "?v\<lparr>LRU_clock := ClockAt q\<rparr>"
    have tl: "r @ [p] = q # tl (r @ [p])"
      using q(2) by (cases r) auto
    have acc: "accessed ?w x \<longleftrightarrow> x \<noteq> p \<and> accessed v x" if "x \<in> set (list_LRU v)" for x
      using s(3) [OF that] by (simp add: accessed_def)
    have "{x \<in> set (list_LRU ?w). accessed ?w x} \<subset> {x \<in> set (list_LRU v). accessed v x}"
      using acc p True by auto
    then have "card {x \<in> set (list_LRU ?w). accessed ?w x} < card {x \<in> set (list_LRU v). accessed v x}"
      by (intro psubset_card_mono) auto
    moreover have "wf_lru ?w" "turn (list_LRU ?w) q (q # tl (r @ [p]))" "LRU_clock ?w = ClockAt q"
      using s(2) q(3) tl by (simp_all add: wf_lru_def wf_page_def set_vmem_def)
    ultimately obtain s' where s': "let x = second_chance (accessed ?w) (r @ [p]); v' = set_vmem (?w\<lparr>LRU_clock := ClockAt x\<rparr>) s'
        in victim_loop ?w q = Some (x, v') \<and> wf_lru v' \<and> \<not> accessed v' x"
      using less.hyps [of ?w q "tl (r @ [p])"] tl by auto
    have "second_chance (accessed ?w) (r @ [p]) = second_chance (accessed v) (p # r)"
      using True acc dr rl p by (intro second_chance_turn) auto
    moreover have "victim_loop v p = victim_loop ?w q"
      using run True s(1) q(1) by simp
    moreover have "?w\<lparr>LRU_clock := x\<rparr> = set_vmem (v\<lparr>LRU_clock := x\<rparr>) s" for x
      by (simp add: set_vmem_def)
    ultimately show ?thesis
      using s' by (auto simp: Let_def)
  qed
qed

text \<open>The pages in the order in which the next choice meets them, and a hand that is in the list.\<close>

definition from_hand :: "u32 list \<Rightarrow> clock \<Rightarrow> u32 list" where
  "from_hand l c = (case c of
     ClockAt p \<Rightarrow> tl (dropWhile (\<lambda>q. q \<noteq> p) l) @ takeWhile (\<lambda>q. q \<noteq> p) l @ [p]
   | _ \<Rightarrow> l)"

definition wf_clock :: "'w vm \<Rightarrow> bool" where
  "wf_clock v \<longleftrightarrow> (case LRU_clock v of ClockAt p \<Rightarrow> p \<in> set (list_LRU v) | _ \<Rightarrow> True)"

lemma next_clock_ok:
  assumes wf: "wf_lru v" and ne: "list_LRU v \<noteq> []" and c: "wf_clock v"
  shows "\<exists>q. get_next_LRU_clock v = Some (q, v\<lparr>LRU_clock := ClockAt q\<rparr>) \<and> q = hd (from_hand (list_LRU v) (LRU_clock v))
    \<and> turn (list_LRU v) q (from_hand (list_LRU v) (LRU_clock v))"
proof -
  have h: "LRU_held v = Some ()" and d: "distinct (list_LRU v)"
    using wf by (simp_all add: wf_lru_def)
  show ?thesis
  proof (cases "LRU_clock v")
    case (ClockAt p)
    then obtain xs ys where l: "list_LRU v = xs @ p # ys" "p \<notin> set xs"
      using c split_list_first [of p "list_LRU v"] by (auto simp: wf_clock_def)
    then have f: "from_hand (list_LRU v) (LRU_clock v) = (ys @ xs) @ [p]" and t: "turn (list_LRU v) p (p # ys @ xs)"
      using ClockAt by (auto simp: from_hand_def turn_def dropWhile_append takeWhile_append)
    show ?thesis
      unfolding f by (rule clock_step [OF t d ClockAt h])
  qed (use h ne turn_start [OF ne] in \<open>auto simp: get_next_LRU_clock_def clock_restart_def from_hand_def split: list.splits\<close>)
qed

text \<open>
  C28: the search for a victim ends.  It chooses the first page, in the order in which the
  hand of the clock meets them, that was not accessed, or the first page of all when every page
  was; the accessed bit of that page is clear afterwards, the list of pages is the same, and
  the hand is at the victim.
\<close>

theorem get_victim_second_chance:
  assumes "wf_lru v" and "list_LRU v \<noteq> []" and "wf_clock v"
  shows "\<exists>q v'. get_victim v = Some (q, v') \<and> q = second_chance (accessed v) (from_hand (list_LRU v) (LRU_clock v))
    \<and> \<not> accessed v' q \<and> wf_lru v' \<and> list_LRU v' = list_LRU v \<and> LRU_clock v' = ClockAt q"
proof -
  let ?r = "from_hand (list_LRU v) (LRU_clock v)"
  obtain p where p: "get_next_LRU_clock v = Some (p, v\<lparr>LRU_clock := ClockAt p\<rparr>)" "turn (list_LRU v) p ?r"
    using next_clock_ok [OF assms] by blast
  then obtain r where r: "?r = p # r"
    by (auto simp: turn_def)
  have "LRU_held v = Some ()"
    using assms(1) by (simp add: wf_lru_def)
  then have "get_victim v = victim_loop (v\<lparr>LRU_clock := ClockAt p\<rparr>) p"
    using p(1) by (simp add: get_victim_def)
  then show ?thesis
    using victim_loop_ok [of "v\<lparr>LRU_clock := ClockAt p\<rparr>" p r] assms(1) p(2) r by (auto simp: Let_def)
qed

definition sample_space :: paging where
  "sample_space = \<lparr>mem = \<lparr>kernel_pool = \<lparr>used_map = \<lparr>bit_cnt = 4, bm_bits = [3]\<rparr>, pool_base = 0xC0200000\<rparr>,
     user_pool = \<lparr>used_map = \<lparr>bit_cnt = 4, bm_bits = [3]\<rparr>, pool_base = 0xC0300000\<rparr>,
     frames = (\<lambda>_. replicate 1024 0)(0xC0200000 := (replicate 1024 0)[32 := 0x201007],
       0xC0201000 := (replicate 1024 0)[72 := 0x300025, 73 := 0x301005])\<rparr>,
     init_page_dir = 0xC0000000, init_ram_pages = 1024, pdbr = 0x200000, tlb = {}\<rparr>"

definition sample_vm :: "unit vm" where
  "sample_vm = \<lparr>kern = sample_kernel\<lparr>vmem := sample_space, lock_holder := (\<lambda>_. 0xC000E000),
       threads := [0xC000E000 \<mapsto> (sample_thread THREAD_RUNNING 31 0 [])\<lparr>pagedir := 0xC0200000\<rparr>]\<rparr>,
     vm_pages = (\<lambda>p. \<lparr>page_kaddr = 0xC0300000, page_pge = p + 0x100, page_thread = 0xC000E000\<rparr>),
     vm_pges = (\<lambda>e. \<lparr>pge_type = VM_ANON, pge_vaddr = (if e = 0xC0400110 then 0x8048000 else 0x8049000), pge_writable = True,
       pge_loaded = True, pge_file = 0, pge_offset = 0, pge_read_bytes = 0, pge_zero_bytes = 0, pge_slot = 0\<rparr>),
     list_LRU = [0xC0400010, 0xC0400020], LRU_clock = ClockNull, list_LRU_lock = 7,
     vm_swap = sample_swap, vm_fs = \<lparr>fs_device = swap_block sample_swap, inodes = (\<lambda>_. None), open_inodes = [], files = (\<lambda>_. None),
       free_map = swap_bitmap sample_swap, free_map_file = 0\<rparr>\<rparr>"

lemma sample_space_pt: "i < 1024 \<Longrightarrow> pt_at sample_space 0xC0200000 i = (if i = 32 then Some 0xC0201000 else None)"
  by (simp add: pt_at_def sample_space_def Let_def nth_list_update pde_get_pt_def PTE_P_def PTE_ADDR_def BITMASK_def
      ptov_def PHYS_BASE_def)

lemma sample_space_wf: "wf_pd sample_space 0xC0200000"
proof -
  have p: "wf_palloc (mem sample_space)" "\<forall>p. length (frames (mem sample_space) p) = 1024"
    by (simp_all add: sample_space_def wf_palloc_def wf_pool_def wf_bitmap_def aligned_iff is_kernel_vaddr_def PHYS_BASE_def)
  have k: "0xC0200000 \<in> kpages sample_space" "0xC0201000 \<in> kpages sample_space"
  proof -
    have u: "0 \<in> used (used_map (kernel_pool (mem sample_space)))" "1 \<in> used (used_map (kernel_pool (mem sample_space)))"
      by (simp_all add: used_def bits_of_def sample_space_def)
    show "0xC0200000 \<in> kpages sample_space"
      unfolding kpages_def by (rule image_eqI [OF _ u(1)]) (simp add: sample_space_def page_at_def)
    show "0xC0201000 \<in> kpages sample_space"
      unfolding kpages_def by (rule image_eqI [OF _ u(2)]) (simp add: sample_space_def page_at_def)
  qed
  have e: "frames (mem sample_space) 0xC0200000 ! i = (if i = 32 then 0x201007 else 0)" if "i < 768" for i
    using that by (simp add: sample_space_def nth_list_update)
  have g: "pde_get_pt 0x201007 = Some 0xC0201000"
    by (simp add: pde_get_pt_def PTE_P_def PTE_ADDR_def BITMASK_def ptov_def PHYS_BASE_def)
  show ?thesis
    using p k unfolding wf_pd_def by (auto simp: e g sample_space_pt split: if_splits)
qed

lemma sample_vm_wf: "wf_lru sample_vm"
proof -
  have t: "tables sample_space 0xC0200000 = {0xC0201000}"
    by (auto simp: tables_def sample_space_pt split: if_splits intro!: exI [of _ 32])
  have pd: "page_pd sample_vm p = 0xC0200000" for p
    by (simp add: page_pd_def sample_vm_def)
  have "wf_pds sample_space {0xC0200000}"
    using sample_space_wf by (simp add: wf_pds_def t) (simp add: sample_space_def PHYS_BASE_def)
  then have 1: "wf_pds (vmem (kern sample_vm)) (page_pd sample_vm ` set (list_LRU sample_vm))"
    by (simp add: pd) (simp add: sample_vm_def)
  have l: "list_LRU sample_vm = [0xC0400010, 0xC0400020]"
    by (simp add: sample_vm_def)
  have a: "page_vaddr sample_vm 0xC0400010 = 0x8048000" "page_vaddr sample_vm 0xC0400020 = 0x8049000"
    by (simp_all add: page_vaddr_def sample_vm_def)
  have "check_page sample_vm p \<noteq> None" if "p + 0x100 \<noteq> 0" "p \<noteq> 0" for p
    using that by (simp add: check_page_def check_thread_def sample_vm_def sample_thread_def THREAD_MAGIC_def)
  then have 2: "\<forall>p \<in> set (list_LRU sample_vm). wf_page sample_vm p"
    by (simp add: l wf_page_def a is_user_vaddr_def PHYS_BASE_def pg_ofs_def PGMASK_def BITMASK_def)
  have 3: "inj_on (\<lambda>p. (page_pd sample_vm p, page_vaddr sample_vm p)) (set (list_LRU sample_vm))"
    by (simp add: l a)
  have "LRU_held sample_vm = Some ()" "distinct (list_LRU sample_vm)"
    by (simp_all add: LRU_held_def lock_held_by_current_thread_def thread_current_def running_thread_def is_thread_def
        sample_vm_def sample_thread_def sample_kernel_def)
  then show ?thesis
    using 1 2 3 by (simp add: wf_lru_def)
qed

theorem get_victim_second_chance_witness:
  "\<exists>q v'. get_victim sample_vm = Some (q, v')
    \<and> q = second_chance (accessed sample_vm) (from_hand (list_LRU sample_vm) (LRU_clock sample_vm))
    \<and> \<not> accessed v' q \<and> wf_lru v' \<and> list_LRU v' = list_LRU sample_vm \<and> LRU_clock v' = ClockAt q"
  by (rule get_victim_second_chance [OF sample_vm_wf]) (simp_all add: sample_vm_def wf_clock_def)

end
