(* ===== verification/Vm_Page.thy ===== *)
theory Vm_Page
  imports Frame Khash_Correct
begin

text \<open>
  The supplemental page tables and the allocation of user pages, \<open>vm/page.c\<close>.  The table of
  a thread holds the addresses of its page entries; hashing and comparing them reads the
  entries, which the functions of the table get as an argument.
\<close>

section \<open>The supplemental page table\<close>

definition spt_hash_func :: "(u32 \<Rightarrow> page_entry) \<Rightarrow> u32 \<Rightarrow> u32" where
  "spt_hash_func P e = hash_int (pge_vaddr (P e))"

definition spt_less_func :: "(u32 \<Rightarrow> page_entry) \<Rightarrow> u32 \<Rightarrow> u32 \<Rightarrow> bool" where
  "spt_less_func P a b \<longleftrightarrow> pge_vaddr (P a) < pge_vaddr (P b)"

text \<open>\<open>loc\<close> is the address of the local page entry that carries the key.\<close>

definition get_pge :: "'w vm \<Rightarrow> u32 \<Rightarrow> u32 \<Rightarrow> u32 option" where
  "get_pge v loc vaddr = do {
     th \<leftarrow> cur_thread (kern v);
     let P = (vm_pges v)(loc := (vm_pges v loc)\<lparr>pge_vaddr := pg_round_down vaddr\<rparr>);
     ASSERT (pg_ofs (pge_vaddr (P loc)) = 0);
     r \<leftarrow> hash_find (spt_hash_func P) (spt_less_func P) (sup_page_tab th) loc;
     Some (case r of Some e \<Rightarrow> e | None \<Rightarrow> 0)
   }"

text \<open>The table is the one of thread \<open>t\<close>; \<open>ok\<close> is the outcome of an allocation for a larger table.\<close>

definition insert_pge :: "'w vm \<Rightarrow> tptr \<Rightarrow> u32 \<Rightarrow> bool \<Rightarrow> (bool \<times> 'w vm) option" where
  "insert_pge v t e ok = do {
     ASSERT (t \<noteq> 0);
     ASSERT (e \<noteq> 0);
     ASSERT (pg_ofs (pge_vaddr (vm_pges v e)) = 0);
     th \<leftarrow> threads (kern v) t;
     (old, h) \<leftarrow> hash_insert (spt_hash_func (vm_pges v)) (spt_less_func (vm_pges v)) ok (sup_page_tab th) e;
     k \<leftarrow> upd_thread (kern v) t (\<lambda>th. th\<lparr>sup_page_tab := h\<rparr>);
     Some (old = None, v\<lparr>kern := k\<rparr>)
   }"

section \<open>Loading and evicting pages\<close>

text \<open>Bytes written into a page at an offset; a write beyond the page is not part of the model.\<close>

definition words_of :: "u8 list \<Rightarrow> u32 list" where
  "words_of bs = map (\<lambda>j. get32 (drop (4 * j) bs)) [0..<length bs div 4]"

definition put_bytes :: "u32 list \<Rightarrow> nat \<Rightarrow> u8 list \<Rightarrow> u32 list option" where
  "put_bytes ws ofs bs = (let old = concat (map le32 ws) in
     if ofs + length bs \<le> length old
     then Some (words_of (take ofs old @ bs @ drop (ofs + length bs) old)) else None)"

definition set_frame :: "'w vm \<Rightarrow> u32 \<Rightarrow> u32 list \<Rightarrow> 'w vm" where
  "set_frame v kaddr ws = (let s = vmem (kern v) in
     set_vmem v (s\<lparr>mem := (mem s)\<lparr>frames := (frames (mem s))(kaddr := ws)\<rparr>\<rparr>))"

definition frame_at :: "'w vm \<Rightarrow> u32 \<Rightarrow> u32 list" where
  "frame_at v kaddr = frames (mem (vmem (kern v))) kaddr"

definition load_file :: "'w vm \<Rightarrow> u32 \<Rightarrow> u32 \<Rightarrow> bool \<Rightarrow> (bool \<times> 'w vm) option" where
  "load_file v kaddr e mok = do {
     ASSERT (kaddr \<noteq> 0);
     ASSERT (e \<noteq> 0);
     let g = vm_pges v e;
     ASSERT (pge_type g = VM_BIN);
     (bs, fs) \<leftarrow> file_read_at (vm_fs v) (pge_file g) mok (sint (pge_read_bytes g)) (sint (pge_offset g));
     ws \<leftarrow> put_bytes (frame_at v kaddr) 0 bs;
     let v = set_frame (v\<lparr>vm_fs := fs\<rparr>) kaddr ws;
     if int (length bs) \<noteq> sint (pge_read_bytes g) then Some (False, v)
     else do {
       ws \<leftarrow> put_bytes (frame_at v kaddr) (unat (pge_read_bytes g)) (replicate (unat (pge_zero_bytes g)) 0);
       Some (True, set_frame v kaddr ws)
     }
   }"

text \<open>The function \<open>__free_page\<close>.\<close>

definition free_page :: "'w vm \<Rightarrow> u32 \<Rightarrow> 'w vm option" where
  "free_page v p = do {
     LRU_held v;
     th \<leftarrow> check_page v p;
     s \<leftarrow> pagedir_clear_page (vmem (kern v)) (pagedir th) (page_vaddr v p);
     let v = set_vmem v s;
     v \<leftarrow> del_page_from_list_LRU v p;
     m \<leftarrow> palloc_free_page (mem (vmem (kern v))) (page_kaddr (vm_pages v p));
     Some (set_vmem v ((vmem (kern v))\<lparr>mem := m\<rparr>))
   }"

definition upd_pge :: "'w vm \<Rightarrow> u32 \<Rightarrow> (page_entry \<Rightarrow> page_entry) \<Rightarrow> 'w vm" where
  "upd_pge v e f = v\<lparr>vm_pges := (vm_pges v)(e := f (vm_pges v e))\<rparr>"

definition page_out :: "'w vm \<Rightarrow> u32 \<Rightarrow> 'w vm option" where
  "page_out v p = do {
     let kaddr = page_kaddr (vm_pages v p);
     (n, sw) \<leftarrow> swap_out (vm_swap v) kaddr (frame_at v kaddr);
     Some (upd_pge (v\<lparr>vm_swap := sw\<rparr>) (page_pge (vm_pages v p)) (\<lambda>g. g\<lparr>pge_slot := n\<rparr>))
   }"

definition replacement_mem :: "'w vm \<Rightarrow> 'w vm option" where
  "replacement_mem v = do {
     v \<leftarrow> acquire_free v (list_LRU_lock v);
     (p, v) \<leftarrow> get_victim v;
     th \<leftarrow> check_page v p;
     let e = page_pge (vm_pages v p);
     dirty \<leftarrow> pagedir_is_dirty (vmem (kern v)) (pagedir th) (page_vaddr v p);
     v \<leftarrow> (if pge_type (vm_pges v e) = VM_BIN
           then (if dirty then do { v \<leftarrow> page_out v p; Some (upd_pge v e (\<lambda>g. g\<lparr>pge_type := VM_ANON\<rparr>)) } else Some v)
           else if pge_type (vm_pges v e) = VM_ANON then page_out v p
           else None);
     let v = upd_pge v e (\<lambda>g. g\<lparr>pge_loaded := False\<rparr>);
     v \<leftarrow> free_page v p;
     release_held v (list_LRU_lock v)
   }"

partial_function (option) alloc_loop :: "u32 \<Rightarrow> 'w vm \<Rightarrow> (u32 \<times> 'w vm) option" where
  "alloc_loop flags v = do {
     (kaddr, m) \<leftarrow> palloc_get_page (mem (vmem (kern v))) flags;
     let v = set_vmem v ((vmem (kern v))\<lparr>mem := m\<rparr>);
     if kaddr \<noteq> 0 then Some (kaddr, v)
     else do { v \<leftarrow> replacement_mem v; alloc_loop flags v }
   }"

text \<open>\<open>p\<close> is what \<open>malloc\<close> returns for the page structure.\<close>

definition alloc_page :: "'w vm \<Rightarrow> u32 \<Rightarrow> u32 \<Rightarrow> (u32 \<times> 'w vm) option" where
  "alloc_page v flags p =
     (if p = 0 then Some (0, v)
      else do {
        t \<leftarrow> thread_current (kern v);
        let v = v\<lparr>vm_pages := (vm_pages v)(p := \<lparr>page_kaddr = 0, page_pge = 0, page_thread = t\<rparr>)\<rparr>;
        check_thread v p;
        (kaddr, v) \<leftarrow> alloc_loop flags v;
        Some (p, v\<lparr>vm_pages := (vm_pages v)(p := (vm_pages v p)\<lparr>page_kaddr := kaddr\<rparr>)\<rparr>)
      })"

definition free_page_kaddr :: "'w vm \<Rightarrow> u32 \<Rightarrow> 'w vm option" where
  "free_page_kaddr v kaddr = do {
     v \<leftarrow> acquire_free v (list_LRU_lock v);
     p \<leftarrow> find_page_from_list_LRU v kaddr;
     v \<leftarrow> (if p \<noteq> 0 then free_page v p else Some v);
     release_held v (list_LRU_lock v)
   }"

definition free_page_vaddr :: "'w vm \<Rightarrow> u32 \<Rightarrow> 'w vm option" where
  "free_page_vaddr v vaddr = do {
     th \<leftarrow> cur_thread (kern v);
     kaddr \<leftarrow> pagedir_get_page (vmem (kern v)) (pagedir th) vaddr;
     free_page_kaddr v kaddr
   }"

definition spt_destroy_func :: "u32 \<Rightarrow> 'w vm \<Rightarrow> 'w vm option" where
  "spt_destroy_func e v = do {
     ASSERT (e \<noteq> 0);
     sw \<leftarrow> swap_clear (vm_swap v) (pge_slot (vm_pges v e));
     free_page_vaddr (v\<lparr>vm_swap := sw\<rparr>) (pge_vaddr (vm_pges v e))
   }"

definition spt_destroy :: "'w vm \<Rightarrow> tptr \<Rightarrow> 'w vm option" where
  "spt_destroy v t = do {
     ASSERT (t \<noteq> 0);
     th \<leftarrow> threads (kern v) t;
     hash_destroy (Some (\<lambda>e s. do { v \<leftarrow> s; spt_destroy_func e v })) (sup_page_tab th) (Some v)
   }"

section \<open>The table as a map from pages to entries\<close>

interpretation spt: hash_table "spt_hash_func P" "spt_less_func P" for P
  by unfold_locales (auto simp: weak_order_def spt_less_func_def spt_hash_func_def)

lemma spt_same: "spt.same P a b \<longleftrightarrow> pge_vaddr (P a) = pge_vaddr (P b)"
  by (auto simp: spt.same_def spt_less_func_def)

text \<open>The table depends on the entries that it holds only.\<close>

lemma spt_inv_cong:
  assumes "spt.inv P h" and "\<And>e. e \<in> contents h \<Longrightarrow> pge_vaddr (Q e) = pge_vaddr (P e)"
  shows "spt.inv Q h"
proof -
  have wf: "wf_hash (spt_hash_func P) h"
    using assms(1) by (simp add: spt.inv_def)
  have "bucket_idx (spt_hash_func Q) n e = bucket_idx (spt_hash_func P) n e" if "e \<in> contents h" for n e
    using assms(2) [OF that] by (simp add: bucket_idx_def spt_hash_func_def)
  then have "wf_hash (spt_hash_func Q) h"
    using wf unfolding wf_hash_def by (metis contents_iff)
  then show ?thesis
    using assms by (auto simp: spt.inv_def spt_same)
qed

text \<open>The entry of the table for a page, or the null pointer.\<close>

definition spt_entry :: "(u32 \<Rightarrow> page_entry) \<Rightarrow> u32 hash \<Rightarrow> u32 \<Rightarrow> u32 \<Rightarrow> bool" where
  "spt_entry P h va e \<longleftrightarrow>
     (if \<exists>x \<in> contents h. pge_vaddr (P x) = pg_round_down va then e \<in> contents h \<and> pge_vaddr (P e) = pg_round_down va
      else e = 0)"

lemma pg_ofs_round_down [simp]: "pg_ofs (pg_round_down va) = 0"
  by (rule bit_word_eqI) (simp add: pg_ofs_def pg_round_down_def bit_and_iff bit_not_iff)

lemma get_pge_entry:
  assumes th: "cur_thread (kern v) = Some th" and inv: "spt.inv (vm_pges v) (sup_page_tab th)"
    and loc: "loc \<notin> contents (sup_page_tab th)"
  shows "\<exists>e. get_pge v loc va = Some e \<and> spt_entry (vm_pges v) (sup_page_tab th) va e"
proof -
  let ?P = "(vm_pges v)(loc := (vm_pges v loc)\<lparr>pge_vaddr := pg_round_down va\<rparr>)" and ?h = "sup_page_tab th"
  have eq: "pge_vaddr (?P e) = pge_vaddr (vm_pges v e)" if "e \<in> contents ?h" for e
    using that loc by auto
  have "spt.inv ?P ?h"
    by (rule spt_inv_cong [OF inv]) (rule eq)
  then obtain r where r: "hash_find (spt_hash_func ?P) (spt_less_func ?P) ?h loc = Some r"
      "\<And>x. r = Some x \<longleftrightarrow> x \<in> contents ?h \<and> spt.same ?P x loc"
    using spt.hash_find_inv [of ?P ?h loc] by blast
  have r2: "r = Some x \<longleftrightarrow> x \<in> contents ?h \<and> pge_vaddr (vm_pges v x) = pg_round_down va" for x
    unfolding r(2) spt_same using loc by auto
  have "spt_entry (vm_pges v) ?h va (case r of Some e \<Rightarrow> e | None \<Rightarrow> 0)"
    using r2 by (cases r) (auto simp: spt_entry_def)
  then show ?thesis
    using th r(1) by (simp add: get_pge_def Let_def)
qed

lemma spt_entry_unique:
  assumes "spt.inv P h" and "spt_entry P h va e" and "spt_entry P h va e'"
  shows "e = e'"
proof (cases "\<exists>x \<in> contents h. pge_vaddr (P x) = pg_round_down va")
  case True
  then have "e \<in> contents h" "e' \<in> contents h" "spt.same P e e'"
    using assms(2,3) by (auto simp: spt_entry_def spt_same)
  then show ?thesis
    using assms(1) by (auto simp: spt.inv_def)
qed (use assms(2,3) in \<open>auto simp: spt_entry_def\<close>)

lemma inv_card: "spt.inv P h \<Longrightarrow> elem_cnt h = card (contents h)"
  unfolding spt.inv_def wf_hash_def contents_def by (metis distinct_card)

text \<open>Entering an entry: the new table, and the running thread stays what it is.\<close>

lemma insert_pge_run:
  assumes cur: "thread_current (kern v) = Some t" and th: "threads (kern v) t = Some th"
    and inv: "spt.inv (vm_pges v) (sup_page_tab th)" and room: "elem_cnt (sup_page_tab th) + 1 < 2 ^ 32"
    and e: "e \<noteq> 0" "pg_ofs (pge_vaddr (vm_pges v e)) = 0"
  shows "\<exists>b h. insert_pge v t e ok = Some (b, v\<lparr>kern := (kern v)\<lparr>threads := (threads (kern v))(t \<mapsto> th\<lparr>sup_page_tab := h\<rparr>)\<rparr>\<rparr>)
    \<and> thread_current ((kern v)\<lparr>threads := (threads (kern v))(t \<mapsto> th\<lparr>sup_page_tab := h\<rparr>)\<rparr>) = Some t \<and> spt.inv (vm_pges v) h
    \<and> (b \<longleftrightarrow> (\<forall>x \<in> contents (sup_page_tab th). pge_vaddr (vm_pges v x) \<noteq> pge_vaddr (vm_pges v e)))
    \<and> contents h = (if b then insert e (contents (sup_page_tab th)) else contents (sup_page_tab th))"
proof -
  let ?P = "vm_pges v" and ?h = "sup_page_tab th"
  obtain old h where h: "hash_insert (spt_hash_func ?P) (spt_less_func ?P) ok ?h e = Some (old, h)" "spt.inv ?P h"
      "case old of Some x \<Rightarrow> x \<in> contents ?h \<and> spt.same ?P x e \<and> contents h = contents ?h
       | None \<Rightarrow> (\<forall>x \<in> contents ?h. \<not> spt.same ?P x e) \<and> contents h = insert e (contents ?h)"
    using spt.hash_insert_inv [OF inv room] by blast
  have c: "thread_current ((kern v)\<lparr>threads := (threads (kern v))(t \<mapsto> th\<lparr>sup_page_tab := h\<rparr>)\<rparr>) = Some t" "t \<noteq> 0"
    using cur th by (auto simp: thread_current_def running_thread_def is_thread_def Let_def Option.bind_eq_Some_conv)
  moreover have "insert_pge v t e ok = Some (old = None, v\<lparr>kern := (kern v)\<lparr>threads := (threads (kern v))(t \<mapsto> th\<lparr>sup_page_tab := h\<rparr>)\<rparr>\<rparr>)"
    using c(2) e th h(1) by (simp add: insert_pge_def upd_thread_def)
  ultimately show ?thesis
    using h(2,3) by (intro exI [of _ "old = None"] exI [of _ h]) (auto simp: spt_same split: option.splits)
qed

text \<open>
  C29: a page entry entered into the table of the running thread is found for every address of
  its page, all other addresses are looked up as before, and nothing changes when the page
  already has an entry.
\<close>

theorem insert_pge_get_pge:
  assumes cur: "thread_current (kern v) = Some t" and th: "threads (kern v) t = Some th"
    and inv: "spt.inv (vm_pges v) (sup_page_tab th)" and room: "elem_cnt (sup_page_tab th) + 1 < 2 ^ 32"
    and e: "e \<noteq> 0" "pg_ofs (pge_vaddr (vm_pges v e)) = 0" and loc: "loc \<notin> insert e (contents (sup_page_tab th))"
    and nz: "0 \<notin> contents (sup_page_tab th)"
  shows "\<exists>b v'. insert_pge v t e ok = Some (b, v') \<and> (b \<longleftrightarrow> get_pge v loc (pge_vaddr (vm_pges v e)) = Some 0)
    \<and> (\<forall>va. get_pge v' loc va = (if b \<and> pg_round_down va = pge_vaddr (vm_pges v e) then Some e else get_pge v loc va))"
proof -
  let ?P = "vm_pges v" and ?h = "sup_page_tab th"
  obtain b h v' where r: "insert_pge v t e ok = Some (b, v')"
      and v': "v' = v\<lparr>kern := (kern v)\<lparr>threads := (threads (kern v))(t \<mapsto> th\<lparr>sup_page_tab := h\<rparr>)\<rparr>\<rparr>"
      and h: "thread_current (kern v') = Some t" "spt.inv ?P h"
      "b \<longleftrightarrow> (\<forall>x \<in> contents ?h. pge_vaddr (?P x) \<noteq> pge_vaddr (?P e))"
      "contents h = (if b then insert e (contents ?h) else contents ?h)"
    using insert_pge_run [OF cur th inv room e, of ok] by auto
  have c: "cur_thread (kern v) = Some th" "cur_thread (kern v') = Some (th\<lparr>sup_page_tab := h\<rparr>)"
    using cur th h(1) by (simp_all add: cur_thread_def v')
  have g: "\<exists>x. get_pge v loc va = Some x \<and> spt_entry ?P ?h va x" for va
    using get_pge_entry [OF c(1) inv] loc by auto
  have g': "\<exists>x. get_pge v' loc va = Some x \<and> spt_entry ?P h va x" for va
    using get_pge_entry [OF c(2), of loc va] h(2,4) loc by (auto simp: v' split: if_splits)
  have al: "pg_round_down (pge_vaddr (?P e)) = pge_vaddr (?P e)"
    by (rule round_down_aligned [OF e(2)])
  have entry: "spt_entry ?P h va x \<longleftrightarrow> (if b \<and> pg_round_down va = pge_vaddr (?P e) then x = e else spt_entry ?P ?h va x)" for va x
    using h(3,4) by (auto simp: spt_entry_def split: if_splits)
  obtain x where "get_pge v loc (pge_vaddr (?P e)) = Some x" "spt_entry ?P ?h (pge_vaddr (?P e)) x"
    using g by blast
  then have new: "b = (get_pge v loc (pge_vaddr (?P e)) = Some 0)"
    using h(3) nz by (auto simp: spt_entry_def al split: if_splits)
  have "get_pge v' loc va = (if b \<and> pg_round_down va = pge_vaddr (?P e) then Some e else get_pge v loc va)" for va
    using g [of va] g' [of va] entry [of va] spt_entry_unique [OF inv] by (metis (full_types))
  then show ?thesis
    using r new by blast
qed

lemma spt_init_inv: "spt.inv P (spt_init True)" "contents (spt_init True) = ({} :: u32 set)" "elem_cnt (spt_init True) = 0"
proof -
  have h: "spt_init True = \<lparr>elem_cnt = 0, bucket_cnt = 4, buckets = replicate 4 []\<rparr>"
    by (simp add: spt_init_def hash_init_def)
  show c: "contents (spt_init True) = ({} :: u32 set)" "elem_cnt (spt_init True) = 0"
    by (simp_all add: h contents_def)
  have "wf_hash (spt_hash_func P) (spt_init True)"
    by (auto simp: h wf_hash_def intro!: exI [of _ 2])
  then show "spt.inv P (spt_init True)"
    by (simp add: spt.inv_def c)
qed

definition sample_spt_thread :: "unit thread" where
  "sample_spt_thread = (sample_thread THREAD_RUNNING 31 0 [])\<lparr>pagedir := 0xC0200000, sup_page_tab := spt_init True\<rparr>"

definition sample_spt :: "unit vm" where
  "sample_spt = sample_vm\<lparr>kern := (kern sample_vm)\<lparr>threads := [0xC000E000 \<mapsto> sample_spt_thread]\<rparr>\<rparr>"

theorem insert_pge_get_pge_witness:
  "\<exists>b v'. insert_pge sample_spt 0xC000E000 0xC0400110 True = Some (b, v')
    \<and> (b \<longleftrightarrow> get_pge sample_spt 8 (pge_vaddr (vm_pges sample_spt 0xC0400110)) = Some 0)
    \<and> (\<forall>va. get_pge v' 8 va = (if b \<and> pg_round_down va = pge_vaddr (vm_pges sample_spt 0xC0400110) then Some 0xC0400110
        else get_pge sample_spt 8 va))"
proof (rule insert_pge_get_pge)
  show th: "threads (kern sample_spt) 0xC000E000 = Some sample_spt_thread"
    by (simp add: sample_spt_def)
  show "thread_current (kern sample_spt) = Some 0xC000E000"
    by (simp add: thread_current_def running_thread_def is_thread_def sample_spt_def sample_spt_thread_def sample_vm_def
        sample_thread_def sample_kernel_def)
  show "spt.inv (vm_pges sample_spt) (sup_page_tab sample_spt_thread)" "elem_cnt (sup_page_tab sample_spt_thread) + 1 < 2 ^ 32"
    "8 \<notin> insert 0xC0400110 (contents (sup_page_tab sample_spt_thread))" "0 \<notin> contents (sup_page_tab sample_spt_thread)"
    by (simp_all add: sample_spt_thread_def spt_init_inv)
  show "pg_ofs (pge_vaddr (vm_pges sample_spt 0xC0400110)) = 0"
    by (simp add: sample_spt_def sample_vm_def pg_ofs_def PGMASK_def BITMASK_def)
qed simp_all

end
