(* ===== verification/User_Args.thy ===== *)
theory User_Args
  imports Free_Map
begin

text \<open>
  The arguments of a user program, \<open>parse_filename\<close> and \<open>construct_ESP\<close> of
  \<open>userprog/process.c\<close>, on byte memory: splitting the command line into words, and building
  the initial stack of the process.  \<open>dlm\<close> is the address of the string literal with the
  space; the pointers that \<open>malloc\<close> returns are arguments.
\<close>

section \<open>Splitting the command line\<close>

definition MAX_ARGS :: nat where "MAX_ARGS = 128"

partial_function (option) parse_loop ::
    "(nat \<Rightarrow> addr) \<Rightarrow> addr \<Rightarrow> addr \<Rightarrow> bmem \<Rightarrow> addr \<Rightarrow> addr \<Rightarrow> addr list \<Rightarrow> (addr list \<times> bmem) option" where
  "parse_loop new file_name dlm m token save argu_list =
     (if token = 0 then Some (argu_list, m)
      else do {
        n \<leftarrow> strlen m token;
        let len_token = n + 1;
        let cnt = length argu_list;
        (_, m) \<leftarrow> (if cnt = 0 then strlcpy m file_name token len_token else Some (0, m));
        ASSERT (cnt < MAX_ARGS);
        (_, m) \<leftarrow> strlcpy m (new cnt) token len_token;
        (token, save, m) \<leftarrow> strtok_r m 0 dlm save;
        parse_loop new file_name dlm m token save (argu_list @ [new cnt])
      })"

definition parse_filename :: "bmem \<Rightarrow> addr \<Rightarrow> addr \<Rightarrow> (nat \<Rightarrow> addr) \<Rightarrow> addr \<Rightarrow> (addr list \<times> bmem) option" where
  "parse_filename m file_name s new dlm = do {
     n \<leftarrow> strlen m file_name;
     (_, m) \<leftarrow> strlcpy m s file_name (n + 1);
     (token, save, m) \<leftarrow> strtok_r m s dlm 0;
     parse_loop new file_name dlm m token save []
   }"

section \<open>The initial stack\<close>

fun store_bytes :: "bmem \<Rightarrow> addr \<Rightarrow> u8 list \<Rightarrow> bmem option" where
  "store_bytes m p [] = Some m"
| "store_bytes m p (b # bs) = do { m \<leftarrow> store m p b; store_bytes m (p + 1) bs }"

text \<open>The strings, the last one first; \<open>i\<close> of them are left.\<close>

fun push_strings :: "addr list \<Rightarrow> nat \<Rightarrow> bmem \<Rightarrow> addr \<Rightarrow> nat \<Rightarrow> addr list \<Rightarrow> (bmem \<times> addr \<times> nat \<times> addr list) option" where
  "push_strings argu_list 0 m esp sum_len addr = Some (m, esp, sum_len, addr)"
| "push_strings argu_list (Suc i) m esp sum_len addr = do {
     ASSERT (i < length argu_list);
     n \<leftarrow> strlen m (argu_list ! i);
     let size_argu = n + 1;
     let sum_len = sum_len + size_argu;
     let esp = esp - size_argu;
     (_, m) \<leftarrow> memcpy m esp (argu_list ! i) size_argu;
     push_strings argu_list i m esp sum_len (addr[i := esp])
   }"

fun push_zeros :: "nat \<Rightarrow> bmem \<Rightarrow> addr \<Rightarrow> (bmem \<times> addr) option" where
  "push_zeros 0 m esp = Some (m, esp)"
| "push_zeros (Suc n) m esp = do { let esp = esp - 1; (_, m) \<leftarrow> memset m esp 0 1; push_zeros n m esp }"

definition push_word :: "bmem \<Rightarrow> addr \<Rightarrow> u32 \<Rightarrow> (bmem \<times> addr) option" where
  "push_word m esp w = do { let esp = esp - 4; m \<leftarrow> store_bytes m esp (le32 w); Some (m, esp) }"

fun push_addrs :: "addr list \<Rightarrow> nat \<Rightarrow> bmem \<Rightarrow> addr \<Rightarrow> (bmem \<times> addr) option" where
  "push_addrs addr 0 m esp = Some (m, esp)"
| "push_addrs addr (Suc i) m esp = do { (m, esp) \<leftarrow> push_word m esp (word_of_nat (addr ! i)); push_addrs addr i m esp }"

definition construct_ESP :: "bmem \<Rightarrow> addr \<Rightarrow> addr list \<Rightarrow> nat \<Rightarrow> (addr \<times> bmem) option" where
  "construct_ESP m esp argu_list argu_num = do {
     ASSERT (argu_num \<le> 128);
     let addr = replicate 128 0;
     (m, esp, totallen_align, addr) \<leftarrow> push_strings argu_list argu_num m esp 0 addr;
     (m, esp) \<leftarrow> (if totallen_align mod 4 \<noteq> 0 then push_zeros (4 - totallen_align mod 4) m esp else Some (m, esp));
     (m, esp) \<leftarrow> push_word m esp 0;
     (m, esp) \<leftarrow> push_addrs addr argu_num m esp;
     (m, esp) \<leftarrow> push_word m esp (word_of_nat esp);
     (m, esp) \<leftarrow> push_word m esp (word_of_nat argu_num);
     (m, esp) \<leftarrow> push_word m esp 0;
     Some (esp, m)
   }"

section \<open>Pushing below what is on the stack\<close>

lemma patch_patch_below: "patch (patch m (p + length xs) ys) p xs = patch m p (xs @ ys)"
  by (rule ext) (auto simp: patch_def nth_append)

lemma writable_patch: "p \<noteq> 0 \<Longrightarrow> writable m q n \<Longrightarrow> writable (patch m p bs) q n"
  by (auto simp: writable_def load_patch)

lemma writable_part: "writable m p n \<Longrightarrow> p \<le> q \<Longrightarrow> q + k \<le> p + n \<Longrightarrow> writable m q k"
  by (auto simp: writable_def)

lemma store_bytes_patch: "writable m p (length bs) \<Longrightarrow> store_bytes m p bs = Some (patch m p bs)"
proof (induction bs arbitrary: m p)
  case (Cons b bs)
  then have l: "load m p \<noteq> None" and "writable m (p + 1) (length bs)"
    by (simp_all add: writable_Suc)
  then have "store_bytes (m(p \<mapsto> b)) (p + 1) bs = Some (patch (m(p \<mapsto> b)) (p + 1) bs)"
    by (intro Cons.IH) (simp only: writable_upd [OF l])
  then show ?case
    using l unfolding patch_Cons by (simp add: store_ok)
qed simp

text \<open>
  \<open>stack m lo hi p bs\<close> is memory \<open>m\<close> with the bytes \<open>bs\<close> written from \<open>p\<close> up to \<open>hi\<close>;
  there is room for more down to \<open>lo\<close>.
\<close>

definition on_stack :: "bmem \<Rightarrow> addr \<Rightarrow> addr \<Rightarrow> addr \<Rightarrow> u8 list \<Rightarrow> bool" where
  "on_stack m lo hi p bs \<longleftrightarrow> 0 < lo \<and> lo \<le> p \<and> p + length bs = hi \<and> writable m lo (hi - lo)"

lemma push_word_stack:
  assumes "on_stack m lo hi p bs" and "lo + 4 \<le> p"
  shows "push_word (patch m p bs) p w = Some (patch m (p - 4) (le32 w @ bs), p - 4)"
    and "on_stack m lo hi (p - 4) (le32 w @ bs)"
proof -
  have "writable m (p - 4) 4" "p \<noteq> 0"
    using assms by (auto simp: on_stack_def elim!: writable_part)
  then have "writable (patch m p bs) (p - 4) (length (le32 w))"
    by (simp add: writable_patch)
  moreover have "patch (patch m p bs) (p - 4) (le32 w) = patch m (p - 4) (le32 w @ bs)"
    using patch_patch_below [of m "p - 4" "le32 w" bs] assms(2) by simp
  ultimately show "push_word (patch m p bs) p w = Some (patch m (p - 4) (le32 w @ bs), p - 4)"
    by (simp add: push_word_def store_bytes_patch Let_def)
  show "on_stack m lo hi (p - 4) (le32 w @ bs)"
    using assms by (auto simp: on_stack_def)
qed

lemma push_zeros_stack:
  assumes "on_stack m lo hi p bs" and "lo + n \<le> p"
  shows "push_zeros n (patch m p bs) p = Some (patch m (p - n) (replicate n 0 @ bs), p - n)
    \<and> on_stack m lo hi (p - n) (replicate n 0 @ bs)"
  using assms
proof (induction n arbitrary: p bs)
  case (Suc n)
  have "writable m lo (hi - lo)" "lo \<le> p - 1" "p - 1 < lo + (hi - lo)" "p \<noteq> 0" "p - 1 \<noteq> 0"
    using Suc.prems by (auto simp: on_stack_def)
  then have "load m (p - 1) \<noteq> None" "p \<noteq> 0" "p - 1 \<noteq> 0"
    unfolding writable_def by blast+
  then have "memset (patch m p bs) (p - 1) 0 1 = Some (p - 1, patch m (p - 1) (0 # bs))"
    using patch_patch_below [of m "p - 1" "[0]" bs]
    by (simp add: memset_def store_ok load_patch patch_Cons [of _ _ _ "[]"])
  moreover have "on_stack m lo hi (p - 1) (0 # bs)"
    using Suc.prems by (auto simp: on_stack_def)
  moreover have eq: "replicate n 0 @ 0 # bs = replicate (Suc n) 0 @ bs"
    by (simp add: replicate_app_Cons_same)
  ultimately show ?case
    using Suc.IH [of "p - 1" "0 # bs", unfolded eq] Suc.prems(2) by simp
qed simp

lemma push_addrs_stack:
  assumes "on_stack m lo hi p bs" and "lo + 4 * i \<le> p" and "i \<le> length addr"
  shows "push_addrs addr i (patch m p bs) p =
      Some (patch m (p - 4 * i) (concat (map (\<lambda>a. le32 (word_of_nat a)) (take i addr)) @ bs), p - 4 * i)
    \<and> on_stack m lo hi (p - 4 * i) (concat (map (\<lambda>a. le32 (word_of_nat a)) (take i addr)) @ bs)"
  using assms
proof (induction i arbitrary: p bs)
  case (Suc i)
  note w = push_word_stack [OF Suc.prems(1), of "word_of_nat (addr ! i)"]
  have "push_addrs addr i (patch m (p - 4) (le32 (word_of_nat (addr ! i)) @ bs)) (p - 4) =
      Some (patch m (p - 4 - 4 * i) (concat (map (\<lambda>a. le32 (word_of_nat a)) (take i addr)) @ le32 (word_of_nat (addr ! i)) @ bs),
        p - 4 - 4 * i)
    \<and> on_stack m lo hi (p - 4 - 4 * i) (concat (map (\<lambda>a. le32 (word_of_nat a)) (take i addr)) @ le32 (word_of_nat (addr ! i)) @ bs)"
    using Suc.prems w(2) by (intro Suc.IH) auto
  then show ?case
    using w(1) Suc.prems by (simp add: take_Suc_conv_app_nth)
qed simp

text \<open>The bytes of the strings with their terminators, and where each of them begins.\<close>

definition args_bytes :: "u8 list list \<Rightarrow> u8 list" where
  "args_bytes ss = concat (map (\<lambda>s. s @ [0]) ss)"

definition arg_at :: "addr \<Rightarrow> u8 list list \<Rightarrow> nat \<Rightarrow> addr" where
  "arg_at hi ss i = hi - length (args_bytes (drop i ss))"

lemma args_bytes_drop:
  assumes "i < length ss"
  shows "args_bytes (drop i ss) = (ss ! i @ [0]) @ args_bytes (drop (Suc i) ss)"
  using assms by (simp add: args_bytes_def Cons_nth_drop_Suc [symmetric])

lemma args_bytes_le: "length (args_bytes (drop i ss)) \<le> length (args_bytes ss)"
proof -
  have "args_bytes ss = args_bytes (take i ss) @ args_bytes (drop i ss)"
    unfolding args_bytes_def by (metis append_take_drop_id concat_append map_append)
  then show ?thesis
    by simp
qed

text \<open>The strings lie apart from the stack.\<close>

definition args_ok :: "bmem \<Rightarrow> addr \<Rightarrow> addr \<Rightarrow> addr list \<Rightarrow> u8 list list \<Rightarrow> bool" where
  "args_ok m lo hi args ss \<longleftrightarrow> length args = length ss \<and> (\<forall>i < length ss. cstr m (args ! i) (ss ! i)
     \<and> (args ! i + length (ss ! i) + 1 \<le> lo \<or> hi \<le> args ! i))"

lemma push_strings_stack:
  assumes ok: "args_ok m lo hi args ss" and st: "on_stack m lo hi hi []" and room: "lo + length (args_bytes ss) \<le> hi"
    and "i \<le> length ss" and "length ss \<le> length addr"
  shows "push_strings args i (patch m (arg_at hi ss i) (args_bytes (drop i ss))) (arg_at hi ss i) sum_len addr =
    Some (patch m (arg_at hi ss 0) (args_bytes ss), arg_at hi ss 0, sum_len + (length (args_bytes ss) - length (args_bytes (drop i ss))),
      map (arg_at hi ss) [0..<i] @ drop i addr)"
  using assms(4,5)
proof (induction i arbitrary: sum_len addr)
  case (Suc i)
  let ?e = "arg_at hi ss (Suc i)" and ?bs = "args_bytes (drop (Suc i) ss)" and ?s = "ss ! i"
  have i: "i < length ss" "i < length args"
    using Suc.prems ok by (auto simp: args_ok_def)
  note d = args_bytes_drop [OF i(1)]
  have le: "lo + length (args_bytes (drop i ss)) \<le> hi"
    using room args_bytes_le [of i ss] by simp
  then have e: "arg_at hi ss i = ?e - (length ?s + 1)" "lo + (length ?s + 1) \<le> ?e" "?e + length ?bs = hi" "0 < lo"
    using st by (auto simp: arg_at_def d on_stack_def)
  have c: "cstr m (args ! i) ?s" "args ! i + length ?s + 1 \<le> lo \<or> hi \<le> args ! i"
    using ok i by (auto simp: args_ok_def)
  have b: "block m (args ! i) (?s @ [0])" "0 \<notin> set ?s"
    using c(1) by (simp_all add: cstr_def)
  have b': "block (patch m ?e ?bs) (args ! i) (?s @ [0])"
    using b c(2) e by (subst block_patch_other) auto
  have len: "strlen (patch m ?e ?bs) (args ! i) = Some (length ?s)"
    using b' b(2) by (intro strlen_cstr) (simp add: cstr_def)
  have "writable (patch m ?e ?bs) (arg_at hi ss i) (length (?s @ [0]))"
    using st e by (intro writable_patch) (auto simp: on_stack_def elim!: writable_part)
  then have cp: "memcpy (patch m ?e ?bs) (arg_at hi ss i) (args ! i) (length (?s @ [0])) =
      Some (arg_at hi ss i, patch m (arg_at hi ss i) (args_bytes (drop i ss)))"
  proof -
    have "arg_at hi ss i \<le> args ! i \<or> args ! i + length (?s @ [0]) \<le> arg_at hi ss i"
      using c(2) e by auto
    moreover have "patch (patch m ?e ?bs) (arg_at hi ss i) (?s @ [0]) = patch m (arg_at hi ss i) (args_bytes (drop i ss))"
      using patch_patch_below [of m "arg_at hi ss i" "?s @ [0]" ?bs] e d by simp
    ultimately show ?thesis
      using memcpy_block [OF b' \<open>writable (patch m ?e ?bs) _ _\<close>] by simp
  qed
  have "push_strings args i (patch m (arg_at hi ss i) (args_bytes (drop i ss))) (arg_at hi ss i)
      (sum_len + (length ?s + 1)) (addr[i := arg_at hi ss i]) =
    Some (patch m (arg_at hi ss 0) (args_bytes ss), arg_at hi ss 0,
      sum_len + (length ?s + 1) + (length (args_bytes ss) - length (args_bytes (drop i ss))),
      map (arg_at hi ss) [0..<i] @ drop i (addr[i := arg_at hi ss i]))"
    using Suc.prems by (intro Suc.IH) auto
  moreover have "drop i (addr[i := arg_at hi ss i]) = arg_at hi ss i # drop (Suc i) addr"
    using Suc.prems by (simp add: drop_update_swap Cons_nth_drop_Suc [symmetric] drop_Suc_Cons)
  moreover have "length ?s + 1 + (length (args_bytes ss) - length (args_bytes (drop i ss))) =
      length (args_bytes ss) - length ?bs"
    using args_bytes_le [of i ss] d by simp
  ultimately show ?case
    using i(2) len cp e(1) by (simp add: Let_def)
qed (simp add: arg_at_def)

section \<open>What the program finds on its stack\<close>

text \<open>The padding, and the whole stack from its lowest word to the end of the strings.\<close>

definition pad_len :: "u8 list list \<Rightarrow> nat" where
  "pad_len ss = (4 - length (args_bytes ss) mod 4) mod 4"

lemma pad_len_eq: "pad_len ss = (if length (args_bytes ss) mod 4 = 0 then 0 else 4 - length (args_bytes ss) mod 4)"
  by (simp add: pad_len_def)

lemma pad_aligned: "(length (args_bytes ss) + pad_len ss) mod 4 = 0"
proof -
  have "(r + (4 - r) mod 4) mod 4 = 0" if "r < 4" for r :: nat
  proof -
    have "r = 0 \<or> r = 1 \<or> r = 2 \<or> r = 3"
      using that by arith
    then show ?thesis
      by (elim disjE) simp_all
  qed
  then have "(length (args_bytes ss) mod 4 + pad_len ss) mod 4 = 0"
    unfolding pad_len_def by simp
  then show ?thesis
    by (simp only: mod_add_left_eq)
qed

definition stack_len :: "u8 list list \<Rightarrow> nat" where
  "stack_len ss = length (args_bytes ss) + pad_len ss + 4 * length ss + 16"

definition stack_image :: "addr \<Rightarrow> u8 list list \<Rightarrow> u8 list" where
  "stack_image hi ss = le32 0 @ le32 (word_of_nat (length ss)) @ le32 (word_of_nat (hi - stack_len ss + 12))
     @ concat (map (\<lambda>i. le32 (word_of_nat (arg_at hi ss i))) [0..<length ss]) @ le32 0 @ replicate (pad_len ss) 0 @ args_bytes ss"

lemma construct_ESP_image:
  assumes ok: "args_ok m (hi - stack_len ss) hi args ss" and n: "length ss \<le> MAX_ARGS"
    and room: "stack_len ss < hi" "writable m (hi - stack_len ss) (stack_len ss)"
  shows "construct_ESP m hi args (length ss) = Some (hi - stack_len ss, patch m (hi - stack_len ss) (stack_image hi ss))"
proof -
  let ?lo = "hi - stack_len ss" and ?n = "length ss" and ?l = "length (args_bytes ss)"
  have st: "on_stack m ?lo hi hi []"
    using room by (simp add: on_stack_def)
  have l: "?lo + (?l + pad_len ss + 4 * ?n + 16) = hi"
    using room(1) by (simp add: stack_len_def)
  let ?addr = "map (arg_at hi ss) [0..<?n] @ replicate (128 - ?n) 0" and ?p1 = "hi - ?l"
  have s1: "push_strings args ?n m hi 0 (replicate 128 0) = Some (patch m ?p1 (args_bytes ss), ?p1, ?l, ?addr)"
    using push_strings_stack [OF ok st, of ?n "replicate 128 0" 0] l n by (simp add: arg_at_def args_bytes_def MAX_ARGS_def)
  have o1: "on_stack m ?lo hi ?p1 (args_bytes ss)"
    using room l by (auto simp: on_stack_def)
  let ?b2 = "replicate (pad_len ss) 0 @ args_bytes ss" and ?p2 = "hi - ?l - pad_len ss"
  have c2: "?lo + pad_len ss \<le> ?p1"
    using l by simp
  have o2: "on_stack m ?lo hi ?p2 ?b2"
    using push_zeros_stack [OF o1 c2] by simp
  have s2: "(if ?l mod 4 \<noteq> 0 then push_zeros (4 - ?l mod 4) (patch m ?p1 (args_bytes ss)) ?p1
      else Some (patch m ?p1 (args_bytes ss), ?p1)) = Some (patch m ?p2 ?b2, ?p2)"
  proof (cases "?l mod 4 = 0")
    case True
    then show ?thesis
      by (simp add: pad_len_eq)
  next
    case False
    then have "4 - ?l mod 4 = pad_len ss"
      by (simp add: pad_len_eq)
    then show ?thesis
      using False push_zeros_stack [OF o1 c2] by simp
  qed
  have c3: "?lo + 4 \<le> ?p2"
    using l by simp
  note s3 = push_word_stack [OF o2 c3, of 0]
  let ?as = "concat (map (\<lambda>i. le32 (word_of_nat (arg_at hi ss i))) [0..<?n])"
  have t: "map (\<lambda>a. le32 (word_of_nat a)) (take ?n ?addr) = map (\<lambda>i. le32 (word_of_nat (arg_at hi ss i))) [0..<?n]"
    by simp
  have c4: "?lo + 4 * ?n \<le> ?p2 - 4" "?n \<le> length ?addr"
    using l by simp_all
  note s4 = push_addrs_stack [OF s3(2) c4, unfolded t]
  have e4: "?p2 - 4 - 4 * ?n = ?lo + 12"
    using l by simp
  note s5 = push_word_stack [OF s4 [THEN conjunct2], unfolded e4, of "word_of_nat (?lo + 12)"]
  note s6 = push_word_stack [OF s5(2), of "word_of_nat ?n"]
  note s7 = push_word_stack [OF s6(2), of 0]
  show ?thesis
    using n s1 s2 s3(1) s4 [THEN conjunct1, unfolded e4] s5(1) s6(1) s7(1)
    by (simp add: construct_ESP_def MAX_ARGS_def Let_def stack_image_def)
qed

definition word_in :: "bmem \<Rightarrow> addr \<Rightarrow> u32 \<Rightarrow> bool" where
  "word_in m p w \<longleftrightarrow> block m p (le32 w)"

lemma block_words: "block m p (concat (map le32 ws)) \<Longrightarrow> i < length ws \<Longrightarrow> word_in m (p + 4 * i) (ws ! i)"
proof (induction ws arbitrary: p i)
  case (Cons w ws)
  then show ?case
    using Cons.IH [of "p + 4"] by (cases i) (auto simp: block_append word_in_def add.assoc)
qed simp

lemma length_args_words: "length (concat (map (\<lambda>i. le32 (f i)) [0..<n])) = 4 * n"
  by (induction n) auto

lemma args_bytes_split:
  assumes "i < length ss"
  shows "args_bytes ss = args_bytes (take i ss) @ (ss ! i @ [0]) @ args_bytes (drop (Suc i) ss)"
proof -
  have "args_bytes ss = args_bytes (take i ss) @ args_bytes (drop i ss)"
    unfolding args_bytes_def by (metis append_take_drop_id concat_append map_append)
  then show ?thesis
    using args_bytes_drop [OF assms] by simp
qed


text \<open>
  C30: on the initial stack of a process the program finds a return address of 0, the number of
  arguments, and a pointer to an array that holds a pointer to every argument string in order
  and ends with a null pointer; the stack pointer is aligned as the top of the stack was, and
  nothing outside of the stack is written.
\<close>

theorem construct_ESP_correct:
  assumes ok: "args_ok m (hi - stack_len ss) hi args ss" and n: "length ss \<le> MAX_ARGS"
    and room: "stack_len ss < hi" "writable m (hi - stack_len ss) (stack_len ss)" and hi: "hi < 2 ^ 32"
  shows "\<exists>esp m' argv. construct_ESP m hi args (length ss) = Some (esp, m') \<and> esp mod 4 = hi mod 4
    \<and> word_in m' esp 0 \<and> word_in m' (esp + 4) (word_of_nat (length ss)) \<and> word_in m' (esp + 8) argv
    \<and> (\<forall>i < length ss. \<exists>p. word_in m' (unat argv + 4 * i) p \<and> cstr m' (unat p) (ss ! i))
    \<and> word_in m' (unat argv + 4 * length ss) 0 \<and> (\<forall>a. a < esp \<or> hi \<le> a \<longrightarrow> m' a = m a)"
proof -
  let ?n = "length ss" and ?l = "length (args_bytes ss)"
  define lo where "lo = hi - stack_len ss"
  let ?m = "patch m lo (stack_image hi ss)" and ?argv = "word_of_nat (lo + 12) :: u32"
  have len: "length (stack_image hi ss) = stack_len ss" and hl: "lo + stack_len ss = hi"
    using room(1) by (simp_all add: stack_image_def stack_len_def length_args_words lo_def)
  have "block ?m lo (stack_image hi ss)"
    using room(1) by (intro block_patch) (simp add: lo_def)
  then have b: "word_in ?m lo 0" "word_in ?m (lo + 4) (word_of_nat ?n)" "word_in ?m (lo + 8) ?argv"
      "block ?m (lo + 12) (concat (map le32 (map (\<lambda>i. word_of_nat (arg_at hi ss i)) [0..<?n])))"
      "word_in ?m (lo + 12 + 4 * ?n) 0" "block ?m (lo + 12 + 4 * ?n + 4 + pad_len ss) (args_bytes ss)"
    unfolding stack_image_def lo_def [symmetric] word_in_def
    by (simp_all add: block_append length_args_words add.assoc comp_def)
  have "lo + 12 < 2 ^ 32" "arg_at hi ss i < 2 ^ 32" for i
    using hi hl by (auto simp: arg_at_def stack_len_def)
  then have u: "unat ?argv = lo + 12" "\<And>i. unat (word_of_nat (arg_at hi ss i) :: u32) = arg_at hi ss i"
    unfolding unat_of_nat by simp_all
  have "cstr ?m (arg_at hi ss i) (ss ! i)" if i: "i < ?n" for i
  proof -
    have at: "lo + 12 + 4 * ?n + 4 + pad_len ss = hi - ?l"
      using hl by (simp add: stack_len_def)
    have "length (args_bytes ss) = length (args_bytes (take i ss)) + length (args_bytes (drop i ss))"
      using args_bytes_split [OF i] args_bytes_drop [OF i] by simp
    moreover have "?l \<le> hi"
      using hl by (simp add: stack_len_def)
    ultimately have "hi - ?l + length (args_bytes (take i ss)) = arg_at hi ss i"
      by (simp add: arg_at_def)
    then have "block ?m (arg_at hi ss i) (ss ! i @ [0])"
      using b(6) unfolding at args_bytes_split [OF i] block_append by (simp add: block_append)
    then show ?thesis
      using ok i by (simp add: cstr_def args_ok_def)
  qed
  moreover have "word_in ?m (lo + 12 + 4 * i) (word_of_nat (arg_at hi ss i))" if "i < ?n" for i
    using block_words [OF b(4), of i] that by simp
  ultimately have "\<forall>i < ?n. \<exists>p. word_in ?m (unat ?argv + 4 * i) p \<and> cstr ?m (unat p) (ss ! i)"
    using u by metis
  moreover have "lo mod 4 = hi mod 4"
  proof -
    obtain q where "?l + pad_len ss = 4 * q"
      using pad_aligned [of ss] by (metis mod_0_imp_dvd dvdE)
    then have "hi = lo + 4 * (q + ?n + 4)"
      unfolding hl [symmetric] stack_len_def by simp
    then show ?thesis
      by (simp only: mod_mult_self2)
  qed
  moreover have "\<forall>a. a < lo \<or> hi \<le> a \<longrightarrow> ?m a = m a"
    using len hl by (auto simp: patch_def)
  moreover have "construct_ESP m hi args ?n = Some (lo, ?m)"
    using construct_ESP_image [OF ok n room] by (simp add: lo_def)
  ultimately show ?thesis
    using b(1-3,5) u(1) by (intro exI [of _ lo] exI [of _ ?m] exI [of _ ?argv]) simp
qed

definition sample_bytes :: bmem where
  "sample_bytes = (\<lambda>a. if a = 100 then Some 108 else if a = 101 then Some 115 else if a = 103 then Some 120
     else if 100 < a \<and> a < 300 then Some 0 else None)"

theorem construct_ESP_correct_witness:
  "\<exists>esp m' argv. construct_ESP sample_bytes 300 [100, 103] (length [[108, 115], [120 :: u8]]) = Some (esp, m') \<and> esp mod 4 = 300 mod 4
    \<and> word_in m' esp 0 \<and> word_in m' (esp + 4) (word_of_nat (length [[108, 115], [120 :: u8]])) \<and> word_in m' (esp + 8) argv
    \<and> (\<forall>i < length [[108, 115], [120 :: u8]]. \<exists>p. word_in m' (unat argv + 4 * i) p \<and> cstr m' (unat p) ([[108, 115], [120]] ! i))
    \<and> word_in m' (unat argv + 4 * length [[108, 115], [120 :: u8]]) 0 \<and> (\<forall>a. a < esp \<or> 300 \<le> a \<longrightarrow> m' a = sample_bytes a)"
proof (rule construct_ESP_correct)
  have "stack_len [[108, 115], [120]] = 32"
    by (simp add: stack_len_def args_bytes_def pad_len_def)
  then show "args_ok sample_bytes (300 - stack_len [[108, 115], [120]]) 300 [100, 103] [[108, 115], [120]]"
    "stack_len [[108, 115], [120]] < 300"
    "writable sample_bytes (300 - stack_len [[108, 115], [120]]) (stack_len [[108, 115], [120]])"
    by (simp_all add: args_ok_def less_Suc_eq load_def sample_bytes_def writable_def nth_Cons')
qed (simp_all add: MAX_ARGS_def)

end
