(* ===== verification/Process.thy ===== *)
theory Process
  imports Vm_Page Directory User_Args
begin

text \<open>
  User processes, \<open>userprog/process.c\<close>, with the page fault handler of
  \<open>userprog/exception.c\<close>: loading an executable, the initial stack, bringing in pages on
  demand, starting, waiting for and ending processes.  The pointers that \<open>malloc\<close> returns are
  arguments, as are the outcomes of the allocations inside the file system (\<open>mok\<close>, \<open>dok\<close>) and of
  the hash table (\<open>ok\<close>); \<open>loc\<close> is the address of a local page entry.
\<close>

section \<open>Executable files\<close>

definition get16 :: "u8 list \<Rightarrow> u32" where
  "get16 bs = ucast (bs ! 0) OR push_bit 8 (ucast (bs ! 1))"

record Elf32_Ehdr =
  e_ident :: "u8 list"
  e_type :: u32
  e_machine :: u32
  e_version :: u32
  e_entry :: u32
  e_phoff :: u32
  e_phentsize :: u32
  e_phnum :: u32

definition get_ehdr :: "u8 list \<Rightarrow> Elf32_Ehdr" where
  "get_ehdr bs = \<lparr>e_ident = take 16 bs, e_type = get16 (drop 16 bs), e_machine = get16 (drop 18 bs),
     e_version = get32 (drop 20 bs), e_entry = get32 (drop 24 bs), e_phoff = get32 (drop 28 bs),
     e_phentsize = get16 (drop 42 bs), e_phnum = get16 (drop 44 bs)\<rparr>"

record Elf32_Phdr =
  p_type :: u32
  p_offset :: u32
  p_vaddr :: u32
  p_filesz :: u32
  p_memsz :: u32
  p_flags :: u32

definition get_phdr :: "u8 list \<Rightarrow> Elf32_Phdr" where
  "get_phdr bs = \<lparr>p_type = get32 bs, p_offset = get32 (drop 4 bs), p_vaddr = get32 (drop 8 bs),
     p_filesz = get32 (drop 16 bs), p_memsz = get32 (drop 20 bs), p_flags = get32 (drop 24 bs)\<rparr>"

definition PT_LOAD :: u32 where "PT_LOAD = 1"
definition PT_DYNAMIC :: u32 where "PT_DYNAMIC = 2"
definition PT_INTERP :: u32 where "PT_INTERP = 3"
definition PT_SHLIB :: u32 where "PT_SHLIB = 5"
definition PF_W :: u32 where "PF_W = 2"

definition ehdr_ok :: "Elf32_Ehdr \<Rightarrow> bool" where
  "ehdr_ok h \<longleftrightarrow> take 7 (e_ident h) = [127, 69, 76, 70, 1, 1, 1] \<and> e_type h = 2 \<and> e_machine h = 3 \<and> e_version h = 1
     \<and> e_phentsize h = 32 \<and> e_phnum h \<le> 1024"

definition validate_segment :: "filesys \<Rightarrow> Elf32_Phdr \<Rightarrow> u32 \<Rightarrow> bool option" where
  "validate_segment fs phdr f =
     (if p_offset phdr AND PGMASK \<noteq> p_vaddr phdr AND PGMASK then Some False
      else do {
        len \<leftarrow> file_length fs f;
        if p_offset phdr > word_of_int len then Some False
        else if p_memsz phdr < p_filesz phdr then Some False
        else if p_memsz phdr = 0 then Some False
        else if \<not> is_user_vaddr (p_vaddr phdr) then Some False
        else if \<not> is_user_vaddr (p_vaddr phdr + p_memsz phdr) then Some False
        else if p_vaddr phdr + p_memsz phdr < p_vaddr phdr then Some False
        else if p_vaddr phdr < 4096 then Some False
        else Some True
      })"

definition ROUND_UP :: "u32 \<Rightarrow> u32 \<Rightarrow> u32" where
  "ROUND_UP x step = ((x + step - 1) div step) * step"

text \<open>What \<open>load\<close> passes to \<open>load_segment\<close>: file offset, address, bytes to read, bytes to clear.\<close>

definition segment_args :: "Elf32_Phdr \<Rightarrow> u32 \<times> u32 \<times> u32 \<times> u32" where
  "segment_args phdr =
     (let file_page = p_offset phdr AND NOT PGMASK;
          mem_page = p_vaddr phdr AND NOT PGMASK;
          page_offset = p_vaddr phdr AND PGMASK
      in if p_filesz phdr > 0
         then let read_bytes = page_offset + p_filesz phdr
              in (file_page, mem_page, read_bytes, ROUND_UP (page_offset + p_memsz phdr) 4096 - read_bytes)
         else (file_page, mem_page, 0, ROUND_UP (page_offset + p_memsz phdr) 4096))"

section \<open>Segments\<close>

definition set_pge :: "'w vm \<Rightarrow> u32 \<Rightarrow> page_entry \<Rightarrow> 'w vm" where
  "set_pge v e g = v\<lparr>vm_pges := (vm_pges v)(e := g)\<rparr>"

definition blank_pge :: page_entry where
  "blank_pge = \<lparr>pge_type = 0, pge_vaddr = 0, pge_writable = False, pge_loaded = False, pge_file = 0, pge_offset = 0,
     pge_read_bytes = 0, pge_zero_bytes = 0, pge_slot = 0\<rparr>"

text \<open>\<open>new i\<close> is what \<open>malloc\<close> returns for the entry of the \<open>i\<close>-th page of the segment.\<close>

partial_function (option) load_segment_loop ::
    "(nat \<Rightarrow> u32) \<Rightarrow> bool \<Rightarrow> u32 \<Rightarrow> bool \<Rightarrow> nat \<Rightarrow> 'w vm \<Rightarrow> u32 \<Rightarrow> u32 \<Rightarrow> u32 \<Rightarrow> u32 \<Rightarrow> (bool \<times> 'w vm) option" where
  "load_segment_loop new ok f wr i v ofs upage read_bytes zero_bytes =
     (if read_bytes > 0 \<or> zero_bytes > 0
      then do {
        let page_read_bytes = (if read_bytes < 4096 then read_bytes else 4096);
        let page_zero_bytes = 4096 - page_read_bytes;
        let e = new i;
        if e = 0 then Some (False, v)
        else do {
          let v = set_pge v e (blank_pge\<lparr>pge_type := VM_BIN, pge_file := f, pge_offset := ofs, pge_read_bytes := page_read_bytes,
                pge_zero_bytes := page_zero_bytes, pge_writable := wr, pge_vaddr := upage\<rparr>);
          t \<leftarrow> thread_current (kern v);
          (_, v) \<leftarrow> insert_pge v t e ok;
          load_segment_loop new ok f wr (i + 1) v (ofs + page_read_bytes) (upage + 4096)
            (read_bytes - page_read_bytes) (zero_bytes - page_zero_bytes)
        }
      }
      else Some (True, v))"

definition load_segment ::
    "(nat \<Rightarrow> u32) \<Rightarrow> bool \<Rightarrow> 'w vm \<Rightarrow> u32 \<Rightarrow> u32 \<Rightarrow> u32 \<Rightarrow> u32 \<Rightarrow> u32 \<Rightarrow> bool \<Rightarrow> (bool \<times> 'w vm) option" where
  "load_segment new ok v f ofs upage read_bytes zero_bytes wr = do {
     ASSERT ((read_bytes + zero_bytes) mod 4096 = 0);
     ASSERT (pg_ofs upage = 0);
     ASSERT (ofs mod 4096 = 0);
     fs \<leftarrow> file_seek (vm_fs v) f (sint ofs);
     load_segment_loop new ok f wr 0 (v\<lparr>vm_fs := fs\<rparr>) ofs upage read_bytes zero_bytes
   }"

section \<open>Pages of the running process\<close>

definition install_page :: "'w vm \<Rightarrow> u32 \<Rightarrow> u32 \<Rightarrow> bool \<Rightarrow> (bool \<times> 'w vm) option" where
  "install_page v upage kpage w = do {
     th \<leftarrow> cur_thread (kern v);
     p \<leftarrow> pagedir_get_page (vmem (kern v)) (pagedir th) upage;
     if p = 0 then do { (ok, s) \<leftarrow> pagedir_set_page (vmem (kern v)) (pagedir th) upage kpage w; Some (ok, set_vmem v s) }
     else Some (False, v)
   }"

definition anon_pge :: "u32 \<Rightarrow> page_entry" where
  "anon_pge upage = blank_pge\<lparr>pge_type := VM_ANON, pge_vaddr := upage, pge_writable := True, pge_loaded := True\<rparr>"

text \<open>
  The common body of \<open>setup_stack\<close> and \<open>stack_grow\<close>: a zeroed page for \<open>upage\<close> in the page
  structure \<open>p\<close> with the entry \<open>e\<close>.  When the page cannot be installed, \<open>free_page_kaddr\<close> is
  called with the address of the structure, as the code does.  The result says whether the page
  could be installed; a page that could not be allocated is passed over.
\<close>

definition add_stack_page :: "'w vm \<Rightarrow> u32 \<Rightarrow> u32 \<Rightarrow> u32 \<Rightarrow> bool \<Rightarrow> (bool \<times> 'w vm) option" where
  "add_stack_page v upage e p ok = do {
     (kpage, v) \<leftarrow> alloc_page v (PAL_USER OR PAL_ZERO) p;
     if kpage \<noteq> 0
     then do {
       let v = v\<lparr>vm_pages := (vm_pages v)(kpage := (vm_pages v kpage)\<lparr>page_pge := e\<rparr>)\<rparr>;
       v \<leftarrow> add_page_to_list_LRU v kpage;
       (done', v) \<leftarrow> install_page v upage (page_kaddr (vm_pages v kpage)) True;
       if \<not> done' then do { v \<leftarrow> free_page_kaddr v kpage; Some (False, v) }
       else do {
         let v = set_pge v e (anon_pge upage);
         t \<leftarrow> thread_current (kern v);
         (_, v) \<leftarrow> insert_pge v t e ok;
         Some (True, v)
       }
     }
     else Some (True, v)
   }"

text \<open>The stack pointer is written only when the page could be allocated.\<close>

definition setup_stack :: "'w vm \<Rightarrow> u32 \<Rightarrow> u32 \<Rightarrow> u32 \<Rightarrow> bool \<Rightarrow> (bool \<times> u32 \<times> 'w vm) option" where
  "setup_stack v esp e p ok =
     (if e = 0 then Some (False, esp, v)
      else do {
        (success, v) \<leftarrow> add_stack_page v (PHYS_BASE - 4096) e p ok;
        Some (success, if success \<and> p \<noteq> 0 then PHYS_BASE - 12 else esp, v)
      })"

definition stack_grow :: "'w vm \<Rightarrow> u32 \<Rightarrow> u32 \<Rightarrow> u32 \<Rightarrow> bool \<Rightarrow> 'w vm option" where
  "stack_grow v a e p ok =
     (if e = 0 then Some v
      else do { (_, v) \<leftarrow> add_stack_page v (pg_round_down a) e p ok; Some v })"

definition handle_mm_fault :: "'w vm \<Rightarrow> u32 \<Rightarrow> u32 \<Rightarrow> bool \<Rightarrow> (bool \<times> 'w vm) option" where
  "handle_mm_fault v e p mok = do {
     (kpage, v) \<leftarrow> alloc_page v PAL_USER p;
     ASSERT (kpage \<noteq> 0);
     let kaddr = page_kaddr (vm_pages v kpage);
     ASSERT (pg_ofs kaddr = 0);
     ASSERT (e \<noteq> 0);
     let v = v\<lparr>vm_pages := (vm_pages v)(kpage := (vm_pages v kpage)\<lparr>page_pge := e\<rparr>)\<rparr>;
     (present, v) \<leftarrow>
       (if pge_type (vm_pges v e) = VM_BIN
        then do {
          (loaded, v) \<leftarrow> load_file v kaddr e mok;
          if loaded then install_page v (pge_vaddr (vm_pges v e)) kaddr (pge_writable (vm_pges v e)) else Some (False, v)
        }
        else if pge_type (vm_pges v e) = VM_ANON
        then do {
          (ws, sw) \<leftarrow> swap_in (vm_swap v) (pge_slot (vm_pges v e)) kaddr (frame_at v kaddr);
          install_page (set_frame (v\<lparr>vm_swap := sw\<rparr>) kaddr ws) (pge_vaddr (vm_pges v e)) kaddr (pge_writable (vm_pges v e))
        }
        else None);
     if \<not> present then do { v \<leftarrow> free_page_kaddr v kpage; Some (False, v) }
     else do {
       v \<leftarrow> add_page_to_list_LRU (upd_pge v e (\<lambda>g. g\<lparr>pge_loaded := True\<rparr>)) kpage;
       Some (True, v)
     }
   }"

section \<open>Faults\<close>

text \<open>\<open>pe\<close> is the work of \<open>process_exit\<close>; \<open>thread_exit\<close> does not return.\<close>

definition syscall_exit :: "'w work list \<Rightarrow> 'w vm \<Rightarrow> i32 \<Rightarrow> 'w vm option" where
  "syscall_exit pe v code = do {
     t \<leftarrow> thread_current (kern v);
     k \<leftarrow> upd_thread (kern v) t (\<lambda>th. th\<lparr>exit_status := code\<rparr>);
     k \<leftarrow> thread_exit pe k;
     Some (v\<lparr>kern := k\<rparr>)
   }"

definition is_valid_stack :: "u32 \<Rightarrow> u32 \<Rightarrow> bool" where
  "is_valid_stack a esp \<longleftrightarrow> is_user_vaddr a \<and> sint (esp - a) \<le> 32 \<and> 0xC0000000 - a \<le> 8 * 1024 * 1024"

definition PF_P :: u32 where "PF_P = 1"

text \<open>\<open>cr2\<close> is the faulting address, \<open>err\<close> the error code and \<open>esp\<close> the stack pointer of the frame.\<close>

definition page_fault :: "'w work list \<Rightarrow> 'w vm \<Rightarrow> u32 \<Rightarrow> u32 \<Rightarrow> u32 \<Rightarrow> u32 \<Rightarrow> u32 \<Rightarrow> u32 \<Rightarrow> bool \<Rightarrow> bool \<Rightarrow> 'w vm option" where
  "page_fault pe v cr2 err esp loc e p ok mok = do {
     (_, s) \<leftarrow> intr_enable (irq (kern v));
     let v = v\<lparr>kern := (kern v)\<lparr>irq := s\<rparr>\<rparr>;
     let not_present = (err AND PF_P = 0);
     pge \<leftarrow> get_pge v loc cr2;
     if pge = 0
     then (if \<not> is_valid_stack cr2 esp then syscall_exit pe v (- 1) else stack_grow v cr2 e p ok)
     else if \<not> not_present then syscall_exit pe v (- 1)
     else do {
       (handled, v) \<leftarrow> handle_mm_fault v pge p mok;
       if handled then Some v else syscall_exit pe v (- 1)
     }
   }"

definition SEL_UCSEG :: u32 where "SEL_UCSEG = 0x1B"

definition kill :: "'w work list \<Rightarrow> 'w vm \<Rightarrow> u32 \<Rightarrow> 'w vm option" where
  "kill pe v cs =
     (if cs = SEL_UCSEG then do { k \<leftarrow> thread_exit pe (kern v); Some (v\<lparr>kern := k\<rparr>) }
      else if cs = SEL_KCSEG then None
      else do { k \<leftarrow> thread_exit pe (kern v); Some (v\<lparr>kern := k\<rparr>) })"

section \<open>Segments that pass the check\<close>

lemma round_up_page:
  assumes "unat x + 4095 < 2 ^ 32"
  shows "unat (ROUND_UP x 4096) = (unat x + 4095) div 4096 * 4096"
proof -
  have 1: "unat (x + 4096 - 1) = unat x + 4095"
    using assms by (simp add: unat_word_ariths)
  have "(unat x + 4095) div 4096 * 4096 \<le> unat x + 4095"
    by (rule div_times_less_eq_dividend)
  then have "(unat x + 4095) div 4096 * 4096 < 2 ^ 32"
    using assms by linarith
  then show ?thesis
    unfolding ROUND_UP_def by (simp add: unat_word_ariths unat_div 1)
qed

lemma not_mask_round_down: "va AND NOT PGMASK = pg_round_down va"
  by (simp add: pg_round_down_def)

lemma unat_mod_page: "unat (x mod 4096) = unat x mod 4096" for x :: u32
  by (simp add: unat_mod)

lemma validate_segment_facts:
  assumes "validate_segment fs phdr f = Some True"
  shows "p_filesz phdr \<le> p_memsz phdr" "p_memsz phdr \<noteq> 0" "4096 \<le> unat (p_vaddr phdr)"
    and "unat (p_vaddr phdr) + unat (p_memsz phdr) < unat PHYS_BASE"
proof -
  have "p_filesz phdr \<le> p_memsz phdr \<and> p_memsz phdr \<noteq> 0 \<and> is_user_vaddr (p_vaddr phdr + p_memsz phdr)
      \<and> p_vaddr phdr \<le> p_vaddr phdr + p_memsz phdr \<and> 4096 \<le> p_vaddr phdr"
    using assms by (auto simp: validate_segment_def Option.bind_eq_Some_conv not_less split: if_splits)
  moreover from this have "unat (p_vaddr phdr + p_memsz phdr) = unat (p_vaddr phdr) + unat (p_memsz phdr)"
    by (simp add: unat_plus_simple)
  ultimately show "p_filesz phdr \<le> p_memsz phdr" "p_memsz phdr \<noteq> 0" "4096 \<le> unat (p_vaddr phdr)"
      "unat (p_vaddr phdr) + unat (p_memsz phdr) < unat PHYS_BASE"
    by (auto simp: is_user_vaddr_def word_less_nat_alt word_le_nat_alt)
qed

text \<open>
  C31: when the check of a program header succeeds, the arguments that \<open>load\<close> computes for
  \<open>load_segment\<close> satisfy its assertions, and the pages they describe contain the whole segment
  and lie in user memory above the first page.
\<close>

theorem validate_segment_safe:
  assumes ok: "validate_segment fs phdr f = Some True" and args: "segment_args phdr = (ofs, upage, rd, zr)"
  shows "(rd + zr) mod 4096 = 0 \<and> pg_ofs upage = 0 \<and> ofs mod 4096 = 0 \<and> 4096 \<le> unat upage
    \<and> unat upage \<le> unat (p_vaddr phdr) \<and> unat (p_vaddr phdr) + unat (p_memsz phdr) \<le> unat upage + (unat rd + unat zr)
    \<and> unat upage + (unat rd + unat zr) \<le> unat PHYS_BASE"
proof -
  note facts = validate_segment_facts [OF ok]
  let ?o = "pg_ofs (p_vaddr phdr)" and ?va = "unat (p_vaddr phdr)" and ?m = "unat (p_memsz phdr)"
  let ?up = "unat (pg_round_down (p_vaddr phdr))" and ?r = "unat (ROUND_UP (?o + p_memsz phdr) 4096)"
  have o: "unat ?o = ?va mod 4096" "?up = ?va - ?va mod 4096"
    by (simp_all add: unat_pg_ofs unat_pg_round_down)
  obtain q where q: "?va = ?up + unat ?o" "?up = 4096 * q" "unat ?o < 4096"
    using o mod_less_divisor [of 4096 ?va] minus_mod_eq_mult_div [of ?va 4096] by (auto simp: mult.commute)
  have om: "unat (?o + p_memsz phdr) = unat ?o + ?m"
    using facts(4) q by (subst unat_plus_simple [THEN iffD1]) (auto simp: no_olen_add_nat)
  have r: "?r = (unat ?o + ?m + 4095) div 4096 * 4096"
    using round_up_page [of "?o + p_memsz phdr"] facts(4) q om by simp
  then have bound: "unat ?o + ?m \<le> ?r" "?r \<le> unat ?o + ?m + 4095" "4096 dvd ?r"
    by (auto intro: order.trans [OF div_times_less_eq_dividend])
  then obtain k where k: "?r = 4096 * k"
    by (auto elim: dvdE)
  have "q + k \<le> 786432"
  proof (rule ccontr)
    assume "\<not> q + k \<le> 786432"
    then have "4096 * 786433 \<le> 4096 * (q + k)"
      by (intro mult_le_mono2) simp
    then show False
      using q k bound(2) facts(4) by simp
  qed
  then have top: "?up + ?r \<le> unat PHYS_BASE"
    using q(2) k by simp
  have low: "4096 \<le> ?up"
    using q facts(3) by (cases q) auto
  have up: "upage = pg_round_down (p_vaddr phdr)" "ofs = pg_round_down (p_offset phdr)"
    using args by (auto simp: segment_args_def Let_def not_mask_round_down split: if_splits)
  have sum: "unat rd + unat zr = ?r"
  proof (cases "p_filesz phdr > 0")
    case True
    then have a: "rd = ?o + p_filesz phdr" "zr = ROUND_UP (?o + p_memsz phdr) 4096 - rd"
      using args by (auto simp: segment_args_def Let_def pg_ofs_def)
    have "unat rd = unat ?o + unat (p_filesz phdr)"
      using a(1) facts(1,4) q by (simp add: unat_word_ariths word_le_nat_alt)
    moreover have "unat (p_filesz phdr) \<le> ?m"
      using facts(1) by (simp add: word_le_nat_alt)
    ultimately have "unat rd \<le> ?r"
      using bound(1) by simp
    then show ?thesis
      using a(2) by (simp add: unat_sub word_le_nat_alt)
  next
    case False
    then show ?thesis
      using args by (auto simp: segment_args_def Let_def pg_ofs_def)
  qed
  have "unat (rd + zr) = ?r"
    using sum top by (simp add: unat_word_ariths)
  then have "(rd + zr) mod 4096 = 0"
    using k by (simp add: unat_mod_page flip: unat_eq_zero)
  moreover have "ofs mod 4096 = 0"
    unfolding up by (simp add: unat_mod_page unat_pg_round_down flip: unat_eq_zero)
  ultimately show ?thesis
    using up low top sum bound(1) q by simp
qed

theorem validate_segment_safe_witness:
  "let fs = \<lparr>fs_device = swap_block sample_swap, inodes = [5 \<mapsto> \<lparr>sector = 9, open_cnt = 1, removed = False, deny_write_cnt = 0,
        idata = \<lparr>start = 10, dlength = 9000, dmagic = 0\<rparr>\<rparr>], open_inodes = [5],
        files = [6 \<mapsto> \<lparr>file_inode = 5, file_pos = 0, file_deny = False\<rparr>], free_map = swap_bitmap sample_swap, free_map_file = 0\<rparr>;
      phdr = \<lparr>p_type = 1, p_offset = 0x74, p_vaddr = 0x8048074, p_filesz = 0x1000, p_memsz = 0x1800, p_flags = 5\<rparr>
   in validate_segment fs phdr 6 = Some True \<and> segment_args phdr = (0, 0x8048000, 0x1074, 0xf8c)
    \<and> ((0x1074 + 0xf8c :: u32) mod 4096 = 0 \<and> pg_ofs 0x8048000 = 0 \<and> (0 :: u32) mod 4096 = 0 \<and> 4096 \<le> unat (0x8048000 :: u32)
    \<and> unat (0x8048000 :: u32) \<le> unat (p_vaddr phdr) \<and> unat (p_vaddr phdr) + unat (p_memsz phdr) \<le> unat (0x8048000 :: u32) + (unat (0x1074 :: u32) + unat (0xf8c :: u32))
    \<and> unat (0x8048000 :: u32) + (unat (0x1074 :: u32) + unat (0xf8c :: u32)) \<le> unat PHYS_BASE)"
proof -
  let ?fs = "\<lparr>fs_device = swap_block sample_swap, inodes = [5 \<mapsto> \<lparr>sector = 9, open_cnt = 1, removed = False, deny_write_cnt = 0,
        idata = \<lparr>start = 10, dlength = 9000, dmagic = 0\<rparr>\<rparr>], open_inodes = [5],
        files = [6 \<mapsto> \<lparr>file_inode = 5, file_pos = 0, file_deny = False\<rparr>], free_map = swap_bitmap sample_swap, free_map_file = 0\<rparr>"
  let ?p = "\<lparr>p_type = 1, p_offset = 0x74, p_vaddr = 0x8048074, p_filesz = 0x1000, p_memsz = 0x1800, p_flags = 5\<rparr>"
  have 1: "validate_segment ?fs ?p 6 = Some True"
    by (simp add: validate_segment_def file_length_def inode_length_def PGMASK_def BITMASK_def is_user_vaddr_def PHYS_BASE_def)
  have 2: "segment_args ?p = (0, 0x8048000, 0x1074, 0xf8c)"
    by (simp add: segment_args_def ROUND_UP_def PGMASK_def BITMASK_def Let_def)
  show ?thesis
    unfolding Let_def using validate_segment_safe [OF 1 2] 1 2 by blast
qed

section \<open>What loading a segment enters\<close>

text \<open>The entry of the \<open>j\<close>-th page of a segment of which \<open>rd\<close> bytes come from the file.\<close>

definition seg_entry :: "u32 \<Rightarrow> bool \<Rightarrow> u32 \<Rightarrow> u32 \<Rightarrow> nat \<Rightarrow> nat \<Rightarrow> page_entry" where
  "seg_entry f wr ofs upage rd j = \<lparr>pge_type = VM_BIN, pge_vaddr = upage + word_of_nat (4096 * j), pge_writable = wr,
     pge_loaded = False, pge_file = f, pge_offset = ofs + word_of_nat (min rd (4096 * j)),
     pge_read_bytes = word_of_nat (min 4096 (rd - 4096 * j)), pge_zero_bytes = word_of_nat (4096 - min 4096 (rd - 4096 * j)),
     pge_slot = 0\<rparr>"

lemma seg_entry_0:
  assumes "rd = word_of_nat r" and "r < 2 ^ 32"
  shows "seg_entry f wr ofs upage r 0 = blank_pge\<lparr>pge_type := VM_BIN, pge_file := f, pge_offset := ofs,
    pge_read_bytes := (if rd < 4096 then rd else 4096), pge_zero_bytes := 4096 - (if rd < 4096 then rd else 4096),
    pge_writable := wr, pge_vaddr := upage\<rparr>"
proof -
  have "rd < 4096 \<longleftrightarrow> r < 4096"
    using assms by (simp add: word_less_nat_alt unat_of_nat)
  then show ?thesis
    using assms(1) by (auto simp: seg_entry_def blank_pge_def min_def of_nat_diff)
qed

lemma seg_entry_Suc:
  "seg_entry f wr (ofs + word_of_nat (min r 4096)) (upage + 4096) (r - min r 4096) j = seg_entry f wr ofs upage r (Suc j)"
proof -
  have a: "min (r - min r 4096) (4096 * j) + min r 4096 = min r (4096 * Suc j)"
    and b: "r - min r 4096 - 4096 * j = r - 4096 * Suc j"
    by auto
  have "word_of_nat (min r 4096) + word_of_nat (min (r - min r 4096) (4096 * j)) = (word_of_nat (min r (4096 * Suc j)) :: u32)"
    unfolding a [symmetric] by simp
  then show ?thesis
    unfolding seg_entry_def b by (simp add: add.assoc)
qed

lemma word_of_nat_pos: "x < 2 ^ 32 \<Longrightarrow> (0 < (word_of_nat x :: u32)) = (0 < x)"
  by (simp add: word_less_nat_alt unat_of_nat)

lemma page_neq:
  fixes upage :: u32
  assumes "unat upage + 4096 * n \<le> 2 ^ 32" and "j < n" and "k < n" and "upage + word_of_nat (4096 * j) = upage + word_of_nat (4096 * k)"
  shows "j = (k :: nat)"
proof -
  have "(word_of_nat (4096 * j) :: u32) = word_of_nat (4096 * k)" "4096 * j < 2 ^ 32" "4096 * k < 2 ^ 32"
    using assms by auto
  then have "unat (word_of_nat (4096 * j) :: u32) = unat (word_of_nat (4096 * k) :: u32)" "4096 * j < 2 ^ 32" "4096 * k < 2 ^ 32"
    by auto
  then show ?thesis
    unfolding unat_of_nat by simp
qed

text \<open>
  The running thread \<open>t\<close> has a well-formed table without an entry for the \<open>n\<close> pages from
  \<open>upage\<close> on, and \<open>new\<close> hands out different unused addresses from its \<open>i\<close>-th on.
\<close>

definition seg_pre :: "(nat \<Rightarrow> u32) \<Rightarrow> tptr \<Rightarrow> nat \<Rightarrow> nat \<Rightarrow> u32 \<Rightarrow> 'w vm \<Rightarrow> 'w thread \<Rightarrow> bool" where
  "seg_pre new t i n upage v th \<longleftrightarrow> thread_current (kern v) = Some t \<and> threads (kern v) t = Some th
     \<and> spt.inv (vm_pges v) (sup_page_tab th) \<and> card (contents (sup_page_tab th)) + n < 2 ^ 32
     \<and> (\<forall>k. i \<le> k \<and> k < i + n \<longrightarrow> new k \<noteq> 0 \<and> new k \<notin> contents (sup_page_tab th)) \<and> inj_on new {i..<i + n}
     \<and> (\<forall>x \<in> contents (sup_page_tab th). \<forall>j < n. pge_vaddr (vm_pges v x) \<noteq> upage + word_of_nat (4096 * j))
     \<and> unat upage + 4096 * n \<le> 2 ^ 32 \<and> pg_ofs upage = 0"

lemma next_page_aligned: "pg_ofs upage = 0 \<Longrightarrow> pg_ofs (upage + 4096) = 0"
  unfolding aligned_iff by (simp add: unat_word_ariths mod_mod_cancel)

lemma seg_step:
  assumes pre: "seg_pre new t i (Suc n) upage v th" and g: "pge_vaddr g = upage"
  shows "\<exists>b w th'. insert_pge (set_pge v (new i) g) t (new i) ok = Some (b, w) \<and> seg_pre new t (i + 1) n (upage + 4096) w th'
    \<and> contents (sup_page_tab th') = insert (new i) (contents (sup_page_tab th)) \<and> vm_pges w = (vm_pges v)(new i := g)"
proof -
  let ?e = "new i" and ?v = "set_pge v (new i) g" and ?c = "contents (sup_page_tab th)"
  have e: "?e \<noteq> 0" "?e \<notin> ?c" and cur: "thread_current (kern ?v) = Some t" "threads (kern ?v) t = Some th"
    and al: "pg_ofs (pge_vaddr (vm_pges ?v ?e)) = 0" "pge_vaddr (vm_pges ?v ?e) = upage"
    and inv0: "spt.inv (vm_pges v) (sup_page_tab th)"
    using pre g by (auto simp: seg_pre_def set_pge_def)
  have inv: "spt.inv (vm_pges ?v) (sup_page_tab th)"
    using e(2) by (intro spt_inv_cong [OF inv0]) (auto simp: set_pge_def)
  have "elem_cnt (sup_page_tab th) + 1 < 2 ^ 32"
    using pre inv_card [OF inv0] by (simp add: seg_pre_def)
  then obtain b h where ins: "insert_pge ?v t ?e ok = Some (b, ?v\<lparr>kern := (kern ?v)\<lparr>threads := (threads (kern ?v))(t \<mapsto> th\<lparr>sup_page_tab := h\<rparr>)\<rparr>\<rparr>)"
      and cur': "thread_current ((kern ?v)\<lparr>threads := (threads (kern ?v))(t \<mapsto> th\<lparr>sup_page_tab := h\<rparr>)\<rparr>) = Some t"
      and inv': "spt.inv (vm_pges ?v) h" and b: "b \<longleftrightarrow> (\<forall>x \<in> ?c. pge_vaddr (vm_pges ?v x) \<noteq> pge_vaddr (vm_pges ?v ?e))"
      and h: "contents h = (if b then insert ?e ?c else ?c)"
    using insert_pge_run [OF cur inv _ e(1) al(1), of ok] by blast
  have free: "pge_vaddr (vm_pges v x) \<noteq> upage + word_of_nat (4096 * j)" if "x \<in> ?c" "j < Suc n" for x j
    using pre that by (auto simp: seg_pre_def)
  have b: b
    unfolding b al(2) using free [of _ 0] e(2) by (auto simp: set_pge_def)
  have fin: "finite ?c"
    by (simp add: contents_def)
  have new: "new k \<noteq> ?e" if "i < k" "k < i + Suc n" for k
    using pre that inj_onD [of new "{i..<i + Suc n}" k i] by (auto simp: seg_pre_def)
  have bound: "unat upage + 4096 * Suc n \<le> 2 ^ 32"
    using pre by (simp add: seg_pre_def)
  have "pge_vaddr (vm_pges ?v x) \<noteq> upage + 4096 + word_of_nat (4096 * j)" if "x \<in> insert ?e ?c" "j < n" for x j
  proof -
    have s: "upage + 4096 + word_of_nat (4096 * j) = upage + word_of_nat (4096 * Suc j)"
      by simp
    show ?thesis
      unfolding s using that free [of x "Suc j"] page_neq [OF bound, of 0 "Suc j"] al(2) by (auto simp: set_pge_def)
  qed
  moreover have "unat (upage + 4096) + 4096 * n \<le> 2 ^ 32"
    using bound unsigned_less [of "upage + 4096"] by (cases n) (simp_all add: unat_word_ariths)
  ultimately have "seg_pre new t (i + 1) n (upage + 4096) (?v\<lparr>kern := (kern ?v)\<lparr>threads := (threads (kern ?v))(t \<mapsto> th\<lparr>sup_page_tab := h\<rparr>)\<rparr>\<rparr>)
      (th\<lparr>sup_page_tab := h\<rparr>)"
    using pre cur' inv' h b e(2) fin new next_page_aligned unfolding seg_pre_def by (auto intro: inj_on_subset)
  then show ?thesis
    using ins h b by (auto simp: set_pge_def)
qed

lemma load_segment_loop_ok:
  assumes "r + z = 4096 * n" and "r < 2 ^ 32" and "z < 2 ^ 32" and "seg_pre new t i n upage v th"
  shows "\<exists>v' th'. load_segment_loop new ok f wr i v ofs upage (word_of_nat r) (word_of_nat z) = Some (True, v')
    \<and> seg_pre new t (i + n) 0 0 v' th' \<and> contents (sup_page_tab th') = contents (sup_page_tab th) \<union> new ` {i..<i + n}
    \<and> (\<forall>j < n. vm_pges v' (new (i + j)) = seg_entry f wr ofs upage r j)
    \<and> (\<forall>e. e \<notin> new ` {i..<i + n} \<longrightarrow> vm_pges v' e = vm_pges v e)"
  using assms
proof (induction n arbitrary: r z upage v th i ofs)
  case 0
  then show ?case
    by (auto simp: load_segment_loop.simps [of _ _ _ _ i] seg_pre_def aligned_iff)
next
  case (Suc n)
  let ?pr = "min r 4096" and ?rd = "word_of_nat r :: u32" and ?zr = "word_of_nat z :: u32"
  let ?g = "seg_entry f wr ofs upage r 0" and ?z = "z - (4096 - min r 4096)"
  have some: "?rd > 0 \<or> ?zr > 0"
    using Suc.prems(1-3) word_of_nat_pos by auto
  have pr: "(if ?rd < 4096 then ?rd else 4096) = word_of_nat ?pr"
    using Suc.prems(2) by (auto simp: word_less_nat_alt unat_of_nat min_def)
  have rest: "?rd - word_of_nat ?pr = word_of_nat (r - ?pr)" "?zr - (4096 - word_of_nat ?pr) = word_of_nat ?z"
    using Suc.prems(1) by (auto simp: of_nat_diff min_def)
  have sum: "r - ?pr + ?z = 4096 * n"
    using Suc.prems(1) by (auto simp: min_def)
  have lt: "r - ?pr < 2 ^ 32" "?z < 2 ^ 32"
    using Suc.prems(2,3) by simp_all
  obtain b w th1 where w: "insert_pge (set_pge v (new i) ?g) t (new i) ok = Some (b, w)"
      "seg_pre new t (i + 1) n (upage + 4096) w th1" "contents (sup_page_tab th1) = insert (new i) (contents (sup_page_tab th))"
      "vm_pges w = (vm_pges v)(new i := ?g)"
    using seg_step [OF Suc.prems(4), of ?g ok] by (auto simp: seg_entry_def)
  obtain v' th' where v': "load_segment_loop new ok f wr (i + 1) w (ofs + word_of_nat ?pr) (upage + 4096) (word_of_nat (r - ?pr))
        (word_of_nat ?z) = Some (True, v')" "seg_pre new t (i + 1 + n) 0 0 v' th'"
      "contents (sup_page_tab th') = contents (sup_page_tab th1) \<union> new ` {i + 1..<i + 1 + n}"
      "\<forall>j < n. vm_pges v' (new (i + 1 + j)) = seg_entry f wr (ofs + word_of_nat ?pr) (upage + 4096) (r - ?pr) j"
      "\<forall>e. e \<notin> new ` {i + 1..<i + 1 + n} \<longrightarrow> vm_pges v' e = vm_pges w e"
    using Suc.IH [OF sum lt w(2), of "ofs + word_of_nat ?pr"] by blast
  have inj: "inj_on new {i..<i + Suc n}" and first: "new i \<noteq> 0" "thread_current (kern v) = Some t"
    using Suc.prems(4) by (auto simp: seg_pre_def)
  have new_i: "new i \<notin> new ` {i + 1..<i + 1 + n}"
    using inj_on_image_mem_iff [OF inj, of i "{i + 1..<i + 1 + n}"] by auto
  note g0 = seg_entry_0 [OF refl Suc.prems(2), of f wr ofs upage, unfolded pr]
  have cur: "thread_current (kern (set_pge v (new i) ?g)) = Some t"
    using first(2) by (simp add: set_pge_def)
  have run: "load_segment_loop new ok f wr i v ofs upage ?rd ?zr = Some (True, v')"
    unfolding load_segment_loop.simps [of _ _ _ _ i] if_P [OF some] Let_def pr g0 [symmetric] if_not_P [OF first(1)] cur rest
      bind.bind_lunit w(1) prod.case v'(1) ..
  have range: "{i..<i + Suc n} = insert i {i + 1..<i + 1 + n}"
    by auto
  have "vm_pges v' (new (i + j)) = seg_entry f wr ofs upage r j" if "j < Suc n" for j
    using that v'(4,5) new_i w(4) seg_entry_Suc [of f wr ofs r upage] by (cases j) auto
  then show ?case
    using run v'(2,3,5) w(3,4) unfolding range by (intro exI [of _ v'] exI [of _ th']) (auto simp: add.assoc)
qed

text \<open>
  C32: loading a segment enters, for each of its pages and for no other page, an entry that says
  where the page comes from: the part of the file that belongs to it, how many bytes to read and
  how many to clear, together one page; no page is read yet.
\<close>

theorem load_segment_correct:
  assumes pre: "seg_pre new t 0 n upage v th" and rz: "unat rd + unat zr = 4096 * n" and ofs: "ofs mod 4096 = 0"
    and fl: "f \<noteq> 0" "files (vm_fs v) f \<noteq> None" "0 \<le> sint ofs" and loc: "loc \<notin> contents (sup_page_tab th) \<union> new ` {0..<n}"
  shows "\<exists>v'. load_segment new ok v f ofs upage rd zr wr = Some (True, v') \<and>
    (\<forall>j < n. get_pge v' loc (upage + word_of_nat (4096 * j)) = Some (new j)
        \<and> vm_pges v' (new j) = seg_entry f wr ofs upage (unat rd) j) \<and>
    (\<forall>va. (\<forall>j < n. pg_round_down va \<noteq> upage + word_of_nat (4096 * j)) \<longrightarrow> get_pge v' loc va = get_pge v loc va)"
proof -
  have "unat (rd + zr) mod 4096 = 0"
    using rz by (simp add: unat_word_ariths mod_mod_cancel)
  then have m: "(rd + zr) mod 4096 = 0"
    by (simp add: unat_mod_page flip: unat_eq_zero)
  obtain fs where fs: "file_seek (vm_fs v) f (sint ofs) = Some fs"
    using fl by (auto simp: file_seek_def upd_file_def)
  have pre': "seg_pre new t 0 n upage (v\<lparr>vm_fs := fs\<rparr>) th"
    using pre by (simp add: seg_pre_def)
  have lt: "unat rd < 2 ^ 32" "unat zr < 2 ^ 32"
    using unsigned_less [of rd] unsigned_less [of zr] by simp_all
  obtain v' th' where run: "load_segment_loop new ok f wr 0 (v\<lparr>vm_fs := fs\<rparr>) ofs upage rd zr = Some (True, v')"
      and post: "seg_pre new t n 0 0 v' th'" and c: "contents (sup_page_tab th') = contents (sup_page_tab th) \<union> new ` {0..<n}"
      and entry: "\<And>j. j < n \<Longrightarrow> vm_pges v' (new j) = seg_entry f wr ofs upage (unat rd) j"
      and old: "\<And>e. e \<notin> new ` {0..<n} \<Longrightarrow> vm_pges v' e = vm_pges v e"
    using load_segment_loop_ok [OF rz lt pre', of ok f wr ofs] by auto
  have load: "load_segment new ok v f ofs upage rd zr wr = Some (True, v')"
    using m ofs fs run pre by (simp add: load_segment_def seg_pre_def)
  have cur: "cur_thread (kern v) = Some th" "cur_thread (kern v') = Some th'"
    and inv: "spt.inv (vm_pges v) (sup_page_tab th)" "spt.inv (vm_pges v') (sup_page_tab th')"
    using pre post by (simp_all add: seg_pre_def cur_thread_def)
  have g: "\<exists>e. get_pge v' loc va = Some e \<and> spt_entry (vm_pges v') (sup_page_tab th') va e" for va
    using loc c by (intro get_pge_entry [OF cur(2) inv(2)]) simp
  have page: "get_pge v' loc (upage + word_of_nat (4096 * j)) = Some (new j)" if j: "j < n" for j
  proof -
    have "pg_ofs (upage + word_of_nat (4096 * j)) = 0"
      using pre unfolding seg_pre_def aligned_iff by (simp add: unat_word_ariths unat_of_nat mod_simps mod_mod_cancel)
    moreover have "new j \<in> contents (sup_page_tab th')" "pge_vaddr (vm_pges v' (new j)) = upage + word_of_nat (4096 * j)"
      using j entry [OF j] by (auto simp: c seg_entry_def)
    ultimately have "spt_entry (vm_pges v') (sup_page_tab th') (upage + word_of_nat (4096 * j)) (new j)"
      unfolding spt_entry_def by (auto simp: round_down_aligned)
    then show ?thesis
      using g [of "upage + word_of_nat (4096 * j)"] spt_entry_unique [OF inv(2)] by blast
  qed
  have other: "get_pge v' loc va = get_pge v loc va" if va: "\<forall>j < n. pg_round_down va \<noteq> upage + word_of_nat (4096 * j)" for va
  proof -
    have "x \<in> contents (sup_page_tab th') \<and> pge_vaddr (vm_pges v' x) = pg_round_down va \<longleftrightarrow>
        x \<in> contents (sup_page_tab th) \<and> pge_vaddr (vm_pges v x) = pg_round_down va" for x
    proof (cases "x \<in> new ` {0..<n}")
      case True
      then obtain j where "j < n" "x = new j"
        by auto
      then have "pge_vaddr (vm_pges v' x) \<noteq> pg_round_down va" "x \<notin> contents (sup_page_tab th)"
        using va entry [of j] pre by (auto simp: seg_entry_def seg_pre_def)
      then show ?thesis
        by blast
    qed (use old c in auto)
    then have "spt_entry (vm_pges v') (sup_page_tab th') va e \<longleftrightarrow> spt_entry (vm_pges v) (sup_page_tab th) va e" for e
      unfolding spt_entry_def by (metis (full_types))
    moreover have "loc \<notin> contents (sup_page_tab th)"
      using loc by simp
    then obtain e where "get_pge v loc va = Some e" "spt_entry (vm_pges v) (sup_page_tab th) va e"
      using get_pge_entry [OF cur(1) inv(1)] by blast
    ultimately show ?thesis
      using g [of va] spt_entry_unique [OF inv(1)] by metis
  qed
  show ?thesis
    using load page entry other by blast
qed

definition sample_load :: "unit vm" where
  "sample_load = sample_spt\<lparr>vm_fs := (vm_fs sample_spt)\<lparr>files := [6 \<mapsto> \<lparr>file_inode = 5, file_pos = 0, file_deny = False\<rparr>]\<rparr>\<rparr>"

lemma two_nats: "{0..<2 :: nat} = {0, 1}" "i < (2 :: nat) \<longleftrightarrow> i = 0 \<or> i = 1"
  "{0..<Suc (Suc 0)} = {0, 1}" "i < Suc (Suc 0) \<longleftrightarrow> i = 0 \<or> i = 1"
  by auto

lemma sample_load_pre: "seg_pre (\<lambda>j. 0xC0500000 + 64 * word_of_nat j) 0xC000E000 0 2 0x8048000 sample_load sample_spt_thread"
proof -
  have "thread_current (kern sample_load) = Some 0xC000E000" "threads (kern sample_load) 0xC000E000 = Some sample_spt_thread"
    by (simp_all add: thread_current_def running_thread_def is_thread_def sample_load_def sample_spt_def sample_spt_thread_def
        sample_vm_def sample_thread_def sample_kernel_def)
  moreover have "sup_page_tab sample_spt_thread = spt_init True"
    by (simp add: sample_spt_thread_def)
  moreover have "inj_on (\<lambda>j. 0xC0500000 + 64 * word_of_nat j :: u32) {0..<2}"
    by (simp add: two_nats)
  ultimately show ?thesis
    by (auto simp: seg_pre_def spt_init_inv two_nats aligned_iff)
qed

theorem load_segment_correct_witness:
  "\<exists>v'. load_segment (\<lambda>j. 0xC0500000 + 64 * word_of_nat j) True sample_load 6 0 0x8048000 0x1074 0xf8c True = Some (True, v') \<and>
    (\<forall>j < 2. get_pge v' 8 (0x8048000 + word_of_nat (4096 * j)) = Some (0xC0500000 + 64 * word_of_nat j)
        \<and> vm_pges v' (0xC0500000 + 64 * word_of_nat j) = seg_entry 6 True 0 0x8048000 (unat (0x1074 :: u32)) j) \<and>
    (\<forall>va. (\<forall>j < 2. pg_round_down va \<noteq> 0x8048000 + word_of_nat (4096 * j)) \<longrightarrow> get_pge v' 8 va = get_pge sample_load 8 va)"
proof (rule load_segment_correct [OF sample_load_pre])
  have "contents (sup_page_tab sample_spt_thread) = {}"
    by (simp add: sample_spt_thread_def spt_init_inv)
  then show "8 \<notin> contents (sup_page_tab sample_spt_thread) \<union> (\<lambda>j. 0xC0500000 + 64 * word_of_nat j) ` {0..<2}"
    by (simp add: two_nats)
qed (simp_all add: sample_load_def)

end
