(* ===== verification/Process_Life.thy ===== *)
theory Process_Life
  imports Process Kernel_Step
begin

text \<open>
  The life of a process, \<open>userprog/process.c\<close>: loading its executable, starting it, waiting
  for it and giving back what it holds.  What is left to do after a call that may block is
  work of the thread.
\<close>

section \<open>Loading an executable\<close>

text \<open>
  The program headers, of which \<open>n\<close> are left; \<open>new n\<close> gives the page entries that \<open>malloc\<close>
  returns for the segment of this header.
\<close>

fun load_phdrs :: "(nat \<Rightarrow> nat \<Rightarrow> u32) \<Rightarrow> bool \<Rightarrow> bool \<Rightarrow> u32 \<Rightarrow> nat \<Rightarrow> u32 \<Rightarrow> 'w vm \<Rightarrow> (bool \<times> 'w vm) option" where
  "load_phdrs new ok mok f 0 ofs v = Some (True, v)"
| "load_phdrs new ok mok f (Suc n) ofs v = do {
     len \<leftarrow> file_length (vm_fs v) f;
     if sint ofs < 0 \<or> sint ofs > len then Some (False, v)
     else do {
       fs \<leftarrow> file_seek (vm_fs v) f (sint ofs);
       (bs, fs) \<leftarrow> file_read fs f mok 32;
       let v = v\<lparr>vm_fs := fs\<rparr>;
       if length bs \<noteq> 32 then Some (False, v)
       else do {
         let phdr = get_phdr bs;
         let ofs = ofs + 32;
         if p_type phdr = PT_DYNAMIC \<or> p_type phdr = PT_INTERP \<or> p_type phdr = PT_SHLIB then Some (False, v)
         else if p_type phdr = PT_LOAD
         then do {
           valid \<leftarrow> validate_segment (vm_fs v) phdr f;
           if \<not> valid then Some (False, v)
           else do {
             let (file_page, mem_page, read_bytes, zero_bytes) = segment_args phdr;
             (loaded, v) \<leftarrow> load_segment (new n) ok v f file_page mem_page read_bytes zero_bytes (p_flags phdr AND PF_W \<noteq> 0);
             if \<not> loaded then Some (False, v) else load_phdrs new ok mok f n ofs v
           }
         }
         else load_phdrs new ok mok f n ofs v
       }
     }
   }"

text \<open>
  The page at the top of user memory, in the frame at \<open>kaddr\<close>, as bytes beside the kernel memory
  \<open>m\<close>, and written back.  The stack of a new process has no other page.
\<close>

definition stack_view :: "'w vm \<Rightarrow> u32 \<Rightarrow> bmem \<Rightarrow> bmem" where
  "stack_view v kaddr m = (let bs = concat (map le32 (frame_at v kaddr)); base = unat (PHYS_BASE - 4096) in
     (\<lambda>a. if base \<le> a \<and> a < base + length bs then Some (bs ! (a - base)) else m a))"

definition stack_back :: "'w vm \<Rightarrow> u32 \<Rightarrow> bmem \<Rightarrow> 'w vm" where
  "stack_back v kaddr m = set_frame v kaddr (words_of (map (\<lambda>i. the (m (unat (PHYS_BASE - 4096) + i))) [0..<4096]))"

text \<open>
  The function \<open>load\<close>.  The kernel memory \<open>m\<close> holds the command line at \<open>file_name\<close>; \<open>s\<close> and \<open>new\<close> are
  the buffers that \<open>parse_filename\<close> allocates, which are freed again at the end.  The outcomes of
  the allocations in the file system and the pointers they return are in \<open>dok\<close>, \<open>mok\<close>, \<open>p\<close>, \<open>q\<close> and \<open>f\<close>;
  \<open>e\<close> and \<open>pg\<close> are for the stack page, and \<open>l\<close> is the file lock.  The copy of the name into the 16
  bytes of the thread overruns them when the name is longer.  The result is the success, the
  entry point and the stack pointer.
\<close>

record load_env =
  le_file_name :: addr
  le_copy :: addr
  le_args :: "nat \<Rightarrow> addr"
  le_delim :: addr
  le_lock :: u32
  le_ok :: "bool \<times> bool \<times> bool"
  le_ptrs :: "u32 \<times> u32 \<times> u32"
  le_pges :: "nat \<Rightarrow> nat \<Rightarrow> u32"
  le_stack :: "u32 \<times> u32"

definition process_load :: "load_env \<Rightarrow> bmem \<Rightarrow> 'w vm \<Rightarrow> (bool \<times> u32 \<times> u32 \<times> 'w vm) option" where
  "process_load le m v = do {
     let (dok, mok, ok) = le_ok le;
     let (p, q, f) = le_ptrs le;
     let (e, pg) = le_stack le;
     t \<leftarrow> thread_current (kern v);
     (pd, s) \<leftarrow> pagedir_create (vmem (kern v));
     k \<leftarrow> upd_thread ((kern v)\<lparr>vmem := s\<rparr>) t (\<lambda>th. th\<lparr>pagedir := pd\<rparr>);
     let v = v\<lparr>kern := k\<rparr>;
     if pd = 0 then Some (False, 0, 0, v)
     else do {
       k \<leftarrow> process_activate (kern v);
       (argu_list, m) \<leftarrow> parse_filename m (le_file_name le) (le_copy le) (le_args le) (le_delim le);
       n \<leftarrow> strlen m (le_file_name le);
       ASSERT (n < 16);
       let nm = map (\<lambda>i. the (m (le_file_name le + i))) [0..<n];
       k \<leftarrow> upd_thread k t (\<lambda>th. th\<lparr>name := nm\<rparr>);
       v \<leftarrow> acquire_free (v\<lparr>kern := k\<rparr>) (le_lock le);
       (f, fs) \<leftarrow> filesys_open (vm_fs v) dok mok p q f nm;
       v \<leftarrow> release_held (v\<lparr>vm_fs := fs\<rparr>) (le_lock le);
       if f = 0 then Some (False, 0, 0, v)
       else do {
         k \<leftarrow> upd_thread (kern v) t (\<lambda>th. th\<lparr>exec_file := f\<rparr>);
         fs \<leftarrow> file_deny_write (vm_fs v) f;
         (bs, fs) \<leftarrow> file_read fs f mok 52;
         let v = v\<lparr>kern := k, vm_fs := fs\<rparr>;
         if length bs \<noteq> 52 \<or> \<not> ehdr_ok (get_ehdr bs) then Some (False, 0, 0, v)
         else do {
           (loaded, v) \<leftarrow> load_phdrs (le_pges le) ok mok f (unat (e_phnum (get_ehdr bs))) (e_phoff (get_ehdr bs)) v;
           if \<not> loaded then Some (False, 0, 0, v)
           else do {
             (success, esp, v) \<leftarrow> setup_stack v 0 e pg ok;
             if \<not> success then Some (False, 0, esp, v)
             else do {
               let kaddr = page_kaddr (vm_pages v pg);
               (esp, m) \<leftarrow> construct_ESP (stack_view v kaddr m) (unat esp) argu_list (length argu_list);
               Some (True, e_entry (get_ehdr bs), word_of_nat esp, stack_back v kaddr m)
             }
           }
         }
       }
     }
   }"

section \<open>Starting, waiting and ending\<close>

datatype proc_work = ExecTail u32 | StartTail u32 bool | WaitTail tptr | ExecCheck | ExecLoaded tptr i32

text \<open>The command line is copied into a page of its own; \<open>entry\<close> is the address of \<open>start_process\<close>.\<close>

definition process_execute :: "proc_work vm \<Rightarrow> u32 \<Rightarrow> u8 list \<Rightarrow> bool \<Rightarrow> proc_work vm option" where
  "process_execute v entry file_name ok = do {
     (fn_copy, m) \<leftarrow> palloc_get_page (mem (vmem (kern v))) 0;
     let v = set_vmem v ((vmem (kern v))\<lparr>mem := m\<rparr>);
     t \<leftarrow> thread_current (kern v);
     if fn_copy = 0 then do { k \<leftarrow> upd_thread (kern v) t (\<lambda>th. th\<lparr>ret := TID_ERROR\<rparr>); Some (v\<lparr>kern := k\<rparr>) }
     else do {
       ws \<leftarrow> put_bytes (frame_at v fn_copy) 0 (take (PGSIZE - 1) file_name @ [0]);
       let v = set_frame v fn_copy ws;
       k \<leftarrow> push [Create file_name (word_of_int PRI_DEFAULT) entry fn_copy ok, Ext (ExecTail fn_copy)] (kern v);
       Some (v\<lparr>kern := k\<rparr>)
     }
   }"

text \<open>What \<open>start_process\<close> does once \<open>load\<close> has returned.\<close>

definition start_process :: "proc_work kernel \<Rightarrow> u32 \<Rightarrow> bool \<Rightarrow> proc_work kernel option" where
  "start_process k file_name success = do {
     t \<leftarrow> thread_current k;
     k \<leftarrow> upd_thread k t (\<lambda>th. th\<lparr>is_loaded := of_bool success\<rparr>);
     push [Up (SemaLoad t), Ext (StartTail file_name success)] k
   }"

definition process_wait :: "proc_work kernel \<Rightarrow> i32 \<Rightarrow> proc_work kernel option" where
  "process_wait k child_tid = do {
     c \<leftarrow> thread_get_child k child_tid;
     t \<leftarrow> thread_current k;
     if c \<noteq> 0 then push [Down (SemaWait c), Ext (WaitTail c)] k
     else upd_thread k t (\<lambda>th. th\<lparr>ret := - 1\<rparr>)
   }"

definition syscall_exec :: "proc_work vm \<Rightarrow> u32 \<Rightarrow> u8 list \<Rightarrow> bool \<Rightarrow> proc_work vm option" where
  "syscall_exec v entry cmd_line ok = do {
     k \<leftarrow> push [Ext ExecCheck] (kern v);
     process_execute (v\<lparr>kern := k\<rparr>) entry cmd_line ok
   }"

text \<open>
  What is left of each of these calls once the thread goes on after a step that may have given up the
  processor; \<open>proc_ext\<close> runs these items of a thread's work.
\<close>

definition exec_tail :: "proc_work kernel \<Rightarrow> u32 \<Rightarrow> proc_work kernel option" where
  "exec_tail k fn_copy = do {
     th \<leftarrow> cur_thread k;
     if ret th = TID_ERROR then do { m \<leftarrow> palloc_free_page (mem (vmem k)) fn_copy; Some (k\<lparr>vmem := (vmem k)\<lparr>mem := m\<rparr>\<rparr>) }
     else Some k
   }"

definition start_tail :: "proc_work kernel \<Rightarrow> u32 \<Rightarrow> bool \<Rightarrow> proc_work kernel option" where
  "start_tail k file_name success = do {
     m \<leftarrow> palloc_free_page (mem (vmem k)) file_name;
     let k = k\<lparr>vmem := (vmem k)\<lparr>mem := m\<rparr>\<rparr>;
     if \<not> success then push [Exit] k else Some k
   }"

definition wait_tail :: "proc_work kernel \<Rightarrow> tptr \<Rightarrow> proc_work kernel option" where
  "wait_tail k c = do {
     t \<leftarrow> thread_current k;
     th \<leftarrow> threads k c;
     k \<leftarrow> upd_thread k t (\<lambda>tc. tc\<lparr>child_tlist := remove1 c (child_tlist tc), ret := exit_status th\<rparr>);
     push [Up (SemaElim c)] k
   }"

definition exec_check :: "proc_work kernel \<Rightarrow> proc_work kernel option" where
  "exec_check k = do {
     th \<leftarrow> cur_thread k;
     if ret th = TID_ERROR then Some k
     else do {
       c \<leftarrow> thread_get_child k (ret th);
       ASSERT (c \<noteq> 0);
       push [Down (SemaLoad c), Ext (ExecLoaded c (ret th))] k
     }
   }"

definition exec_loaded :: "proc_work kernel \<Rightarrow> tptr \<Rightarrow> i32 \<Rightarrow> proc_work kernel option" where
  "exec_loaded k c t = do {
     th \<leftarrow> threads k c;
     upd_thread k (running k) (\<lambda>tc. tc\<lparr>ret := if is_loaded th = 0 then TID_ERROR else t\<rparr>)
   }"

fun proc_ext :: "proc_work \<Rightarrow> proc_work kernel \<Rightarrow> proc_work kernel option" where
  "proc_ext (ExecTail fn_copy) k = exec_tail k fn_copy"
| "proc_ext (StartTail file_name success) k = start_tail k file_name success"
| "proc_ext (WaitTail c) k = wait_tail k c"
| "proc_ext ExecCheck k = exec_check k"
| "proc_ext (ExecLoaded c t) k = exec_loaded k c t"

text \<open>The open files, from the descriptor \<open>n - 1\<close> down to 2.\<close>

fun close_fds :: "bool \<Rightarrow> u32 list \<Rightarrow> nat \<Rightarrow> filesys \<Rightarrow> filesys option" where
  "close_fds mok tab 0 fs = Some fs"
| "close_fds mok tab (Suc n) fs =
     (if n \<ge> 2 then do { ASSERT (n < length tab); fs \<leftarrow> file_close fs mok (tab ! n); close_fds mok tab n fs } else Some fs)"

definition process_exit :: "'w vm \<Rightarrow> bool \<Rightarrow> 'w vm option" where
  "process_exit v mok = do {
     t \<leftarrow> thread_current (kern v);
     cur \<leftarrow> threads (kern v) t;
     fs \<leftarrow> close_fds mok (fd_tab cur) (nat (sint (fd_num cur))) (vm_fs v);
     k \<leftarrow> upd_thread (kern v) t (\<lambda>th. th\<lparr>fd_num := if sint (fd_num th) \<ge> 3 then 1 else fd_num th - 1\<rparr>);
     fs \<leftarrow> file_close fs mok (exec_file cur);
     v \<leftarrow> spt_destroy (v\<lparr>kern := k, vm_fs := fs\<rparr>) t;
     let pd = pagedir cur;
     if pd \<noteq> 0
     then do {
       k \<leftarrow> upd_thread (kern v) t (\<lambda>th. th\<lparr>pagedir := 0\<rparr>);
       s \<leftarrow> pagedir_activate (vmem k) 0;
       s \<leftarrow> pagedir_destroy s pd;
       Some (v\<lparr>kern := k\<lparr>vmem := s\<rparr>\<rparr>)
     }
     else Some v
   }"

section \<open>Waiting\<close>

text \<open>The running thread does the next item of its work.\<close>

definition work_step :: "proc_work work list \<Rightarrow> proc_work kernel \<Rightarrow> proc_work kernel option" where
  "work_step pe k = do {
     th \<leftarrow> threads k (running k);
     (case work th of [] \<Rightarrow> None | w # ws \<Rightarrow> run_work pe proc_ext w (pop k))
   }"

lemma work_step_kstep:
  assumes "work_step pe k = Some k'"
  shows "kstep pe proc_ext k k'"
proof -
  obtain th where th: "threads k (running k) = Some th" "(case work th of [] \<Rightarrow> None | w # ws \<Rightarrow> run_work pe proc_ext w (pop k)) = Some k'"
    using assms by (auto simp: work_step_def Option.bind_eq_Some_conv)
  then obtain w ws where "work th = w # ws" "run_work pe proc_ext w (pop k) = Some k'"
    by (cases "work th") auto
  then show ?thesis
    by (rule kstep.work [OF th(1)])
qed

lemma push_work_fields [simp]:
  "running (push_work ws k) = running k" "semas (push_work ws k) = semas k" "irq (push_work ws k) = irq k"
  "idle_thread (push_work ws k) = idle_thread k" "push_work [] k = k"
  by (simp_all add: push_work_def set_running_def)
    (cases "threads k (running k)", simp_all add: fun_upd_idem)

lemma work_step_push:
  assumes "threads k (running k) \<noteq> None"
  shows "work_step pe (push_work (w # ws) k) = run_work pe proc_ext w (push_work ws k)"
proof -
  obtain th where "threads k (running k) = Some th"
    using assms by blast
  moreover from this have "pop (push_work (w # ws) k) = push_work ws k"
    by (simp add: pop_def push_work_def set_running_def)
  ultimately show ?thesis
    by (simp add: work_step_def) (simp add: push_work_def set_running_def)
qed

lemma find_child_none:
  assumes "\<forall>c \<in> set cs. \<exists>th. threads k c = Some th \<and> tid th \<noteq> n"
  shows "find_child k cs n = Some 0"
  using assms by (induction cs) auto

lemma find_child_unique:
  assumes "\<forall>x \<in> set cs. \<exists>y. threads k x = Some y \<and> (tid y = n \<longleftrightarrow> x = c)" and "c \<in> set cs"
  shows "find_child k cs n = Some c"
  using assms by (induction cs) auto

lemma upped_thread: "\<exists>s'. threads (upped k s) t = map_option (\<lambda>th. th\<lparr>status := s' th\<rparr>) (threads k t)"
proof -
  have "\<exists>s'. threads (woken_first k s) t = map_option (\<lambda>th. th\<lparr>status := s' th\<rparr>) (threads k t)"
  proof (cases "waiters (semas k s)")
    case Nil
    then show ?thesis
      by (intro exI [of _ status]) (simp add: woken_first_def option.map_ident_strong)
  next
    case (Cons u us)
    then show ?thesis
      by (intro exI [of _ "\<lambda>th. if t = u then THREAD_READY else status th"])
        (simp add: woken_first_def unblocked_def option.map_ident_strong)
  qed
  then show ?thesis
    by (simp add: upped_def Let_def)
qed

lemma upped_running:
  assumes "wf_kernel k"
  shows "threads (upped k s) (running k) = threads k (running k)" and "running (upped k s) = running k"
proof -
  have inv: "qinv (st k) (queue k) (running k) (idle_thread k)" and r: "st k (running k) = Some THREAD_RUNNING"
    using assms by (simp_all add: wf_kernel_def wf_queues_def)
  have "running k \<notin> set (queue k (Waiters s))"
    by (rule qinv_running_unqueued [OF inv]) (simp add: r)
  then show "threads (upped k s) (running k) = threads k (running k)" "running (upped k s) = running k"
    by (auto simp: upped_def Let_def woken_first_def unblocked_def split: list.split)
qed

lemma upped_value: "sema_value (semas (upped k s) s') = sema_value (semas k s') + of_bool (s' = s)"
  by (simp add: upped_def Let_def woken_first_def split: list.split)

text \<open>The caller of \<open>process_wait\<close>, with a child that it may wait for.\<close>

definition parent :: "proc_work kernel \<Rightarrow> proc_work thread \<Rightarrow> tptr \<Rightarrow> proc_work thread \<Rightarrow> bool" where
  "parent k tc c th \<longleftrightarrow> wf_kernel k \<and> idle_thread k \<noteq> 0 \<and> running k \<noteq> idle_thread k \<and> \<not> in_external_intr (irq k) \<and> userprog k
     \<and> threads k (running k) = Some tc \<and> threads k c = Some th \<and> c \<in> set (child_tlist tc)
     \<and> distinct (child_tlist tc) \<and> running k \<notin> set (child_tlist tc)
     \<and> (\<forall>x \<in> set (child_tlist tc). \<exists>y. threads k x = Some y \<and> (tid y = tid th \<longleftrightarrow> x = c))"

lemma process_wait_child:
  assumes "parent k tc c th"
  shows "process_wait k (tid th) = Some (push_work [Down (SemaWait c), Ext (WaitTail c)] k)" and "thread_current k = Some (running k)"
proof -
  have wf: "wf_kernel k" "threads k (running k) = Some tc" "threads k c = Some th" "c \<in> set (child_tlist tc)"
      "\<forall>x \<in> set (child_tlist tc). \<exists>y. threads k x = Some y \<and> (tid y = tid th \<longleftrightarrow> x = c)"
    using assms by (simp_all add: parent_def)
  obtain x where x: "threads k (running k) = Some x" "thread_current k = Some (running k)"
    using wf(1) by (rule wf_kernel_current)
  then show "thread_current k = Some (running k)"
    by simp
  have "c \<noteq> 0"
    using wf_threadsD(3) [OF _ wf(3)] wf(1) by (simp add: wf_kernel_def)
  moreover have "thread_get_child k (tid th) = Some c"
    using find_child_unique [OF wf(5,4)] wf(2) x by (simp add: thread_get_child_def cur_thread_def)
  ultimately show "process_wait k (tid th) = Some (push_work [Down (SemaWait c), Ext (WaitTail c)] k)"
    using x wf(2) by (simp add: process_wait_def push_eq)
qed

text \<open>A child that has not ended: the caller is blocked in the queue of its semaphore.\<close>

lemma process_wait_blocks:
  assumes p: "parent k tc c th" and v: "sema_value (semas k (SemaWait c)) = 0"
  shows "\<exists>k1 x l. do { k \<leftarrow> process_wait k (tid th); work_step pe k } = Some k1 \<and> running k1 \<noteq> running k
    \<and> threads k1 (running k) = Some x \<and> status x = THREAD_BLOCKED \<and> running k \<in> set (waiters (semas k1 (SemaWait c)))
    \<and> work x = DownLoop (SemaWait c) l # Ext (WaitTail c) # work tc \<and> child_tlist x = child_tlist tc \<and> ret x = ret tc"
proof -
  have wf: "wf_kernel k" "idle_thread k \<noteq> 0" "running k \<noteq> idle_thread k" "\<not> in_external_intr (irq k)" and tc: "threads k (running k) = Some tc"
    using p by (simp_all add: parent_def)
  let ?k = "push_work [Ext (WaitTail c)] k" and ?s = "SemaWait c"
  obtain k1 v e where d: "sema_down ?k ?s = Some (switched (block_running k1) v e)" "next_thread (block_running k1) \<noteq> running ?k"
      "st (block_running k1) = (st ?k)(running ?k \<mapsto> THREAD_BLOCKED)" "running k1 = running ?k"
      "threads k1 = threads (push_work [DownLoop ?s (intr_get_level (irq ?k))] ?k)"
      "waiters (semas k1 ?s) = seq_insert (cmp_priority_thread ?k) (running ?k) (waiters (semas ?k ?s))"
    by (rule sema_down_waits [OF push_wf [OF wf(1)], of "[Ext (WaitTail c)]" ?s]) (use wf v in auto)
  let ?k1 = "switched (block_running k1) v e"
  let ?x = "tc\<lparr>work := DownLoop ?s (intr_get_level (irq k)) # Ext (WaitTail c) # work tc, status := THREAD_BLOCKED\<rparr>"
  have "threads k1 (running k) = Some (tc\<lparr>work := DownLoop ?s (intr_get_level (irq k)) # Ext (WaitTail c) # work tc\<rparr>)"
    unfolding d(5) using tc by (simp add: push_work_def set_running_def)
  then have "threads (block_running k1) (running k) = Some ?x"
    using d(4) by (simp add: block_running_def set_running_def)
  moreover have "\<not> destroyed (block_running k1) (running k)"
    using d(3) by (simp add: destroyed_def)
  ultimately have "threads ?k1 (running k) = Some ?x" "running ?k1 \<noteq> running k"
    using d(2,4) by (auto simp: switched_def switched_threads_def Let_def block_running_def)
  moreover have "running k \<in> set (waiters (semas ?k1 ?s))"
    using d(6) by (simp add: switched_def block_running_def)
  moreover have "do { k \<leftarrow> process_wait k (tid th); work_step pe k } = Some ?k1"
    using process_wait_child(1) [OF p] d(1) tc by (simp add: work_step_push)
  ultimately show ?thesis
    by (intro exI [of _ ?k1] exI [of _ ?x]) simp
qed

text \<open>A child that has ended.\<close>

lemma process_wait_returns:
  assumes p: "parent k tc c th" and v: "sema_value (semas k (SemaWait c)) \<noteq> 0"
  shows "\<exists>k1 x. do { k \<leftarrow> process_wait k (tid th); k \<leftarrow> work_step pe k; k \<leftarrow> work_step pe k; work_step pe k } = Some k1
    \<and> running k1 = running k \<and> threads k1 (running k) = Some x \<and> ret x = exit_status th \<and> work x = work tc
    \<and> child_tlist x = remove1 c (child_tlist tc)
    \<and> sema_value (semas k1 (SemaWait c)) = sema_value (semas k (SemaWait c)) - 1
    \<and> sema_value (semas k1 (SemaElim c)) = sema_value (semas k (SemaElim c)) + 1
    \<and> process_wait k1 (tid th) = Some (k1\<lparr>threads := (threads k1)(running k \<mapsto> x\<lparr>ret := - 1\<rparr>)\<rparr>)"
proof -
  have wf: "wf_kernel k" "\<not> in_external_intr (irq k)" "userprog k" and tc: "threads k (running k) = Some tc" and th: "threads k c = Some th"
      and ch: "distinct (child_tlist tc)" "running k \<notin> set (child_tlist tc)" "c \<in> set (child_tlist tc)"
      "\<forall>x \<in> set (child_tlist tc). \<exists>y. threads k x = Some y \<and> (tid y = tid th \<longleftrightarrow> x = c)"
    using p by (simp_all add: parent_def)
  let ?s = "SemaWait c" and ?e = "SemaElim c"
  define ka where "ka = set_sema k ?s ((semas k ?s)\<lparr>sema_value := sema_value (semas k ?s) - 1\<rparr>)"
  let ?f = "\<lambda>x. x\<lparr>child_tlist := remove1 c (child_tlist tc), ret := exit_status th\<rparr>"
  define kb where "kb = set_running ?f ka"
  let ?k1 = "upped kb ?e"
  have ka: "wf_kernel ka" "running ka = running k" "threads ka = threads k" "irq ka = irq k" "userprog ka"
    using wf same_schedD(5) [OF same_sched_value, of _ k ?s] by (simp_all add: ka_def)
  have kb: "wf_kernel kb" "running kb = running k" "threads kb = (threads k)(running k \<mapsto> ?f tc)" "semas kb = semas ka" "irq_ok kb" "userprog kb"
    using wf_set_running_work [OF ka(1), of ?f] ka tc wf(2) unfolding kb_def by (simp_all add: set_running_def irq_ok_def)
  have cur: "thread_current ka = Some (running k)"
    using ka(1,2) wf_kernel_current [of ka] by (metis)
  have up: "sema_up kb ?e = Some ?k1" "wf_kernel ?k1" "running ?k1 = running k" "threads ?k1 (running k) = Some (?f tc)"
    using sema_up_ok [OF kb(1,5), of ?e] upped_running [OF kb(1), of ?e] kb by simp_all
  have steps: "work_step pe (push_work [Down ?s, Ext (WaitTail c)] k) = Some (push_work [Ext (WaitTail c)] ka)"
      "work_step pe (push_work [Ext (WaitTail c)] ka) = Some (push_work [Up ?e] kb)" "work_step pe (push_work [Up ?e] kb) = Some ?k1"
  proof -
    have "set_sema (push_work ws k) ?s v = push_work ws (set_sema k ?s v)" for ws v
      by (simp add: push_work_def set_running_def set_sema_def)
    then show "work_step pe (push_work [Down ?s, Ext (WaitTail c)] k) = Some (push_work [Ext (WaitTail c)] ka)"
      using sema_down_taken [of "push_work [Ext (WaitTail c)] k" ?s] wf(2) v tc by (simp add: work_step_push ka_def)
    have "upd_thread ka (running k) (\<lambda>x. x\<lparr>child_tlist := remove1 c (child_tlist x), ret := exit_status th\<rparr>) = Some kb"
      using ka(2,3) tc by (simp add: upd_thread_def kb_def set_running_def)
    then show "work_step pe (push_work [Ext (WaitTail c)] ka) = Some (push_work [Up ?e] kb)"
      using ka tc th cur kb(2,3) by (simp add: work_step_push wait_tail_def push_eq)
    show "work_step pe (push_work [Up ?e] kb) = Some ?k1"
      using up(1) kb(2,3) by (simp add: work_step_push)
  qed
  have "\<exists>y. threads ?k1 x = Some y \<and> tid y \<noteq> tid th" if "x \<in> set (remove1 c (child_tlist tc))" for x
  proof -
    have x: "x \<in> set (child_tlist tc)" "x \<noteq> c" "x \<noteq> running k"
      using that ch by auto
    then obtain y where "threads kb x = Some y" "tid y \<noteq> tid th"
      using ch(4) kb(3) by auto
    then show ?thesis
      using upped_thread [of kb ?e x] by auto
  qed
  then have "find_child ?k1 (remove1 c (child_tlist tc)) (tid th) = Some 0"
    by (intro find_child_none) blast
  moreover have "thread_current ?k1 = Some (running k)"
    using up(2,3) wf_kernel_current [of ?k1] by metis
  ultimately have "process_wait ?k1 (tid th) = Some (?k1\<lparr>threads := (threads ?k1)(running k \<mapsto> (?f tc)\<lparr>ret := - 1\<rparr>)\<rparr>)"
    using up(4) by (simp add: process_wait_def thread_get_child_def cur_thread_def upd_thread_def)
  moreover have "sema_value (semas ?k1 ?s) = sema_value (semas k ?s) - 1" "sema_value (semas ?k1 ?e) = sema_value (semas k ?e) + 1"
    by (simp_all add: upped_value kb(4) ka_def)
  ultimately show ?thesis
    using process_wait_child(1) [OF p] steps up(3,4) by (intro exI [of _ ?k1] exI [of _ "?f tc"]) simp
qed

text \<open>
  C33: \<open>process_wait\<close> for a child.  While the child has not ended, the caller blocks in the queue of the
  child's semaphore, with the rest of the call still to do.  Once the child has ended, the call returns the exit status
  of the child, takes the child out of the list of children and lets it go; a
  second wait for the same process returns -1 at once, without waiting.
\<close>

theorem process_wait_once:
  assumes "parent k tc c th"
  shows "(sema_value (semas k (SemaWait c)) = 0 \<longrightarrow>
      (\<exists>k1 x l. do { k \<leftarrow> process_wait k (tid th); work_step pe k } = Some k1 \<and> running k1 \<noteq> running k
        \<and> threads k1 (running k) = Some x \<and> status x = THREAD_BLOCKED \<and> running k \<in> set (waiters (semas k1 (SemaWait c)))
        \<and> work x = DownLoop (SemaWait c) l # Ext (WaitTail c) # work tc \<and> child_tlist x = child_tlist tc \<and> ret x = ret tc))
    \<and> (sema_value (semas k (SemaWait c)) \<noteq> 0 \<longrightarrow>
      (\<exists>k1 x. do { k \<leftarrow> process_wait k (tid th); k \<leftarrow> work_step pe k; k \<leftarrow> work_step pe k; work_step pe k } = Some k1
        \<and> running k1 = running k \<and> threads k1 (running k) = Some x \<and> ret x = exit_status th \<and> work x = work tc
        \<and> child_tlist x = remove1 c (child_tlist tc)
        \<and> sema_value (semas k1 (SemaWait c)) = sema_value (semas k (SemaWait c)) - 1
        \<and> sema_value (semas k1 (SemaElim c)) = sema_value (semas k (SemaElim c)) + 1
        \<and> process_wait k1 (tid th) = Some (k1\<lparr>threads := (threads k1)(running k \<mapsto> x\<lparr>ret := - 1\<rparr>)\<rparr>)))"
  using process_wait_blocks [OF assms] process_wait_returns [OF assms] by blast

definition sample_family :: "proc_work kernel" where
  "sample_family = \<lparr>userprog = True, idle_fn = 0xc0020000,
     threads = [0xC000E000 \<mapsto> (blank_thread 0xC000E000 [109] 31)\<lparr>status := THREAD_RUNNING, tid := 1, child_tlist := [0xC0101000, 0xC0102000]\<rparr>,
                0xC0101000 \<mapsto> (blank_thread 0xC0101000 [97] 31)\<lparr>tid := 3, exit_status := 7\<rparr>,
                0xC0102000 \<mapsto> (blank_thread 0xC0102000 [98] 31)\<lparr>tid := 4\<rparr>],
     running = 0xC000E000, ready_list = [], sleeping_list = [], all_list = [], idle_thread = 0, initial_thread = 0xC000E000,
     next_tid = 5, idle_ticks = 0, kernel_ticks = 0, user_ticks = 0, thread_ticks = 0, thread_prior_aging = False, aging_ticks = 0,
     load_avg = 0, thread_mlfqs = False, ticks = 6, semas = (\<lambda>_. \<lparr>sema_value = 1, waiters = []\<rparr>), lock_holder = (\<lambda>_. 0),
     cond_waiters = (\<lambda>_. []), irq = sample_irq, vmem = sample_space, tss_esp0 = 0\<rparr>"

text \<open>The same family with an idle thread: the first child has ended and waits to be let go, the second one is ready.\<close>

definition sample_child :: "i32 \<Rightarrow> thread_status \<Rightarrow> i32 \<Rightarrow> tptr list \<Rightarrow> proc_work thread" where
  "sample_child n s e cs = (blank_thread 0 [97] 31)\<lparr>tid := n, status := s, exit_status := e, child_tlist := cs\<rparr>"

definition sample_waiting :: "proc_work kernel" where
  "sample_waiting = sample_family\<lparr>
     threads := [0xC000E000 \<mapsto> sample_child 1 THREAD_RUNNING 0 [0xC0101000, 0xC0102000], 0xC0100000 \<mapsto> sample_child 2 THREAD_BLOCKED 0 [],
                 0xC0101000 \<mapsto> sample_child 3 THREAD_BLOCKED 7 [], 0xC0102000 \<mapsto> sample_child 4 THREAD_READY 0 []],
     ready_list := [0xC0102000], idle_thread := 0xC0100000, vmem := vmem sample_kernel,
     semas := (\<lambda>_. \<lparr>sema_value = 0, waiters = []\<rparr>)(SemaWait 0xC0101000 := \<lparr>sema_value = 1, waiters = []\<rparr>,
       SemaElim 0xC0101000 := \<lparr>sema_value = 0, waiters = [0xC0101000]\<rparr>)\<rparr>"

lemma sample_waiting_wf: "wf_kernel sample_waiting"
proof -
  have v: "vmem sample_waiting = vmem sample_kernel"
    by (simp add: sample_waiting_def)
  have w: "wf_threads sample_kernel"
    using sample_wf_kernel by (simp add: wf_kernel_def)
  have t: "wf_threads sample_waiting"
    using w sample_live unfolding wf_threads_def v
    by (auto simp: sample_waiting_def sample_family_def sample_child_def blank_thread_def sample_kernel_def split: if_splits)
  have q: "queue sample_waiting = (\<lambda>_. [])(Ready := [0xC0102000], Waiters (SemaElim 0xC0101000) := [0xC0101000])"
    by (rule ext) (case_tac x; simp add: sample_waiting_def sample_family_def)
  have "wf_queues sample_waiting"
    unfolding wf_queues_def q
    by (rule qinvI) (auto simp: sample_waiting_def sample_family_def sample_child_def blank_thread_def st_def split: if_splits)
  then show ?thesis
    using t by (simp add: wf_kernel_def) (simp add: sample_waiting_def sample_family_def sample_child_def st_def)
qed

lemma sample_parent:
  "parent sample_waiting (sample_child 1 THREAD_RUNNING 0 [0xC0101000, 0xC0102000]) 0xC0101000 (sample_child 3 THREAD_BLOCKED 7 [])"
  "parent sample_waiting (sample_child 1 THREAD_RUNNING 0 [0xC0101000, 0xC0102000]) 0xC0102000 (sample_child 4 THREAD_READY 0 [])"
  using sample_waiting_wf unfolding parent_def
  by (simp_all add: sample_child_def) (simp_all add: sample_waiting_def sample_family_def sample_irq_def sample_child_def)

theorem process_wait_once_witness:
  "(\<exists>k1 x. do { k \<leftarrow> process_wait sample_waiting 3; k \<leftarrow> work_step [] k; k \<leftarrow> work_step [] k; work_step [] k } = Some k1
      \<and> threads k1 0xC000E000 = Some x \<and> ret x = 7 \<and> child_tlist x = [0xC0102000]
      \<and> process_wait k1 3 = Some (k1\<lparr>threads := (threads k1)(0xC000E000 \<mapsto> x\<lparr>ret := - 1\<rparr>)\<rparr>))
    \<and> (\<exists>k1 x. do { k \<leftarrow> process_wait sample_waiting 4; work_step [] k } = Some k1 \<and> running k1 \<noteq> 0xC000E000
      \<and> threads k1 0xC000E000 = Some x \<and> status x = THREAD_BLOCKED)"
proof -
  have f: "running sample_waiting = 0xC000E000" "sema_value (semas sample_waiting (SemaWait 0xC0101000)) \<noteq> 0"
      "sema_value (semas sample_waiting (SemaWait 0xC0102000)) = 0"
      "tid (sample_child 3 THREAD_BLOCKED 7 []) = 3" "exit_status (sample_child 3 THREAD_BLOCKED 7 []) = 7" "tid (sample_child 4 THREAD_READY 0 []) = 4"
      "remove1 0xC0101000 (child_tlist (sample_child 1 THREAD_RUNNING 0 [0xC0101000, 0xC0102000])) = [0xC0102000]"
    by (simp_all add: sample_waiting_def sample_family_def sample_child_def)
  note w1 = mp [OF conjunct2 [OF process_wait_once [OF sample_parent(1), of "[]"]] f(2), unfolded f(1,4,5,7)]
  note w2 = mp [OF conjunct1 [OF process_wait_once [OF sample_parent(2), of "[]"]] f(3), unfolded f(1,6)]
  show ?thesis
    using w1 w2 by (elim exE conjE) (intro conjI exI; assumption)
qed

end
