(* ===== verification/Syscall.thy ===== *)
theory Syscall
  imports Process_Life
begin

text \<open>
  System calls, \<open>userprog/syscall.c\<close>.  What the handler reads from user memory is given by the
  environment: the words on the user stack, the strings and the buffers that user pointers
  lead to.  A read of a page that is not present faults and is served by \<open>page_fault\<close>.
\<close>

section \<open>The environment of a call\<close>

text \<open>
  The allocations: \<open>env_e i\<close>, \<open>env_p i\<close> and \<open>env_ok i\<close> are for the page that the check of the
  \<open>i\<close>-th word may add to the stack, \<open>env_fs\<close> for the file system.  \<open>env_junk i\<close> is what
  \<open>is_valid_userptr\<close> returns when it runs off its end in the check of the \<open>i\<close>-th word, \<open>env_key\<close> what the keyboard sends, \<open>env_pe\<close> the work of
  \<open>process_exit\<close>.
\<close>

record env =
  env_word :: "nat \<Rightarrow> u32"
  env_string :: "u32 \<Rightarrow> u8 list"
  env_buffer :: "u32 \<Rightarrow> u32 \<Rightarrow> u8 list"
  env_key :: "nat \<Rightarrow> u8"
  env_loc :: u32
  env_e :: "nat \<Rightarrow> u32"
  env_p :: "nat \<Rightarrow> u32"
  env_ok :: "nat \<Rightarrow> bool"
  env_xok :: bool
  env_dok :: bool
  env_cok :: bool
  env_mok :: bool
  env_fs :: "u32 \<times> u32 \<times> u32"
  env_name :: "u8 list"
  env_junk :: "nat \<Rightarrow> bool"
  env_lock :: u32
  env_start :: u32
  env_pe :: "proc_work work list"

text \<open>
  The end of a call: a return with a value for \<open>eax\<close>, if there is one, and the bytes put into
  the user buffer or on the console; the end of the process; or the end of the machine.
\<close>

datatype sysret = Returned "u32 option" "u8 list" "proc_work vm" | Exited "proc_work vm" | PowerOff

definition exit_with :: "env \<Rightarrow> proc_work vm \<Rightarrow> i32 \<Rightarrow> sysret option" where
  "exit_with env v code = do { v \<leftarrow> syscall_exit (env_pe env) v code; Some (Exited v) }"

definition is_valid_userptr :: "env \<Rightarrow> nat \<Rightarrow> proc_work vm \<Rightarrow> u32 \<Rightarrow> u32 \<Rightarrow> (bool \<times> proc_work vm) option" where
  "is_valid_userptr env i v ptr esp =
     (if ptr = 0 then Some (False, v)
      else if \<not> (is_user_vaddr ptr \<and> ptr \<ge> 0x08048000) then Some (False, v)
      else do {
        e \<leftarrow> get_pge v (env_loc env) ptr;
        if e = 0
        then (if \<not> is_valid_stack ptr esp then Some (False, v)
              else do { v \<leftarrow> stack_grow v ptr (env_e env i) (env_p env i) (env_ok env i); Some (True, v) })
        else Some (env_junk env i, v)
      })"

fun valid_words :: "env \<Rightarrow> u32 \<Rightarrow> nat list \<Rightarrow> proc_work vm \<Rightarrow> (bool \<times> proc_work vm) option" where
  "valid_words env esp [] v = Some (True, v)"
| "valid_words env esp (i # is) v = do {
     (valid, v) \<leftarrow> is_valid_userptr env i v (esp + word_of_nat (4 * i)) esp;
     if valid then valid_words env esp is v else Some (False, v)
   }"

section \<open>The calls\<close>

definition get_file :: "proc_work vm \<Rightarrow> i32 \<Rightarrow> u32 option" where
  "get_file v fd = do {
     tc \<leftarrow> cur_thread (kern v);
     if sint fd > 1 \<and> sint fd < sint (fd_num tc)
     then do { ASSERT (unat fd < length (fd_tab tc)); Some (fd_tab tc ! unat fd) }
     else Some 0
   }"

definition syscall_wait :: "proc_work vm \<Rightarrow> i32 \<Rightarrow> proc_work vm option" where
  "syscall_wait v pid = do { k \<leftarrow> process_wait (kern v) pid; Some (v\<lparr>kern := k\<rparr>) }"

definition syscall_read :: "env \<Rightarrow> proc_work vm \<Rightarrow> i32 \<Rightarrow> u32 \<Rightarrow> u32 \<Rightarrow> sysret option" where
  "syscall_read env v fd buffer sz =
     (if buffer > PHYS_BASE then exit_with env v (- 1)
      else do {
        v \<leftarrow> acquire_free v (env_lock env);
        if fd = 0 then do {
          v \<leftarrow> release_held v (env_lock env);
          Some (Returned (Some sz) (map (env_key env) [0..<unat sz]) v)
        }
        else if fd = 1 then do { v \<leftarrow> release_held v (env_lock env); Some (Returned (Some (- 1)) [] v) }
        else do {
          fp \<leftarrow> get_file v fd;
          if fp = 0 then do { v \<leftarrow> release_held v (env_lock env); Some (Returned (Some (- 1)) [] v) }
          else do {
            (bs, fs) \<leftarrow> file_read (vm_fs v) fp (env_mok env) (sint sz);
            v \<leftarrow> release_held (v\<lparr>vm_fs := fs\<rparr>) (env_lock env);
            Some (Returned (Some (word_of_nat (length bs))) bs v)
          }
        }
      })"

definition syscall_write :: "env \<Rightarrow> proc_work vm \<Rightarrow> i32 \<Rightarrow> u32 \<Rightarrow> u32 \<Rightarrow> sysret option" where
  "syscall_write env v fd buffer sz = do {
     v \<leftarrow> acquire_free v (env_lock env);
     if fd = 1 then do {
       v \<leftarrow> release_held v (env_lock env);
       Some (Returned (Some sz) (env_buffer env buffer sz) v)
     }
     else if fd = 0 then do { v \<leftarrow> release_held v (env_lock env); Some (Returned (Some (- 1)) [] v) }
     else do {
       fp \<leftarrow> get_file v fd;
       if fp = 0 then do { v \<leftarrow> release_held v (env_lock env); Some (Returned (Some 0) [] v) }
       else do {
         (n, fs) \<leftarrow> file_write (vm_fs v) fp (env_mok env) (env_buffer env buffer sz) (sint sz);
         v \<leftarrow> release_held (v\<lparr>vm_fs := fs\<rparr>) (env_lock env);
         Some (Returned (Some (word_of_int n)) [] v)
       }
     }
   }"

text \<open>The loop of \<open>syscall_fibonacci\<close>, with \<open>n\<close> rounds left.\<close>

fun fibonacci_loop :: "nat \<Rightarrow> i32 \<Rightarrow> i32 \<Rightarrow> i32 \<Rightarrow> i32" where
  "fibonacci_loop 0 n_0 n_1 n_2 = n_2"
| "fibonacci_loop (Suc n) n_0 n_1 n_2 = (let n_2 = n_1 + n_0 in fibonacci_loop n n_1 n_2 n_2)"

definition syscall_fibonacci :: "i32 \<Rightarrow> i32" where
  "syscall_fibonacci n =
     (if sint n < 0 then - 1 else if n = 0 then 0 else if n = 1 then 1
      else fibonacci_loop (nat (sint n - 1)) 0 1 0)"

definition syscall_sum_of_four_integers :: "i32 \<Rightarrow> i32 \<Rightarrow> i32 \<Rightarrow> i32 \<Rightarrow> i32" where
  "syscall_sum_of_four_integers a b c d = a + b + c + d"

definition syscall_create :: "env \<Rightarrow> proc_work vm \<Rightarrow> u32 \<Rightarrow> u32 \<Rightarrow> sysret option" where
  "syscall_create env v fp init_size =
     (if fp = 0 then exit_with env v (- 1)
      else do {
        let (p, q, f) = env_fs env;
        (ok, fs) \<leftarrow> filesys_create (vm_fs v) (env_dok env) (env_cok env) (env_mok env) p (env_name env) (env_string env fp) (sint init_size);
        Some (Returned (Some (of_bool ok)) [] (v\<lparr>vm_fs := fs\<rparr>))
      })"

definition syscall_remove :: "env \<Rightarrow> proc_work vm \<Rightarrow> u32 \<Rightarrow> sysret option" where
  "syscall_remove env v fp =
     (if fp = 0 then exit_with env v (- 1)
      else do {
        let (p, q, f) = env_fs env;
        (ok, fs) \<leftarrow> filesys_remove (vm_fs v) (env_dok env) (env_mok env) p q (env_string env fp);
        Some (Returned (Some (of_bool ok)) [] (v\<lparr>vm_fs := fs\<rparr>))
      })"

text \<open>The table of descriptors has 128 entries; the code does not check that there is one left.\<close>

definition syscall_open :: "env \<Rightarrow> proc_work vm \<Rightarrow> u32 \<Rightarrow> sysret option" where
  "syscall_open env v fp =
     (if fp = 0 then Some (Returned (Some (- 1)) [] v)
      else do {
        v \<leftarrow> acquire_free v (env_lock env);
        let (p, q, f) = env_fs env;
        (f, fs) \<leftarrow> filesys_open (vm_fs v) (env_dok env) (env_mok env) p q f (env_string env fp);
        v \<leftarrow> release_held (v\<lparr>vm_fs := fs\<rparr>) (env_lock env);
        if f = 0 then Some (Returned (Some (- 1)) [] v)
        else do {
          t \<leftarrow> thread_current (kern v);
          th \<leftarrow> threads (kern v) t;
          let fd = fd_num th;
          ASSERT (unat fd < length (fd_tab th));
          k \<leftarrow> upd_thread (kern v) t (\<lambda>th. th\<lparr>fd_num := fd + 1, fd_tab := (fd_tab th)[unat fd := f]\<rparr>);
          Some (Returned (Some fd) [] (v\<lparr>kern := k\<rparr>))
        }
      })"

definition syscall_filesize :: "proc_work vm \<Rightarrow> i32 \<Rightarrow> sysret option" where
  "syscall_filesize v fd = do {
     fp \<leftarrow> get_file v fd;
     if fp = 0 then Some (Returned (Some (- 1)) [] v)
     else do { n \<leftarrow> file_length (vm_fs v) fp; Some (Returned (Some (word_of_int n)) [] v) }
   }"

definition syscall_seek :: "proc_work vm \<Rightarrow> i32 \<Rightarrow> u32 \<Rightarrow> sysret option" where
  "syscall_seek v fd pos = do {
     fp \<leftarrow> get_file v fd;
     if fp \<noteq> 0 then do { fs \<leftarrow> file_seek (vm_fs v) fp (sint pos); Some (Returned None [] (v\<lparr>vm_fs := fs\<rparr>)) }
     else Some (Returned None [] v)
   }"

definition syscall_tell :: "proc_work vm \<Rightarrow> i32 \<Rightarrow> sysret option" where
  "syscall_tell v fd = do {
     fp \<leftarrow> get_file v fd;
     if fp = 0 then Some (Returned (Some (- 1)) [] v)
     else do { n \<leftarrow> file_tell (vm_fs v) fp; Some (Returned (Some (word_of_int n)) [] v) }
   }"

definition syscall_close :: "env \<Rightarrow> proc_work vm \<Rightarrow> i32 \<Rightarrow> sysret option" where
  "syscall_close env v fd = do {
     t \<leftarrow> thread_current (kern v);
     tc \<leftarrow> threads (kern v) t;
     if sint fd > 1 \<and> sint fd < sint (fd_num tc)
     then do {
       ASSERT (unat fd < length (fd_tab tc));
       fs \<leftarrow> file_close (vm_fs v) (env_mok env) (fd_tab tc ! unat fd);
       k \<leftarrow> upd_thread (kern v) t (\<lambda>th. th\<lparr>fd_tab := (fd_tab th)[unat fd := 0]\<rparr>);
       Some (Returned None [] (v\<lparr>kern := k, vm_fs := fs\<rparr>))
     }
     else Some (Returned None [] v)
   }"

section \<open>The handler\<close>

datatype syscall_nr =
     SYS_HALT | SYS_EXIT | SYS_EXEC | SYS_WAIT | SYS_CREATE | SYS_REMOVE | SYS_OPEN | SYS_FILESIZE |
     SYS_READ | SYS_WRITE | SYS_SEEK | SYS_TELL | SYS_CLOSE | SYS_FIBO | SYS_SUM4 | SYS_MMAP |
     SYS_MUNMAP | SYS_CHDIR | SYS_MKDIR | SYS_READDIR | SYS_ISDIR | SYS_INUMBER

text \<open>The value of a constant of the enumeration is its position.\<close>

definition syscall_nrs :: "syscall_nr list" where
  "syscall_nrs =
    [SYS_HALT, SYS_EXIT, SYS_EXEC, SYS_WAIT, SYS_CREATE, SYS_REMOVE, SYS_OPEN, SYS_FILESIZE, SYS_READ,
     SYS_WRITE, SYS_SEEK, SYS_TELL, SYS_CLOSE, SYS_FIBO, SYS_SUM4, SYS_MMAP, SYS_MUNMAP, SYS_CHDIR,
     SYS_MKDIR, SYS_READDIR, SYS_ISDIR, SYS_INUMBER]"

definition nr_of :: "u32 \<Rightarrow> syscall_nr option" where
  "nr_of n = (if unat n < length syscall_nrs then Some (syscall_nrs ! unat n) else None)"

definition checked :: "env \<Rightarrow> u32 \<Rightarrow> nat list \<Rightarrow> (proc_work vm \<Rightarrow> sysret option) \<Rightarrow> proc_work vm \<Rightarrow> sysret option" where
  "checked env esp is f v = do {
     (valid, v) \<leftarrow> valid_words env esp is v;
     if valid then f v else exit_with env v (- 1)
   }"

definition returning :: "u32 option \<Rightarrow> proc_work vm option \<Rightarrow> sysret option" where
  "returning eax r = do { v \<leftarrow> r; Some (Returned eax [] v) }"

text \<open>
  The value of \<open>exec\<close> and of \<open>wait\<close> is the return value of the thread once the work they
  leave is done.  An unknown number does nothing.
\<close>

definition syscall_handler :: "env \<Rightarrow> proc_work vm \<Rightarrow> u32 \<Rightarrow> sysret option" where
  "syscall_handler env v esp = do {
     (valid, v) \<leftarrow> is_valid_userptr env 0 v esp esp;
     if \<not> valid then exit_with env v (- 1)
     else let argu = env_word env in
       (case nr_of (env_word env 0) of
            Some SYS_HALT \<Rightarrow> Some PowerOff
          | Some SYS_EXIT \<Rightarrow> checked env esp [1] (\<lambda>v. exit_with env v (argu 1)) v
          | Some SYS_EXEC \<Rightarrow> checked env esp [1] (\<lambda>v. returning None (syscall_exec v (env_start env) (env_string env (argu 1)) (env_xok env))) v
          | Some SYS_WAIT \<Rightarrow> checked env esp [1] (\<lambda>v. returning None (syscall_wait v (argu 1))) v
          | Some SYS_READ \<Rightarrow> checked env esp [1, 2, 3] (\<lambda>v. syscall_read env v (argu 1) (argu 2) (argu 3)) v
          | Some SYS_WRITE \<Rightarrow> checked env esp [1, 2, 3] (\<lambda>v. syscall_write env v (argu 1) (argu 2) (argu 3)) v
          | Some SYS_FIBO \<Rightarrow> checked env esp [1] (\<lambda>v. returning (Some (syscall_fibonacci (argu 1))) (Some v)) v
          | Some SYS_SUM4 \<Rightarrow> checked env esp [1, 2, 3, 4] (\<lambda>v. returning (Some (syscall_sum_of_four_integers (argu 1) (argu 2) (argu 3) (argu 4))) (Some v)) v
          | Some SYS_CREATE \<Rightarrow> checked env esp [1, 2] (\<lambda>v. syscall_create env v (argu 1) (argu 2)) v
          | Some SYS_REMOVE \<Rightarrow> checked env esp [1] (\<lambda>v. syscall_remove env v (argu 1)) v
          | Some SYS_OPEN \<Rightarrow> checked env esp [1] (\<lambda>v. syscall_open env v (argu 1)) v
          | Some SYS_CLOSE \<Rightarrow> checked env esp [1] (\<lambda>v. syscall_close env v (argu 1)) v
          | Some SYS_FILESIZE \<Rightarrow> checked env esp [1] (\<lambda>v. syscall_filesize v (argu 1)) v
          | Some SYS_SEEK \<Rightarrow> checked env esp [1, 2] (\<lambda>v. syscall_seek v (argu 1) (argu 2)) v
          | Some SYS_TELL \<Rightarrow> checked env esp [1] (\<lambda>v. syscall_tell v (argu 1)) v
          | _ \<Rightarrow> Some (Returned None [] v))
   }"

section \<open>Bad descriptors\<close>

text \<open>The lock is free: nobody holds it and nobody waits for it.\<close>

definition lock_free :: "proc_work vm \<Rightarrow> u32 \<Rightarrow> bool" where
  "lock_free v l \<longleftrightarrow> semas (kern v) (LockSema l) = \<lparr>sema_value = 1, waiters = []\<rparr> \<and> lock_holder (kern v) l = 0
     \<and> \<not> intr_context (irq (kern v)) \<and> userprog (kern v) \<and> thread_current (kern v) \<noteq> None"

lemma set_level_disabled:
  assumes "\<not> intr_context (irq k)"
  shows "k_set_level (set_sema (k\<lparr>irq := (irq k)\<lparr>if_flag := False\<rparr>\<rparr>) s x) (intr_get_level (irq k)) = Some (set_sema k s x)"
  using assms by (auto simp: k_set_level_def intr_set_level_def intr_get_level_def intr_enable_def intr_disable_def
      intr_context_def set_sema_def ASSERT_def)

lemma sema_try_down_free:
  assumes "\<not> intr_context (irq k)" and "sema_value (semas k s) > 0"
  shows "sema_try_down k s = Some (True, set_sema k s ((semas k s)\<lparr>sema_value := sema_value (semas k s) - 1\<rparr>))"
  using assms by (simp add: sema_try_down_def k_disable_def intr_disable_def set_level_disabled Let_def)

lemma sema_up_free:
  assumes "\<not> intr_context (irq k)" and "waiters (semas k s) = []" and "userprog k"
  shows "sema_up k s = Some (set_sema k s ((semas k s)\<lparr>sema_value := sema_value (semas k s) + 1\<rparr>))"
proof -
  have "userprog (set_sema k s x)" for x
    using assms(3) by (simp add: set_sema_def)
  then show ?thesis
    using assms by (simp add: sema_up_def k_disable_def intr_disable_def set_level_disabled Let_def)
qed

lemma thread_current_sema:
  "thread_current (set_sema k s x\<lparr>lock_holder := h\<rparr>) = thread_current k"
  "thread_current (set_sema k s x) = thread_current k"
  by (simp_all add: thread_current_def running_thread_def is_thread_def set_sema_def)

lemma threads_set_sema: "threads (set_sema k s x) = threads k"
  by (simp add: set_sema_def)

lemma thread_current_not_null: "thread_current k = Some t \<Longrightarrow> t \<noteq> 0"
  by (auto simp: thread_current_def is_thread_def ASSERT_def Let_def bind_eq_Some_conv split: if_splits)

lemma acquire_release:
  assumes "lock_free v l"
  obtains v1 where "acquire_free v l = Some v1" and "release_held v1 l = Some v"
    and "vm_fs v1 = vm_fs v" and "cur_thread (kern v1) = cur_thread (kern v)"
proof -
  obtain t where t: "thread_current (kern v) = Some t"
    using assms by (auto simp: lock_free_def)
  let ?k = "set_sema (kern v) (LockSema l) \<lparr>sema_value = 0, waiters = []\<rparr>\<lparr>lock_holder := (lock_holder (kern v))(l := t)\<rparr>"
  have acq: "acquire_free v l = Some (v\<lparr>kern := ?k\<rparr>)"
    using assms t thread_current_not_null [OF t]
    by (simp add: lock_free_def acquire_free_def lock_try_acquire_def lock_held_by_current_thread_def
        sema_try_down_free lock_set_holder_def thread_current_sema ASSERT_def)
  have "sema_up (?k\<lparr>lock_holder := (lock_holder ?k)(l := 0)\<rparr>) (LockSema l) = Some (kern v)"
    using assms by (simp add: lock_free_def sema_up_free set_sema_def fun_upd_idem)
  then have "release_held (v\<lparr>kern := ?k\<rparr>) l = Some v"
    using t by (simp add: release_held_def lock_held_by_current_thread_def thread_current_sema ASSERT_def)
  with acq show ?thesis
    by (rule that) (simp_all add: cur_thread_def thread_current_sema threads_set_sema)
qed

text \<open>\<open>fd\<close> does not name an open file of the current process.\<close>

definition bad_fd :: "proc_work vm \<Rightarrow> i32 \<Rightarrow> bool" where
  "bad_fd v fd \<longleftrightarrow> fd \<noteq> 0 \<and> fd \<noteq> 1 \<and> (\<exists>tc. cur_thread (kern v) = Some tc
     \<and> (sint fd \<le> 1 \<or> sint fd \<ge> sint (fd_num tc) \<or> unat fd < length (fd_tab tc) \<and> fd_tab tc ! unat fd = 0))"

lemma get_file_bad: "bad_fd v fd \<Longrightarrow> get_file v fd = Some 0"
  by (auto simp: bad_fd_def get_file_def ASSERT_def)

text \<open>
  C34: a descriptor that is not open is an error of the caller only.  Reading from it, asking for
  its size or its position returns -1, writing to it returns 0 and seeking does nothing, and
  in every case the call returns, the lock of the file system is free again and no part of
  the machine has changed.
\<close>

theorem syscall_bad_fd:
  assumes "bad_fd v fd" and "lock_free v (env_lock env)" and "buffer \<le> PHYS_BASE"
  shows "syscall_read env v fd buffer n = Some (Returned (Some (- 1)) [] v)
    \<and> syscall_write env v fd buffer n = Some (Returned (Some 0) [] v)
    \<and> syscall_filesize v fd = Some (Returned (Some (- 1)) [] v)
    \<and> syscall_seek v fd pos = Some (Returned None [] v)
    \<and> syscall_tell v fd = Some (Returned (Some (- 1)) [] v)"
proof -
  obtain v1 where v1: "acquire_free v (env_lock env) = Some v1" "release_held v1 (env_lock env) = Some v"
    "cur_thread (kern v1) = cur_thread (kern v)"
    using assms(2) by (rule acquire_release)
  have "get_file v1 fd = get_file v fd"
    by (simp add: get_file_def v1(3))
  moreover have "fd \<noteq> 0" "fd \<noteq> 1"
    using assms(1) by (auto simp: bad_fd_def)
  moreover have "\<not> buffer > PHYS_BASE"
    using assms(3) by simp
  ultimately show ?thesis
    using get_file_bad [OF assms(1)] v1(1, 2)
    by (simp add: syscall_read_def syscall_write_def syscall_filesize_def syscall_seek_def syscall_tell_def)
qed

definition sample_proc :: "proc_work vm" where
  "sample_proc = \<lparr>kern = sample_family, vm_pages = vm_pages sample_vm, vm_pges = vm_pges sample_vm, list_LRU = [], LRU_clock = ClockNull,
     list_LRU_lock = 7, vm_swap = sample_swap, vm_fs = vm_fs sample_vm\<rparr>"

definition sample_env :: env where
  "sample_env = \<lparr>env_word = (\<lambda>_. 8), env_string = (\<lambda>_. []), env_buffer = (\<lambda>_ _. []), env_key = (\<lambda>_. 0), env_loc = 0,
     env_e = (\<lambda>_. 0), env_p = (\<lambda>_. 0), env_ok = (\<lambda>_. True), env_xok = True, env_dok = True, env_cok = True, env_mok = True,
     env_fs = (0, 0, 0), env_name = [], env_junk = (\<lambda>_. True), env_lock = 9, env_start = 0, env_pe = []\<rparr>"

theorem syscall_bad_fd_witness:
  "syscall_read sample_env sample_proc 77 0x8049000 16 = Some (Returned (Some (- 1)) [] sample_proc)
    \<and> syscall_write sample_env sample_proc 77 0x8049000 16 = Some (Returned (Some 0) [] sample_proc)
    \<and> syscall_filesize sample_proc 77 = Some (Returned (Some (- 1)) [] sample_proc)
    \<and> syscall_seek sample_proc 77 5 = Some (Returned None [] sample_proc)
    \<and> syscall_tell sample_proc 77 = Some (Returned (Some (- 1)) [] sample_proc)"
  by (rule syscall_bad_fd)
    (simp_all add: bad_fd_def lock_free_def sample_env_def sample_proc_def sample_family_def sample_irq_def intr_context_def cur_thread_def thread_current_def
      running_thread_def is_thread_def blank_thread_def THREAD_MAGIC_def PHYS_BASE_def)

section \<open>Fibonacci numbers\<close>

fun fib :: "nat \<Rightarrow> nat" where
  "fib 0 = 0"
| "fib (Suc 0) = 1"
| "fib (Suc (Suc n)) = fib (Suc n) + fib n"

lemma fibonacci_loop_fib:
  "fibonacci_loop n (word_of_nat (fib k)) (word_of_nat (fib (Suc k))) (word_of_nat (fib (Suc k)))
   = word_of_nat (fib (Suc (k + n)))"
proof (induction n arbitrary: k)
  case (Suc n)
  have "word_of_nat (fib (Suc k)) + word_of_nat (fib k) = (word_of_nat (fib (Suc (Suc k))) :: i32)"
    by simp
  then show ?case
    using Suc [of "Suc k"] by (simp only: fibonacci_loop.simps Let_def add_Suc_right add_Suc)
qed simp

lemma unat_of_nonneg:
  assumes "0 \<le> sint (n :: i32)"
  shows "int (unat n) = sint n"
proof -
  have "uint (word_of_int (sint n) :: i32) = sint n mod 2 ^ 32"
    unfolding uint_word_of_int by simp
  also have "\<dots> = sint n"
    using assms sint_range_i32 [of n] by (intro mod_pos_pos_trivial) simp_all
  finally show ?thesis by simp
qed

text \<open>
  C35: \<open>syscall_fibonacci\<close> returns -1 for a negative argument and else the Fibonacci number of its
  argument, wrapped to 32 bits.
\<close>

theorem syscall_fibonacci_correct:
  "syscall_fibonacci n = (if sint n < 0 then - 1 else word_of_nat (fib (unat n)))"
proof (cases "sint n < 0 \<or> n = 0 \<or> n = 1")
  case True
  then show ?thesis by (auto simp: syscall_fibonacci_def)
next
  case False
  then have "0 \<le> sint n" "int (unat n) = sint n" "unat n \<noteq> 0" "unat n \<noteq> 1"
    using unat_of_nonneg [of n] by (auto simp: word_unat_eq_iff [of n])
  then obtain m where m: "nat (sint n - 1) = Suc m" "unat n = Suc (Suc m)"
    by (metis nat_int nat_diff_distrib' One_nat_def diff_Suc_1 nat_1 nat_0_le old.nat.exhaust zero_le_one)
  have "fibonacci_loop (Suc m) 0 1 0 = (word_of_nat (fib (Suc (Suc m))) :: i32)"
    using fibonacci_loop_fib [of m 1] by (simp add: fib.simps(3) [of 0, simplified])
  then show ?thesis
    using False by (simp add: syscall_fibonacci_def m)
qed

end
