(* ===== verification/Exceptions.thy ===== *)
theory Exceptions
  imports Syscall
begin

text \<open>
  The entries of user code into the kernel: the handlers that \<open>userprog/exception.c\<close> and
  \<open>userprog/syscall.c\<close> register, and the privilege of the gates in front of them.
\<close>

section \<open>The registrations\<close>

text \<open>A sequence of calls of \<open>intr_register_int\<close>, each with its vector, privilege, level, handler and name.\<close>

fun register_ints :: "(nat \<Rightarrow> u32) \<Rightarrow> (u8 \<times> nat \<times> intr_level \<times> u32 \<times> string) list \<Rightarrow> intr_state \<Rightarrow> intr_state option" where
  "register_ints intr_stubs [] s = Some s"
| "register_ints intr_stubs ((vec_no, dpl, level, handler, nm) # rs) s = do {
     s \<leftarrow> intr_register_int intr_stubs s vec_no dpl level handler nm;
     register_ints intr_stubs rs s
   }"

definition exception_init :: "(nat \<Rightarrow> u32) \<Rightarrow> u32 \<Rightarrow> u32 \<Rightarrow> intr_state \<Rightarrow> intr_state option" where
  "exception_init intr_stubs kill_fn page_fault_fn = register_ints intr_stubs
     [(3, 3, INTR_ON, kill_fn, ''#BP Breakpoint Exception''),
      (4, 3, INTR_ON, kill_fn, ''#OF Overflow Exception''),
      (5, 3, INTR_ON, kill_fn, ''#BR BOUND Range Exceeded Exception''),
      (0, 0, INTR_ON, kill_fn, ''#DE Divide Error''),
      (1, 0, INTR_ON, kill_fn, ''#DB Debug Exception''),
      (6, 0, INTR_ON, kill_fn, ''#UD Invalid Opcode Exception''),
      (7, 0, INTR_ON, kill_fn, ''#NM Device Not Available Exception''),
      (11, 0, INTR_ON, kill_fn, ''#NP Segment Not Present''),
      (12, 0, INTR_ON, kill_fn, ''#SS Stack Fault Exception''),
      (13, 0, INTR_ON, kill_fn, ''#GP General Protection Exception''),
      (16, 0, INTR_ON, kill_fn, ''#MF x87 FPU Floating-Point Error''),
      (19, 0, INTR_ON, kill_fn, ''#XF SIMD Floating-Point Exception''),
      (14, 0, INTR_OFF, page_fault_fn, ''#PF Page-Fault Exception'')]"

definition syscall_init :: "(nat \<Rightarrow> u32) \<Rightarrow> u32 \<Rightarrow> u32 \<Rightarrow> 'w kernel \<Rightarrow> 'w kernel option" where
  "syscall_init intr_stubs handler_fn lock_for_file k = do {
     s \<leftarrow> intr_register_int intr_stubs (irq k) 0x30 3 INTR_ON handler_fn ''syscall'';
     Some (lock_init (k\<lparr>irq := s\<rparr>) lock_for_file)
   }"

section \<open>The privilege of the gates\<close>

text \<open>
  Every gate is present and leads to its stub in the kernel; \<open>d\<close> gives the privilege level of
  each gate, \<open>l\<close> its type and \<open>h\<close> the registered handlers.
\<close>

definition gates :: "(nat \<Rightarrow> u32) \<Rightarrow> intr_state \<Rightarrow> (nat \<Rightarrow> nat) \<Rightarrow> (nat \<Rightarrow> intr_level) \<Rightarrow> (nat \<Rightarrow> u32) \<Rightarrow> bool" where
  "gates stubs s d l h \<longleftrightarrow> length (idt s) = 256 \<and> length (intr_handlers s) = 256
     \<and> (\<forall>i < 256. gate_present (idt s ! i) \<and> gate_target (idt s ! i) = stubs i \<and> gate_selector (idt s ! i) = SEL_KCSEG
          \<and> gate_dpl (idt s ! i) = d i \<and> gate_type (idt s ! i) = (if l i = INTR_ON then 15 else 14) \<and> intr_handlers s ! i = h i)"

lemma register_gates:
  assumes "gates stubs s d l h" and "stubs (unat vec) \<noteq> 0" and "h (unat vec) = 0" and "dpl \<le> 3" and "vec < 0x20 \<or> 0x2f < vec"
  shows "\<exists>s'. intr_register_int stubs s vec dpl lev f nm = Some s'
    \<and> gates stubs s' (d(unat vec := dpl)) (l(unat vec := lev)) (h(unat vec := f))"
proof -
  obtain g where g: "make_gate (stubs (unat vec)) dpl (if lev = INTR_ON then 15 else 14) = Some g"
    using make_gate_total [OF assms(2, 4), of "if lev = INTR_ON then 15 else 14"] by (cases "lev = INTR_ON") auto
  have v: "unat vec < 256"
    using unsigned_less [of vec] by simp
  let ?s = "s\<lparr>idt := (idt s)[unat vec := g], intr_handlers := (intr_handlers s)[unat vec := f], intr_names := (intr_names s)[unat vec := nm]\<rparr>"
  have "intr_register_int stubs s vec dpl lev f nm = Some ?s"
    using assms g v by (auto simp: intr_register_int_def register_handler_def make_trap_gate_def make_intr_gate_def Let_def gates_def
        split: if_splits)
  moreover have "gates stubs ?s (d(unat vec := dpl)) (l(unat vec := lev)) (h(unat vec := f))"
    using assms(1) make_gate_fields [OF g] by (auto simp: gates_def nth_list_update)
  ultimately show ?thesis by blast
qed

text \<open>The tables after a sequence of registrations.\<close>

fun with_dpls :: "(u8 \<times> nat \<times> intr_level \<times> u32 \<times> string) list \<Rightarrow> (nat \<Rightarrow> nat) \<Rightarrow> nat \<Rightarrow> nat" where
  "with_dpls [] d = d"
| "with_dpls ((vec, dpl, lev, f, nm) # rs) d = with_dpls rs (d(unat vec := dpl))"

fun with_levels :: "(u8 \<times> nat \<times> intr_level \<times> u32 \<times> string) list \<Rightarrow> (nat \<Rightarrow> intr_level) \<Rightarrow> nat \<Rightarrow> intr_level" where
  "with_levels [] l = l"
| "with_levels ((vec, dpl, lev, f, nm) # rs) l = with_levels rs (l(unat vec := lev))"

fun with_handlers :: "(u8 \<times> nat \<times> intr_level \<times> u32 \<times> string) list \<Rightarrow> (nat \<Rightarrow> u32) \<Rightarrow> nat \<Rightarrow> u32" where
  "with_handlers [] h = h"
| "with_handlers ((vec, dpl, lev, f, nm) # rs) h = with_handlers rs (h(unat vec := f))"

fun fresh :: "(u8 \<times> nat \<times> intr_level \<times> u32 \<times> string) list \<Rightarrow> (nat \<Rightarrow> u32) \<Rightarrow> bool" where
  "fresh [] h \<longleftrightarrow> True"
| "fresh ((vec, dpl, lev, f, nm) # rs) h \<longleftrightarrow>
     h (unat vec) = 0 \<and> dpl \<le> 3 \<and> (vec < 0x20 \<or> 0x2f < vec) \<and> fresh rs (h(unat vec := f))"

lemma register_ints_gates:
  assumes "\<forall>i < 256. stubs i \<noteq> 0"
  shows "gates stubs s d l h \<Longrightarrow> fresh rs h \<Longrightarrow>
    \<exists>s'. register_ints stubs rs s = Some s' \<and> gates stubs s' (with_dpls rs d) (with_levels rs l) (with_handlers rs h)"
proof (induction rs arbitrary: s d l h)
  case (Cons r rs)
  obtain vec dpl lev f nm where r: "r = (vec, dpl, lev, f, nm)"
    by (cases r)
  have "unat vec < 256"
    using unsigned_less [of vec] by simp
  then have "stubs (unat vec) \<noteq> 0"
    using assms by blast
  with Cons.prems obtain s1 where "intr_register_int stubs s vec dpl lev f nm = Some s1"
    "gates stubs s1 (d(unat vec := dpl)) (l(unat vec := lev)) (h(unat vec := f))"
    using register_gates [of stubs s d l h vec dpl lev f nm] by (auto simp: r)
  with Cons.IH [of s1 "d(unat vec := dpl)" "l(unat vec := lev)" "h(unat vec := f)"] Cons.prems(2) show ?case
    by (simp add: r fun_upd_def)
qed simp

lemma init_gates_all:
  assumes "\<forall>i < n. stubs i \<noteq> 0"
  shows "\<exists>gs. init_gates stubs n = Some gs \<and> length gs = n \<and> (\<forall>i < n. make_gate (stubs i) 0 14 = Some (gs ! i))"
  using assms
proof (induction n)
  case (Suc n)
  then obtain gs where "init_gates stubs n = Some gs" "length gs = n" "\<forall>i < n. make_gate (stubs i) 0 14 = Some (gs ! i)"
    by auto
  moreover obtain g where "make_gate (stubs n) 0 14 = Some g"
    using make_gate_total [of "stubs n" 0 14] Suc.prems by auto
  ultimately show ?case
    by (auto simp: make_intr_gate_def nth_append less_Suc_eq)
qed simp

lemma intr_init_gates:
  assumes "\<forall>i < 256. stubs i \<noteq> 0" and "intr_handlers s = replicate 256 0"
  shows "\<exists>s'. intr_init stubs base s = Some s' \<and> gates stubs s' (\<lambda>_. 0) (\<lambda>_. INTR_OFF) (\<lambda>_. 0)"
proof -
  obtain gs where gs: "init_gates stubs 256 = Some gs" "length gs = 256" "\<forall>i < 256. make_gate (stubs i) 0 14 = Some (gs ! i)"
    using init_gates_all [OF assms(1)] by auto
  have "intr_handlers (pic_init s) = intr_handlers s"
    by (simp add: pic_init_def pic_outb_def)
  with gs assms(2) show ?thesis
    using make_gate_fields by (auto simp: intr_init_def INTR_CNT_def gates_def Let_def)
qed

lemma exception_init_gates:
  assumes "\<forall>i < 256. stubs i \<noteq> 0" and "gates stubs s (\<lambda>_. 0) (\<lambda>_. INTR_OFF) (\<lambda>_. 0)"
  shows "\<exists>s' l h. exception_init stubs kf pf s = Some s' \<and> gates stubs s' (\<lambda>i. if i \<in> {3, 4, 5} then 3 else 0) l h
    \<and> l 14 = INTR_OFF \<and> h 14 = pf \<and> h 0x30 = 0"
proof -
  let ?rs = "[(3, 3, INTR_ON, kf, ''#BP Breakpoint Exception''), (4, 3, INTR_ON, kf, ''#OF Overflow Exception''),
      (5, 3, INTR_ON, kf, ''#BR BOUND Range Exceeded Exception''), (0, 0, INTR_ON, kf, ''#DE Divide Error''),
      (1, 0, INTR_ON, kf, ''#DB Debug Exception''), (6, 0, INTR_ON, kf, ''#UD Invalid Opcode Exception''),
      (7, 0, INTR_ON, kf, ''#NM Device Not Available Exception''), (11, 0, INTR_ON, kf, ''#NP Segment Not Present''),
      (12, 0, INTR_ON, kf, ''#SS Stack Fault Exception''), (13, 0, INTR_ON, kf, ''#GP General Protection Exception''),
      (16, 0, INTR_ON, kf, ''#MF x87 FPU Floating-Point Error''), (19, 0, INTR_ON, kf, ''#XF SIMD Floating-Point Exception''),
      (14, 0, INTR_OFF, pf, ''#PF Page-Fault Exception'')] :: (u8 \<times> nat \<times> intr_level \<times> u32 \<times> string) list"
  have "fresh ?rs (\<lambda>_. 0)"
    by simp
  then obtain s' where s': "register_ints stubs ?rs s = Some s'"
    "gates stubs s' (with_dpls ?rs (\<lambda>_. 0)) (with_levels ?rs (\<lambda>_. INTR_OFF)) (with_handlers ?rs (\<lambda>_. 0))"
    using register_ints_gates [OF assms] by blast
  have d: "with_dpls ?rs (\<lambda>_. 0) = (\<lambda>i. if i \<in> {3, 4, 5} then 3 else 0)"
    by (auto simp: fun_eq_iff)
  have "with_levels ?rs (\<lambda>_. INTR_OFF) 14 = INTR_OFF" "with_handlers ?rs (\<lambda>_. 0) 14 = pf" "with_handlers ?rs (\<lambda>_. 0) 0x30 = 0"
    by simp_all
  moreover have "exception_init stubs kf pf s = Some s'"
    unfolding exception_init_def by (rule s'(1))
  ultimately show ?thesis
    using s'(2) [unfolded d] by (intro exI conjI)
qed

text \<open>
  C36: once the gates, the exceptions and the system call are set up, every gate is present and
  enters the kernel's code segment at the stub of its vector, and the only vectors that a
  user program can invoke itself are the breakpoint, overflow and bounds exceptions and the
  system call; a page fault arrives with interrupts off, so that the fault address is not lost.
\<close>

theorem user_entry_gates:
  assumes stubs: "\<forall>i < 256. intr_stubs i \<noteq> 0" and none: "intr_handlers s = replicate 256 0"
  shows "\<exists>s1 s2 k'. intr_init intr_stubs base s = Some s1 \<and> exception_init intr_stubs kf pf s1 = Some s2
    \<and> syscall_init intr_stubs hf lock (k\<lparr>irq := s2\<rparr>) = Some k'
    \<and> (\<forall>i < 256. gate_present (idt (irq k') ! i) \<and> gate_selector (idt (irq k') ! i) = SEL_KCSEG
         \<and> gate_target (idt (irq k') ! i) = intr_stubs i \<and> gate_dpl (idt (irq k') ! i) = (if i \<in> {3, 4, 5, 0x30} then 3 else 0))
    \<and> gate_type (idt (irq k') ! 14) = 14 \<and> intr_handlers (irq k') ! 14 = pf \<and> intr_handlers (irq k') ! 0x30 = hf"
proof -
  obtain s1 where s1: "intr_init intr_stubs base s = Some s1" "gates intr_stubs s1 (\<lambda>_. 0) (\<lambda>_. INTR_OFF) (\<lambda>_. 0)"
    using intr_init_gates [OF assms] by blast
  obtain s2 l h where s2: "exception_init intr_stubs kf pf s1 = Some s2" "gates intr_stubs s2 (\<lambda>i. if i \<in> {3, 4, 5} then 3 else 0) l h"
    "l 14 = INTR_OFF" "h 14 = pf" "h 0x30 = 0"
    using exception_init_gates [OF stubs s1(2)] by blast
  obtain s3 where s3: "intr_register_int intr_stubs s2 0x30 3 INTR_ON hf ''syscall'' = Some s3"
    "gates intr_stubs s3 ((\<lambda>i. if i \<in> {3, 4, 5} then 3 else 0)(unat (0x30 :: u8) := 3)) (l(unat (0x30 :: u8) := INTR_ON)) (h(unat (0x30 :: u8) := hf))"
    using register_gates [OF s2(2), of "0x30" 3 INTR_ON hf "''syscall''"] stubs s2(5) by auto
  have "gates intr_stubs s3 (\<lambda>i. if i \<in> {3, 4, 5, 0x30} then 3 else 0) (l(0x30 := INTR_ON)) (h(0x30 := hf))"
    using s3(2) by (auto simp: gates_def)
  moreover have "syscall_init intr_stubs hf lock (k\<lparr>irq := s2\<rparr>) = Some (lock_init (k\<lparr>irq := s3\<rparr>) lock)"
    by (simp add: syscall_init_def s3(1))
  moreover have "irq (lock_init (k\<lparr>irq := s3\<rparr>) lock) = s3"
    by (simp add: lock_init_def sema_init_def set_sema_def)
  ultimately show ?thesis
    using s1(1) s2 by (auto simp: gates_def)
qed

theorem user_entry_gates_witness:
  "\<exists>s1 s2 k'. intr_init (\<lambda>i. word_of_nat (0xc0021000 + i)) 0xc0040000 (sample_irq\<lparr>intr_handlers := replicate 256 0\<rparr>) = Some s1
    \<and> exception_init (\<lambda>i. word_of_nat (0xc0021000 + i)) 0xc0022000 0xc0022100 s1 = Some s2
    \<and> syscall_init (\<lambda>i. word_of_nat (0xc0021000 + i)) 0xc0022200 9 (sample_family\<lparr>irq := s2\<rparr>) = Some k'
    \<and> (\<forall>i < 256. gate_present (idt (irq k') ! i) \<and> gate_selector (idt (irq k') ! i) = SEL_KCSEG
         \<and> gate_target (idt (irq k') ! i) = word_of_nat (0xc0021000 + i) \<and> gate_dpl (idt (irq k') ! i) = (if i \<in> {3, 4, 5, 0x30} then 3 else 0))
    \<and> gate_type (idt (irq k') ! 14) = 14 \<and> intr_handlers (irq k') ! 14 = 0xc0022100 \<and> intr_handlers (irq k') ! 0x30 = 0xc0022200"
proof (rule user_entry_gates)
  show "\<forall>i < 256. word_of_nat (0xc0021000 + i) \<noteq> (0 :: u32)"
    by (auto simp del: of_nat_add simp: word_of_nat_eq_0_iff dest: dvd_imp_le)
qed simp

end
