(* ===== verification/Sleep_Fair.thy ===== *)
theory Sleep_Fair
  imports Kernel_Inv
begin

text \<open>
  Sleeping threads over whole executions: nothing but the timer takes a thread out of the list
  of sleeping threads, the list stays in the order of the waking times, and so every thread is
  made ready by the first tick that reaches its waking time.
\<close>

section \<open>What a step leaves alone\<close>

text \<open>The list of sleeping threads, the clock, the handlers of interrupts and the waking times.\<close>

definition wk :: "'w kernel \<Rightarrow> tptr \<Rightarrow> i64 option" where
  "wk k t = map_option wake_up_tick (threads k t)"

definition sv :: "'w kernel \<Rightarrow> tptr list \<times> i64 \<times> u32 list" where
  "sv k = (sleeping_list k, ticks k, intr_handlers (irq k))"

text \<open>Threads may end, or begin, but a thread that is there before and after keeps its waking time.\<close>

definition calm :: "'w kernel \<Rightarrow> 'w kernel \<Rightarrow> bool" where
  "calm k k' \<longleftrightarrow> sv k' = sv k \<and> wk k' = wk k"

definition ends :: "'w kernel \<Rightarrow> 'w kernel \<Rightarrow> bool" where
  "ends k k' \<longleftrightarrow> sv k' = sv k \<and> (\<forall>t. wk k' t = None \<or> wk k' t = wk k t)"

definition turns :: "'w kernel \<Rightarrow> 'w kernel \<Rightarrow> bool" where
  "turns k k' \<longleftrightarrow> sv k' = sv k \<and> (\<forall>t. wk k t = None \<or> wk k' t = None \<or> wk k' t = wk k t)"

lemma calm_trans: "calm k1 k2 \<Longrightarrow> calm k2 k3 \<Longrightarrow> calm k1 k3"
  by (simp add: calm_def)

lemma ends_calm: "calm k k' \<Longrightarrow> ends k k'"
  by (simp add: calm_def ends_def)

lemma ends_trans: "ends k1 k2 \<Longrightarrow> ends k2 k3 \<Longrightarrow> ends k1 k3"
  by (auto simp: ends_def) metis

lemma turns_ends: "ends k k' \<Longrightarrow> turns k k'"
  by (auto simp: ends_def turns_def)

lemma calm_ends: "calm k1 k2 \<Longrightarrow> ends k2 k3 \<Longrightarrow> ends k1 k3"
  by (simp add: calm_def ends_def)

lemma calm_refl [simp]: "calm k k"
  by (simp add: calm_def)

lemma calm_same:
  assumes "threads k' = threads k" and "sleeping_list k' = sleeping_list k" and "ticks k' = ticks k"
    and "intr_handlers (irq k') = intr_handlers (irq k)"
  shows "calm k k'"
  using assms by (auto simp: calm_def sv_def wk_def)

lemma calm_upd_thread:
  assumes "upd_thread k t f = Some k'" and "\<And>th. wake_up_tick (f th) = wake_up_tick th"
  shows "calm k k'"
  using assms by (auto simp: upd_thread_def calm_def sv_def wk_def fun_eq_iff split: option.splits)

lemma calm_push: "push ws k = Some k' \<Longrightarrow> calm k k'"
  unfolding push_def by (erule calm_upd_thread) simp

lemma calm_level: "k_set_level k l = Some k' \<Longrightarrow> calm k k'"
  by (rule calm_same) (auto simp: k_set_level_def intr_set_level_def intr_enable_def intr_disable_def split: if_splits)

lemma calm_disable: "calm k (k\<lparr>irq := (irq k)\<lparr>if_flag := b\<rparr>\<rparr>)"
  by (rule calm_same) simp_all

lemma calm_unblock:
  assumes "thread_unblock k t = Some k'"
  shows "calm k k'"
proof -
  obtain q k1 where "upd_thread (k\<lparr>irq := (irq k)\<lparr>if_flag := False\<rparr>, ready_list := q\<rparr>) t (\<lambda>th. th\<lparr>status := THREAD_READY\<rparr>) = Some k1"
      "k_set_level k1 (intr_get_level (irq k)) = Some k'"
    using assms by (auto simp: thread_unblock_def k_disable_eq Let_def)
  then have "calm (k\<lparr>irq := (irq k)\<lparr>if_flag := False\<rparr>, ready_list := q\<rparr>) k1" "calm k1 k'"
    by (auto elim: calm_upd_thread calm_level)
  moreover have "calm k (k\<lparr>irq := (irq k)\<lparr>if_flag := False\<rparr>, ready_list := q\<rparr>)"
    by (rule calm_same) simp_all
  ultimately show ?thesis
    using calm_trans by blast
qed

lemma calm_activate: "process_activate k = Some k' \<Longrightarrow> calm k k'"
  by (rule calm_same) (auto simp: process_activate_def tss_update_def Let_def)

lemma ends_destroy: "destroy_thread k t = Some k' \<Longrightarrow> ends k k'"
  by (auto simp: destroy_thread_def ends_def sv_def wk_def)

lemma ends_schedule_tail:
  assumes "thread_schedule_tail k p = Some k'"
  shows "ends k k'"
proof -
  obtain k1 k2 where k1: "upd_thread k (running k) (\<lambda>th. th\<lparr>status := THREAD_RUNNING\<rparr>) = Some k1"
      and k2: "(if userprog k1 then process_activate (k1\<lparr>thread_ticks := 0\<rparr>) else Some (k1\<lparr>thread_ticks := 0\<rparr>)) = Some k2"
      and k': "k' = k2 \<or> destroy_thread k2 p = Some k'"
    using assms by (auto simp: thread_schedule_tail_def running_thread_def Let_def split: if_splits)
  have "calm k k1"
    using k1 by (rule calm_upd_thread) simp
  moreover have "calm k1 (k1\<lparr>thread_ticks := 0\<rparr>)"
    by (rule calm_same) simp_all
  moreover have "calm (k1\<lparr>thread_ticks := 0\<rparr>) k2"
    using k2 calm_activate by (auto split: if_splits)
  moreover have "ends k2 k'"
    using k' ends_destroy ends_calm [OF calm_refl] by blast
  ultimately show ?thesis
    using calm_trans calm_ends by blast
qed

lemma ends_schedule:
  assumes "schedule k = Some k'"
  shows "ends k k'"
proof -
  obtain n k1 where n: "next_thread_to_run k = (n, k1)"
    by (cases "next_thread_to_run k")
  then have "calm k (k1\<lparr>running := n\<rparr>)"
    by (intro calm_same) (auto simp: next_thread_to_run_def split: list.splits)
  moreover obtain p where "thread_schedule_tail (k1\<lparr>running := n\<rparr>) p = Some k'"
    using assms n by (auto simp: schedule_def Let_def split: if_splits)
  ultimately show ?thesis
    using ends_schedule_tail calm_ends by blast
qed

lemma ends_block:
  assumes "thread_block k = Some k'"
  shows "ends k k'"
proof -
  obtain t k1 where "upd_thread k t (\<lambda>th. th\<lparr>status := THREAD_BLOCKED\<rparr>) = Some k1" and k1: "schedule k1 = Some k'"
    using assms by (auto simp: thread_block_def)
  then have "calm k k1"
    by (elim calm_upd_thread) simp
  then show ?thesis
    using ends_schedule [OF k1] calm_ends by blast
qed

lemma ends_yield:
  assumes "thread_yield k = Some k'"
  shows "ends k k'"
proof -
  obtain q t k1 k2 where k1: "upd_thread (k\<lparr>irq := (irq k)\<lparr>if_flag := False\<rparr>, ready_list := q\<rparr>) t (\<lambda>th. th\<lparr>status := THREAD_READY\<rparr>) = Some k1"
      and k2: "push [IntrSet (intr_get_level (irq k))] k1 = Some k2" "schedule k2 = Some k'"
    using assms by (auto simp: thread_yield_def k_disable_eq Let_def)
  have "calm k (k\<lparr>irq := (irq k)\<lparr>if_flag := False\<rparr>, ready_list := q\<rparr>)"
    by (rule calm_same) simp_all
  moreover have "calm (k\<lparr>irq := (irq k)\<lparr>if_flag := False\<rparr>, ready_list := q\<rparr>) k1"
    using k1 by (rule calm_upd_thread) simp
  ultimately show ?thesis
    using calm_push [OF k2(1)] ends_schedule [OF k2(2)] calm_trans calm_ends by blast
qed

section \<open>The items of work\<close>

lemma calm_set_sema: "calm k (set_sema k s x)"
  by (rule calm_same) (simp_all add: set_sema_def)

lemma ends_down_loop:
  assumes "sema_down_loop k s l = Some k'"
  shows "ends k k'"
proof (cases "sema_value (semas k s) = 0")
  case True
  then obtain x k1 where "push [DownLoop s l] (set_sema k s x) = Some k1" "thread_block k1 = Some k'"
    using assms by (auto simp: sema_down_loop_def Let_def)
  then show ?thesis
    using calm_set_sema calm_push ends_block calm_ends by metis
next
  case False
  then have "k_set_level (set_sema k s ((semas k s)\<lparr>sema_value := sema_value (semas k s) - 1\<rparr>)) l = Some k'"
    using assms by (simp add: sema_down_loop_def Let_def)
  from calm_trans [OF calm_set_sema calm_level [OF this]] show ?thesis
    by (rule ends_calm)
qed

lemma ends_down:
  assumes "sema_down k s = Some k'"
  shows "ends k k'"
proof -
  have "sema_down_loop (k\<lparr>irq := (irq k)\<lparr>if_flag := False\<rparr>\<rparr>) s (intr_get_level (irq k)) = Some k'"
    using assms by (auto simp: sema_down_def k_disable_eq Let_def)
  from calm_ends [OF calm_disable ends_down_loop [OF this]] show ?thesis .
qed

lemma ends_up:
  assumes "sema_up k s = Some k'"
  shows "ends k k'"
proof -
  let ?k = "k\<lparr>irq := (irq k)\<lparr>if_flag := False\<rparr>\<rparr>"
  obtain k1 x k2 where k1: "(case waiters (semas ?k s) of [] \<Rightarrow> Some ?k
          | t # ts \<Rightarrow> thread_unblock (set_sema ?k s ((semas ?k s)\<lparr>waiters := ts\<rparr>)) t) = Some k1"
      and k2: "k_set_level (set_sema k1 s x) (intr_get_level (irq k)) = Some k2"
      and k': "k' = k2 \<or> thread_yield k2 = Some k'"
    using assms by (auto simp: sema_up_def k_disable_eq Let_def split: if_splits)
  have "calm ?k k1"
  proof (cases "waiters (semas ?k s)")
    case (Cons t ts)
    then have "thread_unblock (set_sema ?k s ((semas ?k s)\<lparr>waiters := ts\<rparr>)) t = Some k1"
      using k1 by simp
    from calm_trans [OF calm_set_sema calm_unblock [OF this]] show ?thesis .
  qed (use k1 in simp)
  then have "calm k k2"
    using calm_disable [of k False] calm_set_sema [of k1 s x] calm_level [OF k2] calm_trans by metis
  moreover have "ends k2 k'"
    using k' ends_yield ends_calm [OF calm_refl] by blast
  ultimately show ?thesis
    using calm_ends by blast
qed

lemma calm_set_holder: "lock_set_holder k l = Some k' \<Longrightarrow> calm k k'"
  by (rule calm_same) (auto simp: lock_set_holder_def)

lemma calm_push_same:
  assumes "push ws k1 = Some k'" and "threads k1 = threads k" "sleeping_list k1 = sleeping_list k" "ticks k1 = ticks k"
    "intr_handlers (irq k1) = intr_handlers (irq k)"
  shows "ends k k'"
  using calm_same [OF assms(2-5)] calm_push [OF assms(1)] calm_trans ends_calm by blast

lemma ends_locks:
  "lock_acquire k l = Some k' \<Longrightarrow> ends k k'" "lock_release k l = Some k' \<Longrightarrow> ends k k'"
  "cond_wait k c l = Some k' \<Longrightarrow> ends k k'" "cond_signal k c l = Some k' \<Longrightarrow> ends k k'"
  "cond_broadcast k c l = Some k' \<Longrightarrow> ends k k'"
  by (auto simp: lock_acquire_def lock_release_def cond_wait_def cond_signal_def cond_broadcast_def sema_init_def set_sema_def Let_def
      ends_calm [OF calm_refl] elim!: calm_push_same split: if_splits list.splits)

lemma ends_life:
  "kernel_thread k f a = Some k' \<Longrightarrow> ends k k'" "idle k a = Some k' \<Longrightarrow> ends k k'"
  "idle_halt k = Some k' \<Longrightarrow> ends k k'" "thread_exit pe k = Some k' \<Longrightarrow> ends k k'"
  by (auto simp: kernel_thread_def idle_def idle_halt_def thread_exit_def intr_enable_def Let_def elim!: calm_push_same)

lemma ends_idle_loop:
  assumes "idle_loop k = Some k'"
  shows "ends k k'"
proof -
  obtain k1 where "push [IdleHalt] (k\<lparr>irq := (irq k)\<lparr>if_flag := False\<rparr>\<rparr>) = Some k1" "thread_block k1 = Some k'"
    using assms by (auto simp: idle_loop_def k_disable_eq)
  then show ?thesis
    using calm_disable calm_push ends_block calm_ends by metis
qed

lemma ends_exit_children:
  assumes "thread_exit_children k = Some k'"
  shows "ends k k'"
proof (cases "k' = k")
  case False
  then obtain cs k1 ws where "upd_thread k (running k) (\<lambda>th. th\<lparr>child_tlist := cs\<rparr>) = Some k1" "push ws k1 = Some k'"
    using assms by (auto simp: thread_exit_children_def split: list.splits)
  then show ?thesis
    using calm_upd_thread [of k "running k" "\<lambda>th. th\<lparr>child_tlist := cs\<rparr>" k1] calm_push calm_trans ends_calm by fastforce
qed (simp add: ends_calm)

lemma ends_exit_tail:
  assumes "thread_exit_tail k = Some k'"
  shows "ends k k'"
proof -
  let ?k = "\<lambda>t. k\<lparr>irq := (irq k)\<lparr>if_flag := False\<rparr>, all_list := remove1 t (all_list k)\<rparr>"
  obtain t t' k1 where k1: "upd_thread (?k t) t' (\<lambda>th. th\<lparr>status := THREAD_DYING\<rparr>) = Some k1" "schedule k1 = Some k'"
    using assms by (auto simp: thread_exit_tail_def k_disable_eq Let_def)
  have "calm k (?k t)"
    by (rule calm_same) simp_all
  moreover have "calm (?k t) k1"
    using k1(1) by (rule calm_upd_thread) simp
  ultimately show ?thesis
    using ends_schedule [OF k1(2)] calm_ends by blast
qed

lemma ends_set_priority:
  assumes "thread_set_priority k p = Some k'"
  shows "ends k k'"
proof -
  obtain t k1 where k1: "upd_thread k t (\<lambda>th. th\<lparr>priority := p\<rparr>) = Some k1" "thread_yield k1 = Some k'"
    using assms by (auto simp: thread_set_priority_def)
  have "calm k k1"
    using k1(1) by (rule calm_upd_thread) simp
  then show ?thesis
    using ends_yield [OF k1(2)] calm_ends by blast
qed

lemma ends_set_nice:
  assumes "thread_set_nice k n = Some k'"
  shows "ends k k'"
proof -
  obtain t where "upd_thread k t (\<lambda>th. th\<lparr>nice := n\<rparr>) = Some k'"
    using assms by (auto simp: thread_set_nice_def)
  then show ?thesis
    by (intro ends_calm, elim calm_upd_thread) simp
qed

section \<open>A new thread\<close>

lemma calm_frame: "alloc_frame k t n = Some k' \<Longrightarrow> calm k k'"
  by (auto simp: alloc_frame_def elim!: calm_upd_thread)

lemma turns_calm_ends:
  assumes "turns k k1" and "ends k1 k'"
  shows "turns k k'"
proof -
  have "wk k t = None \<or> wk k' t = None \<or> wk k' t = wk k t" for t
    using assms(1) [unfolded turns_def, THEN conjunct2, THEN spec, of t] assms(2) [unfolded ends_def, THEN conjunct2, THEN spec, of t]
    by (elim disjE) simp_all
  then show ?thesis
    using assms by (simp add: turns_def ends_def)
qed

lemma turns_init_thread:
  fixes k :: "'w kernel"
  assumes i: "init_thread (k\<lparr>vmem := (vmem k)\<lparr>mem := m\<rparr>\<rparr>) t nm p = Some k1" and new: "threads k t = None"
  shows "turns k k1"
proof -
  let ?kx = "sema_init (sema_init (sema_init (k\<lparr>vmem := (vmem k)\<lparr>mem := m\<rparr>, threads := (threads k)(t \<mapsto> blank_thread t nm p),
      all_list := all_list k @ [t]\<rparr>) (SemaWait t) 0) (SemaLoad t) 0) (SemaElim t) 0"
  have "turns k ?kx"
    using new by (auto simp: turns_def sv_def wk_def sema_init_def set_sema_def)
  moreover have "k1 = ?kx \<or> (\<exists>c :: 'w thread. upd_thread ?kx t (\<lambda>th. th\<lparr>nice := nice c, recent_cpu := recent_cpu c\<rparr>) = Some k1)"
    using i unfolding init_thread_def Let_def by (auto simp: ASSERT_bind split: if_splits)
  then have "calm ?kx k1"
    using calm_upd_thread [of ?kx t _ k1] by fastforce
  ultimately show ?thesis
    using ends_calm turns_calm_ends by blast
qed

lemma turns_create:
  assumes wf: "wf_kernel k" and c: "thread_create k nm p f a ok = Some k'"
  shows "turns k k'"
proof -
  have wft: "wf_threads k"
    using wf by (simp add: wf_kernel_def)
  then have m: "wf_palloc (mem (vmem k))"
    by (simp add: wf_threads_def)
  have fl: "PAL_ZERO AND PAL_ASSERT = 0"
    by (simp add: PAL_ZERO_def PAL_ASSERT_def)
  from m fl show ?thesis
  proof (cases rule: pages.get_cases)
    case 1
    then have "upd_thread k (running k) (\<lambda>th. th\<lparr>ret := TID_ERROR\<rparr>) = Some k'"
      using c by (auto simp: thread_create_def)
    then show ?thesis
      by (intro turns_ends ends_calm, elim calm_upd_thread) simp
  next
    case (2 t m')
    have new: "threads k t = None"
      using wft 2 by (cases "threads k t") (auto simp: wf_threads_def)
    obtain k1 k2 k4 k5 k6 k7 k8 k9 c k10 k11 ky kz where e:
      "init_thread (k\<lparr>vmem := (vmem k)\<lparr>mem := m'\<rparr>\<rparr>) t nm p = Some k1"
      "upd_thread (k1\<lparr>next_tid := next_tid k1 + 1\<rparr>) t (\<lambda>th. th\<lparr>tid := next_tid k1\<rparr>) = Some k2"
      "alloc_frame (k2\<lparr>irq := (irq k2)\<lparr>if_flag := False\<rparr>\<rparr>) t 12 = Some k4" "alloc_frame k4 t 4 = Some k5" "alloc_frame k5 t 28 = Some k6"
      "upd_thread k6 t (\<lambda>th. th\<lparr>work := [Start f a]\<rparr>) = Some k7" "k_set_level k7 (intr_get_level (irq k2)) = Some k8"
      "upd_thread k8 t (\<lambda>th. th\<lparr>fd_num := 2\<rparr>) = Some k9"
      "upd_thread k9 c (\<lambda>th. th\<lparr>child_tlist := child_tlist th @ [t]\<rparr>) = Some k10"
      "upd_thread k10 t (\<lambda>th. th\<lparr>sup_page_tab := spt_init ok\<rparr>) = Some k11"
      "thread_unblock k11 t = Some ky" "upd_thread ky (running ky) (\<lambda>th. th\<lparr>ret := next_tid k1\<rparr>) = Some kz" "thread_yield kz = Some k'"
      using c 2(1,2) by (auto simp: thread_create_def allocate_tid_def k_disable_eq Let_def)
    have "calm k1 (k1\<lparr>next_tid := next_tid k1 + 1\<rparr>)"
      by (rule calm_same) simp_all
    note calm_trans [OF this calm_upd_thread [OF e(2)], simplified]
    note calm_trans [OF calm_trans [OF this calm_disable] calm_frame [OF e(3)]]
    note calm_trans [OF calm_trans [OF this calm_frame [OF e(4)]] calm_frame [OF e(5)]]
    note calm_trans [OF calm_trans [OF this calm_upd_thread [OF e(6)], simplified] calm_level [OF e(7)]]
    note calm_trans [OF calm_trans [OF this calm_upd_thread [OF e(8)], simplified] calm_upd_thread [OF e(9)], simplified]
    note calm_trans [OF calm_trans [OF this calm_upd_thread [OF e(10)], simplified] calm_unblock [OF e(11)]]
    note calm_trans [OF this calm_upd_thread [OF e(12)], simplified]
    from calm_ends [OF this ends_yield [OF e(13)]] show ?thesis
      using turns_init_thread [OF e(1) new] turns_calm_ends by blast
  qed
qed

section \<open>Sleepers stay asleep\<close>

text \<open>A step after which every sleeper still sleeps, until the same time, and the list is in order.\<close>

definition slept :: "'w kernel \<Rightarrow> 'w kernel \<Rightarrow> bool" where
  "slept k k' \<longleftrightarrow> ticks k' = ticks k \<and> intr_handlers (irq k') = intr_handlers (irq k) \<and> wake_sorted k'
     \<and> (\<forall>t \<in> set (sleeping_list k). t \<in> set (sleeping_list k') \<and> wake k' t = wake k t)"

lemma wf_sleepers: "wf_kernel k \<Longrightarrow> t \<in> set (sleeping_list k) \<Longrightarrow> wk k t \<noteq> None"
  using sleeping_threads_exist [of k t] by (simp add: wf_kernel_def wk_def)

lemma wake_wk: "wk k' t = wk k t \<Longrightarrow> wake k' t = wake k t"
  unfolding wk_def by (rule wake_eq)

lemma slept_turns:
  assumes wf: "wf_kernel k" "wf_kernel k'" and t: "turns k k'" and s: "wake_sorted k"
  shows "slept k k'"
proof -
  have l: "sleeping_list k' = sleeping_list k" and c: "ticks k' = ticks k" "intr_handlers (irq k') = intr_handlers (irq k)"
    using t by (auto simp: turns_def sv_def)
  have w: "wake k' t = wake k t" if "t \<in> set (sleeping_list k)" for t
    using t [unfolded turns_def, THEN conjunct2, THEN spec, of t] wf_sleepers [OF wf(1) that] wf_sleepers [OF wf(2), of t] that l
    by (intro wake_wk) simp
  have "wake_sorted k'"
    unfolding wake_sorted_def l using s [unfolded wake_sorted_def]
    by (rule ordered_cong [THEN iffD1, rotated]) (simp add: w)
  then show ?thesis
    using l c w by (auto simp: slept_def)
qed

lemma thread_sleep_parts:
  assumes "thread_sleep k n = Some k'"
  obtains th k1 where "threads k (running k) = Some th" and "thread_block (k1\<lparr>sleeping_list :=
      seq_insert (cmp_sleeping_thread k1) (running k) (sleeping_list k)\<rparr>) = Some k'"
    and "k1 = k\<lparr>threads := (threads k)(running k \<mapsto> th\<lparr>wake_up_tick := n\<rparr>)\<rparr>"
    and "\<forall>u \<in> set (sleeping_list k). threads k1 u \<noteq> None"
proof -
  obtain tc k1 q where e: "thread_current k = Some tc" "upd_thread k tc (\<lambda>th. th\<lparr>wake_up_tick := n\<rparr>) = Some k1"
      "queue_insert k1 (cmp_sleeping_thread k1) tc (sleeping_list k1) = Some q" "thread_block (k1\<lparr>sleeping_list := q\<rparr>) = Some k'"
    using assms by (auto simp: thread_sleep_def)
  have "tc = running k"
    using e(1) by (auto simp: thread_current_def running_thread_def Let_def)
  moreover obtain th where "threads k tc = Some th" "k1 = k\<lparr>threads := (threads k)(tc \<mapsto> th\<lparr>wake_up_tick := n\<rparr>)\<rparr>"
    using e(2) by (auto simp: upd_thread_def split: option.splits)
  moreover have "q = seq_insert (cmp_sleeping_thread k1) tc (sleeping_list k1)" "\<forall>u \<in> set (sleeping_list k1). threads k1 u \<noteq> None"
    using e(3) by (auto simp: queue_insert_def list_all_iff split: if_splits)
  ultimately show ?thesis
    using that e(4) by auto
qed

lemma slept_sleep:
  assumes wf: "wf_kernel k" "wf_kernel k'" and s: "wake_sorted k" and a: "thread_sleep k n = Some k'"
  shows "slept k k'"
proof -
  obtain th k1 where th: "threads k (running k) = Some th"
      and b: "thread_block (k1\<lparr>sleeping_list := seq_insert (cmp_sleeping_thread k1) (running k) (sleeping_list k)\<rparr>) = Some k'"
      and k1: "k1 = k\<lparr>threads := (threads k)(running k \<mapsto> th\<lparr>wake_up_tick := n\<rparr>)\<rparr>"
      and ex: "\<forall>u \<in> set (sleeping_list k). threads k1 u \<noteq> None"
    by (rule thread_sleep_parts [OF a])
  let ?q = "seq_insert (cmp_sleeping_thread k1) (running k) (sleeping_list k)"
  let ?k2 = "k1\<lparr>sleeping_list := ?q\<rparr>"
  have inv: "qinv (st k) (queue k) (running k) (idle_thread k)" "st k (running k) = Some THREAD_RUNNING"
    using wf(1) by (auto simp: wf_kernel_def wf_queues_def)
  have out: "running k \<notin> set (sleeping_list k)"
    using qinv_status [OF inv(1), of "running k" Sleeping] inv(2) by auto
  have w1: "wake k1 t = wake k t" if "t \<in> set (sleeping_list k)" for t
    using out that by (intro wake_eq) (auto simp: k1)
  have "ordered (\<lambda>a b. wake k1 a < wake k1 b) (sleeping_list k)"
    using s [unfolded wake_sorted_def] by (rule ordered_cong [THEN iffD1, rotated]) (simp add: w1)
  moreover have "?q = seq_insert (\<lambda>a b. wake k1 a < wake k1 b) (running k) (sleeping_list k)"
    by (rule queue_insert_prio(2)) (use ex in \<open>auto simp: k1\<close>)
  ultimately have o: "ordered (\<lambda>a b. wake k1 a < wake k1 b) ?q"
    using ordered_seq_insert [OF weak_order_key, of "wake k1"] by simp
  have e: "ends ?k2 k'"
    by (rule ends_block [OF b])
  then have l: "sleeping_list k' = ?q" "ticks k' = ticks k" "intr_handlers (irq k') = intr_handlers (irq k)"
    by (auto simp: ends_def sv_def k1)
  have w: "wake k' t = wake k1 t" if "t \<in> set ?q" for t
  proof -
    have "wk k' t = wk ?k2 t"
      using wf_sleepers [OF wf(2)] e that unfolding l(1) ends_def by blast
    then show ?thesis
      using wake_wk [of k' t ?k2] by (simp add: wake_def)
  qed
  have "wake_sorted k'"
    unfolding wake_sorted_def l(1) using o by (rule ordered_cong [THEN iffD1, rotated]) (simp add: w)
  moreover have "set ?q = insert (running k) (set (sleeping_list k))"
    by simp
  ultimately show ?thesis
    using l w w1 by (auto simp: slept_def)
qed

lemma wake_sorted_calm:
  assumes "calm k k1" and "wake_sorted k"
  shows "wake_sorted k1"
proof -
  have "wake k1 = wake k"
    using assms(1) by (intro ext wake_wk) (simp add: calm_def)
  then show ?thesis
    using assms by (simp add: wake_sorted_def calm_def sv_def)
qed

lemma calm_slept:
  assumes "calm k k1" and "slept k1 k'"
  shows "slept k k'"
proof -
  have "wake k1 = wake k"
    using assms(1) by (intro ext wake_wk) (simp add: calm_def)
  then show ?thesis
    using assms by (simp add: slept_def calm_def sv_def)
qed

lemma slept_timer_sleep:
  assumes wf: "wf_kernel k" "wf_kernel k'" and x: "\<not> in_external_intr (irq k)" and s: "wake_sorted k" and a: "timer_sleep k n = Some k'"
  shows "slept k k'"
proof -
  let ?k = "k\<lparr>irq := (irq k)\<lparr>if_flag := False\<rparr>\<rparr>"
  obtain th where th: "threads k (running k) = Some th"
    using wf(1) by (rule wf_kernel_current)
  have "irq_ok k"
    using x by (simp add: irq_ok_def)
  then have tt: "timer_ticks k = Some (ticks k, k)"
    by (simp add: timer_ticks_def k_disable_eq k_set_level_restore)
  let ?p = "push_work [IntrSet INTR_ON] ?k"
  have p: "push [IntrSet INTR_ON] ?k = Some ?p" and z: "thread_sleep ?p (ticks k + n) = Some k'"
    using a th by (auto simp: timer_sleep_def tt k_disable_eq push_eq split: if_splits)
  have "wf_kernel ?p"
    using wf(1) same_schedD(5) [of ?k k] by (intro push_wf) simp
  moreover have c: "calm k ?p"
    using calm_trans [OF calm_disable calm_push [OF p]] .
  ultimately show ?thesis
    using slept_sleep [OF _ wf(2) wake_sorted_calm [OF c s] z] calm_slept by blast
qed

lemma run_work_ends:
  assumes "run_work [] no_ext w k = Some k'" and "\<nexists>n. w = Sleep n" and "\<nexists>nm p f a ok. w = Create nm p f a ok"
  shows "ends k k'"
  using assms
  by (cases w) (auto simp: no_ext_def ends_calm [OF calm_refl] ends_calm [OF calm_disable] ends_calm [OF calm_level]
      ends_calm [OF calm_set_holder] ends_yield ends_down ends_down_loop ends_up ends_locks ends_life ends_idle_loop
      ends_exit_children ends_exit_tail ends_set_priority ends_set_nice)

lemma run_work_slept:
  assumes wf: "wf_kernel k" "wf_kernel k'" and x: "\<not> in_external_intr (irq k)" and s: "wake_sorted k"
    and r: "run_work [] no_ext w k = Some k'"
  shows "slept k k'"
proof -
  consider (sleep) n where "w = Sleep n" | (create) nm p f a ok where "w = Create nm p f a ok" | (other) "ends k k'"
    using run_work_ends [OF r] by blast
  then show ?thesis
  proof cases
    case sleep
    then show ?thesis
      using slept_timer_sleep [OF wf x s] r by simp
  next
    case create
    then show ?thesis
      using slept_turns [OF wf turns_create [OF wf(1)] s] r by simp
  next
    case other
    then show ?thesis
      by (rule slept_turns [OF wf turns_ends s])
  qed
qed

section \<open>The tick\<close>

lemma calm_foreach:
  "update_recent_cpus d ts k = Some k' \<Longrightarrow> calm k k'"
  "update_priorities ts k = Some k' \<Longrightarrow> calm k k'"
  "age_threads ts k = Some k' \<Longrightarrow> calm k k'"
proof -
  have c: "upd_thread k t (\<lambda>th. th\<lparr>recent_cpu := r\<rparr>) = Some k1 \<Longrightarrow> calm k k1"
    "upd_thread k t (\<lambda>th. th\<lparr>priority := r\<rparr>) = Some k1 \<Longrightarrow> calm k k1" for k k1 :: "'w kernel" and t r
    by (auto elim: calm_upd_thread)
  show "update_recent_cpus d ts k = Some k' \<Longrightarrow> calm k k'"
    by (induction ts arbitrary: k) (auto dest!: c(1) intro: calm_trans)
  show "update_priorities ts k = Some k' \<Longrightarrow> calm k k'"
    by (induction ts arbitrary: k) (auto dest!: c(2) intro: calm_trans)
  show "age_threads ts k = Some k' \<Longrightarrow> calm k k'"
    by (induction ts arbitrary: k) (auto simp: Let_def dest!: c(2) intro: calm_trans)
qed

lemma calm_mlfqs:
  assumes "mlfqs_tick k t = Some k'"
  shows "calm k k'"
proof -
  let ?k = "k\<lparr>irq := (irq k)\<lparr>if_flag := False\<rparr>\<rparr>"
  obtain k1 k2 k3 where s1: "(if t \<noteq> idle_thread k
           then upd_thread ?k t (\<lambda>th. th\<lparr>recent_cpu := add_FP_to_FP (recent_cpu th) (int_to_FP 1)\<rparr>) else Some ?k) = Some k1"
      and e: "k2 = k1 \<or> (\<exists>avg d. update_recent_cpus d (all_list k1) (k1\<lparr>load_avg := avg\<rparr>) = Some k2)"
        "k3 = k2 \<or> update_priorities (all_list k2) k2 = Some k3"
      and s4: "k_set_level k3 (intr_get_level (irq k)) = Some k'"
    by (rule mlfqs_tick_parts [OF assms])
  have 1: "calm ?k k1"
    using s1 by (auto elim: calm_upd_thread split: if_splits)
  have 2: "calm k1 k2"
  proof (cases "k2 = k1")
    case False
    then obtain avg d where u: "update_recent_cpus d (all_list k1) (k1\<lparr>load_avg := avg\<rparr>) = Some k2"
      using e(1) by blast
    have "calm k1 (k1\<lparr>load_avg := avg\<rparr>)"
      by (rule calm_same) simp_all
    from calm_trans [OF this calm_foreach(1) [OF u]] show ?thesis .
  qed simp
  have 3: "calm k2 k3"
    using e(2) calm_foreach(2) by auto
  from calm_trans [OF calm_trans [OF calm_trans [OF calm_trans [OF calm_disable 1] 2] 3] calm_level [OF s4]] show ?thesis .
qed

lemma calm_aging:
  assumes "thread_aging k = Some k'"
  shows "calm k k'"
proof -
  let ?k = "k\<lparr>aging_ticks := aging_ticks k + 1\<rparr>"
  have n: "calm k ?k"
    by (rule calm_same) simp_all
  show ?thesis
  proof (cases "k' = ?k")
    case False
    then obtain k1 where k1: "age_threads (ready_list k) ?k = Some k1" "k' = k1\<lparr>aging_ticks := 0\<rparr>"
      using assms by (auto simp: thread_aging_def Let_def split: if_splits)
    have "calm k1 k'"
      by (rule calm_same) (simp_all add: k1(2))
    from calm_trans [OF calm_trans [OF n calm_foreach(3) [OF k1(1)]] this] show ?thesis .
  qed (use n in simp)
qed

lemma calm_tick:
  assumes "thread_tick k = Some k'"
  shows "calm k k'"
proof -
  obtain k1 k2 k3 where s: "threads k1 = threads k" "sleeping_list k1 = sleeping_list k" "ticks k1 = ticks k" "irq k1 = irq k"
      and e: "k2 = k1 \<or> mlfqs_tick k1 (running k) = Some k2"
        "k3 = k2\<lparr>thread_ticks := thread_ticks k2 + 1\<rparr> \<or>
         k3 = k2\<lparr>thread_ticks := thread_ticks k2 + 1, irq := (irq k2)\<lparr>yield_on_return := True\<rparr>\<rparr>"
        "k' = k3 \<or> thread_aging k3 = Some k'"
    by (rule thread_tick_parts [OF assms])
  have 1: "calm k k1"
    by (rule calm_same) (simp_all add: s)
  have 2: "calm k1 k2"
    using e(1) calm_mlfqs by auto
  have 3: "calm k2 k3"
    by (rule calm_same) (use e(2) in auto)
  have 4: "calm k3 k'"
    using e(3) calm_aging by auto
  from calm_trans [OF calm_trans [OF calm_trans [OF 1 2] 3] 4] show ?thesis .
qed

text \<open>The thread is ready or runs.\<close>

definition awake :: "'w kernel \<Rightarrow> tptr \<Rightarrow> bool" where
  "awake k t \<longleftrightarrow> st k t = Some THREAD_READY \<or> st k t = Some THREAD_RUNNING"

text \<open>What a tick does to the sleepers.\<close>

definition ticked :: "'w kernel \<Rightarrow> 'w kernel \<Rightarrow> bool" where
  "ticked k k' \<longleftrightarrow> ticks k' = ticks k + 1 \<and> intr_handlers (irq k') = intr_handlers (irq k) \<and> wake_sorted k'
     \<and> (\<forall>t \<in> set (sleeping_list k). if wake k t \<le> sint (ticks k') then awake k' t
          else t \<in> set (sleeping_list k') \<and> wake k' t = wake k t)"

lemma wake_up_sleepers:
  assumes wf: "wf_kernel k" and ok: "\<not> if_flag (irq k)" and s: "wake_sorted k" and a: "thread_wake_up k (ticks k) = Some k'"
  shows "wf_kernel k'" and "ticks k' = ticks k" and "irq k' = irq k" and "wake_sorted k'"
    and "\<forall>t \<in> set (sleeping_list k). if wake k t \<le> sint (ticks k) then awake k' t else t \<in> set (sleeping_list k') \<and> wake k' t = wake k t"
proof -
  let ?s = "sleeping_list k" and ?n = "ticks k"
  have wq: "wf_queues k"
    using wf by (simp add: wf_kernel_def)
  have d: "due k ?n t \<longleftrightarrow> wake k t \<le> sint ?n" if "t \<in> set ?s" for t
    using sleeping_threads_exist [OF wq that] by (rule due_wake)
  have f: "takeWhile (due k ?n) ?s = filter (due k ?n) ?s" "dropWhile (due k ?n) ?s = filter (\<lambda>t. \<not> due k ?n t) ?s"
    using sorted_takeWhile_filter [of "wake k" ?s "due k ?n" "sint ?n"] d s by (simp_all add: wake_sorted_def ordered_def)
  have "irq_ok k"
    using ok by (simp add: irq_ok_def)
  then obtain q where q: "k' = k\<lparr>sleeping_list := filter (\<lambda>t. \<not> due k ?n t) ?s, ready_list := q,
      threads := set_ready (set (filter (due k ?n) ?s)) (threads k)\<rparr>" "wf_kernel k'"
      "mset q = mset (ready_list k) + mset (filter (due k ?n) ?s)"
    using thread_wake_up_loop_ok [OF wf _ order_refl, of ?n] a unfolding thread_wake_up_def f by auto
  have w: "wake k' = wake k"
    by (rule ext) (rule wake_eq, simp add: q(1) set_ready_def option.map_comp o_def)
  show "wf_kernel k'" "ticks k' = ticks k" "irq k' = irq k"
    using q by simp_all
  show "wake_sorted k'"
    using s unfolding wake_sorted_def w by (simp add: q(1) ordered_def sorted_wrt_filter)
  have "awake k' t" if "t \<in> set ?s" "due k ?n t" for t
  proof -
    have "set q = set (ready_list k) \<union> {t \<in> set ?s. due k ?n t}"
      using arg_cong [OF q(3), of set_mset] by simp
    then have "t \<in> set (queue k' Ready)"
      using that by (simp add: q(1))
    then have "st k' t = Some THREAD_READY"
      using qinv_status [of "st k'" "queue k'" "running k'" "idle_thread k'" t Ready] q(2) by (simp add: wf_kernel_def wf_queues_def)
    then show ?thesis
      by (simp add: awake_def)
  qed
  then show "\<forall>t \<in> set ?s. if wake k t \<le> sint ?n then awake k' t else t \<in> set (sleeping_list k') \<and> wake k' t = wake k t"
    using d w by (auto simp: q(1))
qed

lemma yield_awake:
  assumes wf: "wf_kernel k" and y: "thread_yield k = Some k'" and a: "awake k t"
  shows "awake k' t"
proof -
  have "\<not> in_external_intr (irq k)"
    using y by (auto simp: thread_yield_def intr_context_def)
  then obtain v e where k': "k' = switched (yielded k) v e"
    using thread_yield_ok [OF wf] y by auto
  obtain th where th: "threads k (running k) = Some th"
    using wf by (rule wf_kernel_current)
  have "\<not> destroyed (yielded k) (running (yielded k))"
    using th by (simp add: destroyed_def yielded_def set_running_def st_def)
  then show ?thesis
    using a th unfolding k' by (auto simp: awake_def st_def switched_def switched_threads_def yielded_def set_running_def Let_def)
qed

lemma timer_interrupt_ticked:
  assumes wf: "wf_kernel k" and s: "wake_sorted k" and a: "timer_interrupt k = Some k'"
  shows "ticked k k'" and "wf_kernel k'"
proof -
  let ?k = "k\<lparr>ticks := ticks k + 1\<rparr>"
  obtain k1 k2 where e: "thread_tick ?k = Some k1" "thread_wake_up (k1\<lparr>irq := (irq k1)\<lparr>if_flag := False\<rparr>\<rparr>) (ticks k1) = Some k2"
      "k_set_level k2 (intr_get_level (irq k1)) = Some k'"
    using a by (auto simp: timer_interrupt_def k_disable_eq Let_def)
  let ?k1 = "k1\<lparr>irq := (irq k1)\<lparr>if_flag := False\<rparr>\<rparr>"
  have c: "calm ?k ?k1"
    using calm_trans [OF calm_tick [OF e(1)] calm_disable] .
  have wf0: "wf_kernel ?k"
    using wf same_schedD(5) [of ?k k] by (simp add: same_sched_def)
  have wf1: "wf_kernel ?k1"
    using neutral_wf [OF neutral_thread_tick [OF wf0 e(1)]] same_schedD(5) [of ?k1 k1] by simp
  have "wake_sorted ?k"
    using s by (simp add: wake_sorted_def wake_def)
  then have s1: "wake_sorted ?k1"
    by (rule wake_sorted_calm [OF c])
  have t1: "thread_wake_up ?k1 (ticks ?k1) = Some k2"
    using e(2) by simp
  note u = wake_up_sleepers [OF wf1 _ s1 t1]
  have n: "threads k' = threads k2" "sleeping_list k' = sleeping_list k2" "ticks k' = ticks k2" "intr_handlers (irq k') = intr_handlers (irq k2)"
      "same_sched k' k2"
    using k_set_level_Some [OF e(3)] by (auto simp: same_sched_def)
  show "wf_kernel k'"
    using u(1) same_schedD(5) [OF n(5)] by simp
  have w: "wake k' = wake k2" "awake k' = awake k2"
    by (simp_all add: fun_eq_iff wake_def awake_def st_def n(1))
  have "wake ?k1 = wake ?k"
    using c by (intro ext wake_wk) (simp add: calm_def)
  then have c': "sleeping_list ?k1 = sleeping_list k" "ticks ?k1 = ticks k + 1" "intr_handlers (irq ?k1) = intr_handlers (irq k)"
      "wake ?k1 = wake k"
    using c by (simp_all add: calm_def sv_def wake_def fun_eq_iff)
  have "intr_handlers (irq k1) = intr_handlers (irq k)"
    using c'(3) by simp
  then show "ticked k k'"
    using u(2-5) unfolding ticked_def wake_sorted_def n w c' by simp
qed

lemma ticked_yield:
  assumes t: "ticked k k1" and wf: "wf_kernel k1" "wf_kernel k'" and y: "thread_yield k1 = Some k'"
  shows "ticked k k'"
proof -
  have "wake_sorted k1"
    using t by (simp add: ticked_def)
  then have "slept k1 k'"
    by (rule slept_turns [OF wf turns_ends [OF ends_yield [OF y]]])
  then show ?thesis
    using t yield_awake [OF wf(1) y] unfolding ticked_def slept_def by auto
qed

lemma tick_ticked:
  assumes wf: "wf_kernel k" "wf_kernel k'" and x: "\<not> in_external_intr (irq k)" and s: "wake_sorted k"
    and h: "intr_handlers (irq k) ! 0x20 \<noteq> 0" and a: "external_interrupt timer_handler k 0x20 = Some k'"
  shows "ticked k k'"
proof -
  let ?k = "k\<lparr>irq := (irq k)\<lparr>if_flag := False\<rparr>\<rparr>"
  obtain k0 where p: "push [Iret] ?k = Some k0" and i: "intr_handler timer_handler k0 0x20 = Some k'"
    using a by (auto simp: external_interrupt_def)
  have c0: "calm k k0"
    using calm_trans [OF calm_disable calm_push [OF p]] .
  let ?ki = "k0\<lparr>irq := (irq k0)\<lparr>in_external_intr := True, yield_on_return := False\<rparr>\<rparr>"
  have c1: "calm k0 ?ki"
    by (rule calm_same) simp_all
  have c: "calm k ?ki"
    using calm_trans [OF c0 c1] .
  then have h0: "intr_handlers (irq ?ki) ! 0x20 \<noteq> 0"
    using h by (simp add: calm_def sv_def)
  then obtain k1 s1 where e: "timer_interrupt ?ki = Some k1" "pic_end_of_interrupt ((irq k1)\<lparr>in_external_intr := False\<rparr>) 0x20 = Some s1"
      "k' = k1\<lparr>irq := s1\<rparr> \<or> thread_yield (k1\<lparr>irq := s1\<rparr>) = Some k'"
    using i by (auto simp: intr_handler_def timer_handler_def Let_def split: if_splits)
  have "wf_kernel ?k"
    using wf(1) same_schedD(5) [of ?k k] by simp
  moreover have "threads ?k (running ?k) \<noteq> None"
    using wf(1) by (auto elim: wf_kernel_current)
  ultimately have "wf_kernel k0"
    using push_wf [of ?k "[Iret]"] p push_eq [of ?k "[Iret]"] by simp
  then have wf0: "wf_kernel ?ki"
    using same_schedD(5) [of ?ki k0] by simp
  note t = timer_interrupt_ticked [OF wf0 wake_sorted_calm [OF c s] e(1)]
  let ?k1 = "k1\<lparr>irq := s1\<rparr>"
  have s1: "intr_handlers s1 = intr_handlers (irq k1)"
    using e(2) by (auto simp: pic_end_of_interrupt_def pic_outb_def Let_def)
  have k1: "wake ?k1 = wake k1" "awake ?k1 = awake k1" "wf_kernel ?k1"
    using t(2) same_schedD(5) [of ?k1 k1] by (simp_all add: fun_eq_iff wake_def awake_def st_def)
  have "wake ?ki = wake k"
    using c by (intro ext wake_wk) (simp add: calm_def)
  then have "ticked k ?k1"
    using t(1) c s1 k1(1,2) unfolding ticked_def wake_sorted_def by (simp add: calm_def sv_def)
  then show ?thesis
    using e(3) ticked_yield [OF _ k1(3) wf(2)] by blast
qed

section \<open>Every sleeper is woken\<close>

lemma kstep_sleepers:
  assumes inv: "kinv k" "wake_sorted k" "intr_handlers (irq k) ! 0x20 \<noteq> 0" and step: "tstep k k'"
  shows "slept k k' \<or> ticked k k'"
proof -
  have wf: "wf_kernel k" "wf_kernel k'" and x: "\<not> in_external_intr (irq k)"
    using inv(1) tk.kstep_kinv [OF step inv(1)] by (simp_all add: kinv_def)
  from step show ?thesis
  proof cases
    case (work th w ws)
    have p: "calm k (pop k)" "wf_kernel (pop k)" "\<not> in_external_intr (irq (pop k))"
      using pop_facts [OF wf(1) work(1)] x work(1) by (auto simp: calm_def sv_def wk_def fun_eq_iff pop_def set_running_def)
    have "slept (pop k) k'"
      by (rule run_work_slept [OF p(2) wf(2) p(3) wake_sorted_calm [OF p(1) inv(2)] work(3)])
    then show ?thesis
      using calm_slept [OF p(1)] by blast
  next
    case (call th f a ws c)
    then show ?thesis
      using run_work_slept [OF wf x inv(2)] by blast
  next
    case tick
    then show ?thesis
      using tick_ticked [OF wf x inv(2,3)] by blast
  qed
qed

text \<open>An execution is the sequence \<open>r 0, r 1, ..., r n\<close> of its states.\<close>

lemma sleeper_run:
  assumes inv: "kinv (r 0)" "wake_sorted (r 0)" "intr_handlers (irq (r 0)) ! 0x20 \<noteq> 0" and t: "t \<in> set (sleeping_list (r 0))"
    and run: "\<forall>i < n. tstep (r i) (r (Suc i))"
  shows "kinv (r n) \<and> wake_sorted (r n) \<and> intr_handlers (irq (r n)) ! 0x20 \<noteq> 0
    \<and> ((\<exists>i \<le> n. awake (r i) t) \<or> t \<in> set (sleeping_list (r n)) \<and> wake (r n) t = wake (r 0) t
        \<and> (ticks (r n) = ticks (r 0) \<or> sint (ticks (r n)) < wake (r 0) t))"
  using run
proof (induction n)
  case 0
  then show ?case
    using inv t by simp
next
  case (Suc n)
  then have IH: "kinv (r n)" "wake_sorted (r n)" "intr_handlers (irq (r n)) ! 0x20 \<noteq> 0"
      "(\<exists>i \<le> n. awake (r i) t) \<or> t \<in> set (sleeping_list (r n)) \<and> wake (r n) t = wake (r 0) t
        \<and> (ticks (r n) = ticks (r 0) \<or> sint (ticks (r n)) < wake (r 0) t)"
    and step: "tstep (r n) (r (Suc n))"
    by simp_all
  note c = kstep_sleepers [OF IH(1-3) step]
  have k: "kinv (r (Suc n))" "wake_sorted (r (Suc n))" "intr_handlers (irq (r (Suc n))) ! 0x20 \<noteq> 0"
    using tk.kstep_kinv [OF step IH(1)] c IH(3) by (auto simp: slept_def ticked_def)
  show ?case
  proof (cases "\<exists>i \<le> n. awake (r i) t")
    case True
    then show ?thesis
      using k le_SucI by blast
  next
    case False
    with IH(4) c have "awake (r (Suc n)) t \<or> t \<in> set (sleeping_list (r (Suc n))) \<and> wake (r (Suc n)) t = wake (r 0) t
        \<and> (ticks (r (Suc n)) = ticks (r 0) \<or> sint (ticks (r (Suc n))) < wake (r 0) t)"
      by (auto simp: slept_def ticked_def split: if_splits)
    then show ?thesis
      using k by blast
  qed
qed

text \<open>
  C37: a thread that sleeps is woken.  In every execution in which the clock moves and reaches the
  time the thread asked for, whatever the threads call and however the processor is shared, there is
  a moment of this execution, no later than that, at which the thread is ready or runs.
\<close>

theorem sleeper_wakes:
  assumes "kinv (r 0)" and "wake_sorted (r 0)" and "intr_handlers (irq (r 0)) ! 0x20 \<noteq> 0" and "t \<in> set (sleeping_list (r 0))"
    and "\<forall>i < n. tstep (r i) (r (Suc i))" and "ticks (r n) \<noteq> ticks (r 0)" and "wake (r 0) t \<le> sint (ticks (r n))"
  shows "\<exists>i \<le> n. st (r i) t = Some THREAD_READY \<or> st (r i) t = Some THREAD_RUNNING"
  using sleeper_run [OF assms(1-5)] assms(6,7) by (auto simp: awake_def)

text \<open>One tick of the sample kernel, whose sleeping thread is due at that tick.\<close>

lemma sample_sleepers: "wake_sorted sample_threads" "intr_handlers (irq sample_threads) ! 0x20 \<noteq> 0" "\<not> in_external_intr (irq sample_threads)"
  by (simp_all add: sample_threads_def sample_kernel_def sample_irq_def wake_sorted_def)

lemma tick_quiet:
  assumes "wf_kernel k" and q: "\<not> thread_mlfqs k" "\<not> thread_prior_aging k" "thread_ticks k = 0"
  shows "\<exists>k'. thread_tick k = Some k' \<and> irq k' = irq k"
proof -
  obtain th where th: "threads k (running k) = Some th" "thread_current k = Some (running k)"
    using assms(1) by (rule wf_kernel_current)
  define k1 where "k1 = (if running k = idle_thread k then k\<lparr>idle_ticks := idle_ticks k + 1\<rparr>
              else if userprog k \<and> pagedir th \<noteq> 0 then k\<lparr>user_ticks := user_ticks k + 1\<rparr>
              else k\<lparr>kernel_ticks := kernel_ticks k + 1\<rparr>)"
  have k1: "\<not> thread_mlfqs k1" "\<not> thread_prior_aging k1" "thread_ticks k1 = 0" "irq k1 = irq k"
    using q by (simp_all add: k1_def)
  have "thread_tick k = Some (k1\<lparr>thread_ticks := thread_ticks k1 + 1\<rparr>)"
    unfolding thread_tick_def Let_def th bind.bind_lunit k1_def [symmetric] using k1 by (simp add: TIME_SLICE_def word_le_nat_alt)
  then show ?thesis
    using k1(4) by simp
qed

lemma timer_interrupt_quiet:
  assumes wf: "wf_kernel k" and off: "\<not> if_flag (irq k)" and q: "\<not> thread_mlfqs k" "\<not> thread_prior_aging k" "thread_ticks k = 0"
  shows "\<exists>k'. timer_interrupt k = Some k' \<and> irq k' = irq k"
proof -
  let ?k = "k\<lparr>ticks := ticks k + 1\<rparr>"
  have wf0: "wf_kernel ?k"
    using wf same_schedD(5) [of ?k k] by (simp add: same_sched_def)
  obtain th where "threads ?k (running ?k) = Some th" "thread_current ?k = Some (running ?k)"
    using wf0 by (rule wf_kernel_current)
  then obtain k1 where k1: "thread_tick ?k = Some k1" "irq k1 = irq k"
    using tick_quiet [OF wf0] q by auto
  have i: "k1\<lparr>irq := (irq k1)\<lparr>if_flag := False\<rparr>\<rparr> = k1"
    using k1(2) off by simp
  have wf1: "wf_kernel k1"
    using neutral_wf [OF neutral_thread_tick [OF wf0 k1(1)]] .
  have "irq_ok k1"
    using k1(2) off by (simp add: irq_ok_def)
  then obtain k2 where k2: "thread_wake_up k1 (ticks k1) = Some k2" "irq k2 = irq k"
    using thread_wake_up_loop_ok [OF wf1 _ order_refl, of "ticks k1"] k1(2) unfolding thread_wake_up_def by auto
  have "k_set_level k2 (intr_get_level (irq k1)) = Some k2"
    using k2(2) k1(2) off by (simp add: k_set_level_def intr_set_level_def intr_get_level_def intr_disable_def)
  then show ?thesis
    using k1(1) k2 by (simp add: timer_interrupt_def k_disable_eq i Let_def)
qed

lemma intr_handler_timer:
  assumes "\<not> if_flag (irq k)" "\<not> in_external_intr (irq k)" "length (intr_handlers (irq k)) = 256" "intr_handlers (irq k) ! 0x20 \<noteq> 0"
    and "timer_interrupt (k\<lparr>irq := (irq k)\<lparr>in_external_intr := True, yield_on_return := False\<rparr>\<rparr>) = Some k1"
    and "irq k1 = (irq k)\<lparr>in_external_intr := True, yield_on_return := False\<rparr>"
  shows "\<exists>k'. intr_handler timer_handler k 0x20 = Some k'"
  using assms by (simp add: intr_handler_def timer_handler_def intr_get_level_def intr_context_def pic_end_of_interrupt_def pic_outb_def Let_def)

lemma sample_tick: "\<exists>k'. tstep sample_threads k' \<and> ticks k' = 7"
proof -
  let ?k = "sample_threads\<lparr>irq := (irq sample_threads)\<lparr>if_flag := False\<rparr>\<rparr>"
  let ?p = "push_work [Iret] ?k"
  let ?i = "?p\<lparr>irq := (irq ?p)\<lparr>in_external_intr := True, yield_on_return := False\<rparr>\<rparr>"
  have wf: "wf_kernel sample_threads"
    using sample_kinv by (simp add: kinv_def)
  have "wf_kernel ?k"
    using wf same_schedD(5) [of ?k sample_threads] by simp
  then have wp: "wf_kernel ?p"
    by (rule push_wf)
  then have wi: "wf_kernel ?i"
    using same_schedD(5) [of ?i ?p] by simp
  have irq: "irq ?p = sample_irq\<lparr>if_flag := False\<rparr>"
    by (simp add: push_work_def set_running_def sample_threads_def sample_kernel_def)
  have "\<not> if_flag (irq ?i)" "\<not> thread_mlfqs ?i" "\<not> thread_prior_aging ?i" "thread_ticks ?i = 0"
    using irq by simp (simp_all add: push_work_def set_running_def sample_threads_def sample_kernel_def)
  then obtain k1 where k1: "timer_interrupt ?i = Some k1" "irq k1 = irq ?i"
    using timer_interrupt_quiet [OF wi] by blast
  have "push [Iret] ?k = Some ?p"
    using wf by (intro push_eq) (auto elim: wf_kernel_current)
  moreover have "\<exists>k'. intr_handler timer_handler ?p 0x20 = Some k'"
    by (rule intr_handler_timer [OF _ _ _ _ k1(1)]) (use irq k1(2) in \<open>simp_all add: sample_irq_def\<close>)
  ultimately obtain k' where k': "external_interrupt timer_handler sample_threads 0x20 = Some k'"
    by (auto simp: external_interrupt_def)
  have s: "tstep sample_threads k'"
    by (rule kstep.tick [OF _ k']) (simp add: sample_threads_def sample_kernel_def sample_irq_def)
  then have "wf_kernel k'"
    using tk.kstep_kinv [OF s sample_kinv] by (simp add: kinv_def)
  then have "ticked sample_threads k'"
    using tick_ticked [OF wf _ sample_sleepers(3,1,2) k'] by blast
  then show ?thesis
    using s by (auto simp: ticked_def sample_threads_def sample_kernel_def)
qed

theorem sleeper_wakes_witness:
  "\<exists>r :: nat \<Rightarrow> _. r 0 = sample_threads \<and> tstep (r 0) (r 1) \<and> ticks (r 1) = 7 \<and> st (r 0) 0xC0102000 = Some THREAD_BLOCKED
    \<and> (\<exists>i \<le> 1. st (r i) 0xC0102000 = Some THREAD_READY \<or> st (r i) 0xC0102000 = Some THREAD_RUNNING)"
proof -
  obtain k' where k': "tstep sample_threads k'" "ticks k' = 7"
    using sample_tick by blast
  let ?r = "\<lambda>i :: nat. if i = 0 then sample_threads else k'"
  have "\<exists>i \<le> 1. st (?r i) 0xC0102000 = Some THREAD_READY \<or> st (?r i) 0xC0102000 = Some THREAD_RUNNING"
    by (rule sleeper_wakes) (use k' sample_kinv sample_sleepers in
      \<open>auto simp: sample_threads_def sample_kernel_def sample_thread_def wake_def\<close>)
  moreover have "st sample_threads 0xC0102000 = Some THREAD_BLOCKED"
    by (simp add: st_def sample_threads_def sample_kernel_def sample_thread_def)
  ultimately show ?thesis
    using k' by (intro exI [of _ ?r]) simp
qed

end
