(* ===== verification/Stdlib.thy ===== *)
theory Stdlib
  imports Kstring_Correct Fixed_Point "HOL-Library.Multiset"
begin

text \<open>
  The standard library, \<open>lib/stdlib.c\<close>: heap sort and binary search of arrays, and reading a
  decimal number.  An array is the sequence of its elements, and \<open>compare\<close> gets the two
  elements; the kernel's memory is small enough that no index overflows.
\<close>

section \<open>Sorting and searching\<close>

definition do_swap :: "'a list \<Rightarrow> nat \<Rightarrow> nat \<Rightarrow> 'a list" where
  "do_swap array a_idx b_idx = array[a_idx - 1 := array ! (b_idx - 1), b_idx - 1 := array ! (a_idx - 1)]"

definition do_compare :: "'a list \<Rightarrow> nat \<Rightarrow> nat \<Rightarrow> ('a \<Rightarrow> 'a \<Rightarrow> int) \<Rightarrow> int" where
  "do_compare array a_idx b_idx compare = compare (array ! (a_idx - 1)) (array ! (b_idx - 1))"

text \<open>The index of the largest element among \<open>i\<close> and its children.\<close>

definition largest :: "('a \<Rightarrow> 'a \<Rightarrow> int) \<Rightarrow> 'a list \<Rightarrow> nat \<Rightarrow> nat \<Rightarrow> nat" where
  "largest compare array i cnt =
     (let left = 2 * i; right = 2 * i + 1; m = i;
          m = (if left \<le> cnt \<and> do_compare array left m compare > 0 then left else m)
      in if right \<le> cnt \<and> do_compare array right m compare > 0 then right else m)"

lemma largest_grows: "largest compare array i cnt \<noteq> i \<Longrightarrow> i < largest compare array i cnt \<and> largest compare array i cnt \<le> cnt"
  by (cases i) (auto simp: largest_def Let_def split: if_splits)

function heapify :: "('a \<Rightarrow> 'a \<Rightarrow> int) \<Rightarrow> 'a list \<Rightarrow> nat \<Rightarrow> nat \<Rightarrow> 'a list" where
  "heapify compare array i cnt =
     (let m = largest compare array i cnt in
      if m = i then array else heapify compare (do_swap array i m) m cnt)"
  by pat_completeness auto
termination
  by (relation "measure (\<lambda>(_, _, i, cnt). cnt - i)") (auto dest: largest_grows intro!: diff_less_mono2)

declare heapify.simps [simp del]

fun build_heap :: "('a \<Rightarrow> 'a \<Rightarrow> int) \<Rightarrow> 'a list \<Rightarrow> nat \<Rightarrow> nat \<Rightarrow> 'a list" where
  "build_heap compare array 0 cnt = array"
| "build_heap compare array (Suc i) cnt = build_heap compare (heapify compare array (Suc i) cnt) i cnt"

fun sort_heap :: "('a \<Rightarrow> 'a \<Rightarrow> int) \<Rightarrow> 'a list \<Rightarrow> nat \<Rightarrow> 'a list" where
  "sort_heap compare array i =
     (if i > 1 then sort_heap compare (heapify compare (do_swap array 1 i) 1 (i - 1)) (i - 1) else array)"

declare sort_heap.simps [simp del]

definition sort_array :: "('a \<Rightarrow> 'a \<Rightarrow> int) \<Rightarrow> 'a list \<Rightarrow> 'a list" where
  "sort_array compare array = (let cnt = length array in sort_heap compare (build_heap compare array (cnt div 2) cnt) cnt)"

text \<open>The part of the array from \<open>first\<close> up to, not including, \<open>last\<close>; the result is an index.\<close>

function search_loop :: "('k \<Rightarrow> 'a \<Rightarrow> int) \<Rightarrow> 'k \<Rightarrow> 'a list \<Rightarrow> nat \<Rightarrow> nat \<Rightarrow> nat option" where
  "search_loop compare key array first lst =
     (if first < lst
      then let middle = first + (lst - first) div 2; cmp = compare key (array ! middle) in
        if cmp < 0 then search_loop compare key array first middle
        else if cmp > 0 then search_loop compare key array (middle + 1) lst
        else Some middle
      else None)"
  by pat_completeness auto
termination
  by (relation "measure (\<lambda>(_, _, _, f, l). l - f)") auto

declare search_loop.simps [simp del]

definition binary_search :: "('k \<Rightarrow> 'a \<Rightarrow> int) \<Rightarrow> 'k \<Rightarrow> 'a list \<Rightarrow> nat option" where
  "binary_search compare key array = search_loop compare key array 0 (length array)"

text \<open>The comparison of the library's own tests.\<close>

definition compare_ints :: "i32 \<Rightarrow> i32 \<Rightarrow> int" where
  "compare_ints a b = (if sint a < sint b then - 1 else if sint a > sint b then 1 else 0)"

section \<open>Decimal numbers\<close>

definition isspace :: "u8 \<Rightarrow> bool" where
  "isspace c \<longleftrightarrow> c \<in> {32, 12, 10, 13, 9, 11}"

definition isdigit :: "u8 \<Rightarrow> bool" where
  "isdigit c \<longleftrightarrow> 48 \<le> c \<and> c \<le> 57"

partial_function (option) atoi_space :: "bmem \<Rightarrow> addr \<Rightarrow> addr option" where
  "atoi_space m s = do { c \<leftarrow> load m s; if isspace c then atoi_space m (s + 1) else Some s }"

partial_function (option) atoi_digits :: "bmem \<Rightarrow> addr \<Rightarrow> i32 \<Rightarrow> i32 option" where
  "atoi_digits m s value = do {
     c \<leftarrow> load m s;
     if isdigit c then atoi_digits m (s + 1) (value * 10 - (ucast c - 48)) else Some value
   }"

definition atoi :: "bmem \<Rightarrow> addr \<Rightarrow> i32 option" where
  "atoi m s = do {
     ASSERT (s \<noteq> 0);
     s \<leftarrow> atoi_space m s;
     c \<leftarrow> load m s;
     let negative = (c = 45);
     value \<leftarrow> atoi_digits m (if c = 43 \<or> c = 45 then s + 1 else s) 0;
     Some (if \<not> negative then - value else value)
   }"

section \<open>Swapping\<close>

lemma length_do_swap [simp]: "length (do_swap a i j) = length a"
  by (simp add: do_swap_def)

lemma do_swap_nth:
  assumes "0 < i" "0 < j" "0 < k" "i \<le> length a" "j \<le> length a" "k \<le> length a"
  shows "do_swap a i j ! (k - 1) = (if k = j then a ! (i - 1) else if k = i then a ! (j - 1) else a ! (k - 1))"
proof -
  have "k - 1 = j - 1 \<longleftrightarrow> k = j" "i - 1 = k - 1 \<longleftrightarrow> i = k" "j - 1 = k - 1 \<longleftrightarrow> j = k"
    using assms by auto
  then show ?thesis
    using assms by (auto simp: do_swap_def nth_list_update)
qed

lemma do_swap_take_drop:
  assumes "0 < i" "0 < j" "i \<le> n" "j \<le> n" "n \<le> length a"
  shows "mset (take n (do_swap a i j)) = mset (take n a)" and "drop n (do_swap a i j) = drop n a"
proof -
  have t: "take n (do_swap a i j) = (take n a)[i - 1 := take n a ! (j - 1), j - 1 := take n a ! (i - 1)]"
    using assms by (simp add: do_swap_def take_update_swap)
  show "mset (take n (do_swap a i j)) = mset (take n a)"
    unfolding t by (rule mset_swap) (use assms in auto)
  show "drop n (do_swap a i j) = drop n a"
    using assms by (simp add: do_swap_def drop_update_cancel)
qed

section \<open>Heaps\<close>

text \<open>Node \<open>j\<close> is not smaller than its children; and so for every node from \<open>lo\<close> on.\<close>

definition dominates :: "('a \<Rightarrow> 'a \<Rightarrow> int) \<Rightarrow> 'a list \<Rightarrow> nat \<Rightarrow> nat \<Rightarrow> bool" where
  "dominates compare a cnt j \<longleftrightarrow> (\<forall>c \<in> {2 * j, 2 * j + 1}. c \<le> cnt \<longrightarrow> compare (a ! (c - 1)) (a ! (j - 1)) \<le> 0)"

definition heap_from :: "('a \<Rightarrow> 'a \<Rightarrow> int) \<Rightarrow> 'a list \<Rightarrow> nat \<Rightarrow> nat \<Rightarrow> bool" where
  "heap_from compare a cnt lo \<longleftrightarrow> (\<forall>j \<ge> lo. dominates compare a cnt j)"

text \<open>
  A heap from \<open>lo\<close> on except for node \<open>i\<close>, whose children are not larger than its parent.
\<close>

definition almost_heap :: "('a \<Rightarrow> 'a \<Rightarrow> int) \<Rightarrow> 'a list \<Rightarrow> nat \<Rightarrow> nat \<Rightarrow> nat \<Rightarrow> bool" where
  "almost_heap compare a cnt lo i \<longleftrightarrow> (\<forall>j \<ge> lo. j \<noteq> i \<longrightarrow> dominates compare a cnt j)
     \<and> (\<forall>j \<ge> lo. i = 2 * j \<or> i = 2 * j + 1 \<longrightarrow> (\<forall>c \<in> {2 * i, 2 * i + 1}. c \<le> cnt \<longrightarrow> compare (a ! (c - 1)) (a ! (j - 1)) \<le> 0))"

text \<open>The first \<open>n\<close> elements are a heap, the others are sorted and none of them is smaller than one of the heap.\<close>

definition part_sorted :: "('a \<Rightarrow> 'a \<Rightarrow> int) \<Rightarrow> 'a list \<Rightarrow> nat \<Rightarrow> bool" where
  "part_sorted compare a n \<longleftrightarrow> heap_from compare a n 1 \<and> n \<le> length a \<and> sorted_wrt (\<lambda>x y. compare x y \<le> 0) (drop n a)
     \<and> (\<forall>x \<in> set (take n a). \<forall>y \<in> set (drop n a). compare x y \<le> 0)"

text \<open>The contract of a comparison: the signs are those of a total preorder.\<close>

locale comparison =
  fixes compare :: "'a \<Rightarrow> 'a \<Rightarrow> int"
  assumes compare_flip: "compare a b > 0 \<longleftrightarrow> compare b a < 0"
    and compare_trans: "compare a b \<le> 0 \<Longrightarrow> compare b c \<le> 0 \<Longrightarrow> compare a c \<le> 0"
begin

lemma compare_refl: "compare a a \<le> 0"
  using compare_flip [of a a] by linarith

lemma compare_linear: "\<not> compare a b > 0 \<Longrightarrow> compare a b \<le> 0" "compare a b > 0 \<Longrightarrow> compare b a \<le> 0"
  using compare_flip [of a b] by linarith+

lemma largest_is_largest:
  assumes "m = largest compare a i cnt" and "c \<in> {i, 2 * i, 2 * i + 1}" and "c \<noteq> i \<longrightarrow> c \<le> cnt"
  shows "compare (a ! (c - 1)) (a ! (m - 1)) \<le> 0"
proof -
  define m1 where "m1 = (if 2 * i \<le> cnt \<and> do_compare a (2 * i) i compare > 0 then 2 * i else i)"
  have m: "m = (if 2 * i + 1 \<le> cnt \<and> do_compare a (2 * i + 1) m1 compare > 0 then 2 * i + 1 else m1)"
    using assms(1) by (simp add: largest_def m1_def Let_def)
  have 1: "compare (a ! (x - 1)) (a ! (m1 - 1)) \<le> 0" if "x = i \<or> x = 2 * i \<and> 2 * i \<le> cnt" for x
    using that compare_refl compare_linear unfolding m1_def do_compare_def by (auto split: if_splits)
  have 2: "compare (a ! (m1 - 1)) (a ! (m - 1)) \<le> 0" "2 * i + 1 \<le> cnt \<Longrightarrow> compare (a ! (2 * i + 1 - 1)) (a ! (m - 1)) \<le> 0"
    using compare_refl compare_linear unfolding m do_compare_def by (auto split: if_splits)
  show ?thesis
    using assms(2,3) 1 [of c] 2 compare_trans by auto
qed

lemma almost_heap_step:
  assumes h: "almost_heap compare a cnt lo i" and b: "0 < lo" "lo \<le> i" "cnt \<le> length a"
    and m: "m = largest compare a i cnt" "m \<noteq> i"
  shows "almost_heap compare (do_swap a i m) cnt lo m"
proof -
  let ?b = "do_swap a i m"
  have im: "i < m" "m \<le> cnt" "m = 2 * i \<or> m = 2 * i + 1"
    using largest_grows m by (auto simp: largest_def Let_def split: if_splits)
  have nth: "?b ! (k - 1) = (if k = m then a ! (i - 1) else if k = i then a ! (m - 1) else a ! (k - 1))" if "0 < k" "k \<le> cnt" for k
    using do_swap_nth [of i m k a] im b that by simp
  have L: "compare (a ! (c - 1)) (a ! (m - 1)) \<le> 0" if "c \<in> {i, 2 * i, 2 * i + 1}" "c \<le> cnt" for c
    using largest_is_largest [OF m(1) that(1)] that(2) by blast
  have D: "compare (a ! (c - 1)) (a ! (j - 1)) \<le> 0" if "lo \<le> j" "j \<noteq> i" "c \<in> {2 * j, 2 * j + 1}" "c \<le> cnt" for c j
    using h that unfolding almost_heap_def dominates_def by blast
  have G: "compare (a ! (c - 1)) (a ! (j - 1)) \<le> 0" if "lo \<le> j" "i = 2 * j \<or> i = 2 * j + 1" "c \<in> {2 * i, 2 * i + 1}" "c \<le> cnt" for c j
    using h that unfolding almost_heap_def by blast
  have "dominates compare ?b cnt j" if j: "lo \<le> j" "j \<noteq> m" for j
    unfolding dominates_def
  proof (intro ballI impI)
    fix c
    assume c: "c \<in> {2 * j, 2 * j + 1}" "c \<le> cnt"
    then have p: "0 < j" "j \<le> cnt" "0 < c" "c \<noteq> j"
      using b(1) j(1) by auto
    show "compare (?b ! (c - 1)) (?b ! (j - 1)) \<le> 0"
    proof (cases "j = i")
      case True
      have "c \<noteq> i" using p True by simp
      then show ?thesis
        using L [of i] L [of c] c True im p nth [of c] nth [of j] by simp
    next
      case False
      have "c \<noteq> m" using c(1) im(3) False by auto
      then show ?thesis
        using D [OF j(1) False c] G [OF j(1) _ _ im(2)] c im(3) False j(2) p nth [of c] nth [of j] by auto
    qed
  qed
  moreover have "compare (?b ! (c - 1)) (?b ! (j - 1)) \<le> 0"
    if j: "lo \<le> j" "m = 2 * j \<or> m = 2 * j + 1" and c: "c \<in> {2 * m, 2 * m + 1}" "c \<le> cnt" for j c
  proof -
    have "j = i" "c \<noteq> m" "c \<noteq> i" "0 < c"
      using j(2) im c by auto
    then show ?thesis
      using D [of m c] c im b nth [of c] nth [of j] by simp
  qed
  ultimately show ?thesis
    unfolding almost_heap_def by blast
qed

lemma almost_heap_done:
  assumes "almost_heap compare a cnt lo i" and "largest compare a i cnt = i"
  shows "heap_from compare a cnt lo"
proof -
  have "dominates compare a cnt i"
    using largest_is_largest [OF assms(2) [symmetric]] unfolding dominates_def by blast
  then show ?thesis
    using assms(1) unfolding almost_heap_def heap_from_def by metis
qed

lemma heapify_heap:
  assumes "almost_heap compare a cnt lo i" and "0 < lo" "lo \<le> i" "i \<le> cnt" "cnt \<le> length a"
  shows "heap_from compare (heapify compare a i cnt) cnt lo \<and> mset (take cnt (heapify compare a i cnt)) = mset (take cnt a)
    \<and> drop cnt (heapify compare a i cnt) = drop cnt a \<and> length (heapify compare a i cnt) = length a"
  using assms
proof (induction "cnt - i" arbitrary: a i rule: less_induct)
  case less
  let ?m = "largest compare a i cnt"
  show ?case
  proof (cases "?m = i")
    case True
    then show ?thesis
      using almost_heap_done [OF less.prems(1) True] by (simp add: heapify.simps [of _ a])
  next
    case False
    note g = largest_grows [OF False]
    have e: "heapify compare a i cnt = heapify compare (do_swap a i ?m) ?m cnt"
      using False by (simp add: heapify.simps [of _ a] Let_def)
    have "mset (take cnt (do_swap a i ?m)) = mset (take cnt a)" "drop cnt (do_swap a i ?m) = drop cnt a"
      using do_swap_take_drop [of i ?m cnt a] g less.prems by auto
    moreover have "cnt - ?m < cnt - i"
      using g by linarith
    ultimately show ?thesis
      using less.hyps [OF _ almost_heap_step [OF less.prems(1,2,3,5) refl False]] g less.prems unfolding e by simp
  qed
qed

lemma build_heap_heap:
  assumes "heap_from compare a cnt (i + 1)" and "i \<le> cnt" "cnt \<le> length a"
  shows "heap_from compare (build_heap compare a i cnt) cnt 1 \<and> mset (take cnt (build_heap compare a i cnt)) = mset (take cnt a)
    \<and> drop cnt (build_heap compare a i cnt) = drop cnt a \<and> length (build_heap compare a i cnt) = length a"
  using assms
proof (induction i arbitrary: a)
  case (Suc i)
  have "almost_heap compare a cnt (Suc i) (Suc i)"
    using Suc.prems(1) unfolding almost_heap_def heap_from_def by auto
  from heapify_heap [OF this] Suc.prems Suc.IH show ?case
    by simp
qed simp

lemma heap_root:
  assumes "heap_from compare a cnt 1" and "0 < j" "j \<le> cnt"
  shows "compare (a ! (j - 1)) (a ! 0) \<le> 0"
  using assms(2,3)
proof (induction j rule: less_induct)
  case (less j)
  show ?case
  proof (cases "j = 1")
    case False
    then have h: "0 < j div 2" "j div 2 < j" "j \<in> {2 * (j div 2), 2 * (j div 2) + 1}"
      using less.prems by auto
    have "dominates compare a cnt (j div 2)"
      using assms(1) h(1) unfolding heap_from_def by (metis One_nat_def Suc_leI)
    then have "compare (a ! (j - 1)) (a ! (j div 2 - 1)) \<le> 0"
      using h(3) less.prems(2) unfolding dominates_def by blast
    moreover have "compare (a ! (j div 2 - 1)) (a ! 0) \<le> 0"
      using less.IH [OF h(2,1)] h(2) less.prems(2) by simp
    ultimately show ?thesis
      by (rule compare_trans)
  qed (simp add: compare_refl)
qed

lemma swap_root:
  assumes h: "heap_from compare a n 1" and n: "1 < n" "n \<le> length a"
  shows "almost_heap compare (do_swap a 1 n) (n - 1) 1 1"
proof -
  have "dominates compare (do_swap a 1 n) (n - 1) j" if j: "1 < j" for j
    unfolding dominates_def
  proof (intro ballI impI)
    fix c
    assume c: "c \<in> {2 * j, 2 * j + 1}" "c \<le> n - 1"
    have e: "do_swap a 1 n ! (k - 1) = a ! (k - 1)" if "1 < k" "k \<le> n - 1" for k
      using do_swap_nth [of 1 n k a] n that by simp
    have "j \<le> n - 1"
      using c by auto
    then show "compare (do_swap a 1 n ! (c - 1)) (do_swap a 1 n ! (j - 1)) \<le> 0"
      using h c j e [of c] e [of j] unfolding heap_from_def dominates_def by fastforce
  qed
  then show ?thesis
    unfolding almost_heap_def by (auto simp: le_eq_less_or_eq)
qed

lemma set_take_mset: "mset (take n a) = mset (take n b) \<Longrightarrow> set (take n a) = set (take n b)"
  by (metis set_mset_mset)

lemma drain_step:
  assumes p: "part_sorted compare a n" and n: "1 < n"
  defines "b \<equiv> heapify compare (do_swap a 1 n) 1 (n - 1)"
  shows "part_sorted compare b (n - 1)" and "mset b = mset a"
proof -
  have h: "heap_from compare a n 1" "n \<le> length a" and d: "sorted_wrt (\<lambda>x y. compare x y \<le> 0) (drop n a)"
      "\<forall>x \<in> set (take n a). \<forall>y \<in> set (drop n a). compare x y \<le> 0"
    using p by (simp_all add: part_sorted_def)
  let ?s = "do_swap a 1 n"
  have b: "heap_from compare b (n - 1) 1" "mset (take (n - 1) b) = mset (take (n - 1) ?s)" "drop (n - 1) b = drop (n - 1) ?s"
      "length b = length a"
    using heapify_heap [OF swap_root [OF h(1) n h(2)]] n h(2) by (simp_all add: b_def)
  have s: "mset (take n ?s) = mset (take n a)" "drop n ?s = drop n a"
    using do_swap_take_drop [of 1 n n a] n h(2) by simp_all
  have last: "drop (n - 1) ?s = a ! 0 # drop n a"
  proof -
    have "drop (n - 1) ?s = ?s ! (n - 1) # drop (Suc (n - 1)) ?s"
      by (rule Cons_nth_drop_Suc [symmetric]) (use n h(2) in simp)
    then show ?thesis
      using do_swap_nth [of 1 n n a] n h(2) s(2) by simp
  qed
  have "mset b = mset (take (n - 1) b) + mset (drop (n - 1) b)"
    by (metis append_take_drop_id mset_append)
  also have "\<dots> = mset ?s"
    unfolding b(2,3) by (metis append_take_drop_id mset_append)
  also have "\<dots> = mset (take n ?s) + mset (drop n ?s)"
    by (metis append_take_drop_id mset_append)
  also have "\<dots> = mset a"
    unfolding s by (metis append_take_drop_id mset_append)
  finally show "mset b = mset a" .
  have root: "compare x (a ! 0) \<le> 0" if x: "x \<in> set (take n a)" for x
  proof -
    obtain k where "k < length (take n a)" "x = take n a ! k"
      using x unfolding in_set_conv_nth by blast
    then have "k < n" "x = a ! k"
      by simp_all
    then show ?thesis
      using heap_root [OF h(1), of "Suc k"] by simp
  qed
  have sub: "set (take (n - 1) b) \<subseteq> set (take n a)"
    using set_take_mset [OF b(2)] set_take_mset [OF s(1)] set_take_subset_set_take [of "n - 1" n ?s] by auto
  have "a ! 0 \<in> set (take n a)"
    using n h(2) by (cases a; cases n) auto
  then show "part_sorted compare b (n - 1)"
    using b d last sub root h(2) unfolding part_sorted_def by auto
qed

lemma sort_heap_sorts:
  assumes "part_sorted compare a n"
  shows "sorted_wrt (\<lambda>x y. compare x y \<le> 0) (sort_heap compare a n) \<and> mset (sort_heap compare a n) = mset a"
  using assms
proof (induction n arbitrary: a rule: less_induct)
  case (less n)
  show ?case
  proof (cases "1 < n")
    case True
    then show ?thesis
      using less.IH [OF _ drain_step(1) [OF less.prems True]] drain_step(2) [OF less.prems True] by (simp add: sort_heap.simps [of _ a])
  next
    case False
    have "sorted_wrt (\<lambda>x y. compare x y \<le> 0) (take n a @ drop n a)"
      using less.prems False unfolding part_sorted_def sorted_wrt_append
      by (cases n; cases a) (auto simp: compare_refl)
    then show ?thesis
      using False by (simp add: sort_heap.simps [of _ a])
  qed
qed

lemma sort_array_sorts:
  "sorted_wrt (\<lambda>x y. compare x y \<le> 0) (sort_array compare a) \<and> mset (sort_array compare a) = mset a"
proof -
  let ?n = "length a" and ?b = "build_heap compare a (length a div 2) (length a)"
  have "heap_from compare a ?n (?n div 2 + 1)"
    unfolding heap_from_def dominates_def by auto
  from build_heap_heap [OF this] have b: "heap_from compare ?b ?n 1" "mset (take ?n ?b) = mset (take ?n a)" "length ?b = ?n"
    by (meson div_le_dividend order_refl)+
  then have "part_sorted compare ?b ?n"
    by (simp add: part_sorted_def)
  from sort_heap_sorts [OF this] show ?thesis
    using b by (simp add: sort_array_def Let_def)
qed

text \<open>The loop narrows down the part of the array in which the key can be.\<close>

lemma search_loop_finds:
  assumes "sorted_wrt (\<lambda>x y. compare x y \<le> 0) a" and "lst \<le> length a"
    and "\<forall>i < length a. i < first \<longrightarrow> compare key (a ! i) \<noteq> 0" and "\<forall>i < length a. lst \<le> i \<longrightarrow> compare key (a ! i) \<noteq> 0"
  shows "case search_loop compare key a first lst of
    Some i \<Rightarrow> i < length a \<and> compare key (a ! i) = 0 | None \<Rightarrow> \<forall>x \<in> set a. compare key x \<noteq> 0"
  using assms(2-4)
proof (induction "lst - first" arbitrary: first lst rule: less_induct)
  case less
  show ?case
  proof (cases "first < lst")
    case False
    then have "compare key (a ! i) \<noteq> 0" if "i < length a" for i
      using less.prems(2,3) that by (cases "i < first") auto
    then show ?thesis
      using False by (auto simp: search_loop.simps [of _ _ _ first lst] in_set_conv_nth)
  next
    case True
    define m where "m = first + (lst - first) div 2"
    have m: "first \<le> m" "m < lst"
      using True by (simp_all add: m_def)
    have sorted: "compare (a ! i) (a ! j) \<le> 0" if "i \<le> j" "j < length a" for i j
      using assms(1) that compare_refl by (cases "i = j") (auto simp: sorted_wrt_iff_nth_less)
    consider (lt) "compare key (a ! m) < 0" | (gt) "compare key (a ! m) > 0" | (eq) "compare key (a ! m) = 0"
      by linarith
    then show ?thesis
    proof cases
      case lt
      have "compare key (a ! i) < 0" if "m \<le> i" "i < length a" for i
        using lt sorted [OF that] compare_flip compare_trans by (metis linorder_not_le order_le_less)
      then have "case search_loop compare key a first m of
          Some i \<Rightarrow> i < length a \<and> compare key (a ! i) = 0 | None \<Rightarrow> \<forall>x \<in> set a. compare key x \<noteq> 0"
        using less.hyps [of m first] m less.prems by (simp add: order_less_imp_not_eq)
      then show ?thesis
        using True lt by (simp add: search_loop.simps [of _ _ _ first lst] m_def)
    next
      case gt
      have "compare key (a ! i) > 0" if "i \<le> m" for i
        using gt sorted [OF that] m less.prems(1) compare_flip compare_trans by (metis linorder_not_le order_less_le_trans)
      then have "case search_loop compare key a (m + 1) lst of
          Some i \<Rightarrow> i < length a \<and> compare key (a ! i) = 0 | None \<Rightarrow> \<forall>x \<in> set a. compare key x \<noteq> 0"
        using less.hyps [of lst "m + 1"] m less.prems by (simp add: less_Suc_eq_le order_less_imp_not_eq2)
      then show ?thesis
        using True gt by (simp add: search_loop.simps [of _ _ _ first lst] m_def)
    next
      case eq
      then show ?thesis
        using True m less.prems(1) by (simp add: search_loop.simps [of _ _ _ first lst] m_def)
    qed
  qed
qed

end

interpretation ints: comparison compare_ints
  by unfold_locales (auto simp: compare_ints_def split: if_splits)

text \<open>
  C38: for every comparison that keeps its contract, \<open>sort\<close> leaves the same elements in ascending
  order, and \<open>binary_search\<close> in the sorted array finds an element that compares equal to the key
  exactly when there is one.
\<close>

theorem sort_search_correct:
  assumes "comparison compare"
  shows "sorted_wrt (\<lambda>x y. compare x y \<le> 0) (sort_array compare a) \<and> mset (sort_array compare a) = mset a
    \<and> (case binary_search compare key (sort_array compare a) of
         Some i \<Rightarrow> i < length a \<and> compare key (sort_array compare a ! i) = 0 | None \<Rightarrow> \<forall>x \<in> set a. compare key x \<noteq> 0)"
proof -
  note s = comparison.sort_array_sorts [OF assms, of a]
  then have "length (sort_array compare a) = length a" "set (sort_array compare a) = set a"
    by (metis size_mset, metis set_mset_mset)
  then show ?thesis
    using s comparison.search_loop_finds [OF assms, of "sort_array compare a" "length a" 0 key]
    by (simp add: binary_search_def split: option.splits)
qed

theorem sort_search_correct_witness:
  "sorted_wrt (\<lambda>x y. compare_ints x y \<le> 0) (sort_array compare_ints [3, - 1, 2, 3, 0]) \<and> mset (sort_array compare_ints [3, - 1, 2, 3, 0]) = mset [3, - 1, 2, 3, 0]
    \<and> (case binary_search compare_ints 2 (sort_array compare_ints [3, - 1, 2, 3, 0]) of
         Some i \<Rightarrow> i < length [3, - 1, 2, 3, 0 :: i32] \<and> compare_ints 2 (sort_array compare_ints [3, - 1, 2, 3, 0] ! i) = 0
       | None \<Rightarrow> \<forall>x \<in> set [3, - 1, 2, 3, 0]. compare_ints 2 x \<noteq> 0)"
  by (rule sort_search_correct) (rule ints.comparison_axioms)

end
