(* ===== verification/Stdio.thy ===== *)
theory Stdio
  imports Stdlib
begin

text \<open>
  Formatted output, \<open>lib/stdio.c\<close>.  A format is the sequence of its bytes with the terminator,
  and the arguments are the words that the caller pushed.  The result of formatting is the
  sequence of characters that are passed to the output function.  The strings that are printed
  do not overlap the buffer that is written.
\<close>

section \<open>Conversions\<close>

datatype int_type = CHAR_t | SHORT | INT_t | INTMAX | LONG | LONGLONG | PTRDIFFT | SIZET

abbreviation MINUS :: u32 where "MINUS \<equiv> 1"
abbreviation PLUS :: u32 where "PLUS \<equiv> 2"
abbreviation SPACE :: u32 where "SPACE \<equiv> 4"
abbreviation POUND :: u32 where "POUND \<equiv> 8"
abbreviation ZERO :: u32 where "ZERO \<equiv> 16"
abbreviation GROUP :: u32 where "GROUP \<equiv> 32"

record printf_conversion =
  cv_flags :: u32
  cv_width :: i32
  cv_precision :: i32
  cv_type :: int_type

record integer_base =
  ib_base :: nat
  ib_digits :: "u8 list"
  ib_x :: u8
  ib_group :: nat

definition base_d :: integer_base where
  "base_d = \<lparr>ib_base = 10, ib_digits = [48, 49, 50, 51, 52, 53, 54, 55, 56, 57], ib_x = 0, ib_group = 3\<rparr>"

abbreviation base_o :: integer_base where
  "base_o \<equiv> \<lparr>ib_base = 8, ib_digits = [48, 49, 50, 51, 52, 53, 54, 55], ib_x = 0, ib_group = 3\<rparr>"

abbreviation base_x :: integer_base where
  "base_x \<equiv> \<lparr>ib_base = 16, ib_digits = [48, 49, 50, 51, 52, 53, 54, 55, 56, 57, 97, 98, 99, 100, 101, 102], ib_x = 120, ib_group = 4\<rparr>"

abbreviation base_X :: integer_base where
  "base_X \<equiv> \<lparr>ib_base = 16, ib_digits = [48, 49, 50, 51, 52, 53, 54, 55, 56, 57, 65, 66, 67, 68, 69, 70], ib_x = 88, ib_group = 4\<rparr>"

section \<open>Arguments\<close>

text \<open>The next argument of one word, as \<open>va_arg\<close> takes it, and of two words, the low one first.\<close>

fun va_word :: "u32 list \<Rightarrow> (u32 \<times> u32 list) option" where
  "va_word [] = None"
| "va_word (w # ws) = Some (w, ws)"

definition va_long :: "u32 list \<Rightarrow> (u64 \<times> u32 list) option" where
  "va_long ws = do { (lo, ws) \<leftarrow> va_word ws; (hi, ws) \<leftarrow> va_word ws; Some (ucast lo OR push_bit 32 (ucast hi), ws) }"

definition signed_arg :: "int_type \<Rightarrow> u32 list \<Rightarrow> (i64 \<times> u32 list) option" where
  "signed_arg t args =
     (if t = INTMAX \<or> t = LONGLONG then va_long args
      else do {
        (w, args) \<leftarrow> va_word args;
        Some (case t of
          CHAR_t \<Rightarrow> scast (ucast w :: u8)
        | SHORT \<Rightarrow> scast (ucast w :: u16)
        | SIZET \<Rightarrow> (let value = ucast w :: i64 in if sint value > 0xffffffff div 2 then value - 0xffffffff - 1 else value)
        | _ \<Rightarrow> scast w, args)
      })"

definition unsigned_arg :: "int_type \<Rightarrow> u32 list \<Rightarrow> (u64 \<times> u32 list) option" where
  "unsigned_arg t args =
     (if t = INTMAX \<or> t = LONGLONG then va_long args
      else do {
        (w, args) \<leftarrow> va_word args;
        Some (case t of
          CHAR_t \<Rightarrow> ucast (ucast w :: u8)
        | SHORT \<Rightarrow> ucast (ucast w :: u16)
        | PTRDIFFT \<Rightarrow> scast w AND (push_bit 1 0x7fffffff OR 1)
        | _ \<Rightarrow> ucast w, args)
      })"

section \<open>Parsing a conversion\<close>

fun parse_flags :: "u8 list \<Rightarrow> u32 \<Rightarrow> (u8 list \<times> u32) option" where
  "parse_flags [] flags = None"
| "parse_flags (c # format) flags =
     (if c = 45 then parse_flags format (flags OR MINUS)
      else if c = 43 then parse_flags format (flags OR PLUS)
      else if c = 32 then parse_flags format (flags OR SPACE)
      else if c = 35 then parse_flags format (flags OR POUND)
      else if c = 48 then parse_flags format (flags OR ZERO)
      else if c = 39 then parse_flags format (flags OR GROUP)
      else Some (c # format, flags))"

fun parse_digits :: "u8 list \<Rightarrow> i32 \<Rightarrow> (u8 list \<times> i32) option" where
  "parse_digits [] n = None"
| "parse_digits (c # format) n =
     (if isdigit c then parse_digits format (n * 10 + ucast c - 48) else Some (c # format, n))"

text \<open>A number, or an asterisk for the next argument.\<close>

fun parse_number :: "u8 list \<Rightarrow> u32 list \<Rightarrow> (i32 \<times> u8 list \<times> u32 list) option" where
  "parse_number [] args = None"
| "parse_number (c # format) args =
     (if c = 42 then do { (w, args) \<leftarrow> va_word args; Some (w, format, args) }
      else do { (format, n) \<leftarrow> parse_digits (c # format) 0; Some (n, format, args) })"

fun parse_type :: "u8 list \<Rightarrow> (int_type \<times> u8 list) option" where
  "parse_type [] = None"
| "parse_type (c # format) =
     (if c = 104 then (case format of [] \<Rightarrow> None | d # format' \<Rightarrow> Some (if d = 104 then (CHAR_t, format') else (SHORT, format)))
      else if c = 106 then Some (INTMAX, format)
      else if c = 108 then (case format of [] \<Rightarrow> None | d # format' \<Rightarrow> Some (if d = 108 then (LONGLONG, format') else (LONG, format)))
      else if c = 116 then Some (PTRDIFFT, format)
      else if c = 122 then Some (SIZET, format)
      else Some (INT_t, c # format))"

definition parse_conversion :: "u8 list \<Rightarrow> u32 list \<Rightarrow> (u8 list \<times> printf_conversion \<times> u32 list) option" where
  "parse_conversion format args = do {
     (format, flags) \<leftarrow> parse_flags format 0;
     let flags = (if flags AND MINUS \<noteq> 0 then flags AND NOT ZERO else flags);
     let flags = (if flags AND PLUS \<noteq> 0 then flags AND NOT SPACE else flags);
     (width, format, args) \<leftarrow> parse_number format args;
     let (width, flags) = (if sint width < 0 then (- width, flags OR MINUS) else (width, flags));
     (precision, format, args) \<leftarrow>
       (case format of
          [] \<Rightarrow> None
        | c # format' \<Rightarrow>
            if c = 46 then do {
              (n, format, args) \<leftarrow> parse_number format' args;
              Some (if sint n < 0 then - 1 else n, format, args)
            }
            else Some (- 1, format, args));
     let flags = (if sint precision \<ge> 0 then flags AND NOT ZERO else flags);
     (type, format) \<leftarrow> parse_type format;
     Some (format, \<lparr>cv_flags = flags, cv_width = width, cv_precision = precision, cv_type = type\<rparr>, args)
   }"

section \<open>Integers\<close>

text \<open>The digits in reverse order; \<open>value\<close> is what is left of the number, \<open>cnt\<close> the number of digits so far.\<close>

partial_function (option) digits_loop :: "integer_base \<Rightarrow> bool \<Rightarrow> nat \<Rightarrow> nat \<Rightarrow> u8 list \<Rightarrow> u8 list option" where
  "digits_loop b grouped value cnt buf =
     (if value > 0
      then do {
        let buf = (if grouped \<and> cnt > 0 \<and> cnt mod ib_group b = 0 then buf @ [44] else buf);
        ASSERT (value mod ib_base b < length (ib_digits b));
        digits_loop b grouped (value div ib_base b) (cnt + 1) (buf @ [ib_digits b ! (value mod ib_base b)])
      }
      else Some buf)"

function zeros_loop :: "int \<Rightarrow> u8 list \<Rightarrow> u8 list" where
  "zeros_loop precision buf = (if int (length buf) < precision \<and> length buf < 63 then zeros_loop precision (buf @ [48]) else buf)"
  by pat_completeness auto
termination
  by (relation "measure (\<lambda>(_, buf). 63 - length buf)") auto

declare zeros_loop.simps [simp del]

definition output_dup :: "u8 \<Rightarrow> nat \<Rightarrow> u8 list" where
  "output_dup ch cnt = replicate cnt ch"

text \<open>The sign character, if any.\<close>

definition integer_sign :: "bool \<Rightarrow> bool \<Rightarrow> printf_conversion \<Rightarrow> u8 list" where
  "integer_sign is_signed negative c =
     (if \<not> is_signed then []
      else if cv_flags c AND PLUS \<noteq> 0 then [if negative then 45 else 43]
      else if cv_flags c AND SPACE \<noteq> 0 then [if negative then 45 else 32]
      else if negative then [45] else [])"

text \<open>The sign, the prefix and the digits of the buffer in a field of the width that is asked for.\<close>

definition integer_field :: "u8 list \<Rightarrow> u8 list \<Rightarrow> u8 list \<Rightarrow> printf_conversion \<Rightarrow> u8 list" where
  "integer_field sign x buf c =
     (let pad_cnt = cv_width c - word_of_nat (length buf) - word_of_nat (length x) - word_of_nat (length sign);
          pad = (if sint pad_cnt < 0 then 0 else nat (sint pad_cnt)) in
      (if cv_flags c AND (MINUS OR ZERO) = 0 then output_dup 32 pad else []) @ sign @ x
      @ (if cv_flags c AND ZERO \<noteq> 0 then output_dup 48 pad else []) @ rev buf
      @ (if cv_flags c AND MINUS \<noteq> 0 then output_dup 32 pad else []))"

text \<open>The buffer has 64 bytes.\<close>

definition format_integer :: "u64 \<Rightarrow> bool \<Rightarrow> bool \<Rightarrow> integer_base \<Rightarrow> printf_conversion \<Rightarrow> u8 list option" where
  "format_integer value is_signed negative b c = do {
     let x = (if cv_flags c AND POUND \<noteq> 0 \<and> value \<noteq> 0 \<and> ib_x b \<noteq> 0 then [48, ib_x b] else []);
     buf \<leftarrow> digits_loop b (cv_flags c AND GROUP \<noteq> 0) (unat value) 0 [];
     let buf = zeros_loop (if sint (cv_precision c) < 0 then 1 else sint (cv_precision c)) buf;
     let buf = (if cv_flags c AND POUND \<noteq> 0 \<and> ib_base b = 8 \<and> (buf = [] \<or> last buf \<noteq> 48) then buf @ [48] else buf);
     ASSERT (length buf \<le> 64);
     Some (integer_field (integer_sign is_signed negative c) x buf c)
   }"

section \<open>Strings\<close>

text \<open>The bytes that are read one after the other.\<close>

fun load_bytes :: "bmem \<Rightarrow> addr \<Rightarrow> nat \<Rightarrow> u8 list option" where
  "load_bytes m p 0 = Some []"
| "load_bytes m p (Suc n) = do { b \<leftarrow> load m p; bs \<leftarrow> load_bytes m (p + 1) n; Some (b # bs) }"

definition format_string :: "u8 list \<Rightarrow> printf_conversion \<Rightarrow> u8 list" where
  "format_string string c = (let n = int (length string); pad = output_dup 32 (nat (sint (cv_width c) - n)) in
     (if sint (cv_width c) > n \<and> cv_flags c AND MINUS = 0 then pad else []) @ string
     @ (if sint (cv_width c) > n \<and> cv_flags c AND MINUS \<noteq> 0 then pad else []))"

section \<open>Formatting\<close>

text \<open>One conversion: the characters it puts out and the arguments that are left.\<close>

definition convert :: "bmem \<Rightarrow> u8 \<Rightarrow> printf_conversion \<Rightarrow> u32 list \<Rightarrow> (u8 list \<times> u32 list) option" where
  "convert m ch c args =
     (if ch = 100 \<or> ch = 105 then do {
        (value, args) \<leftarrow> signed_arg (cv_type c) args;
        out \<leftarrow> format_integer (if sint value < 0 then - value else value) True (sint value < 0) base_d c;
        Some (out, args)
      }
      else if ch \<in> {111, 117, 120, 88} then do {
        (value, args) \<leftarrow> unsigned_arg (cv_type c) args;
        out \<leftarrow> format_integer value False False
          (if ch = 111 then base_o else if ch = 117 then base_d else if ch = 120 then base_x else base_X) c;
        Some (out, args)
      }
      else if ch = 99 then do { (w, args) \<leftarrow> va_word args; Some (format_string [ucast w] c, args) }
      else if ch = 115 then do {
        (s, args) \<leftarrow> va_word args;
        string \<leftarrow> (if s = 0 then Some (take (unat (cv_precision c)) [40, 110, 117, 108, 108, 41])
                   else do { n \<leftarrow> strnlen m (unat s) (unat (cv_precision c)); load_bytes m (unat s) n });
        Some (format_string string c, args)
      }
      else if ch = 112 then do {
        (p, args) \<leftarrow> va_word args;
        out \<leftarrow> format_integer (ucast p) False False base_x (c\<lparr>cv_flags := POUND\<rparr>);
        Some (out, args)
      }
      else if ch \<in> {102, 101, 69, 103, 71, 110}
      then Some ([60, 60, 110, 111, 32, 37, ch, 32, 105, 110, 32, 107, 101, 114, 110, 101, 108, 62, 62], args)
      else Some ([60, 60, 110, 111, 32, 37, ch, 32, 99, 111, 110, 118, 101, 114, 115, 105, 111, 110, 62, 62], args))"

text \<open>The function \<open>__vprintf\<close>.\<close>

partial_function (option) vprintf :: "bmem \<Rightarrow> u8 list \<Rightarrow> u32 list \<Rightarrow> u8 list option" where
  "vprintf m format args =
     (if format = [] then None
      else if hd format = 0 then Some []
      else if hd format \<noteq> 37 then do { out \<leftarrow> vprintf m (tl format) args; Some (hd format # out) }
      else if tl format \<noteq> [] \<and> hd (tl format) = 37 then do { out \<leftarrow> vprintf m (tl (tl format)) args; Some (37 # out) }
      else do {
        (format, c, args) \<leftarrow> parse_conversion (tl format) args;
        ASSERT (format \<noteq> []);
        (out, args) \<leftarrow> convert m (hd format) c args;
        out' \<leftarrow> vprintf m (tl format) args;
        Some (out @ out')
      })"

section \<open>Formatting into a buffer\<close>

fun vsnprintf_helper :: "u8 \<Rightarrow> i32 \<Rightarrow> bmem \<times> addr \<times> i32 \<Rightarrow> (bmem \<times> addr \<times> i32) option" where
  "vsnprintf_helper ch max_length (m, p, len) =
     (if sint len < sint max_length then do { m \<leftarrow> store m p ch; Some (m, p + 1, len + 1) } else Some (m, p, len + 1))"

text \<open>The output function is called with the characters in their order.\<close>

fun vsnprintf_out :: "u8 list \<Rightarrow> i32 \<Rightarrow> bmem \<times> addr \<times> i32 \<Rightarrow> (bmem \<times> addr \<times> i32) option" where
  "vsnprintf_out [] max_length aux = Some aux"
| "vsnprintf_out (ch # out) max_length aux = do { aux \<leftarrow> vsnprintf_helper ch max_length aux; vsnprintf_out out max_length aux }"

definition vsnprintf :: "bmem \<Rightarrow> addr \<Rightarrow> nat \<Rightarrow> u8 list \<Rightarrow> u32 list \<Rightarrow> (i32 \<times> bmem) option" where
  "vsnprintf m buffer buf_size format args = do {
     out \<leftarrow> vprintf m format args;
     (m, p, len) \<leftarrow> vsnprintf_out out (if buf_size > 0 then word_of_nat (buf_size - 1) else 0) (m, buffer, 0);
     m \<leftarrow> (if buf_size > 0 then store m p 0 else Some m);
     Some (len, m)
   }"

section \<open>Dumps and sizes on the console\<close>

text \<open>A format literal; \<open>printf\<close> passes its characters to the console.\<close>

abbreviation cfmt :: "string \<Rightarrow> u8 list" where
  "cfmt s \<equiv> map of_char s @ [0]"

abbreviation isprint :: "u8 \<Rightarrow> bool" where
  "isprint c \<equiv> 32 \<le> c \<and> c < 127"

text \<open>The first argument is the number of rounds of a counting loop that are left.\<close>

fun printf_times :: "nat \<Rightarrow> bmem \<Rightarrow> u8 list \<Rightarrow> u8 list option" where
  "printf_times 0 m format = Some []"
| "printf_times (Suc n) m format = do { out \<leftarrow> vprintf m format []; out' \<leftarrow> printf_times n m format; Some (out @ out') }"

fun dump_hex :: "nat \<Rightarrow> bmem \<Rightarrow> addr \<Rightarrow> nat \<Rightarrow> u8 list option" where
  "dump_hex 0 m p i = Some []"
| "dump_hex (Suc n) m p i = do {
     b \<leftarrow> load m p;
     out \<leftarrow> vprintf m (cfmt ''%02hhx%c'') [ucast b, if i = 16 div 2 - 1 then 45 else 32];
     out' \<leftarrow> dump_hex n m (p + 1) (i + 1);
     Some (out @ out')
   }"

fun dump_ascii :: "nat \<Rightarrow> bmem \<Rightarrow> addr \<Rightarrow> u8 list option" where
  "dump_ascii 0 m p = Some []"
| "dump_ascii (Suc n) m p = do {
     b \<leftarrow> load m p;
     out \<leftarrow> vprintf m (cfmt ''%c'') [if isprint b then ucast b else 46];
     out' \<leftarrow> dump_ascii n m (p + 1);
     Some (out @ out')
   }"

definition dump_line :: "bmem \<Rightarrow> u32 \<Rightarrow> addr \<Rightarrow> nat \<Rightarrow> nat \<Rightarrow> bool \<Rightarrow> u8 list option" where
  "dump_line m ofs buf start n ascii = do {
     offset \<leftarrow> vprintf m (cfmt ''%08jx  '') [ofs div 16 * 16, 0];
     before \<leftarrow> printf_times start m (cfmt ''   '');
     hex \<leftarrow> dump_hex n m buf start;
     right \<leftarrow>
       (if ascii then do {
          gap \<leftarrow> printf_times (16 - (start + n)) m (cfmt ''   '');
          bar \<leftarrow> vprintf m (cfmt ''|'') [];
          left \<leftarrow> printf_times start m (cfmt '' '');
          chars \<leftarrow> dump_ascii n m buf;
          rest \<leftarrow> printf_times (16 - (start + n)) m (cfmt '' '');
          bar' \<leftarrow> vprintf m (cfmt ''|'') [];
          Some (gap @ bar @ left @ chars @ rest @ bar')
        }
        else Some []);
     Some (offset @ before @ hex @ right @ [10])
   }"

function hex_dump :: "bmem \<Rightarrow> u32 \<Rightarrow> addr \<Rightarrow> nat \<Rightarrow> bool \<Rightarrow> u8 list option" where
  "hex_dump m ofs buf sz ascii =
     (if sz = 0 then Some []
      else do {
        let start = unat ofs mod 16;
        let stop = (if 16 - start > sz then start + sz else 16);
        let n = stop - start;
        line \<leftarrow> dump_line m ofs buf start n ascii;
        rest \<leftarrow> hex_dump m (ofs + word_of_nat n) (buf + n) (sz - n) ascii;
        Some (line @ rest)
      })"
  by pat_completeness auto
termination
  by (relation "measure (\<lambda>(m, ofs, buf, sz, ascii). sz)") (auto simp: Let_def split: if_splits)

declare hex_dump.simps [simp del]

text \<open>
  The size in the largest unit, with the names of the units that are left.  The name is a string
  literal, which \<open>%s\<close> prints as it is.
\<close>

fun scale_size :: "nat \<Rightarrow> string list \<Rightarrow> nat \<times> string list" where
  "scale_size sz fp = (case fp of
     f # g # fs \<Rightarrow> if sz \<ge> 1024 then scale_size (sz div 1024) (g # fs) else (sz, fp)
   | _ \<Rightarrow> (sz, fp))"

definition print_human_readable_size :: "bmem \<Rightarrow> u64 \<Rightarrow> u8 list option" where
  "print_human_readable_size m sz =
     (if sz = 1 then vprintf m (cfmt ''1 byte'') []
      else do {
        let (n, fp) = scale_size (unat sz) [''bytes'', ''kB'', ''MB'', ''GB'', ''TB''];
        out \<leftarrow> vprintf m (cfmt ''%llu '') [word_of_nat n, word_of_nat (n div 2 ^ 32)];
        Some (out @ map of_char (hd fp))
      })"

section \<open>The digit buffer never overflows\<close>

abbreviation known_base :: "integer_base \<Rightarrow> bool" where
  "known_base b \<equiv> b \<in> {base_d, base_o, base_x, base_X}"

lemma digits_loop_total:
  assumes "2 \<le> ib_base b" "length (ib_digits b) = ib_base b" "n < ib_base b ^ k"
  shows "\<exists>out. digits_loop b grouped n cnt buf = Some out \<and> length out \<le> length buf + 2 * k"
  using assms(3)
proof (induction k arbitrary: n cnt buf)
  case (Suc k)
  let ?buf = "(if grouped \<and> cnt > 0 \<and> cnt mod ib_group b = 0 then buf @ [44] else buf) @ [ib_digits b ! (n mod ib_base b)]"
  show ?case
  proof (cases "n = 0")
    case False
    have "n div ib_base b < ib_base b ^ k"
      using Suc.prems by (simp add: less_mult_imp_div_less mult.commute)
    then obtain out where "digits_loop b grouped (n div ib_base b) (cnt + 1) ?buf = Some out" "length out \<le> length ?buf + 2 * k"
      using Suc.IH by blast
    moreover have "length ?buf \<le> length buf + 2"
      by simp
    ultimately show ?thesis
      using False assms(1,2) by (subst digits_loop.simps) (auto simp: Let_def)
  qed (subst digits_loop.simps, simp)
qed (subst digits_loop.simps, simp)

lemma digits_loop_known:
  assumes "known_base b"
  shows "\<exists>out. digits_loop b grouped (unat (value :: u64)) 0 [] = Some out \<and> length out \<le> 44"
proof -
  have b: "8 \<le> ib_base b" "length (ib_digits b) = ib_base b"
    using assms by (auto simp: base_d_def)
  have "unat value < 2 ^ LENGTH(64)"
    by (rule unsigned_less)
  also have "\<dots> = 2 ^ 64"
    by simp
  also have "\<dots> \<le> (8 :: nat) ^ 22"
    by simp
  also have "\<dots> \<le> ib_base b ^ 22"
    using b(1) by (rule power_mono) simp
  finally show ?thesis
    using digits_loop_total [of b "unat value" 22 grouped 0 "[]"] b by simp
qed

lemma zeros_loop_length: "length buf \<le> 63 \<Longrightarrow> length (zeros_loop precision buf) \<le> 63"
proof (induction precision buf rule: zeros_loop.induct)
  case (1 precision buf)
  show ?case
    using 1 by (subst zeros_loop.simps) simp
qed

theorem format_integer_total:
  assumes "known_base b"
  shows "\<exists>out. format_integer value is_signed negative b c = Some out"
proof -
  obtain ds where "digits_loop b (cv_flags c AND GROUP \<noteq> 0) (unat value) 0 [] = Some ds" "length ds \<le> 44"
    using digits_loop_known [OF assms] by blast
  moreover have "length (zeros_loop precision ds) \<le> 63" "length (zeros_loop precision ds) \<le> 64" for precision
    using zeros_loop_length [of ds precision] \<open>length ds \<le> 44\<close> by simp_all
  ultimately show ?thesis
    by (simp add: format_integer_def Let_def)
qed

section \<open>Decimal numbers\<close>

fun rdigits :: "nat \<Rightarrow> u8 list" where
  "rdigits n = (if n = 0 then [] else (48 + word_of_nat (n mod 10)) # rdigits (n div 10))"

declare rdigits.simps [simp del]

definition decimal :: "nat \<Rightarrow> u8 list" where
  "decimal n = (if n = 0 then [48] else rev (rdigits n))"

lemma digit_cases: "(d :: nat) < 10 \<Longrightarrow> d \<in> {0, 1, 2, 3, 4, 5, 6, 7, 8, 9}"
  by auto

lemma base_d_digit: "d < 10 \<Longrightarrow> ib_digits base_d ! d = 48 + word_of_nat d"
  using digit_cases [of d] by (auto simp: base_d_def)

lemma base_d_base [simp]: "ib_base base_d = 10" "length (ib_digits base_d) = 10"
  by (simp_all add: base_d_def)

lemma digits_loop_decimal: "digits_loop base_d False n cnt buf = Some (buf @ rdigits n)"
proof (induction n arbitrary: cnt buf rule: rdigits.induct)
  case (1 n)
  show ?case
  proof (cases "n = 0")
    case False
    then have "digits_loop base_d False (n div 10) (cnt + 1) (buf @ [ib_digits base_d ! (n mod 10)])
        = Some ((buf @ [ib_digits base_d ! (n mod 10)]) @ rdigits (n div 10))"
      using 1 by blast
    with False show ?thesis
      by (subst digits_loop.simps, subst rdigits.simps) (simp add: base_d_digit)
  qed (subst digits_loop.simps, subst rdigits.simps, simp)
qed

lemma digit_isdigit: "d < 10 \<Longrightarrow> isdigit (48 + word_of_nat d)"
  using digit_cases [of d] by (auto simp: isdigit_def)

lemma digit_value: "d < 10 \<Longrightarrow> ucast (48 + word_of_nat d :: u8) - 48 = (word_of_nat d :: i32)"
  using digit_cases [of d] by auto

lemma rdigits_isdigit: "c \<in> set (rdigits n) \<Longrightarrow> isdigit c"
proof (induction n rule: rdigits.induct)
  case (1 n)
  then show ?case
    using rdigits.simps [of n] by (auto simp: digit_isdigit split: if_splits)
qed

lemma rdigits_Nil [simp]: "rdigits n = [] \<longleftrightarrow> n = 0"
  by (subst rdigits.simps) simp

lemma rdigits_0 [simp]: "rdigits 0 = []"
  by simp

lemma length_rdigits: "n < 10 ^ k \<Longrightarrow> length (rdigits n) \<le> k"
proof (induction k arbitrary: n)
  case (Suc k)
  then show ?case
    by (subst rdigits.simps) (simp add: less_mult_imp_div_less mult.commute)
qed simp

lemma decimal_isdigit: "c \<in> set (decimal n) \<Longrightarrow> isdigit c"
  by (cases "n = 0") (simp add: decimal_def isdigit_def, simp add: decimal_def rdigits_isdigit)

lemma decimal_not_Nil [simp]: "decimal n \<noteq> []"
  by (simp add: decimal_def)

lemma length_decimal: "n < 10 ^ k \<Longrightarrow> 0 < k \<Longrightarrow> length (decimal n) \<le> k"
  by (simp add: decimal_def length_rdigits)

subsection \<open>Printing\<close>

abbreviation plain :: printf_conversion where
  "plain \<equiv> \<lparr>cv_flags = 0, cv_width = 0, cv_precision = - 1, cv_type = INT_t\<rparr>"

lemma zeros_loop_one: "zeros_loop 1 buf = (if buf = [] then [48] else buf)"
  by (subst zeros_loop.simps, subst zeros_loop.simps) auto

lemma sint_word_of_nat: "k < 2 ^ 31 \<Longrightarrow> sint (word_of_nat k :: i32) = int k"
  using signed_take_bit_int_eq_self [of 31 "int k"] by (simp add: signed_of_nat)

lemma sint_minus_word_of_nat: "k < 2 ^ 31 \<Longrightarrow> sint (- word_of_nat k :: i32) = - int k"
proof -
  assume k: "k < 2 ^ 31"
  have "sint (word_of_int (- int k) :: i32) = signed_take_bit 31 (- int k)"
    by (subst signed_of_int) simp
  also have "\<dots> = - int k"
    using k by (intro signed_take_bit_int_eq_self) simp_all
  finally show ?thesis
    by simp
qed

lemma integer_field_plain:
  assumes "length buf + length sign < 2 ^ 31"
  shows "integer_field sign [] buf plain = sign @ rev buf"
proof -
  have "- word_of_nat (length buf) - word_of_nat (length sign) = (- word_of_nat (length buf + length sign) :: i32)"
    by simp
  then have "sint (- word_of_nat (length buf) - word_of_nat (length sign) :: i32) = - int (length buf + length sign)"
    by (simp only: sint_minus_word_of_nat [OF assms])
  then show ?thesis
    by (simp add: integer_field_def output_dup_def Let_def)
qed

lemma format_integer_decimal:
  "format_integer value True negative base_d plain = Some ((if negative then [45] else []) @ decimal (unat value))"
proof -
  have "length (rdigits (unat value)) \<le> 44"
    using digits_loop_known [of base_d False "value"] by (simp add: digits_loop_decimal)
  then show ?thesis
    by (simp add: format_integer_def digits_loop_decimal zeros_loop_one integer_sign_def integer_field_plain decimal_def)
qed

definition decimal_int :: "i32 \<Rightarrow> u8 list" where
  "decimal_int n = (if sint n < 0 then [45] else []) @ decimal (nat \<bar>sint n\<bar>)"

lemma sint_scast64: "sint (scast (n :: i32) :: i64) = sint n"
proof -
  have "signed_take_bit 63 (sint n) = sint n"
    using sint_ge [of n] sint_lt [of n] by (intro signed_take_bit_int_eq_self) simp_all
  then show ?thesis
    by (simp add: signed_scast_eq)
qed

lemma unat_abs64: "unat (if sint (v :: i64) < 0 then - v else v) = nat \<bar>sint v\<bar>"
proof -
  let ?k = "nat \<bar>sint v\<bar>"
  have "(if sint v < 0 then - v else v) = word_of_nat ?k"
    by (cases "sint v < 0") (simp_all add: of_nat_nat)
  moreover have "?k < 2 ^ LENGTH(64)"
    using sint_ge [of v] sint_lt [of v] by simp
  ultimately show ?thesis
    by (simp only: unsigned_of_nat take_bit_nat_eq_self of_nat_id)
qed

lemma vprintf_d: "vprintf m (cfmt ''%d'') [n] = Some (decimal_int n)"
proof -
  have "parse_conversion [100, 0] [n] = Some ([100, 0], plain, [n])"
    by (simp add: parse_conversion_def isdigit_def)
  moreover have "convert m 100 plain [n] = Some (decimal_int n, [])"
    by (simp add: convert_def signed_arg_def format_integer_decimal unat_abs64 sint_scast64 decimal_int_def)
  moreover have "vprintf m [0] [] = Some []"
    by (subst vprintf.simps) simp
  ultimately show ?thesis
    by (subst vprintf.simps) simp
qed

subsection \<open>Reading back\<close>

lemma atoi_digits_cstr:
  assumes "cstr m p s" "\<And>c. c \<in> set s \<Longrightarrow> isdigit c"
  shows "atoi_digits m p value = Some (foldl (\<lambda>v c. v * 10 - (ucast c - 48)) value s)"
  using assms
proof (induction s arbitrary: p "value")
  case (Cons c s)
  then show ?case
    by (subst atoi_digits.simps) simp
next
  case Nil
  then show ?case
    by (subst atoi_digits.simps) (simp add: isdigit_def)
qed

lemma decimal_value: "foldl (\<lambda>v c. v * 10 - (ucast c - 48)) 0 (decimal n) = - (word_of_nat n :: i32)"
proof -
  have "foldr (\<lambda>c v. v * 10 - (ucast c - 48)) (rdigits n) 0 = - (word_of_nat n :: i32)"
  proof (induction n rule: rdigits.induct)
    case (1 n)
    show ?case
    proof (cases "n = 0")
      case False
      have "word_of_nat n = (word_of_nat (10 * (n div 10) + n mod 10) :: i32)"
        by simp
      also have "\<dots> = 10 * word_of_nat (n div 10) + word_of_nat (n mod 10)"
        by (simp only: of_nat_add of_nat_mult) simp
      finally show ?thesis
        using 1 False by (subst rdigits.simps) (simp add: digit_value)
    qed simp
  qed
  then show ?thesis
    by (cases "n = 0") (simp_all add: decimal_def foldl_conv_foldr)
qed

lemma atoi_space_none: "load m p = Some c \<Longrightarrow> \<not> isspace c \<Longrightarrow> atoi_space m p = Some p"
  by (subst atoi_space.simps) simp

lemma isdigit_not_special: "isdigit c \<Longrightarrow> \<not> isspace c \<and> c \<noteq> 43 \<and> c \<noteq> 45"
  by (auto simp: isdigit_def isspace_def)

lemma word_of_nat_abs: "word_of_nat (nat \<bar>sint n\<bar>) = (if sint n < 0 then - n else (n :: i32))"
  by (cases "sint n < 0") (simp_all add: of_nat_nat)

lemma atoi_decimal_int:
  assumes "cstr m p (decimal_int n)"
  shows "atoi m p = Some n"
proof (cases "sint n < 0")
  case True
  then have "load m p = Some 45" "cstr m (p + 1) (decimal (nat \<bar>sint n\<bar>))"
    using assms by (simp_all add: decimal_int_def)
  then have "atoi_digits m (p + 1) 0 = Some n" "atoi_space m p = Some p"
    using True by (simp_all add: atoi_digits_cstr decimal_isdigit decimal_value word_of_nat_abs atoi_space_none isspace_def)
  then show ?thesis
    using \<open>load m p = Some 45\<close> cstr_nonnull [OF assms] by (simp add: atoi_def)
next
  case False
  then have s: "cstr m p (decimal (nat \<bar>sint n\<bar>))"
    using assms by (simp add: decimal_int_def)
  then have *: "atoi_digits m p 0 = Some (- n)"
    using False by (simp add: atoi_digits_cstr decimal_isdigit decimal_value word_of_nat_abs)
  obtain c cs where c: "decimal (nat \<bar>sint n\<bar>) = c # cs"
    by (meson decimal_not_Nil neq_Nil_conv)
  then have "load m p = Some c" "isdigit c"
    using s decimal_isdigit [of c "nat \<bar>sint n\<bar>"] by simp_all
  moreover from this have "atoi_space m p = Some p"
    by (simp add: atoi_space_none isdigit_not_special)
  ultimately show ?thesis
    using * cstr_nonnull [OF assms] isdigit_not_special [of c] by (simp add: atoi_def)
qed

section \<open>Buffers\<close>

lemma writable_nonnull: "writable m p n \<Longrightarrow> 0 < n \<Longrightarrow> p \<noteq> 0"
  using writable_null [of m n] by (cases "p = 0") auto

lemma vsnprintf_out_correct:
  assumes "writable m p (mx - k)" "mx < 2 ^ 31" "k + length out < 2 ^ 31"
  shows "vsnprintf_out out (word_of_nat mx) (m, p, word_of_nat k)
    = Some (patch m p (take (mx - k) out), p + min (mx - k) (length out), word_of_nat (k + length out))"
  using assms
proof (induction out arbitrary: m p k)
  case (Cons ch out)
  have k: "word_of_nat k + 1 = (word_of_nat (k + 1) :: i32)"
    by simp
  show ?case
  proof (cases "k < mx")
    case True
    then obtain d where d: "mx - k = Suc d" "mx - (k + 1) = d"
      by (metis Suc_diff_Suc add.commute plus_1_eq_Suc)
    then have w: "store m p ch = Some (m(p \<mapsto> ch))" "writable (m(p \<mapsto> ch)) (p + 1) (mx - (k + 1))"
      using Cons.prems(1) by (simp_all add: writable_Suc store_ok)
    have "vsnprintf_out out (word_of_nat mx) (m(p \<mapsto> ch), p + 1, word_of_nat (k + 1))
        = Some (patch (m(p \<mapsto> ch)) (p + 1) (take (mx - (k + 1)) out), p + 1 + min (mx - (k + 1)) (length out),
                word_of_nat (k + 1 + length out))"
      using Cons.IH [OF w(2) Cons.prems(2)] Cons.prems(3) by (simp del: fun_upd_apply)
    then show ?thesis
      using Cons.prems True d w(1) by (simp add: sint_word_of_nat k patch_Cons del: of_nat_Suc of_nat_add)
  next
    case False
    then show ?thesis
      using Cons.IH [of m p "k + 1"] Cons.prems by (simp add: sint_word_of_nat k del: of_nat_Suc of_nat_add)
  qed
qed simp

lemma patch_upd_end: "(patch m p bs)(p + length bs \<mapsto> b) = patch m p (bs @ [b])"
  by (rule ext) (auto simp: patch_def nth_append)

lemma vsnprintf_patch:
  assumes "vprintf m format args = Some out" "writable m buffer n" "0 < n" "n \<le> 2 ^ 31" "length out < 2 ^ 31"
  shows "vsnprintf m buffer n format args
    = Some (word_of_nat (length out), patch m buffer (take (n - 1) out @ [0]))"
proof -
  obtain d where d: "n = Suc d"
    using assms(3) by (cases n) auto
  let ?k = "min d (length out)"
  have "writable m buffer d" "load m (buffer + ?k) \<noteq> None"
    using assms(2) d by (simp_all add: writable_def)
  moreover have "buffer \<noteq> 0"
    using assms(2,3) by (rule writable_nonnull)
  ultimately have "load (patch m buffer (take d out)) (buffer + ?k) \<noteq> None"
    by (simp add: load_patch)
  then show ?thesis
    using assms(1,4,5) vsnprintf_out_correct [of m buffer d 0 out] \<open>writable m buffer d\<close> d
      patch_upd_end [of m buffer "take d out" 0]
    by (simp add: vsnprintf_def store_ok min.commute)
qed

text \<open>
  C40: \<open>vsnprintf\<close> into a buffer of at most 2 GB.  Whatever the format and the arguments put out, only
  the buffer is written, it then holds the longest prefix of the output that fits, as a string with its
  terminator, and the result is the length of the whole output.
\<close>

theorem vsnprintf_correct:
  assumes "vprintf m format args = Some out" and "0 \<notin> set out" and "length out < 2 ^ 31"
    and "writable m buffer n" and "0 < n" and "n \<le> 2 ^ 31"
  shows "\<exists>m'. vsnprintf m buffer n format args = Some (word_of_nat (length out), m')
    \<and> cstr m' buffer (take (n - 1) out) \<and> (\<forall>a. a < buffer \<or> buffer + n \<le> a \<longrightarrow> m' a = m a)"
proof (intro exI conjI)
  have "buffer \<noteq> 0"
    using assms(4,5) by (rule writable_nonnull)
  then show "cstr (patch m buffer (take (n - 1) out @ [0])) buffer (take (n - 1) out)"
    using assms(2) by (auto simp: cstr_def block_patch dest: in_set_takeD)
  show "\<forall>a. a < buffer \<or> buffer + n \<le> a \<longrightarrow> patch m buffer (take (n - 1) out @ [0]) a = m a"
    using assms(5) by (auto simp: patch_def)
qed (rule vsnprintf_patch [OF assms(1,4,5,6,3)])

lemma decimal_int_nonzero: "0 \<notin> set (decimal_int n)"
  using decimal_isdigit [of 0] by (auto simp: decimal_int_def isdigit_def)

lemma length_decimal_int: "length (decimal_int n) \<le> 11"
proof -
  have "nat \<bar>sint n\<bar> < 10 ^ 10"
    using sint_ge [of n] sint_lt [of n] by simp
  then have "length (decimal (nat \<bar>sint n\<bar>)) \<le> 10"
    by (rule length_decimal) simp
  then show ?thesis
    by (cases "sint n < 0") (simp_all add: decimal_int_def)
qed

text \<open>
  C39: Every 32-bit integer that is printed with \<open>%d\<close> into a buffer of 12 bytes or more is read
  back by \<open>atoi\<close>, the most negative one included.
\<close>

theorem snprintf_atoi:
  assumes "writable m buffer n" and "12 \<le> n" and "n \<le> 2 ^ 31"
  shows "\<exists>len m'. vsnprintf m buffer n (cfmt ''%d'') [i] = Some (len, m') \<and> atoi m' buffer = Some i"
proof -
  have "buffer \<noteq> 0"
    using writable_nonnull [OF assms(1)] assms(2) by linarith
  then have "cstr (patch m buffer (decimal_int i @ [0])) buffer (decimal_int i)"
    by (simp add: cstr_def block_patch decimal_int_nonzero)
  moreover have "take (n - 1) (decimal_int i) = decimal_int i" "length (decimal_int i) < 2 ^ 31"
    using length_decimal_int [of i] assms(2) by simp_all
  ultimately show ?thesis
    using vsnprintf_patch [OF vprintf_d assms(1) _ assms(3), of i] atoi_decimal_int assms(2) by fastforce
qed

theorem vsnprintf_correct_witness:
  "\<exists>m'. vsnprintf [10 \<mapsto> 9, 11 \<mapsto> 9] 10 2 (cfmt ''%d'') [42] = Some (word_of_nat (length (decimal_int 42)), m')
    \<and> cstr m' 10 (take (2 - 1) (decimal_int 42)) \<and> (\<forall>a. a < 10 \<or> 10 + 2 \<le> a \<longrightarrow> m' a = [10 \<mapsto> 9, 11 \<mapsto> 9] a)"
proof (rule vsnprintf_correct [OF vprintf_d])
  show "0 \<notin> set (decimal_int 42)"
    by (rule decimal_int_nonzero)
  show "writable [10 \<mapsto> 9, 11 \<mapsto> 9] 10 2"
    by (simp add: writable_Suc numeral_2_eq_2 load_def)
qed (use length_decimal_int [of 42] in simp_all)

theorem snprintf_atoi_witness:
  "\<exists>len m'. vsnprintf (\<lambda>_. Some 9) 10 16 (cfmt ''%d'') [- 42] = Some (len, m') \<and> atoi m' 10 = Some (- 42)"
  by (rule snprintf_atoi) (simp_all add: writable_def load_def)

end
