(* ===== verification/Spec2Isabelle.thy ===== *)
theory Spec2Isabelle
  imports Arith64 Klist_Sort Palloc Pagedir_Correct Khash_Correct Kernel_Inv Filesys_Correct Exceptions Sleep_Fair Stdio
begin

text \<open>
  A verification library for the PintOS kernel under \<open>src/pintos/src\<close>, a teaching kernel for the
  i386 with priority scheduling, a feedback-queue scheduler, user processes, demand paging with
  swapping and a simple file system.  This text says how the theories correspond to the sources,
  what is proved, which choices the models make, and what is left out.

  \<^bold>\<open>The program.\<close>  The kernel runs threads, of which one has the processor.  The timer interrupts it,
  wakes sleeping threads and preempts.  Threads wait in the queues of semaphores, on which locks and
  condition variables are built.  A page allocator hands out frames to threads, page directories
  and user pages.  A user process is a thread with a page directory and a table of the pages it may
  touch; a page fault brings a page in from the executable or from swap, and evicts another one when
  the frames run out.  System calls reach the file system, in which directories are files of
  entries, files are inodes with a run of consecutive sectors, and a free map says which sectors are
  in use.  Below all of this lies a library of lists, bitmaps, hash tables, strings, sorting and
  formatted output.

  \<^bold>\<open>The shape of the models.\<close>  A routine is a function from its arguments and the state it may touch to
  an option.  The value \<open>None\<close> is the failure of the kernel itself: a failed \<open>ASSERT\<close>, a \<open>PANIC\<close>, a
  processor trap, an access through a bad pointer, and a loop that does not end.  An error the code
  reports to its caller is a value inside of \<open>Some\<close>.  So a theorem that a routine has the value
  \<open>Some r\<close> says that the routine ends, passes its assertions and returns \<open>r\<close>.  Structures of
  C are records, enumerations are datatypes or word constants, fixed-width integers are words of the
  width, with the signed reading written out where the code compares signed numbers.  A \<open>size_t\<close> that
  counts objects in memory is a natural number.  A loop is a recursive function with the name of its
  routine, by structure where a counter bounds it, with a termination proof where a measure does, and
  by \<open>partial_function\<close> where it may run on.  There is no fuel: the theorems on the latter prove that
  they return.

  \<^bold>\<open>Machine level and library.\<close>
  \<^item> \<open>Kernel_Prelude\<close>: the machine types, the outcome type and the shared lemmas.
  \<^item> \<open>Arith64\<close>: \<open>lib/arithmetic.c\<close>, the division of 64-bit numbers with the trapping instruction
    \<open>divl\<close>.  The quotient is right for every nonzero divisor; the remainder is cut to 32 bits.
  \<^item> \<open>Fixed_Point\<close>: \<open>lib/kernel/arith_fp.c\<close>, numbers with 14 fraction bits, rounded to nearest.
  \<^item> \<open>Klist\<close>: \<open>lib/kernel/list.c\<close> on a heap of cells with their two pointers.  \<open>Klist_Refine\<close> relates a
    list in the heap to the sequence of its elements; \<open>Klist_Ops\<close>, \<open>Klist_Splice\<close>, \<open>Natural_Merge\<close> and
    \<open>Klist_Sort\<close> show that every routine computes the function on sequences it stands for,
    up to the in-place merge sort, which is stable.
  \<^item> \<open>Bitmap\<close>: \<open>lib/kernel/bitmap.c\<close>.  \<open>Range_Alloc\<close> is the contract of an allocator of consecutive
    units, a locale that the bitmaps, the page pools and the free map of the disk interpret.
  \<^item> \<open>Khash\<close>, \<open>Khash_Correct\<close>: \<open>lib/kernel/hash.c\<close>, a set with one element of each class.  The locale
    asks for an order and a compatible hash function; the page tables in \<open>Vm_Page\<close> interpret it.
  \<^item> \<open>Kstring\<close>, \<open>Kstring_Correct\<close>: \<open>lib/string.c\<close> on a memory of bytes, in which an access to a byte that
    is not there fails.
  \<^item> \<open>Stdlib\<close>: \<open>lib/stdlib.c\<close>, heap sort and binary search for any comparison that keeps the contract of
    a locale, and \<open>atoi\<close>.  The comparison of integers interprets the locale.
  \<^item> \<open>Stdio\<close>: \<open>lib/stdio.c\<close>, formatted output as the sequence of characters that reach the output
    function.  The buffer of digits never overflows, \<open>vsnprintf\<close> stays inside of its buffer,
    and \<open>atoi\<close> reads back what \<open>%d\<close> printed.

  \<^bold>\<open>Memory.\<close>
  \<^item> \<open>Vaddr\<close>: \<open>threads/vaddr.h\<close> and \<open>threads/pte.h\<close>.
  \<^item> \<open>Palloc\<close>, \<open>Page_Source\<close>: \<open>threads/palloc.c\<close>.  Groups of pages that are handed out do not overlap;
    to its clients the allocator is the source of single pages of a locale.
  \<^item> \<open>Pagedir\<close>, \<open>Pagedir_Correct\<close>, \<open>Address_Spaces\<close>: \<open>userprog/pagedir.c\<close>, directories and tables
    as words in frames.  Installing and clearing a page changes one translation, in one directory,
    with the rights that were asked for, and the TLB is flushed when it could hold the old one.
  \<^item> \<open>Swap\<close>: \<open>vm/swap.c\<close>.  A page that is swapped out comes back unchanged.
  \<^item> \<open>Frame\<close>: \<open>vm/frame.c\<close>, the clock over the resident pages.  The search for a victim ends and gives a
    second chance.  \<open>Vm_Page\<close>: \<open>vm/page.c\<close>, the pages a process may touch.

  \<^bold>\<open>Threads.\<close>
  \<^item> \<open>Interrupt\<close>: \<open>threads/interrupt.c\<close>, the flag, the gates, the handlers and the dispatch.
  \<^item> \<open>Threads\<close>, \<open>Synch\<close>, \<open>Timer\<close>: \<open>threads/thread.c\<close>, \<open>threads/synch.c\<close> and \<open>devices/timer.c\<close> over one record,
    the state of the kernel.  A routine that gives up the processor in its middle leaves what it
    still has to do as work items of its thread, so interleavings are sequences of items.
  \<^item> \<open>Sched_Inv\<close>, \<open>Sched_Ops\<close>, \<open>Sched_Order\<close>: the invariant of the queues, that the operations keep it, the
    order by priority and the order by waking time.
  \<^item> \<open>Kernel_Step\<close>, \<open>Kernel_Create\<close>, \<open>Kernel_Inv\<close>: the kernel as a step relation, with the invariants of all
    reachable states: the scheduler is consistent and a lock has at most one holder.  The locale
    for work of other components is interpreted for the kernel by itself.
  \<^item> \<open>Sleep_Fair\<close>: over a whole execution, a sleeping thread is made ready when its time has come.

  \<^bold>\<open>Files.\<close>
  \<^item> \<open>Block\<close>: \<open>devices/block.c\<close>, devices as sectors of 512 bytes.
  \<^item> \<open>Inode\<close>, \<open>Inode_Correct\<close>: \<open>filesys/inode.c\<close> and \<open>filesys/file.c\<close>.  A file is the sequence of its
    bytes, and reading and writing change exactly the range, in exactly this file.
  \<^item> \<open>Free_Map\<close>: \<open>filesys/free-map.c\<close>.  The map on the disk is the one in memory after every change
    whose write to the map file went through.  That needs memory for the bounce buffer; without it an
    allocation is undone in memory and fails, and a release may reach the disk in part or not at all.
  \<^item> \<open>Directory\<close>, \<open>Directory_Correct\<close>, \<open>Filesys_Correct\<close>: \<open>filesys/directory.c\<close> and \<open>filesys/filesys.c\<close>.  A
    directory is a finite map from names to sectors, and creating an inode takes free sectors and fills
    them with zeros, or fails and leaves the sectors in use alone.

  \<^bold>\<open>Processes.\<close>
  \<^item> \<open>User_Args\<close>, \<open>Process\<close>, \<open>Process_Life\<close>: \<open>userprog/process.c\<close>, from the layout of the arguments on the
    stack and the check of program headers to waiting and exit.  What is left of \<open>process_execute\<close>,
    \<open>start_process\<close>, \<open>process_wait\<close> and \<open>syscall_exec\<close> after they gave up the processor are work items, each
    with a definition of its own.  Waiting for a child blocks until it ends and gives its status once.
  \<^item> \<open>Syscall\<close>, \<open>Exceptions\<close>: \<open>userprog/syscall.c\<close> and \<open>userprog/exception.c\<close>, the handler with every
    call, the page fault and the gates that user code may enter through.

  \<^bold>\<open>Choices.\<close>  The allocation of pages takes the lock of its pool, and the routines on the swap table and
  on the list of resident pages take theirs; these locks are modelled as free, so that a call is one step.
  Freeing pages takes no lock in the source either.  The creation of a thread is one step
  up to its final yield: the lock of the page pool and the lock of the thread identifiers that it takes on
  the way are modelled as free, so what other threads do while it waits for them, or when their release
  yields in a kernel without user programs, is not covered.  The locks of the file system calls are taken when they are free.

  What \<open>malloc\<close> and \<open>calloc\<close> return, and what lies behind a user pointer, are arguments.  The theorems on the
  creation of an inode and on the free map cover the success and the failure of these allocations; those on
  reading and writing a file and on adding to a directory assume that the bounce buffer could be
  allocated.  One argument stands for the bounce buffers of all transfers of a call, so a call in which
  some can be allocated and others cannot is not covered.

  The counters of openers and of denied writers of an inode are unbounded integers.  The number of elements of
  a hash table is a natural number; its invariant keeps it from going below zero.
  The indices of the sort are natural numbers, which agrees with the source for arrays of fewer
  than 2 to the power 31 elements.  A local that the source leaves uninitialised is an argument too, as
  is the result of the path of \<open>is_valid_userptr\<close> that returns nothing.  Signed overflow wraps around, which is what
  the compiler makes of it for the code at hand.  A buffer of \<open>vsnprintf\<close> has at most 2 GB, since
  its length is an \<open>int\<close>, and does not overlap the strings that are printed into it.

  \<^bold>\<open>Not modelled.\<close>
  \<^item> The assembly files \<open>threads/start.S\<close>, \<open>loader.S\<close>, \<open>switch.S\<close> and \<open>intr-stubs.S\<close>, the tables of
    \<open>userprog/gdt.c\<close> and most of \<open>tss.c\<close>: they are below the level of C; the switch and the entry into a
    handler are steps of the kernel.
  \<^item> The drivers \<open>devices/ide.c\<close>, \<open>vga.c\<close>, \<open>serial.c\<close>, \<open>kbd.c\<close>, \<open>pit.c\<close>, \<open>rtc.c\<close>, \<open>speaker.c\<close>, \<open>shutdown.c\<close>
    with the queues of characters behind them: they are accesses to ports.  Partitions are found by reading a disk
    through such a driver.
  \<^item> \<open>threads/malloc.c\<close>: its callers get what it returns as an argument.
  \<^item> \<open>threads/init.c\<close> and \<open>filesys/fsutil.c\<close>: the order of the initialisation and the actions of the command
    line, which print what they do; \<open>lib/ustar.c\<close> serves the latter.
  \<^item> Routines that only print: statistics, dumps of frames and of bitmaps, backtraces and the self test of
    semaphores.
  \<^item> \<open>lib/user\<close>, the examples, the tests and the utilities, which are not part of the kernel.
\<close>

end
